(* ===== verification/Xv6_Prelude.thy ===== *)
theory Xv6_Prelude
  imports Main "HOL-Library.Word"
begin

text \<open>
  Shared vocabulary of the development: the C integer types of \<^verbatim>\<open>kernel/types.h\<close> as words,
  the outcomes a kernel routine can have besides returning (panic, blocking, undefined
  behaviour), the sequencing of such routines, and the generic lemmas on words, lists and
  sequencing that the component theories use.
\<close>

unbundle bit_operations_syntax

section \<open>Machine integers\<close>

type_synonym u8 = "8 word"
type_synonym u16 = "16 word"
type_synonym u32 = "32 word"
type_synonym u64 = "64 word"

section \<open>Outcomes of kernel routines\<close>

text \<open>
  A routine of the kernel returns a value, or it calls \<^verbatim>\<open>panic\<close> with a message, or it would
  sleep or spin for ever in the given state because no other thread of control runs, or it
  performs an access the C language leaves undefined (an index past the end of an array).
\<close>

datatype kerror =
    Panic string
  | Blocks string
  | Undefined string

type_synonym 'a res = "kerror + 'a"

definition rbind :: "'a res \<Rightarrow> ('a \<Rightarrow> 'b res) \<Rightarrow> 'b res" where
  "rbind m f = (case m of Inl e \<Rightarrow> Inl e | Inr x \<Rightarrow> f x)"

definition assert_or :: "bool \<Rightarrow> kerror \<Rightarrow> unit res" where
  "assert_or b e = (if b then Inr () else Inl e)"

lemma rbind_Inl [simp]: "rbind (Inl e) f = Inl e"
  by (simp add: rbind_def)

lemma rbind_Inr [simp]: "rbind (Inr x) f = f x"
  by (simp add: rbind_def)

lemma rbind_assoc: "rbind (rbind m f) g = rbind m (\<lambda>x. rbind (f x) g)"
  by (cases m) simp_all

lemma rbind_eq_Inr: "rbind m f = Inr y \<longleftrightarrow> (\<exists>x. m = Inr x \<and> f x = Inr y)"
  by (cases m) simp_all

lemma rbind_pairE:
  assumes "rbind m (\<lambda>(x, y). f x y) = Inr z"
  obtains x y where "m = Inr (x, y)" and "f x y = Inr z"
  using assms by (auto simp: rbind_eq_Inr)

lemma rbind_cong [fundef_cong]:
  "m = m' \<Longrightarrow> (\<And>x. m' = Inr x \<Longrightarrow> f x = g x) \<Longrightarrow> rbind m f = rbind m' g"
  by (cases m') simp_all

lemma rbind_InrE:
  assumes "rbind m f = Inr y"
  obtains x where "m = Inr x" and "f x = Inr y"
  using assms by (auto simp: rbind_eq_Inr)

lemma assert_or_eq_Inr [simp]: "assert_or b e = Inr u \<longleftrightarrow> b"
  by (simp add: assert_or_def)

lemma assert_or_True [simp]: "assert_or True e = Inr ()"
  by (simp add: assert_or_def)

lemma assert_or_False [simp]: "assert_or False e = Inl e"
  by (simp add: assert_or_def)

text \<open>A counted loop whose body may fail: the body runs on the elements in turn and the first failure
  ends the loop.\<close>

fun rfold :: "('a \<Rightarrow> 's \<Rightarrow> 's res) \<Rightarrow> 'a list \<Rightarrow> 's \<Rightarrow> 's res" where
  "rfold f [] s = Inr s"
| "rfold f (x # xs) s = rbind (f x s) (rfold f xs)"

lemma rfold_append: "rfold f (xs @ ys) s = rbind (rfold f xs s) (rfold f ys)"
  by (induction xs arbitrary: s) (simp_all add: rbind_assoc cong: rbind_cong)

lemma rfold_invariant:
  assumes "I [] s" and "\<And>ys y zs s. xs = ys @ y # zs \<Longrightarrow> I ys s \<Longrightarrow> \<exists>s'. f y s = Inr s' \<and> I (ys @ [y]) s'"
  shows "\<exists>s'. rfold f xs s = Inr s' \<and> I xs s'"
  using assms
proof (induction xs rule: rev_induct)
  case (snoc x xs)
  have "\<exists>s'. rfold f xs s = Inr s' \<and> I xs s'"
    using snoc.prems(1) by (rule snoc.IH) (rule snoc.prems(2), simp)
  then obtain s1 where s1: "rfold f xs s = Inr s1" "I xs s1" by blast
  then obtain s2 where "f x s1 = Inr s2" "I (xs @ [x]) s2" using snoc.prems(2) [of xs x "[]"] by auto
  with s1(1) show ?case by (simp add: rfold_append)
qed simp

section \<open>Words\<close>

lemma unat_plus_one_noteq:
  fixes x :: "'a::len word"
  assumes "Suc (unat x) < 2 ^ LENGTH('a)"
  shows "unat (x + 1) = Suc (unat x)"
  using assms by (simp add: unat_word_ariths)

lemma unat_of_nat_small: "n < 2 ^ LENGTH('a) \<Longrightarrow> unat (of_nat n :: 'a::len word) = n"
  by (simp add: unat_of_nat take_bit_nat_eq_self)

lemma uint_eq_iff: "uint a = uint b \<longleftrightarrow> a = b"
  by (simp add: word_uint_eq_iff)

lemma uint_zero_iff: "uint a = 0 \<longleftrightarrow> a = 0"
  by (metis uint_eq_iff unsigned_0)

lemma word_diff_Suc:
  fixes r w :: "'a::len word"
  assumes "r \<noteq> w"
  shows "unat (w - r) = Suc (unat (w - (r + 1)))"
proof -
  have "w - r \<noteq> 0" using assms by simp
  then have "unat (w - r) = Suc (unat (w - r - 1))"
    by (metis Suc_pred' unat_gt_0 unat_minus_one)
  then show ?thesis by (simp add: algebra_simps)
qed

section \<open>Quotients and digits\<close>

lemma div_eq_iff_range:
  fixes x k n :: nat
  assumes "0 < n"
  shows "x div n = k \<longleftrightarrow> n * k \<le> x \<and> x < n * k + n"
  using assms
  by (metis add.commute div_nat_eqI dividend_less_times_div mult.commute mult_Suc times_div_less_eq_dividend)

lemma digit_eq_iff:
  fixes p q i j n :: nat
  assumes "i < n" and "j < n"
  shows "n * p + i = n * q + j \<longleftrightarrow> p = q \<and> i = j"
proof
  assume eq: "n * p + i = n * q + j"
  then have "(n * p + i) div n = (n * q + j) div n" "(n * p + i) mod n = (n * q + j) mod n" by simp_all
  then show "p = q \<and> i = j" using assms by simp
qed simp

text \<open>The C \<^verbatim>\<open>int\<close> that a 32-bit word holds.\<close>

lemma sint32: "sint (x :: u32) = (if uint x < 2 ^ 31 then uint x else uint x - 2 ^ 32)"
proof -
  have "sint x = (uint x + 2 ^ 31) mod 2 ^ 32 - 2 ^ 31"
    by (simp add: sint_uint signed_take_bit_eq_take_bit_shift take_bit_eq_mod)
  moreover have "0 \<le> uint x" "uint x < 2 ^ 32" using uint_bounded [of x] by simp_all
  moreover have "(uint x + 2 ^ 31) mod 2 ^ 32 = uint x - 2 ^ 31" if "\<not> uint x < 2 ^ 31"
  proof -
    have "(uint x + 2 ^ 31) mod 2 ^ 32 = (uint x - 2 ^ 31 + 2 ^ 32) mod 2 ^ 32" by (simp add: add.commute)
    also have "\<dots> = uint x - 2 ^ 31"
      unfolding mod_add_self2 using that uint_bounded [of x] by (intro mod_pos_pos_trivial) simp_all
    finally show ?thesis .
  qed
  ultimately show ?thesis by auto
qed

lemma sint32_range: "- (2 ^ 31) \<le> sint (x :: u32)" "sint x < 2 ^ 31"
proof -
  have "0 \<le> uint x" "uint x < 2 ^ 32" using uint_bounded [of x] by simp_all
  then show "- (2 ^ 31) \<le> sint x" and "sint x < 2 ^ 31" unfolding sint32 by (simp_all, linarith)
qed

end
