(* ===== verification/KString.thy ===== *)
theory KString
  imports Xv6_Prelude
begin

text \<open>
  Memory and the string routines of \<^verbatim>\<open>kernel/string.c\<close>. The kernel runs with physical memory mapped
  at its own addresses, so memory is one function from 64-bit addresses to bytes. The routines
  are the loops of the C text over that function; sizes are naturals. The lemmas give each of
  them its meaning: \<^verbatim>\<open>memset\<close> fills a range, \<^verbatim>\<open>memmove\<close> copies a range whatever the overlap, the
  copying routines stay inside their destination and terminate it as they promise.
\<close>

section \<open>Routines\<close>

type_synonym mem = "u64 \<Rightarrow> u8"

function memset_loop :: "mem \<Rightarrow> u64 \<Rightarrow> u8 \<Rightarrow> nat \<Rightarrow> nat \<Rightarrow> mem" where
  "memset_loop m dst c i n =
     (if i < n then memset_loop (m(dst + of_nat i := c)) dst c (Suc i) n else m)"
  by pat_completeness auto
termination
  by (relation "measure (\<lambda>(m, dst, c, i, n). n - i)") auto

definition memset :: "mem \<Rightarrow> u64 \<Rightarrow> u8 \<Rightarrow> nat \<Rightarrow> mem" where
  "memset m dst c n = memset_loop m dst c 0 n"

fun memcmp :: "mem \<Rightarrow> u64 \<Rightarrow> u64 \<Rightarrow> nat \<Rightarrow> int" where
  "memcmp m s1 s2 0 = 0"
| "memcmp m s1 s2 (Suc n) =
     (if m s1 \<noteq> m s2 then uint (m s1) - uint (m s2) else memcmp m (s1 + 1) (s2 + 1) n)"

fun copy_backward :: "mem \<Rightarrow> u64 \<Rightarrow> u64 \<Rightarrow> nat \<Rightarrow> mem" where
  "copy_backward m d s 0 = m"
| "copy_backward m d s (Suc n) = copy_backward (m(d - 1 := m (s - 1))) (d - 1) (s - 1) n"

fun copy_forward :: "mem \<Rightarrow> u64 \<Rightarrow> u64 \<Rightarrow> nat \<Rightarrow> mem" where
  "copy_forward m d s 0 = m"
| "copy_forward m d s (Suc n) = copy_forward (m(d := m s)) (d + 1) (s + 1) n"

definition memmove :: "mem \<Rightarrow> u64 \<Rightarrow> u64 \<Rightarrow> nat \<Rightarrow> mem" where
  "memmove m dst src n =
     (if n = 0 then m
      else if src < dst \<and> src + of_nat n > dst
      then copy_backward m (dst + of_nat n) (src + of_nat n) n
      else copy_forward m dst src n)"

definition memcpy :: "mem \<Rightarrow> u64 \<Rightarrow> u64 \<Rightarrow> nat \<Rightarrow> mem" where
  "memcpy m dst src n = memmove m dst src n"

fun strncmp :: "mem \<Rightarrow> u64 \<Rightarrow> u64 \<Rightarrow> nat \<Rightarrow> int" where
  "strncmp m p q 0 = 0"
| "strncmp m p q (Suc n) =
     (if m p \<noteq> 0 \<and> m p = m q then strncmp m (p + 1) (q + 1) n
      else uint (m p) - uint (m q))"

fun strncpy_pad :: "mem \<Rightarrow> u64 \<Rightarrow> nat \<Rightarrow> mem" where
  "strncpy_pad m s 0 = m"
| "strncpy_pad m s (Suc n) = strncpy_pad (m(s := 0)) (s + 1) n"

fun strncpy :: "mem \<Rightarrow> u64 \<Rightarrow> u64 \<Rightarrow> nat \<Rightarrow> mem" where
  "strncpy m s t 0 = m"
| "strncpy m s t (Suc n) =
     (let c = m t; m1 = m(s := c)
      in if c \<noteq> 0 then strncpy m1 (s + 1) (t + 1) n else strncpy_pad m1 (s + 1) n)"

text \<open>In \<^verbatim>\<open>safestrcpy\<close> the loop test decrements first, so a count of one only stores the terminator.\<close>

fun safestrcpy :: "mem \<Rightarrow> u64 \<Rightarrow> u64 \<Rightarrow> nat \<Rightarrow> mem" where
  "safestrcpy m s t 0 = m"
| "safestrcpy m s t (Suc 0) = m(s := 0)"
| "safestrcpy m s t (Suc (Suc n)) =
     (let c = m t; m1 = m(s := c)
      in if c \<noteq> 0 then safestrcpy m1 (s + 1) (t + 1) (Suc n) else m1(s + 1 := 0))"

text \<open>\<^verbatim>\<open>strlen\<close> does not return on a memory without a zero byte: then the result is \<open>None\<close>.\<close>

partial_function (option) strlen_from :: "mem \<Rightarrow> u64 \<Rightarrow> nat \<Rightarrow> nat option" where
  "strlen_from m s n = (if m (s + of_nat n) = 0 then Some n else strlen_from m s (Suc n))"

definition strlen :: "mem \<Rightarrow> u64 \<Rightarrow> nat option" where
  "strlen m s = strlen_from m s 0"

declare memset_loop.simps [simp del]

section \<open>Ranges of addresses\<close>

text \<open>\<open>a\<close> lies among the \<open>n\<close> addresses from \<open>base\<close> on; the addresses may wrap around.\<close>

definition in_range :: "u64 \<Rightarrow> u64 \<Rightarrow> nat \<Rightarrow> bool" where
  "in_range a base n \<longleftrightarrow> unat (a - base) < n"

lemma in_range_0 [simp]: "\<not> in_range a base 0"
  by (simp add: in_range_def)

lemma in_range_Suc_start:
  assumes "n < 2 ^ 64"
  shows "in_range a base (Suc n) \<longleftrightarrow> a = base \<or> in_range a (base + 1) n"
proof (cases "a = base")
  case True
  then show ?thesis by (simp add: in_range_def)
next
  case False
  then have "unat (a - base) = Suc (unat (a - (base + 1)))"
    by (intro word_diff_Suc) auto
  with False show ?thesis by (simp add: in_range_def)
qed

lemma not_in_range_before:
  assumes "n < 2 ^ 64"
  shows "\<not> in_range base (base + 1) n"
proof -
  have "unat (base - (base + 1)) = 2 ^ 64 - 1" by (simp add: unsigned_minus_1_eq_mask mask_eq_exp_minus_1)
  with assms show ?thesis by (simp add: in_range_def)
qed

lemma addr_offset_iff:
  fixes a base :: u64
  assumes "n < 2 ^ 64"
  shows "a = base + of_nat n \<longleftrightarrow> unat (a - base) = n"
proof -
  have "a = base + of_nat n \<longleftrightarrow> a - base = of_nat n"
    by (auto simp: algebra_simps)
  also have "\<dots> \<longleftrightarrow> unat (a - base) = n"
    using assms by (simp add: word_unat_eq_iff unat_of_nat_small)
  finally show ?thesis .
qed

lemma in_range_Suc_end:
  assumes "n < 2 ^ 64"
  shows "in_range a base (Suc n) \<longleftrightarrow> in_range a base n \<or> a = base + of_nat n"
  using assms by (auto simp: in_range_def addr_offset_iff)

section \<open>What the routines compute\<close>

lemma memset_loop_eq:
  assumes "n \<le> 2 ^ 64" and "i \<le> n"
  shows "memset_loop m dst c i n = (\<lambda>a. if in_range a dst n \<and> \<not> in_range a dst i then c else m a)"
  using assms(2)
proof (induction "n - i" arbitrary: i m)
  case 0
  then show ?case by (simp add: memset_loop.simps)
next
  case (Suc k)
  then have i: "i < n" "i < 2 ^ 64" using assms(1) by auto
  have "memset_loop m dst c i n = memset_loop (m(dst + of_nat i := c)) dst c (Suc i) n"
    using i by (simp add: memset_loop.simps [of m dst c i])
  also have "\<dots> = (\<lambda>a. if in_range a dst n \<and> \<not> in_range a dst (Suc i) then c
                       else (m(dst + of_nat i := c)) a)"
    using Suc i by (intro Suc.hyps(1)) auto
  finally show ?case
    using i by (auto simp: fun_eq_iff in_range_def addr_offset_iff)
qed

lemma memset_eq:
  assumes "n \<le> 2 ^ 64"
  shows "memset m dst c n = (\<lambda>a. if in_range a dst n then c else m a)"
  using memset_loop_eq [OF assms, of 0] by (simp add: memset_def)

text \<open>Copying forwards is right when the destination does not start inside the rest of the source,
  copying backwards when the source does not start inside the destination.\<close>

lemma copy_forward_eq:
  assumes "n \<le> 2 ^ 64" and "unat (d - s) = 0 \<or> n \<le> unat (d - s)"
  shows "copy_forward m d s n = (\<lambda>a. if in_range a d n then m (s + (a - d)) else m a)"
  using assms
proof (induction n arbitrary: m d s)
  case 0
  then show ?case by simp
next
  case (Suc n)
  have n: "n < 2 ^ 64" using Suc.prems(1) by simp
  have diff: "d + 1 - (s + 1) = d - s" by simp
  have IH: "copy_forward (m(d := m s)) (d + 1) (s + 1) n =
      (\<lambda>a. if in_range a (d + 1) n then (m(d := m s)) (s + 1 + (a - (d + 1))) else (m(d := m s)) a)"
    using Suc.prems by (intro Suc.IH) auto
  have shift: "s + 1 + (a - (d + 1)) = s + (a - d)" for a :: u64
    by simp
  have fresh: "s + (a - d) \<noteq> d \<or> s = d" if "in_range a (d + 1) n" for a
  proof (rule ccontr)
    assume neg: "\<not> (s + (a - d) \<noteq> d \<or> s = d)"
    then have "a - d = d - s" "a \<noteq> d" by (auto simp: algebra_simps)
    then have "unat (d - s) = Suc (unat (a - (d + 1)))"
      using word_diff_Suc [of d a] by simp
    with that Suc.prems(2) show False by (simp add: in_range_def)
  qed
  show ?case
  proof
    fix a
    show "copy_forward m d s (Suc n) a = (if in_range a d (Suc n) then m (s + (a - d)) else m a)"
      using fresh [of a] not_in_range_before [OF n, of d]
      unfolding copy_forward.simps IH in_range_Suc_start [OF n] shift by auto
  qed
qed

lemma copy_backward_eq:
  assumes "n \<le> 2 ^ 64" and "unat (s - d) = 0 \<or> n \<le> unat (s - d)"
  shows "copy_backward m (d + of_nat n) (s + of_nat n) n =
           (\<lambda>a. if in_range a d n then m (s + (a - d)) else m a)"
  using assms
proof (induction n arbitrary: m)
  case 0
  then show ?case by simp
next
  case (Suc n)
  have n: "n < 2 ^ 64" using Suc.prems(1) by simp
  let ?m1 = "m(d + of_nat n := m (s + of_nat n))"
  have step: "copy_backward m (d + of_nat (Suc n)) (s + of_nat (Suc n)) (Suc n)
      = copy_backward ?m1 (d + of_nat n) (s + of_nat n) n"
    by (simp add: algebra_simps)
  have IH: "copy_backward ?m1 (d + of_nat n) (s + of_nat n) n =
      (\<lambda>a. if in_range a d n then ?m1 (s + (a - d)) else ?m1 a)"
    using Suc.prems by (intro Suc.IH) auto
  have fresh: "s + (a - d) \<noteq> d + of_nat n \<or> s = d" if "in_range a d n" for a
  proof (rule ccontr)
    assume neg: "\<not> (s + (a - d) \<noteq> d + of_nat n \<or> s = d)"
    then have eq: "s - d = of_nat n - (a - d)" by (auto simp: algebra_simps)
    have "unat (a - d) \<le> unat (of_nat n :: u64)"
      using that n by (simp add: in_range_def unat_of_nat_small)
    then have "unat (s - d) = n - unat (a - d)"
      using n unfolding eq by (simp add: unat_sub word_le_nat_alt unat_of_nat_small)
    with Suc.prems(2) neg show False by (auto simp: unat_eq_0)
  qed
  show ?case
  proof
    fix a
    show "copy_backward m (d + of_nat (Suc n)) (s + of_nat (Suc n)) (Suc n) a
        = (if in_range a d (Suc n) then m (s + (a - d)) else m a)"
      using fresh [of a] unfolding step IH in_range_Suc_end [OF n]
      by (auto simp: in_range_def unat_of_nat_small [of n, where 'a = 64, simplified, OF n [simplified]])
  qed
qed

text \<open>\<^verbatim>\<open>memmove\<close> chooses the direction that is right: for ranges that do not wrap around the address
  space the destination ends up holding what the source held before, whatever the overlap.\<close>

lemma memmove_eq:
  assumes src: "unat src + n < 2 ^ 64" and dst: "unat dst + n < 2 ^ 64"
  shows "memmove m dst src n = (\<lambda>a. if in_range a dst n then m (src + (a - dst)) else m a)"
proof (cases "src < dst \<and> src + of_nat n > dst")
  case True
  have n: "n < 2 ^ 64" using src by simp
  have "unat (src - dst) = 2 ^ 64 - (unat dst - unat src)"
    using True by (simp add: unat_sub_if' word_less_nat_alt)
  then have "n \<le> unat (src - dst)"
    using dst src by simp
  with True n show ?thesis
    by (simp add: memmove_def copy_backward_eq less_imp_le)
next
  case False
  have n: "n < 2 ^ 64" using src by simp
  have "unat (dst - src) = 0 \<or> n \<le> unat (dst - src)"
  proof (cases "src < dst")
    case True
    with False have "unat (src + of_nat n) \<le> unat dst"
      by (simp add: word_less_nat_alt not_less)
    moreover have "unat (src + of_nat n) = unat src + n"
      using src n by (simp add: unat_word_ariths unat_of_nat_small)
    ultimately show ?thesis
      using True by (simp add: unat_sub_if' word_less_nat_alt)
  next
    case ge: False
    show ?thesis
    proof (cases "src = dst")
      case True
      then show ?thesis by simp
    next
      case False
      with ge have "unat dst < unat src"
        by (simp add: word_less_nat_alt not_less) (metis le_neq_implies_less word_unat_eq_iff)
      then have "unat (dst - src) = 2 ^ 64 - (unat src - unat dst)"
        by (simp add: unat_sub_if')
      then show ?thesis using src by linarith
    qed
  qed
  with False n show ?thesis
    by (auto simp: memmove_def copy_forward_eq less_imp_le)
qed

text \<open>The bytes of the string at \<open>p\<close>, up to its terminator or at most \<open>n\<close> of them.\<close>

definition bytes_at :: "mem \<Rightarrow> u64 \<Rightarrow> nat \<Rightarrow> u8 list" where
  "bytes_at m p n = map (\<lambda>i. m (p + of_nat i)) [0..<n]"

definition cstr_upto :: "mem \<Rightarrow> u64 \<Rightarrow> nat \<Rightarrow> u8 list" where
  "cstr_upto m p n = takeWhile (\<lambda>c. c \<noteq> 0) (bytes_at m p n)"

lemma bytes_at_0 [simp]: "bytes_at m p 0 = []"
  by (simp add: bytes_at_def)

lemma length_bytes_at [simp]: "length (bytes_at m p n) = n"
  by (simp add: bytes_at_def)

lemma nth_bytes_at [simp]: "i < n \<Longrightarrow> bytes_at m p n ! i = m (p + of_nat i)"
  by (simp add: bytes_at_def)

lemma bytes_at_Suc: "bytes_at m p (Suc n) = m p # bytes_at m (p + 1) n"
  by (simp add: bytes_at_def upt_conv_Cons map_Suc_upt [symmetric] o_def algebra_simps
      del: upt_Suc map_Suc_upt)

lemma cstr_upto_simps [simp]:
  "cstr_upto m p 0 = []"
  "cstr_upto m p (Suc n) = (if m p = 0 then [] else m p # cstr_upto m (p + 1) n)"
  by (simp_all add: cstr_upto_def bytes_at_Suc)

lemma strncmp_zero_iff: "strncmp m p q n = 0 \<longleftrightarrow> cstr_upto m p n = cstr_upto m q n"
  by (induction m p q n rule: strncmp.induct) (auto simp: uint_eq_iff uint_zero_iff)

lemma memcmp_zero_iff: "memcmp m p q n = 0 \<longleftrightarrow> bytes_at m p n = bytes_at m q n"
  by (induction m p q n rule: memcmp.induct) (auto simp: bytes_at_Suc uint_eq_iff)

lemma strlen_from_found:
  assumes "m (s + of_nat k) = 0" and "\<And>j. i \<le> j \<Longrightarrow> j < k \<Longrightarrow> m (s + of_nat j) \<noteq> 0" and "i \<le> k"
  shows "strlen_from m s i = Some k"
  using assms(2,3)
proof (induction "k - i" arbitrary: i)
  case 0
  then show ?case using assms(1) by (simp add: strlen_from.simps)
next
  case (Suc d)
  then have "strlen_from m s i = strlen_from m s (Suc i)"
    by (simp add: strlen_from.simps [of m s i])
  also have "\<dots> = Some k" using Suc by (intro Suc.hyps(1)) auto
  finally show ?case .
qed

lemma strlen_Some:
  assumes "m (s + of_nat k) = 0" and "\<And>j. j < k \<Longrightarrow> m (s + of_nat j) \<noteq> 0"
  shows "strlen m s = Some k"
  using strlen_from_found [of m s k 0] assms by (simp add: strlen_def)

text \<open>\<^verbatim>\<open>strncpy\<close> and \<^verbatim>\<open>safestrcpy\<close> write inside their destination only; \<^verbatim>\<open>safestrcpy\<close> always leaves a
  terminator there.\<close>

lemma strncpy_pad_eq:
  "n \<le> 2 ^ 64 \<Longrightarrow> strncpy_pad m s n = (\<lambda>a. if in_range a s n then 0 else m a)"
proof (induction m s n rule: strncpy_pad.induct)
  case (2 m s n)
  then have n: "n < 2 ^ 64" by simp
  with 2 show ?case
    by (auto simp: fun_eq_iff in_range_Suc_start [OF n] simp del: fun_upd_apply) (simp_all)
qed simp

lemma strncpy_frame:
  "n \<le> 2 ^ 64 \<Longrightarrow> \<not> in_range a s n \<Longrightarrow> strncpy m s t n a = m a"
proof (induction n arbitrary: m s t)
  case (Suc n)
  then have n: "n < 2 ^ 64" by simp
  have "a \<noteq> s" "\<not> in_range a (s + 1) n"
    using Suc.prems(2) by (simp_all add: in_range_Suc_start [OF n])
  with Suc.IH n show ?case by (simp add: Let_def strncpy_pad_eq)
qed simp

lemma safestrcpy_frame:
  "n \<le> 2 ^ 64 \<Longrightarrow> \<not> in_range a s n \<Longrightarrow> safestrcpy m s t n a = m a"
proof (induction m s t n rule: safestrcpy.induct)
  case (3 m s t n)
  then have n: "Suc n < 2 ^ 64" "n < 2 ^ 64" by simp_all
  have "a \<noteq> s" "a \<noteq> s + 1" "\<not> in_range a (s + 1) (Suc n)"
    using "3.prems"(2) by (simp_all add: in_range_Suc_start [OF n(1)] in_range_Suc_start [OF n(2)])
  with "3.IH" [OF refl refl] n show ?case by (simp add: Let_def fun_upd_def)
qed (auto simp: in_range_def)

lemma safestrcpy_terminates:
  "0 < n \<Longrightarrow> \<exists>j<n. safestrcpy m s t n (s + of_nat j) = 0"
proof (induction m s t n rule: safestrcpy.induct)
  case (3 m s t n)
  show ?case
  proof (cases "m t = 0")
    case True
    then show ?thesis by (intro exI [of _ 1]) simp
  next
    case False
    with "3.IH" [OF refl refl] obtain j where "j < Suc n"
      "safestrcpy (m(s := m t)) (s + 1) (t + 1) (Suc n) (s + 1 + of_nat j) = 0"
      by (auto simp: fun_upd_def)
    with False show ?thesis by (intro exI [of _ "Suc j"]) (simp add: Let_def add.assoc)
  qed
qed auto

section \<open>Properties\<close>

text \<open>C16. \<^verbatim>\<open>memmove\<close> of \<open>n\<close> bytes leaves the bytes the source held before at the destination, whatever
  the overlap of the two ranges, and changes no other byte.\<close>

theorem memmove_copies:
  assumes "unat src + n < 2 ^ 64" and "unat dst + n < 2 ^ 64"
  shows "bytes_at (memmove m dst src n) dst n = bytes_at m src n
         \<and> (\<forall>a. n \<le> unat (a - dst) \<longrightarrow> memmove m dst src n a = m a)"
proof -
  have "memmove m dst src n (dst + of_nat i) = m (src + of_nat i)" if "i < n" for i
    using that assms by (simp add: memmove_eq in_range_def unat_of_nat_small)
  then have "bytes_at (memmove m dst src n) dst n = bytes_at m src n"
    by (auto intro: nth_equalityI)
  then show ?thesis using assms by (simp add: memmove_eq in_range_def)
qed

theorem memmove_copies_witness:
  "bytes_at (memmove (\<lambda>a. ucast a) 1002 1000 4) 1002 4 = bytes_at (\<lambda>a. ucast a) 1000 4
   \<and> memmove (\<lambda>a. ucast a) 1002 1000 4 1006 = ucast (1006 :: u64)"
  using memmove_copies [of 1000 4 1002 "\<lambda>a. ucast a"] by simp

end
