(* ===== verification/Riscv.thy ===== *)
theory Riscv
  imports KString
begin

text \<open>
  The machine-level vocabulary: the page and page-table-entry macros of \<^verbatim>\<open>kernel/riscv.h\<close>, the memory
  map of \<^verbatim>\<open>kernel/memlayout.h\<close>, and little-endian loads and stores of words in byte memory. The
  lemmas relate the bit manipulation of the macros to arithmetic and show the PTE encoding to be
  a round trip.
\<close>

section \<open>Pages\<close>

definition PGSIZE :: u64 where "PGSIZE = 4096"
definition PGSHIFT :: nat where "PGSHIFT = 12"

definition PGROUNDUP :: "u64 \<Rightarrow> u64" where
  "PGROUNDUP sz = (sz + PGSIZE - 1) AND NOT (PGSIZE - 1)"

definition PGROUNDDOWN :: "u64 \<Rightarrow> u64" where
  "PGROUNDDOWN a = a AND NOT (PGSIZE - 1)"

definition PTE_V :: u64 where "PTE_V = push_bit 0 1"
definition PTE_R :: u64 where "PTE_R = push_bit 1 1"
definition PTE_W :: u64 where "PTE_W = push_bit 2 1"
definition PTE_X :: u64 where "PTE_X = push_bit 3 1"
definition PTE_U :: u64 where "PTE_U = push_bit 4 1"

definition PA2PTE :: "u64 \<Rightarrow> u64" where
  "PA2PTE pa = push_bit 10 (drop_bit 12 pa)"

definition PTE2PA :: "u64 \<Rightarrow> u64" where
  "PTE2PA pte = push_bit 12 (drop_bit 10 pte)"

definition PTE_FLAGS :: "u64 \<Rightarrow> u64" where
  "PTE_FLAGS pte = pte AND 0x3FF"

definition PXMASK :: u64 where "PXMASK = 0x1FF"

definition PXSHIFT :: "nat \<Rightarrow> nat" where
  "PXSHIFT level = PGSHIFT + 9 * level"

definition PX :: "nat \<Rightarrow> u64 \<Rightarrow> u64" where
  "PX level va = drop_bit (PXSHIFT level) va AND PXMASK"

definition MAXVA :: u64 where
  "MAXVA = push_bit (9 + 9 + 9 + 12 - 1) 1"

definition SATP_SV39 :: u64 where "SATP_SV39 = push_bit 60 8"

definition MAKE_SATP :: "u64 \<Rightarrow> u64" where
  "MAKE_SATP pagetable = SATP_SV39 OR drop_bit 12 pagetable"

section \<open>Memory map\<close>

definition KERNBASE :: u64 where "KERNBASE = 0x80000000"
definition PHYSTOP :: u64 where "PHYSTOP = KERNBASE + 128 * 1024 * 1024"
definition TRAMPOLINE :: u64 where "TRAMPOLINE = MAXVA - PGSIZE"
definition TRAPFRAME :: u64 where "TRAPFRAME = TRAMPOLINE - PGSIZE"

definition KSTACK :: "nat \<Rightarrow> u64" where
  "KSTACK p = TRAMPOLINE - (of_nat p + 1) * 2 * PGSIZE"

lemmas page_consts = PGSIZE_def PGSHIFT_def PTE_V_def PTE_R_def PTE_W_def PTE_X_def PTE_U_def
  PXMASK_def PXSHIFT_def MAXVA_def KERNBASE_def PHYSTOP_def TRAMPOLINE_def TRAPFRAME_def

section \<open>Words in byte memory\<close>

fun load_bytes :: "mem \<Rightarrow> u64 \<Rightarrow> nat \<Rightarrow> u64" where
  "load_bytes m a 0 = 0"
| "load_bytes m a (Suc k) = ucast (m a) OR push_bit 8 (load_bytes m (a + 1) k)"

fun store_bytes :: "mem \<Rightarrow> u64 \<Rightarrow> u64 \<Rightarrow> nat \<Rightarrow> mem" where
  "store_bytes m a v 0 = m"
| "store_bytes m a v (Suc k) = store_bytes (m(a := ucast v)) (a + 1) (drop_bit 8 v) k"

definition load64 :: "mem \<Rightarrow> u64 \<Rightarrow> u64" where
  "load64 m a = load_bytes m a 8"

definition store64 :: "mem \<Rightarrow> u64 \<Rightarrow> u64 \<Rightarrow> mem" where
  "store64 m a v = store_bytes m a v 8"

lemma store_bytes_frame:
  "k < 2 ^ 64 \<Longrightarrow> \<not> in_range b a k \<Longrightarrow> store_bytes m a v k b = m b"
proof (induction k arbitrary: m a v)
  case (Suc k)
  then have k: "k < 2 ^ 64" by simp
  from Suc show ?case by (simp add: in_range_Suc_start [OF k])
qed simp

lemma load_bytes_cong:
  "k < 2 ^ 64 \<Longrightarrow> (\<And>b. in_range b a k \<Longrightarrow> m b = m' b) \<Longrightarrow> load_bytes m a k = load_bytes m' a k"
proof (induction k arbitrary: a)
  case (Suc k)
  then have k: "k < 2 ^ 64" by simp
  have "load_bytes m (a + 1) k = load_bytes m' (a + 1) k"
    using Suc.prems(2) k by (intro Suc.IH) (auto simp: in_range_Suc_start [OF k])
  moreover have "m a = m' a" using Suc.prems(2) by (simp add: in_range_def)
  ultimately show ?case by simp
qed simp

lemma byte_split:
  fixes v :: u64
  shows "ucast (ucast v :: u8) OR push_bit 8 (take_bit (8 * k) (drop_bit 8 v)) = take_bit (8 * Suc k) v"
  by (rule bit_word_eqI) (auto simp: bit_simps)

lemma load_store_bytes:
  "k < 2 ^ 64 \<Longrightarrow> load_bytes (store_bytes m a v k) a k = take_bit (8 * k) v"
proof (induction k arbitrary: m a v)
  case (Suc k)
  then have k: "k < 2 ^ 64" by simp
  let ?m' = "store_bytes (m(a := ucast v)) (a + 1) (drop_bit 8 v) k"
  have "?m' a = ucast v"
    using store_bytes_frame [OF k not_in_range_before [OF k]] by simp
  moreover have "load_bytes ?m' (a + 1) k = take_bit (8 * k) (drop_bit 8 v)"
    by (rule Suc.IH [OF k])
  ultimately show ?case
    using byte_split [of v k] by simp
qed simp

lemma load64_store64 [simp]: "load64 (store64 m a v) a = v"
  by (simp add: load64_def store64_def load_store_bytes take_bit_word_eq_self)

lemma store64_frame: "\<not> in_range b a 8 \<Longrightarrow> store64 m a v b = m b"
  by (simp add: store64_def store_bytes_frame)

lemma load64_cong: "(\<And>b. in_range b a 8 \<Longrightarrow> m b = m' b) \<Longrightarrow> load64 m a = load64 m' a"
  unfolding load64_def by (rule load_bytes_cong) auto

section \<open>The PTE encoding\<close>

lemma PTE2PA_PA2PTE:
  assumes "take_bit 12 pa = 0" and "take_bit 10 flags = flags"
  shows "PTE2PA (PA2PTE pa OR flags) = pa"
proof (rule bit_word_eqI)
  fix n assume n: "n < LENGTH(64)"
  have low: "\<not> bit pa n" if "n < 12" for n
    using arg_cong [OF assms(1), of "\<lambda>w. bit w n"] that by (simp add: bit_take_bit_iff)
  have high: "\<not> bit flags n" if "10 \<le> n" for n
    using assms(2) that by (metis bit_take_bit_iff not_less)
  show "bit (PTE2PA (PA2PTE pa OR flags)) n = bit pa n"
  proof (cases "n < 12")
    case True
    with low show ?thesis by (simp add: PTE2PA_def bit_simps)
  next
    case False
    with n high [of "10 + (n - 12)"] show ?thesis
      by (auto simp: PTE2PA_def PA2PTE_def bit_simps)
  qed
qed

lemma PTE_FLAGS_PA2PTE:
  assumes "take_bit 10 flags = flags"
  shows "PTE_FLAGS (PA2PTE pa OR flags) = flags"
proof -
  have mask: "(0x3FF :: u64) = mask 10" by (simp add: mask_eq_exp_minus_1)
  have "take_bit 10 (PA2PTE pa OR flags) = take_bit 10 flags"
    by (rule bit_word_eqI) (auto simp: PA2PTE_def bit_simps)
  with assms show ?thesis by (simp add: PTE_FLAGS_def mask take_bit_eq_mask [symmetric])
qed

section \<open>Rounding and page-table indices as arithmetic\<close>

definition page_aligned :: "u64 \<Rightarrow> bool" where
  "page_aligned a \<longleftrightarrow> unat a mod 4096 = 0"

lemma take_bit_unat: "take_bit 64 (unat (a :: u64)) = unat a"
  using unsigned_less [of a] by (intro take_bit_nat_eq_self) simp

lemma unat_PGROUNDDOWN: "unat (PGROUNDDOWN a) = unat a div 4096 * 4096"
proof -
  have "(PGSIZE - 1 :: u64) = mask 12" by (simp add: PGSIZE_def mask_eq_exp_minus_1)
  then have "PGROUNDDOWN a = push_bit 12 (drop_bit 12 a)"
    unfolding PGROUNDDOWN_def by (intro bit_word_eqI) (auto simp: bit_simps)
  then have "unat (PGROUNDDOWN a) = take_bit 64 (push_bit 12 (drop_bit 12 (unat a)))"
    by (simp only: unsigned_push_bit_eq unsigned_drop_bit_eq) (simp add: take_bit_unat)
  then have "unat (PGROUNDDOWN a) = take_bit 64 (unat a div 4096 * 4096)"
    by (simp add: push_bit_eq_mult drop_bit_eq_div)
  moreover have "unat a div 4096 * 4096 \<le> unat a" by (rule div_times_less_eq_dividend)
  then have "unat a div 4096 * 4096 < 2 ^ 64" using unsigned_less [of a, where 'a = nat] by simp
  ultimately show ?thesis by (simp add: take_bit_nat_eq_self)
qed

lemma unat_PGROUNDUP:
  assumes "unat sz + 4095 < 2 ^ 64"
  shows "unat (PGROUNDUP sz) = (unat sz + 4095) div 4096 * 4096"
proof -
  have "PGROUNDUP sz = PGROUNDDOWN (sz + 4095)"
    by (simp add: PGROUNDUP_def PGROUNDDOWN_def PGSIZE_def algebra_simps)
  moreover have "unat (sz + 4095) = unat sz + 4095"
    using assms by (simp add: unat_word_ariths)
  ultimately show ?thesis by (simp add: unat_PGROUNDDOWN)
qed

lemma page_aligned_PGROUNDDOWN [simp]: "page_aligned (PGROUNDDOWN a)"
  by (simp add: page_aligned_def unat_PGROUNDDOWN)

lemma page_aligned_take_bit: "page_aligned a \<longleftrightarrow> take_bit 12 a = 0"
proof -
  have "unat (take_bit 12 a) = unat a mod 4096"
    by (simp only: unsigned_take_bit_eq) (simp add: take_bit_eq_mod)
  then show ?thesis by (metis page_aligned_def unat_eq_0)
qed

lemma unat_PX: "unat (PX l va) = unat va div 2 ^ (12 + 9 * l) mod 512"
proof -
  have "(PXMASK :: u64) = mask 9" by (simp add: PXMASK_def mask_eq_exp_minus_1)
  then have "PX l va = take_bit 9 (drop_bit (12 + 9 * l) va)"
    by (simp add: PX_def PXSHIFT_def PGSHIFT_def take_bit_eq_mask)
  then have "unat (PX l va) = take_bit 9 (drop_bit (12 + 9 * l) (unat va))"
    by (simp only: unsigned_take_bit_eq unsigned_drop_bit_eq) (simp add: take_bit_unat)
  then show ?thesis by (simp add: take_bit_eq_mod drop_bit_eq_div)
qed

text \<open>The three indices determine the page of an address below \<open>MAXVA\<close>.\<close>

lemma three_digits:
  fixes x y :: nat
  assumes "x mod 512 = y mod 512" and "x div 512 mod 512 = y div 512 mod 512"
    and "x div 512 div 512 = y div 512 div 512"
  shows "x = y"
  using assms by (metis mult_div_mod_eq)

lemma PX_determine_page:
  assumes "a < MAXVA" and "b < MAXVA"
    and "PX 2 a = PX 2 b" and "PX 1 a = PX 1 b" and "PX 0 a = PX 0 b"
  shows "PGROUNDDOWN a = PGROUNDDOWN b"
proof -
  have top: "unat v div 4096 div 512 div 512 = unat (PX 2 v)"
    and mid: "unat v div 4096 div 512 mod 512 = unat (PX 1 v)"
    and low: "unat v div 4096 mod 512 = unat (PX 0 v)" if "v < MAXVA" for v
    using that by (simp_all add: unat_PX MAXVA_def word_less_nat_alt div_mult2_eq [symmetric])
  have "unat a div 4096 = unat b div 4096"
    by (rule three_digits) (use assms top mid low in simp_all)
  then show ?thesis by (simp add: word_unat_eq_iff unat_PGROUNDDOWN)
qed

lemma div_4096_iff:
  fixes x k :: nat
  shows "x div 4096 = k \<longleftrightarrow> 4096 * k \<le> x \<and> x < 4096 * k + 4096"
proof -
  have "x = 4096 * (x div 4096) + x mod 4096" "x mod 4096 < 4096" by simp_all
  then show ?thesis by (auto; linarith)
qed

lemma in_page_iff:
  assumes "page_aligned p"
  shows "in_range b p 4096 \<longleftrightarrow> PGROUNDDOWN b = p"
proof -
  obtain k where k: "unat p = 4096 * k"
    using assms unfolding page_aligned_def by (metis mult_div_mod_eq add.right_neutral)
  have pb: "unat p < 2 ^ 64" "unat b < 2 ^ 64"
    using unsigned_less [of p, where 'a = nat] unsigned_less [of b, where 'a = nat] by simp_all
  then have top: "unat p + 4096 \<le> 2 ^ 64" using k by simp
  have "unat (b - p) < 4096 \<longleftrightarrow> unat b div 4096 = k"
  proof (cases "unat p \<le> unat b")
    case True
    then have "unat (b - p) = unat b - unat p" by (simp add: unat_sub_if')
    with True show ?thesis unfolding k div_4096_iff by linarith
  next
    case False
    then have "unat (b - p) = 2 ^ 64 + unat b - unat p"
      using pb by (simp add: unat_sub_if')
    moreover have "unat b div 4096 \<noteq> k" using False k unfolding div_4096_iff by linarith
    ultimately show ?thesis using top by linarith
  qed
  also have "\<dots> \<longleftrightarrow> PGROUNDDOWN b = p"
    by (auto simp: word_unat_eq_iff unat_PGROUNDDOWN k)
  finally show ?thesis by (simp add: in_range_def)
qed

end
