(* ===== verification/Kalloc.thy ===== *)
theory Kalloc
  imports Riscv "HOL-Library.Multiset"
begin

text \<open>
  The physical page allocator (\<^verbatim>\<open>kernel/kalloc.c\<close>). The free list is threaded through the free pages
  themselves: the first eight bytes of a free page hold the address of the next one. The state is
  the memory and the head pointer; the first address after the kernel image, \<^verbatim>\<open>end\<close>, comes from the
  linker script and is a parameter. A list of page addresses abstracts the free list; the theory
  shows that \<^verbatim>\<open>kfree\<close> pushes, \<^verbatim>\<open>kalloc\<close> pops, \<^verbatim>\<open>kinit\<close> collects every whole page between \<^verbatim>\<open>end\<close> and
  \<^verbatim>\<open>PHYSTOP\<close>, and no page is ever handed out twice.
\<close>

section \<open>State and operations\<close>

record kmem =
  memory :: mem
  freelist :: u64

text \<open>The record is extensible, so the operations apply to every state that extends it.\<close>

definition kfree :: "u64 \<Rightarrow> u64 \<Rightarrow> 'a kmem_scheme \<Rightarrow> 'a kmem_scheme res" where
  "kfree kend pa st =
     (if unat pa mod unat PGSIZE \<noteq> 0 \<or> pa < kend \<or> pa \<ge> PHYSTOP then Inl (Panic ''kfree'')
      else let m1 = memset (memory st) pa 1 (unat PGSIZE)
           in Inr (st\<lparr>memory := store64 m1 pa (freelist st), freelist := pa\<rparr>))"

definition kalloc :: "'a kmem_scheme \<Rightarrow> u64 \<times> 'a kmem_scheme" where
  "kalloc st =
     (let r = freelist st;
          st1 = (if r \<noteq> 0 then st\<lparr>freelist := load64 (memory st) r\<rparr> else st);
          st2 = (if r \<noteq> 0 then st1\<lparr>memory := memset (memory st1) r 5 (unat PGSIZE)\<rparr> else st1)
      in (r, st2))"

text \<open>The loop of \<^verbatim>\<open>freerange\<close> ends because \<^verbatim>\<open>kfree\<close> accepts addresses below \<open>PHYSTOP\<close> only, so
  \<open>p + PGSIZE\<close> does not wrap around when the loop goes on.\<close>

lemma kfree_InrD: "kfree kend pa st = Inr st' \<Longrightarrow> page_aligned pa \<and> kend \<le> pa \<and> pa < PHYSTOP"
  by (auto simp: kfree_def page_aligned_def PGSIZE_def not_less not_le split: if_splits)

function freerange_loop :: "u64 \<Rightarrow> u64 \<Rightarrow> u64 \<Rightarrow> 'a kmem_scheme \<Rightarrow> 'a kmem_scheme res" where
  "freerange_loop kend p pa_end st =
     (if p + PGSIZE \<le> pa_end
      then rbind (kfree kend p st) (\<lambda>st'. freerange_loop kend (p + PGSIZE) pa_end st')
      else Inr st)"
  by pat_completeness auto
termination
proof (relation "measure (\<lambda>(kend, p, pa_end, st). unat pa_end - unat p)", goal_cases)
  case (2 kend p pa_end st st')
  then have "p < PHYSTOP" by (blast dest: kfree_InrD)
  then have "unat (p + PGSIZE) = unat p + 4096"
    by (simp add: word_less_nat_alt PHYSTOP_def KERNBASE_def PGSIZE_def unat_word_ariths)
  with 2(1) show ?case by (simp add: word_le_nat_alt)
qed simp

definition freerange :: "u64 \<Rightarrow> u64 \<Rightarrow> u64 \<Rightarrow> 'a kmem_scheme \<Rightarrow> 'a kmem_scheme res" where
  "freerange kend pa_start pa_end st = freerange_loop kend (PGROUNDUP pa_start) pa_end st"

definition kinit :: "u64 \<Rightarrow> 'a kmem_scheme \<Rightarrow> 'a kmem_scheme res" where
  "kinit kend st = freerange kend kend PHYSTOP st"

declare freerange_loop.simps [simp del]

section \<open>The free list as a list of pages\<close>

fun free_chain :: "mem \<Rightarrow> u64 \<Rightarrow> u64 list \<Rightarrow> bool" where
  "free_chain m p [] \<longleftrightarrow> p = 0"
| "free_chain m p (q # qs) \<longleftrightarrow> p = q \<and> q \<noteq> 0 \<and> free_chain m (load64 m q) qs"

definition page_ok :: "u64 \<Rightarrow> u64 \<Rightarrow> bool" where
  "page_ok kend p \<longleftrightarrow> page_aligned p \<and> kend \<le> p \<and> p < PHYSTOP"

definition kmem_rep :: "u64 \<Rightarrow> 'a kmem_scheme \<Rightarrow> u64 list \<Rightarrow> bool" where
  "kmem_rep kend st ps \<longleftrightarrow>
     KERNBASE \<le> kend \<and> free_chain (memory st) (freelist st) ps \<and> distinct ps
     \<and> (\<forall>p \<in> set ps. page_ok kend p)"

lemma page_ok_nonzero: "KERNBASE \<le> kend \<Longrightarrow> page_ok kend p \<Longrightarrow> p \<noteq> 0"
  by (auto simp: page_ok_def KERNBASE_def word_le_nat_alt)

lemma free_chain_cong:
  assumes "\<And>q b. q \<in> set ps \<Longrightarrow> in_range b q 4096 \<Longrightarrow> m b = m' b"
  shows "free_chain m p ps \<longleftrightarrow> free_chain m' p ps"
  using assms
proof (induction ps arbitrary: p)
  case (Cons q qs)
  have "load64 m q = load64 m' q"
    using Cons.prems [of q] by (intro load64_cong) (simp add: in_range_def)
  moreover have "free_chain m r qs \<longleftrightarrow> free_chain m' r qs" for r
    using Cons.prems by (intro Cons.IH) (metis list.set_intros(2))
  ultimately show ?case by simp
qed simp

lemma other_page:
  "page_aligned p \<Longrightarrow> page_aligned q \<Longrightarrow> p \<noteq> q \<Longrightarrow> in_range b q 4096 \<Longrightarrow> \<not> in_range b p 4096"
  by (simp add: in_page_iff)

lemma kfree_push:
  assumes rep: "kmem_rep kend st ps" and ok: "page_ok kend p" and fresh: "p \<notin> set ps"
  shows "\<exists>st'. kfree kend p st = Inr st' \<and> kmem_rep kend st' (p # ps)
              \<and> (\<forall>b. \<not> in_range b p 4096 \<longrightarrow> memory st' b = memory st b)"
proof -
  let ?m = "store64 (memset (memory st) p 1 4096) p (freelist st)"
  let ?st' = "st\<lparr>memory := ?m, freelist := p\<rparr>"
  have free: "kfree kend p st = Inr ?st'"
    using ok by (auto simp: kfree_def page_ok_def page_aligned_def PGSIZE_def)
  have frame: "?m b = memory st b" if "\<not> in_range b p 4096" for b
  proof -
    from that have "\<not> in_range b p 8" by (simp add: in_range_def)
    with that show ?thesis by (simp add: store64_frame memset_eq)
  qed
  have chain: "free_chain ?m q ps \<longleftrightarrow> free_chain (memory st) q ps" for q
    using rep ok fresh
    by (intro free_chain_cong frame other_page) (auto simp: kmem_rep_def page_ok_def)
  have "kmem_rep kend ?st' (p # ps)"
    using rep ok fresh chain page_ok_nonzero [of kend p] by (simp add: kmem_rep_def)
  with free frame show ?thesis by (intro exI [of _ ?st']) simp
qed

lemma kalloc_empty: "kmem_rep kend st [] \<Longrightarrow> kalloc st = (0, st)"
  by (simp add: kmem_rep_def kalloc_def)

lemma kalloc_pop:
  assumes rep: "kmem_rep kend st (p # ps)"
  shows "\<exists>st'. kalloc st = (p, st') \<and> kmem_rep kend st' ps
              \<and> memory st' = (\<lambda>b. if in_range b p 4096 then 5 else memory st b)"
proof -
  let ?m = "\<lambda>b. if in_range b p 4096 then 5 else memory st b"
  let ?st' = "st\<lparr>freelist := load64 (memory st) p, memory := ?m\<rparr>"
  have alloc: "kalloc st = (p, ?st')"
    using rep by (simp add: kmem_rep_def kalloc_def memset_eq PGSIZE_def Let_def)
  have "free_chain ?m q ps \<longleftrightarrow> free_chain (memory st) q ps" for q
    using rep by (intro free_chain_cong) (auto simp: kmem_rep_def page_ok_def dest: other_page)
  then have "kmem_rep kend ?st' ps" using rep by (auto simp: kmem_rep_def)
  with alloc show ?thesis by auto
qed

section \<open>The interface of a page allocator\<close>

text \<open>What the rest of the kernel relies on, stated over an abstract free list; a client that
  allocates, and frees what it holds, never gets a page it already has.\<close>

datatype page_req = ReqAlloc | ReqFree nat

fun client_run ::
    "('s \<Rightarrow> u64 \<times> 's) \<Rightarrow> (u64 \<Rightarrow> 's \<Rightarrow> 's res) \<Rightarrow> page_req list \<Rightarrow> 's \<times> u64 list
     \<Rightarrow> ('s \<times> u64 list) res" where
  "client_run alloc free [] (s, held) = Inr (s, held)"
| "client_run alloc free (ReqAlloc # rs) (s, held) =
     (let (p, s') = alloc s
      in client_run alloc free rs (s', if p = 0 then held else p # held))"
| "client_run alloc free (ReqFree i # rs) (s, held) =
     (if i < length held
      then rbind (free (held ! i) s)
             (\<lambda>s'. client_run alloc free rs (s', take i held @ drop (Suc i) held))
      else client_run alloc free rs (s, held))"

locale page_allocator =
  fixes alloc :: "'s \<Rightarrow> u64 \<times> 's"
    and free :: "u64 \<Rightarrow> 's \<Rightarrow> 's res"
    and rep :: "'s \<Rightarrow> u64 list \<Rightarrow> bool"
    and ok :: "u64 \<Rightarrow> bool"
  assumes alloc_none: "rep s [] \<Longrightarrow> alloc s = (0, s)"
    and alloc_some: "rep s (p # ps) \<Longrightarrow> \<exists>s'. alloc s = (p, s') \<and> rep s' ps"
    and free_ok: "rep s ps \<Longrightarrow> ok p \<Longrightarrow> p \<notin> set ps \<Longrightarrow> \<exists>s'. free p s = Inr s' \<and> rep s' (p # ps)"
    and rep_pages: "rep s ps \<Longrightarrow> p \<in> set ps \<Longrightarrow> ok p \<and> p \<noteq> 0"
begin

lemma client_run_conserves:
  assumes "rep s ps" and "distinct (held @ ps)" and "\<forall>p \<in> set held. ok p \<and> p \<noteq> 0"
  shows "\<exists>s' held' ps'. client_run alloc free rs (s, held) = Inr (s', held') \<and> rep s' ps'
           \<and> distinct (held' @ ps') \<and> mset (held' @ ps') = mset (held @ ps)"
  using assms
proof (induction rs arbitrary: s held ps)
  case Nil
  then show ?case by auto
next
  case (Cons r rs)
  show ?case
  proof (cases r)
    case ReqAlloc
    show ?thesis
    proof (cases ps)
      case Nil
      with Cons.prems have "alloc s = (0, s)" by (simp add: alloc_none)
      with Cons.IH [OF Cons.prems] ReqAlloc show ?thesis by simp
    next
      case (Cons p qs)
      then obtain s' where s': "alloc s = (p, s')" "rep s' qs"
        using alloc_some Cons.prems(1) by blast
      have p: "ok p" "p \<noteq> 0" using rep_pages Cons.prems(1) Cons by auto
      have "distinct ((p # held) @ qs)" "\<forall>q \<in> set (p # held). ok q \<and> q \<noteq> 0"
        using Cons.prems Cons p by auto
      from Cons.IH [OF s'(2) this] s'(1) p ReqAlloc Cons show ?thesis by simp
    qed
  next
    case (ReqFree i)
    show ?thesis
    proof (cases "i < length held")
      case True
      let ?h = "take i held @ drop (Suc i) held"
      have split: "held = take i held @ held ! i # drop (Suc i) held"
        using True by (rule id_take_nth_drop)
      have "held ! i \<in> set held" using True by simp
      with Cons.prems have "ok (held ! i)" "held ! i \<notin> set ps" by auto
      with free_ok Cons.prems(1) obtain s' where
        s': "free (held ! i) s = Inr s'" "rep s' (held ! i # ps)" by blast
      have ms: "mset (?h @ held ! i # ps) = mset (held @ ps)"
        by (subst (4) split) simp
      then have "distinct (?h @ held ! i # ps)"
        using Cons.prems(2) by (metis mset_eq_imp_distinct_iff)
      moreover have "\<forall>q \<in> set ?h. ok q \<and> q \<noteq> 0"
        using Cons.prems(3) by (auto dest: in_set_takeD in_set_dropD)
      ultimately obtain s2 h2 ps2 where r: "client_run alloc free rs (s', ?h) = Inr (s2, h2)"
        "rep s2 ps2" "distinct (h2 @ ps2)" "mset (h2 @ ps2) = mset (?h @ held ! i # ps)"
        using Cons.IH [OF s'(2)] by blast
      show ?thesis
        using r(1-3) trans [OF r(4) ms] s'(1) True ReqFree by auto
    next
      case False
      with Cons.IH [OF Cons.prems] ReqFree show ?thesis by simp
    qed
  qed
qed

end

interpretation kmem_alloc: page_allocator kalloc "kfree kend" "kmem_rep kend" "page_ok kend" for kend
proof (unfold_locales, goal_cases)
  case 1
  then show ?case by (rule kalloc_empty)
next
  case (2 s p ps)
  from kalloc_pop [OF 2] show ?case by blast
next
  case (3 s ps p)
  from kfree_push [OF 3] show ?case by blast
next
  case (4 s ps p)
  then have "KERNBASE \<le> kend" "page_ok kend p" by (simp_all add: kmem_rep_def)
  then show ?case by (simp add: page_ok_nonzero)
qed

section \<open>Initialisation\<close>

definition pages_between :: "u64 \<Rightarrow> u64 \<Rightarrow> u64 set" where
  "pages_between lo hi = {q. page_aligned q \<and> lo \<le> q \<and> unat q + 4096 \<le> unat hi}"

lemma aligned_next:
  assumes "page_aligned p" and "page_aligned q" and "unat (p + PGSIZE) = unat p + 4096"
  shows "p \<le> q \<longleftrightarrow> q = p \<or> p + PGSIZE \<le> q"
proof -
  obtain i j where "unat p = 4096 * i" "unat q = 4096 * j"
    using assms(1,2) unfolding page_aligned_def by (metis mult_div_mod_eq add.right_neutral)
  with assms(3) show ?thesis by (auto simp: word_le_nat_alt word_unat_eq_iff)
qed

lemma freerange_loop_rep:
  assumes "kmem_rep kend st ps" and "page_aligned p" and "kend \<le> p" and "pa_end \<le> PHYSTOP"
    and "p \<le> PHYSTOP" and "\<forall>q \<in> set ps. q < p"
  shows "\<exists>st' qs. freerange_loop kend p pa_end st = Inr st' \<and> kmem_rep kend st' (qs @ ps)
                 \<and> set qs = pages_between p pa_end"
  using assms
proof (induction kend p pa_end st arbitrary: ps rule: freerange_loop.induct)
  case (1 kend p pa_end st)
  have next_p: "unat (p + PGSIZE) = unat p + 4096"
    using "1.prems"(5) by (simp add: PGSIZE_def unat_word_ariths word_le_nat_alt PHYSTOP_def KERNBASE_def)
  show ?case
  proof (cases "p + PGSIZE \<le> pa_end")
    case True
    then have le: "p + PGSIZE \<le> PHYSTOP" using "1.prems"(4) by (rule order_trans)
    have "p < PHYSTOP"
      using le next_p by (simp add: word_less_nat_alt word_le_nat_alt)
    with "1.prems" have ok: "page_ok kend p" "p \<notin> set ps" by (auto simp: page_ok_def)
    from kfree_push [OF "1.prems"(1) ok] obtain st1 where
      st1: "kfree kend p st = Inr st1" "kmem_rep kend st1 (p # ps)" by blast
    have al: "page_aligned (p + PGSIZE)"
      using "1.prems"(2) by (simp add: page_aligned_def next_p)
    have up: "kend \<le> p + PGSIZE" "\<forall>q \<in> set (p # ps). q < p + PGSIZE"
      using "1.prems"(3,6) next_p by (auto simp: word_le_nat_alt word_less_nat_alt)
    from "1.IH" [OF True st1 al up(1) "1.prems"(4) le up(2)] obtain st' qs where
      rec: "freerange_loop kend (p + PGSIZE) pa_end st1 = Inr st'"
      "kmem_rep kend st' (qs @ p # ps)" "set qs = pages_between (p + PGSIZE) pa_end" by blast
    have "set (qs @ [p]) = pages_between p pa_end"
      using rec(3) aligned_next [OF "1.prems"(2) _ next_p] True next_p "1.prems"(2)
      by (auto simp: pages_between_def word_le_nat_alt)
    with rec True st1(1) show ?thesis
      by (intro exI [of _ st'] exI [of _ "qs @ [p]"]) (simp add: freerange_loop.simps [of kend p])
  next
    case False
    then have "pages_between p pa_end = {}"
      using next_p by (auto simp: pages_between_def word_le_nat_alt)
    with False "1.prems"(1) show ?thesis
      by (intro exI [of _ st] exI [of _ "[]"]) (simp add: freerange_loop.simps [of kend p])
  qed
qed

lemma kinit_rep:
  assumes "KERNBASE \<le> kend" and "kend \<le> PHYSTOP" and "freelist st = 0"
  shows "\<exists>st' ps. kinit kend st = Inr st' \<and> kmem_rep kend st' ps \<and> set ps = {q. page_ok kend q}"
proof -
  let ?p = "PGROUNDUP kend"
  have small: "unat kend \<le> 0x88000000"
    using assms(2) by (simp add: word_le_nat_alt PHYSTOP_def KERNBASE_def)
  then have p: "unat ?p = (unat kend + 4095) div 4096 * 4096"
    by (intro unat_PGROUNDUP) simp
  have up: "kend \<le> ?p" "?p \<le> PHYSTOP"
    using small unfolding word_le_nat_alt p by (simp_all add: PHYSTOP_def KERNBASE_def)
  have "page_aligned ?p" "kmem_rep kend st []"
    using assms p by (simp_all add: page_aligned_def kmem_rep_def)
  from freerange_loop_rep [OF this(2,1) up(1) order_refl up(2)] obtain st' qs where
    st': "freerange_loop kend ?p PHYSTOP st = Inr st'" "kmem_rep kend st' qs"
    "set qs = pages_between ?p PHYSTOP" by auto
  have "q \<in> pages_between ?p PHYSTOP \<longleftrightarrow> page_ok kend q" for q
  proof (cases "page_aligned q")
    case True
    then obtain j where j: "unat q = 4096 * j"
      unfolding page_aligned_def by (metis mult_div_mod_eq add.right_neutral)
    show ?thesis
      using True unfolding pages_between_def page_ok_def word_le_nat_alt word_less_nat_alt p j
      by (auto simp: j PHYSTOP_def KERNBASE_def)
  qed (simp add: pages_between_def page_ok_def)
  with st' show ?thesis
    unfolding kinit_def freerange_def by (intro exI [of _ st'] exI [of _ qs]) auto
qed

section \<open>Properties\<close>

text \<open>C8. Starting with an empty free list, \<^verbatim>\<open>kinit\<close> returns without panicking and the free list then
  holds every page-aligned address between \<^verbatim>\<open>end\<close> and \<^verbatim>\<open>PHYSTOP\<close> exactly once and nothing else.\<close>

theorem kinit_collects_all_pages:
  assumes "KERNBASE \<le> kend" and "kend \<le> PHYSTOP" and "freelist st = 0"
  shows "\<exists>st' ps. kinit kend st = Inr st' \<and> free_chain (memory st') (freelist st') ps
           \<and> distinct ps \<and> set ps = {q. unat q mod 4096 = 0 \<and> kend \<le> q \<and> q < PHYSTOP}"
  using kinit_rep [OF assms] by (auto simp: kmem_rep_def page_ok_def page_aligned_def)

theorem kinit_collects_all_pages_witness:
  "\<exists>st' ps. kinit 0x87FFE001 \<lparr>memory = \<lambda>_. 7, freelist = 0\<rparr> = Inr st'
     \<and> free_chain (memory st') (freelist st') ps \<and> distinct ps
     \<and> set ps = {q. unat q mod 4096 = 0 \<and> 0x87FFE001 \<le> q \<and> q < PHYSTOP}"
  by (rule kinit_collects_all_pages) (simp_all add: KERNBASE_def PHYSTOP_def)

text \<open>C7. After \<^verbatim>\<open>kinit\<close>, whatever sequence of \<^verbatim>\<open>kalloc\<close> calls and \<^verbatim>\<open>kfree\<close> calls on held pages is made: no
  call panics, no page is held twice, no held page is on the free list, and the held pages and the free
  pages together are always exactly the pages of physical memory above the kernel.\<close>

theorem kalloc_never_twice:
  assumes "KERNBASE \<le> kend" and "kend \<le> PHYSTOP" and "freelist st = 0"
  shows "\<exists>st1 st2 held ps. kinit kend st = Inr st1
           \<and> client_run kalloc (kfree kend) rs (st1, []) = Inr (st2, held)
           \<and> free_chain (memory st2) (freelist st2) ps \<and> distinct (held @ ps)
           \<and> set held \<union> set ps = {q. unat q mod 4096 = 0 \<and> kend \<le> q \<and> q < PHYSTOP}"
proof -
  obtain st1 ps where st1: "kinit kend st = Inr st1" "kmem_rep kend st1 ps"
    "set ps = {q. page_ok kend q}" using kinit_rep [OF assms] by blast
  have "distinct ([] @ ps)" using st1(2) by (simp add: kmem_rep_def)
  from kmem_alloc.client_run_conserves [OF st1(2) this, of rs] obtain st2 held ps' where
    run: "client_run kalloc (kfree kend) rs (st1, []) = Inr (st2, held)" "kmem_rep kend st2 ps'"
    "distinct (held @ ps')" "mset (held @ ps') = mset ps" by auto
  have "set held \<union> set ps' = {q. page_ok kend q}"
    using mset_eq_setD [OF run(4)] st1(3) by simp
  with st1(1) run(1-3) show ?thesis
    unfolding kmem_rep_def page_ok_def page_aligned_def by blast
qed

theorem kalloc_never_twice_witness:
  "\<exists>st1 st2 held ps. kinit 0x87FFD000 \<lparr>memory = \<lambda>_. 7, freelist = 0\<rparr> = Inr st1
     \<and> client_run kalloc (kfree 0x87FFD000) [ReqAlloc, ReqAlloc, ReqFree 1, ReqAlloc] (st1, [])
         = Inr (st2, held)
     \<and> free_chain (memory st2) (freelist st2) ps \<and> distinct (held @ ps)
     \<and> set held \<union> set ps = {q. unat q mod 4096 = 0 \<and> 0x87FFD000 \<le> q \<and> q < PHYSTOP}"
  by (rule kalloc_never_twice) (simp_all add: KERNBASE_def PHYSTOP_def)

end
