(* ===== verification/Vm.thy ===== *)
theory Vm
  imports Kalloc
begin

text \<open>
  Virtual memory (\<^verbatim>\<open>kernel/vm.c\<close>): the Sv39 page tables, laid out in the physical pages the allocator
  hands out. Every routine works on the memory and the free list of \<^verbatim>\<open>Kalloc\<close>. A routine that returns a
  pointer returns its address, 0 being the null pointer; a panic is an error value.
\<close>

section \<open>Page-table walks\<close>

text \<open>The loop of \<^verbatim>\<open>walk\<close> from a level down to the address of the leaf entry.\<close>

fun walk_from :: "nat \<Rightarrow> u64 \<Rightarrow> u64 \<Rightarrow> bool \<Rightarrow> 'a kmem_scheme \<Rightarrow> u64 \<times> 'a kmem_scheme" where
  "walk_from 0 pagetable va alloc st = (pagetable + 8 * PX 0 va, st)"
| "walk_from (Suc l) pagetable va alloc st =
     (let pte = pagetable + 8 * PX (Suc l) va;
          e = load64 (memory st) pte
      in if e AND PTE_V \<noteq> 0 then walk_from l (PTE2PA e) va alloc st
         else if \<not> alloc then (0, st)
         else let (pg, st1) = kalloc st
              in if pg = 0 then (0, st1)
                 else let m1 = memset (memory st1) pg 0 (unat PGSIZE);
                          m2 = store64 m1 pte (PA2PTE pg OR PTE_V)
                      in walk_from l pg va alloc (st1\<lparr>memory := m2\<rparr>))"

definition walk :: "u64 \<Rightarrow> u64 \<Rightarrow> bool \<Rightarrow> 'a kmem_scheme \<Rightarrow> (u64 \<times> 'a kmem_scheme) res" where
  "walk pagetable va alloc st =
     (if va \<ge> MAXVA then Inl (Panic ''walk'') else Inr (walk_from 2 pagetable va alloc st))"

definition walkaddr :: "u64 \<Rightarrow> u64 \<Rightarrow> 'a kmem_scheme \<Rightarrow> u64 res" where
  "walkaddr pagetable va st =
     (if va \<ge> MAXVA then Inr 0
      else rbind (walk pagetable va False st) (\<lambda>(pte, _).
        if pte = 0 then Inr 0
        else let e = load64 (memory st) pte
             in if e AND PTE_V = 0 then Inr 0
                else if e AND PTE_U = 0 then Inr 0
                else Inr (PTE2PA e)))"

section \<open>Mapping and unmapping\<close>

text \<open>The loops over pages end because \<^verbatim>\<open>walk\<close> panics at \<open>MAXVA\<close>, far below the wrap-around.\<close>

lemma walk_InrD: "walk pagetable va alloc st = Inr r \<Longrightarrow> va < MAXVA"
  by (simp add: walk_def not_le split: if_splits)

lemma next_page: "a < MAXVA \<Longrightarrow> unat (a + PGSIZE) = unat a + 4096"
  by (simp add: MAXVA_def PGSIZE_def word_less_nat_alt unat_word_ariths)

function mappages_loop ::
    "u64 \<Rightarrow> u64 \<Rightarrow> u64 \<Rightarrow> u64 \<Rightarrow> u64 \<Rightarrow> 'a kmem_scheme \<Rightarrow> (int \<times> 'a kmem_scheme) res" where
  "mappages_loop pagetable a last_a pa perm st =
     rbind (walk pagetable a True st) (\<lambda>(pte, st1).
       if pte = 0 then Inr (-1, st1)
       else if load64 (memory st1) pte AND PTE_V \<noteq> 0 then Inl (Panic ''mappages: remap'')
       else let st2 = st1\<lparr>memory := store64 (memory st1) pte (PA2PTE pa OR perm OR PTE_V)\<rparr>
            in if a = last_a then Inr (0, st2)
               else mappages_loop pagetable (a + PGSIZE) last_a (pa + PGSIZE) perm st2)"
  by pat_completeness auto
termination
  by (relation "measure (\<lambda>(pagetable, a, last_a, pa, perm, st). 2 ^ 64 - unat a)")
    (auto dest!: walk_InrD simp: next_page MAXVA_def word_less_nat_alt)

declare mappages_loop.simps [simp del]

definition mappages ::
    "u64 \<Rightarrow> u64 \<Rightarrow> u64 \<Rightarrow> u64 \<Rightarrow> u64 \<Rightarrow> 'a kmem_scheme \<Rightarrow> (int \<times> 'a kmem_scheme) res" where
  "mappages pagetable va sz pa perm st =
     (if sz = 0 then Inl (Panic ''mappages: size'')
      else mappages_loop pagetable (PGROUNDDOWN va) (PGROUNDDOWN (va + sz - 1)) pa perm st)"

definition kvmmap :: "u64 \<Rightarrow> u64 \<Rightarrow> u64 \<Rightarrow> u64 \<Rightarrow> u64 \<Rightarrow> 'a kmem_scheme \<Rightarrow> 'a kmem_scheme res" where
  "kvmmap kpgtbl va pa sz perm st =
     rbind (mappages kpgtbl va sz pa perm st) (\<lambda>(r, st1).
       if r \<noteq> 0 then Inl (Panic ''kvmmap'') else Inr st1)"

function uvmunmap_loop ::
    "u64 \<Rightarrow> u64 \<Rightarrow> u64 \<Rightarrow> u64 \<Rightarrow> bool \<Rightarrow> 'a kmem_scheme \<Rightarrow> 'a kmem_scheme res" where
  "uvmunmap_loop kend pagetable a end_a do_free st =
     (if a < end_a
      then rbind (walk pagetable a False st) (\<lambda>(pte, st0).
        if pte = 0 then Inl (Panic ''uvmunmap: walk'')
        else let e = load64 (memory st) pte
             in if e AND PTE_V = 0 then Inl (Panic ''uvmunmap: not mapped'')
                else if PTE_FLAGS e = PTE_V then Inl (Panic ''uvmunmap: not a leaf'')
                else rbind (if do_free then kfree kend (PTE2PA e) st else Inr st) (\<lambda>st1.
                  uvmunmap_loop kend pagetable (a + PGSIZE) end_a do_free
                    (st1\<lparr>memory := store64 (memory st1) pte 0\<rparr>)))
      else Inr st)"
  by pat_completeness auto
termination
  by (relation "measure (\<lambda>(kend, pagetable, a, end_a, do_free, st). 2 ^ 64 - unat a)")
    (auto dest!: walk_InrD simp: next_page MAXVA_def word_less_nat_alt)

declare uvmunmap_loop.simps [simp del]

definition uvmunmap ::
    "u64 \<Rightarrow> u64 \<Rightarrow> u64 \<Rightarrow> u64 \<Rightarrow> bool \<Rightarrow> 'a kmem_scheme \<Rightarrow> 'a kmem_scheme res" where
  "uvmunmap kend pagetable va npages do_free st =
     (if va mod PGSIZE \<noteq> 0 then Inl (Panic ''uvmunmap: not aligned'')
      else uvmunmap_loop kend pagetable va (va + npages * PGSIZE) do_free st)"

definition uvmcreate :: "'a kmem_scheme \<Rightarrow> u64 \<times> 'a kmem_scheme" where
  "uvmcreate st =
     (let (pagetable, st1) = kalloc st
      in if pagetable = 0 then (0, st1)
         else (pagetable, st1\<lparr>memory := memset (memory st1) pagetable 0 (unat PGSIZE)\<rparr>))"

text \<open>\<^verbatim>\<open>uvmfirst\<close> does not check the result of \<^verbatim>\<open>kalloc\<close>: on a null page it writes through a null
  pointer. It ignores the result of \<^verbatim>\<open>mappages\<close> too.\<close>

definition uvmfirst :: "u64 \<Rightarrow> u64 \<Rightarrow> u32 \<Rightarrow> 'a kmem_scheme \<Rightarrow> 'a kmem_scheme res" where
  "uvmfirst pagetable src sz st =
     (if unat sz \<ge> unat PGSIZE then Inl (Panic ''uvmfirst: more than a page'')
      else let (pg, st1) = kalloc st
           in if pg = 0 then Inl (Undefined ''uvmfirst: null page'')
              else rbind (mappages pagetable 0 PGSIZE pg (PTE_W OR PTE_R OR PTE_X OR PTE_U)
                            (st1\<lparr>memory := memset (memory st1) pg 0 (unat PGSIZE)\<rparr>)) (\<lambda>(r, st2).
                     Inr (st2\<lparr>memory := memmove (memory st2) pg src (unat sz)\<rparr>)))"

section \<open>Growing, shrinking, copying and freeing user memory\<close>

text \<open>The page count of \<^verbatim>\<open>uvmdealloc\<close> passes through a C \<^verbatim>\<open>int\<close>.\<close>

definition uvmdealloc ::
    "u64 \<Rightarrow> u64 \<Rightarrow> u64 \<Rightarrow> u64 \<Rightarrow> 'a kmem_scheme \<Rightarrow> (u64 \<times> 'a kmem_scheme) res" where
  "uvmdealloc kend pagetable oldsz newsz st =
     (if newsz \<ge> oldsz then Inr (oldsz, st)
      else rbind
        (if PGROUNDUP newsz < PGROUNDUP oldsz
         then let npages = (ucast ((PGROUNDUP oldsz - PGROUNDUP newsz) div PGSIZE) :: u32)
              in uvmunmap kend pagetable (PGROUNDUP newsz) (scast npages) True st
         else Inr st) (\<lambda>st1. Inr (newsz, st1)))"

lemma mappages_InrD: "mappages pagetable va sz pa perm st = Inr r \<Longrightarrow> PGROUNDDOWN va < MAXVA"
  by (auto simp: mappages_def mappages_loop.simps [of _ "PGROUNDDOWN va"] rbind_eq_Inr
      dest: walk_InrD split: if_splits)

lemma PGROUNDDOWN_next:
  "PGROUNDDOWN a < MAXVA \<Longrightarrow> unat (a + PGSIZE) = unat a + 4096"
  by (auto simp: word_less_nat_alt unat_PGROUNDDOWN MAXVA_def PGSIZE_def unat_word_ariths)

lemma PGROUNDDOWN_measure:
  assumes "PGROUNDDOWN a < MAXVA"
  shows "2 ^ 64 - unat (a + PGSIZE) < 2 ^ 64 - unat a"
  using PGROUNDDOWN_next [OF assms] unsigned_less [of a, where 'a = nat] by simp

function uvmalloc_loop ::
    "u64 \<Rightarrow> u64 \<Rightarrow> u64 \<Rightarrow> u64 \<Rightarrow> u64 \<Rightarrow> u64 \<Rightarrow> 'a kmem_scheme \<Rightarrow> (u64 \<times> 'a kmem_scheme) res" where
  "uvmalloc_loop kend pagetable a oldsz newsz xperm st =
     (if a < newsz
      then let (pg, st1) = kalloc st
           in if pg = 0
              then rbind (uvmdealloc kend pagetable a oldsz st1) (\<lambda>(_, st2). Inr (0, st2))
              else rbind (mappages pagetable a PGSIZE pg (PTE_R OR PTE_U OR xperm)
                       (st1\<lparr>memory := memset (memory st1) pg 0 (unat PGSIZE)\<rparr>)) (\<lambda>(r, st2).
                     if r \<noteq> 0
                     then rbind (kfree kend pg st2) (\<lambda>st3.
                            rbind (uvmdealloc kend pagetable a oldsz st3) (\<lambda>(_, st4). Inr (0, st4)))
                     else uvmalloc_loop kend pagetable (a + PGSIZE) oldsz newsz xperm st2)
      else Inr (newsz, st))"
  by pat_completeness auto
termination
  by (relation "measure (\<lambda>(kend, pagetable, a, oldsz, newsz, xperm, st). 2 ^ 64 - unat a)")
    (auto dest!: mappages_InrD PGROUNDDOWN_measure)

declare uvmalloc_loop.simps [simp del]

definition uvmalloc ::
    "u64 \<Rightarrow> u64 \<Rightarrow> u64 \<Rightarrow> u64 \<Rightarrow> u64 \<Rightarrow> 'a kmem_scheme \<Rightarrow> (u64 \<times> 'a kmem_scheme) res" where
  "uvmalloc kend pagetable oldsz newsz xperm st =
     (if newsz < oldsz then Inr (oldsz, st)
      else uvmalloc_loop kend pagetable (PGROUNDUP oldsz) (PGROUNDUP oldsz) newsz xperm st)"

text \<open>\<^verbatim>\<open>freewalk\<close> recurses as deep as the table it finds. The first argument bounds the depth; three
  is enough for every table the other routines build.\<close>

fun freewalk :: "nat \<Rightarrow> u64 \<Rightarrow> u64 \<Rightarrow> 'a kmem_scheme \<Rightarrow> 'a kmem_scheme res" where
  "freewalk 0 kend pagetable st = Inl (Undefined ''freewalk: recursion depth'')"
| "freewalk (Suc d) kend pagetable st =
     rbind (rfold (\<lambda>i st.
              let pte = load64 (memory st) (pagetable + 8 * of_nat i)
              in if pte AND PTE_V \<noteq> 0 \<and> pte AND (PTE_R OR PTE_W OR PTE_X) = 0
                 then rbind (freewalk d kend (PTE2PA pte) st) (\<lambda>st1.
                        Inr (st1\<lparr>memory := store64 (memory st1) (pagetable + 8 * of_nat i) 0\<rparr>))
                 else if pte AND PTE_V \<noteq> 0 then Inl (Panic ''freewalk: leaf'')
                 else Inr st) [0..<512] st)
       (kfree kend pagetable)"

definition uvmfree :: "u64 \<Rightarrow> u64 \<Rightarrow> u64 \<Rightarrow> 'a kmem_scheme \<Rightarrow> 'a kmem_scheme res" where
  "uvmfree kend pagetable sz st =
     rbind (if sz > 0 then uvmunmap kend pagetable 0 (PGROUNDUP sz div PGSIZE) True st else Inr st)
       (freewalk 3 kend pagetable)"

function uvmcopy_loop ::
    "u64 \<Rightarrow> u64 \<Rightarrow> u64 \<Rightarrow> u64 \<Rightarrow> u64 \<Rightarrow> 'a kmem_scheme \<Rightarrow> (int \<times> 'a kmem_scheme) res" where
  "uvmcopy_loop kend old new i sz st =
     (if i < sz
      then rbind (walk old i False st) (\<lambda>(pte, st0).
        if pte = 0 then Inl (Panic ''uvmcopy: pte should exist'')
        else let e = load64 (memory st) pte
             in if e AND PTE_V = 0 then Inl (Panic ''uvmcopy: page not present'')
                else let pa = PTE2PA e; flags = PTE_FLAGS e; (pg, st1) = kalloc st
                     in if pg = 0
                        then rbind (uvmunmap kend new 0 (i div PGSIZE) True st1) (\<lambda>st2. Inr (-1, st2))
                        else rbind (mappages new i PGSIZE pg flags
                               (st1\<lparr>memory := memmove (memory st1) pg pa (unat PGSIZE)\<rparr>)) (\<lambda>(r, st2).
                               if r \<noteq> 0
                               then rbind (kfree kend pg st2) (\<lambda>st3.
                                      rbind (uvmunmap kend new 0 (i div PGSIZE) True st3) (\<lambda>st4.
                                        Inr (-1, st4)))
                               else uvmcopy_loop kend old new (i + PGSIZE) sz st2))
      else Inr (0, st))"
  by pat_completeness auto
termination
  by (relation "measure (\<lambda>(kend, old, new, i, sz, st). 2 ^ 64 - unat i)")
    (auto dest!: walk_InrD simp: next_page MAXVA_def word_less_nat_alt)

declare uvmcopy_loop.simps [simp del]

definition uvmcopy :: "u64 \<Rightarrow> u64 \<Rightarrow> u64 \<Rightarrow> u64 \<Rightarrow> 'a kmem_scheme \<Rightarrow> (int \<times> 'a kmem_scheme) res" where
  "uvmcopy kend old new sz st = uvmcopy_loop kend old new 0 sz st"

definition uvmclear :: "u64 \<Rightarrow> u64 \<Rightarrow> 'a kmem_scheme \<Rightarrow> 'a kmem_scheme res" where
  "uvmclear pagetable va st =
     rbind (walk pagetable va False st) (\<lambda>(pte, st1).
       if pte = 0 then Inl (Panic ''uvmclear'')
       else Inr (st1\<lparr>memory := store64 (memory st1) pte (load64 (memory st1) pte AND NOT PTE_U)\<rparr>))"

section \<open>Copying between the kernel and a user address space\<close>

lemma page_rest_pos: "0 < PGSIZE - (va - PGROUNDDOWN va)"
  and page_rest_le: "unat (PGSIZE - (va - PGROUNDDOWN va)) = 4096 - unat va mod 4096"
proof -
  have "PGROUNDDOWN va \<le> va"
    by (simp add: word_le_nat_alt unat_PGROUNDDOWN)
  then have off: "unat (va - PGROUNDDOWN va) = unat va mod 4096"
    by (simp add: unat_sub unat_PGROUNDDOWN minus_div_mult_eq_mod)
  then have le: "va - PGROUNDDOWN va \<le> PGSIZE"
    by (simp add: word_le_nat_alt PGSIZE_def less_imp_le)
  with off show "unat (PGSIZE - (va - PGROUNDDOWN va)) = 4096 - unat va mod 4096"
    by (simp add: unat_sub) (simp add: PGSIZE_def)
  then show "0 < PGSIZE - (va - PGROUNDDOWN va)"
    by (simp add: word_less_nat_alt)
qed

lemma chunk_measure:
  assumes "0 < (len :: u64)" and "n0 = PGSIZE - (va - PGROUNDDOWN va)" and "n = (if n0 > len then len else n0)"
  shows "unat (len - n) < unat len"
  using assms page_rest_pos [of va] by (auto simp: word_less_nat_alt unat_sub word_le_nat_alt not_less)

function copyout ::
    "u64 \<Rightarrow> u64 \<Rightarrow> u64 \<Rightarrow> u64 \<Rightarrow> 'a kmem_scheme \<Rightarrow> (int \<times> 'a kmem_scheme) res" where
  "copyout pagetable dstva src len st =
     (if len > 0
      then let va0 = PGROUNDDOWN dstva
           in rbind (walkaddr pagetable va0 st) (\<lambda>pa0.
                if pa0 = 0 then Inr (-1, st)
                else let n0 = PGSIZE - (dstva - va0);
                         n = (if n0 > len then len else n0);
                         st1 = st\<lparr>memory := memmove (memory st) (pa0 + (dstva - va0)) src (unat n)\<rparr>
                     in copyout pagetable (va0 + PGSIZE) (src + n) (len - n) st1)
      else Inr (0, st))"
  by pat_completeness auto
termination
  by (relation "measure (\<lambda>(pagetable, dstva, src, len, st). unat len)")
    (simp, simp only: in_measure prod.case, erule chunk_measure [OF _ refl refl])

function copyin ::
    "u64 \<Rightarrow> u64 \<Rightarrow> u64 \<Rightarrow> u64 \<Rightarrow> 'a kmem_scheme \<Rightarrow> (int \<times> 'a kmem_scheme) res" where
  "copyin pagetable dst srcva len st =
     (if len > 0
      then let va0 = PGROUNDDOWN srcva
           in rbind (walkaddr pagetable va0 st) (\<lambda>pa0.
                if pa0 = 0 then Inr (-1, st)
                else let n0 = PGSIZE - (srcva - va0);
                         n = (if n0 > len then len else n0);
                         st1 = st\<lparr>memory := memmove (memory st) dst (pa0 + (srcva - va0)) (unat n)\<rparr>
                     in copyin pagetable (dst + n) (va0 + PGSIZE) (len - n) st1)
      else Inr (0, st))"
  by pat_completeness auto
termination
  by (relation "measure (\<lambda>(pagetable, dst, srcva, len, st). unat len)")
    (simp, simp only: in_measure prod.case, erule chunk_measure [OF _ refl refl])

text \<open>The inner loop of \<^verbatim>\<open>copyinstr\<close> over one page: it returns the memory, whether it met the
  terminator, the advanced destination and what is left of \<^verbatim>\<open>max\<close>.\<close>

fun copyinstr_page :: "mem \<Rightarrow> u64 \<Rightarrow> u64 \<Rightarrow> nat \<Rightarrow> u64 \<Rightarrow> mem \<times> bool \<times> u64 \<times> u64" where
  "copyinstr_page m p dst 0 max_n = (m, False, dst, max_n)"
| "copyinstr_page m p dst (Suc n) max_n =
     (if m p = 0 then (m(dst := 0), True, dst, max_n)
      else copyinstr_page (m(dst := m p)) (p + 1) (dst + 1) n (max_n - 1))"

lemma copyinstr_page_max:
  "copyinstr_page m p dst n max_n = (m', False, dst', max_n') \<Longrightarrow>
     max_n' = max_n - of_nat n \<and> dst' = dst + of_nat n"
proof (induction m p dst n max_n rule: copyinstr_page.induct)
  case (2 m p dst n max_n)
  then show ?case by (simp add: fun_upd_def split: if_splits)
qed auto

function copyinstr_loop ::
    "u64 \<Rightarrow> u64 \<Rightarrow> u64 \<Rightarrow> u64 \<Rightarrow> bool \<Rightarrow> 'a kmem_scheme \<Rightarrow> (int \<times> 'a kmem_scheme) res" where
  "copyinstr_loop pagetable dst srcva max_n got_null st =
     (if \<not> got_null \<and> max_n > 0
      then let va0 = PGROUNDDOWN srcva
           in rbind (walkaddr pagetable va0 st) (\<lambda>pa0.
                if pa0 = 0 then Inr (-1, st)
                else let n0 = PGSIZE - (srcva - va0);
                         n = (if n0 > max_n then max_n else n0);
                         (m, got, dst', max_n') =
                           copyinstr_page (memory st) (pa0 + (srcva - va0)) dst (unat n) max_n
                     in copyinstr_loop pagetable dst' (va0 + PGSIZE) max_n' got (st\<lparr>memory := m\<rparr>))
      else Inr (if got_null then 0 else -1, st))"
  by pat_completeness auto
termination
proof (relation "measure (\<lambda>(pagetable, dst, srcva, max_n, got, st). if got then 0 else Suc (unat max_n))",
       goal_cases)
  case (2 pagetable dst srcva max_n got_null st va0 pa0 n0 n t m u got v dst' max_n')
  show ?case
  proof (cases got)
    case False
    have "copyinstr_page (memory st) (pa0 + (srcva - va0)) dst (unat n) max_n = (m, False, dst', max_n')"
      using 2(7-10) False by simp
    then have "max_n' = max_n - n" using copyinstr_page_max by fastforce
    moreover have "unat (max_n - n) < unat max_n"
      using 2(1) by (intro chunk_measure [of max_n n0 srcva]) (simp_all add: 2(2,5,6))
    ultimately show ?thesis using False 2(1) by simp
  qed (use 2 in simp)
qed simp

definition copyinstr :: "u64 \<Rightarrow> u64 \<Rightarrow> u64 \<Rightarrow> u64 \<Rightarrow> 'a kmem_scheme \<Rightarrow> (int \<times> 'a kmem_scheme) res" where
  "copyinstr pagetable dst srcva max_n st = copyinstr_loop pagetable dst srcva max_n False st"

declare copyout.simps [simp del] copyin.simps [simp del] copyinstr_loop.simps [simp del]

section \<open>The kernel page table\<close>

abbreviation UART0 :: u64 where "UART0 \<equiv> 0x10000000"
abbreviation VIRTIO0 :: u64 where "VIRTIO0 \<equiv> 0x10001000"
abbreviation PLIC :: u64 where "PLIC \<equiv> 0x0c000000"
definition NPROC :: nat where "NPROC = 64"

definition proc_mapstacks :: "u64 \<Rightarrow> 'a kmem_scheme \<Rightarrow> 'a kmem_scheme res" where
  "proc_mapstacks kpgtbl =
     rfold (\<lambda>i st.
       let (pa, st1) = kalloc st
       in if pa = 0 then Inl (Panic ''kalloc'')
          else kvmmap kpgtbl (KSTACK i) pa PGSIZE (PTE_R OR PTE_W) st1) [0..<NPROC]"

text \<open>\<^verbatim>\<open>etext\<close> and \<^verbatim>\<open>trampoline\<close> are addresses the linker script provides.\<close>

definition kvmmake :: "u64 \<Rightarrow> u64 \<Rightarrow> 'a kmem_scheme \<Rightarrow> (u64 \<times> 'a kmem_scheme) res" where
  "kvmmake etext trampoline st0 =
     (let (kpgtbl, st1) = kalloc st0
      in if kpgtbl = 0 then Inl (Undefined ''kvmmake: null page'')
         else rbind (kvmmap kpgtbl UART0 UART0 PGSIZE (PTE_R OR PTE_W)
                       (st1\<lparr>memory := memset (memory st1) kpgtbl 0 (unat PGSIZE)\<rparr>)) (\<lambda>st.
              rbind (kvmmap kpgtbl VIRTIO0 VIRTIO0 PGSIZE (PTE_R OR PTE_W) st) (\<lambda>st.
              rbind (kvmmap kpgtbl PLIC PLIC 0x400000 (PTE_R OR PTE_W) st) (\<lambda>st.
              rbind (kvmmap kpgtbl KERNBASE KERNBASE (etext - KERNBASE) (PTE_R OR PTE_X) st) (\<lambda>st.
              rbind (kvmmap kpgtbl etext etext (PHYSTOP - etext) (PTE_R OR PTE_W) st) (\<lambda>st.
              rbind (kvmmap kpgtbl TRAMPOLINE trampoline PGSIZE (PTE_R OR PTE_X) st) (\<lambda>st.
              rbind (proc_mapstacks kpgtbl st) (\<lambda>st.
                Inr (kpgtbl, st)))))))))"

end
