(* ===== verification/PageTable.thy ===== *)
theory PageTable
  imports Vm
begin

text \<open>
  What the routines of \<^verbatim>\<open>kernel/vm.c\<close> do to a page table. A page table is described by the map from
  (level, virtual prefix) to the physical page that holds the table for that prefix; the representation
  predicate relates the map to memory and keeps the tables apart from each other and from the free
  pages. Over it, \<^verbatim>\<open>walk\<close> finds or creates the leaf entry of an address, \<^verbatim>\<open>mappages\<close> changes the entries of
  the requested pages and no other, and nothing but page-table pages and free pages is written.
\<close>

section \<open>Entries of page-table pages\<close>

lemma load_bytes_zero: "(\<And>b. m b = 0) \<Longrightarrow> load_bytes m a k = 0"
  by (induction k arbitrary: a) simp_all

lemma page_aligned_obtain:
  assumes "page_aligned p"
  obtains P where "unat p = 4096 * P" and "4096 * P + 4096 \<le> 2 ^ 64"
proof -
  obtain P where P: "unat p = 4096 * P"
    using assms unfolding page_aligned_def by (metis mult_div_mod_eq add.right_neutral)
  have "unat p < 2 ^ 64" using unsigned_less [of p, where 'a = nat] by simp
  with P have "P < 4503599627370496" by simp
  then have "4096 * P + 4096 \<le> 2 ^ 64" by simp
  with P show thesis by (rule that)
qed

lemma in_range_nowrap:
  assumes "unat a + n \<le> 2 ^ 64"
  shows "in_range b a n \<longleftrightarrow> unat a \<le> unat b \<and> unat b < unat a + n"
  using assms unsigned_less [of b, where 'a = nat]
  by (auto simp: in_range_def unat_sub_if' split: if_splits)

lemma slot_range:
  assumes "page_aligned p" and "i < 512"
  shows "in_range b (p + 8 * of_nat i) 8 \<longleftrightarrow> unat b div 8 = unat p div 8 + i"
proof -
  obtain P where P: "unat p = 4096 * P" "4096 * P + 4096 \<le> 2 ^ 64"
    using assms(1) by (rule page_aligned_obtain)
  have "unat (8 * of_nat i :: u64) = 8 * i"
    using assms(2) by (simp add: unat_word_ariths unat_of_nat_small)
  then have s: "unat (p + 8 * of_nat i) = 8 * (512 * P + i)"
    using P assms(2) by (simp add: unat_word_ariths)
  then have "in_range b (p + 8 * of_nat i) 8 \<longleftrightarrow> 8 * (512 * P + i) \<le> unat b \<and> unat b < 8 * (512 * P + i) + 8"
    using P assms(2) by (subst in_range_nowrap) auto
  also have "\<dots> \<longleftrightarrow> unat b div 8 = 512 * P + i" by (simp add: div_eq_iff_range)
  finally show ?thesis by (simp add: P)
qed

lemma slot_eq_iff:
  assumes "page_aligned p" and "page_aligned q" and "i < 512" and "j < 512"
  shows "unat p div 8 + i = unat q div 8 + j \<longleftrightarrow> p = q \<and> i = j"
proof -
  obtain P Q where PQ: "unat p = 4096 * P" "unat q = 4096 * Q"
    using assms(1,2) page_aligned_obtain by metis
  have "512 * P + i = 512 * Q + j \<longleftrightarrow> P = Q \<and> i = j"
    using assms(3,4) by (rule digit_eq_iff)
  then show ?thesis by (simp add: PQ word_unat_eq_iff)
qed

lemma slot_in_page:
  assumes "page_aligned p" and "i < 512" and "in_range b (p + 8 * of_nat i) 8"
  shows "in_range b p 4096"
proof -
  obtain P where P: "unat p = 4096 * P" "4096 * P + 4096 \<le> 2 ^ 64"
    using assms(1) by (rule page_aligned_obtain)
  have "unat b div 8 = 512 * P + i" using assms slot_range P by simp
  then have "4096 * P \<le> unat b \<and> unat b < 4096 * P + 4096"
    using assms(2) by (simp add: div_eq_iff_range)
  with P show ?thesis by (subst in_range_nowrap) auto
qed

lemma load_slot_store:
  assumes "page_aligned p" and "page_aligned q" and "i < 512" and "j < 512"
  shows "load64 (store64 m (p + 8 * of_nat i) v) (q + 8 * of_nat j) =
           (if p = q \<and> i = j then v else load64 m (q + 8 * of_nat j))"
proof (cases "p = q \<and> i = j")
  case False
  have "load64 (store64 m (p + 8 * of_nat i) v) (q + 8 * of_nat j) = load64 m (q + 8 * of_nat j)"
    using False assms by (intro load64_cong store64_frame) (metis slot_range slot_eq_iff)
  with False show ?thesis by auto
qed simp

lemma load_slot_zero_page:
  assumes "page_aligned p" and "j < 512"
  shows "load64 (memset m p 0 4096) (p + 8 * of_nat j) = 0"
proof -
  have "load64 (memset m p 0 4096) (p + 8 * of_nat j) = load64 (\<lambda>_. 0) (p + 8 * of_nat j)"
    using slot_in_page [OF assms] by (intro load64_cong) (simp add: memset_eq)
  then show ?thesis by (simp add: load64_def load_bytes_zero)
qed

lemma slot_page_frame:
  assumes "page_aligned p" and "i < 512" and "\<not> in_range b p 4096"
  shows "store64 m (p + 8 * of_nat i) v b = m b"
  using assms slot_in_page by (intro store64_frame) blast

lemma load_slot_frame:
  assumes "page_aligned q" and "j < 512" and "\<And>b. in_range b q 4096 \<Longrightarrow> m' b = m b"
  shows "load64 m' (q + 8 * of_nat j) = load64 m (q + 8 * of_nat j)"
  using assms slot_in_page by (intro load64_cong) blast

lemma page_ok_aligned: "page_ok kend p \<Longrightarrow> page_aligned p"
  by (simp add: page_ok_def)

lemma PTE_V_1: "PTE_V = 1"
  by (simp add: PTE_V_def)

lemma flags_V: "take_bit 10 (PTE_V :: u64) = PTE_V"
  by (simp add: PTE_V_1)

lemma table_entry:
  assumes "page_aligned p"
  shows "PTE2PA (PA2PTE p OR PTE_V) = p" and "(PA2PTE p OR PTE_V) AND PTE_V \<noteq> 0"
    and "PTE_FLAGS (PA2PTE p OR PTE_V) = PTE_V"
proof -
  show "PTE2PA (PA2PTE p OR PTE_V) = p"
    using assms flags_V by (intro PTE2PA_PA2PTE) (simp_all add: page_aligned_take_bit)
  show "PTE_FLAGS (PA2PTE p OR PTE_V) = PTE_V"
    using flags_V by (rule PTE_FLAGS_PA2PTE)
  have "bit ((PA2PTE p OR PTE_V) AND PTE_V) 0" by (simp add: PTE_V_1 bit_simps)
  then show "(PA2PTE p OR PTE_V) AND PTE_V \<noteq> 0" by auto
qed

section \<open>Prefixes of virtual addresses\<close>

text \<open>The table of level \<open>l\<close> that translates \<open>va\<close> is the one for the bits of \<open>va\<close> above its index bits.\<close>

definition vkey :: "nat \<Rightarrow> u64 \<Rightarrow> nat" where
  "vkey l va = unat va div 2 ^ (21 + 9 * l)"

lemma vkey_step: "vkey l va = 512 * vkey (Suc l) va + unat (PX (Suc l) va)"
proof -
  have "vkey (Suc l) va = vkey l va div 512"
    by (simp add: vkey_def power_add div_mult2_eq mult.commute)
  moreover have "unat (PX (Suc l) va) = vkey l va mod 512"
    by (simp add: unat_PX vkey_def)
  ultimately show ?thesis by simp
qed

lemma PX_less: "unat (PX l va) < 512"
  by (simp add: unat_PX)

lemma vkey_2: "va < MAXVA \<Longrightarrow> vkey 2 va = 0"
  by (simp add: vkey_def MAXVA_def word_less_nat_alt)

lemma same_page_iff:
  "vkey 0 a = vkey 0 b \<and> PX 0 a = PX 0 b \<longleftrightarrow> PGROUNDDOWN a = PGROUNDDOWN b"
proof -
  have d: "unat v div 4096 = 512 * vkey 0 v + unat (PX 0 v)" for v
  proof -
    have "vkey 0 v = unat v div 4096 div 512" by (simp add: vkey_def div_mult2_eq [symmetric])
    then show ?thesis by (simp add: unat_PX)
  qed
  have "unat a div 4096 = unat b div 4096 \<longleftrightarrow> vkey 0 a = vkey 0 b \<and> unat (PX 0 a) = unat (PX 0 b)"
    unfolding d by (rule digit_eq_iff) (rule PX_less)+
  then show ?thesis by (simp add: word_unat_eq_iff unat_PGROUNDDOWN)
qed

section \<open>The representation of a page table\<close>

type_synonym tables = "nat \<times> nat \<Rightarrow> u64 option"

definition tables_ok :: "u64 \<Rightarrow> u64 \<Rightarrow> tables \<Rightarrow> bool" where
  "tables_ok kend pt G \<longleftrightarrow>
     G (2, 0) = Some pt \<and> inj_on G (dom G)
     \<and> (\<forall>l k p. G (l, k) = Some p \<longrightarrow>
          page_ok kend p \<and> (l = 2 \<and> k = 0 \<or> l < 2 \<and> G (Suc l, k div 512) \<noteq> None))"

definition entries_ok :: "tables \<Rightarrow> mem \<Rightarrow> bool" where
  "entries_ok G m \<longleftrightarrow>
     (\<forall>l k p i. G (Suc l, k) = Some p \<longrightarrow> i < 512 \<longrightarrow>
        (case G (l, 512 * k + i) of
           None \<Rightarrow> load64 m (p + 8 * of_nat i) AND PTE_V = 0
         | Some q \<Rightarrow> load64 m (p + 8 * of_nat i) = PA2PTE q OR PTE_V))"

definition vm_rep :: "u64 \<Rightarrow> u64 \<Rightarrow> tables \<Rightarrow> 'a kmem_scheme \<Rightarrow> u64 list \<Rightarrow> bool" where
  "vm_rep kend pt G st ps \<longleftrightarrow>
     tables_ok kend pt G \<and> entries_ok G (memory st) \<and> kmem_rep kend st ps \<and> ran G \<inter> set ps = {}"

text \<open>The leaf entry of an address, 0 where no leaf table exists.\<close>

definition pte_of :: "tables \<Rightarrow> mem \<Rightarrow> u64 \<Rightarrow> u64" where
  "pte_of G m va =
     (case G (0, vkey 0 va) of None \<Rightarrow> 0 | Some p \<Rightarrow> load64 m (p + 8 * PX 0 va))"

lemma tables_okD:
  assumes "tables_ok kend pt G" and "G (l, k) = Some p"
  shows "page_ok kend p" and "page_aligned p" and "l \<le> 2"
    and "l < 2 \<Longrightarrow> \<exists>q. G (Suc l, k div 512) = Some q"
  using assms unfolding tables_ok_def page_ok_def by fastforce+

lemma tables_inj:
  assumes "tables_ok kend pt G" and "G x = Some p" and "G y = Some p"
  shows "x = y"
  using assms unfolding tables_ok_def inj_on_def dom_def by (metis (mono_tags) mem_Collect_eq option.distinct(1))

lemma entries_okD:
  assumes "entries_ok G m" and "G (Suc l, vkey (Suc l) va) = Some p"
  shows "case G (l, vkey l va) of
           None \<Rightarrow> load64 m (p + 8 * PX (Suc l) va) AND PTE_V = 0
         | Some q \<Rightarrow> load64 m (p + 8 * PX (Suc l) va) = PA2PTE q OR PTE_V"
proof -
  have "of_nat (unat (PX (Suc l) va)) = PX (Suc l) va" by simp
  with assms PX_less [of "Suc l" va] show ?thesis
    unfolding entries_ok_def vkey_step [of l va] by metis
qed

lemma entries_okD':
  "entries_ok G m \<Longrightarrow> G (Suc l, k) = Some p \<Longrightarrow> i < 512 \<Longrightarrow>
     case G (l, 512 * k + i) of
       None \<Rightarrow> load64 m (p + 8 * of_nat i) AND PTE_V = 0
     | Some q \<Rightarrow> load64 m (p + 8 * of_nat i) = PA2PTE q OR PTE_V"
  unfolding entries_ok_def by blast

lemma no_table_below:
  assumes "tables_ok kend pt G" and "G (l, vkey l va) = None" and "l \<le> 2"
  shows "G (0, vkey 0 va) = None"
  using assms(2,3)
proof (induction l)
  case (Suc l)
  have "vkey l va div 512 = vkey (Suc l) va"
    by (simp add: vkey_step [of l] PX_less)
  then have "G (l, vkey l va) = None"
    using Suc.prems tables_okD(4) [OF assms(1), of l "vkey l va"] by (cases "G (l, vkey l va)") auto
  with Suc show ?case by simp
qed simp

lemma walk_from_lookup:
  assumes "tables_ok kend pt G" and "entries_ok G (memory st)" and "G (l, vkey l va) = Some p"
  shows "walk_from l p va False st =
           ((case G (0, vkey 0 va) of None \<Rightarrow> 0 | Some q \<Rightarrow> q + 8 * PX 0 va), st)"
  using assms(3)
proof (induction l arbitrary: p)
  case (Suc l)
  have l: "l \<le> 2" using tables_okD(3) [OF assms(1) Suc.prems] by simp
  note entry = entries_okD [OF assms(2) Suc.prems]
  show ?case
  proof (cases "G (l, vkey l va)")
    case None
    with entry no_table_below [OF assms(1) None l] show ?thesis by simp
  next
    case (Some q)
    have "page_aligned q" using tables_okD [OF assms(1) Some] by simp
    with entry Some table_entry [of q] Suc.IH [OF Some] show ?thesis by simp
  qed
qed simp

text \<open>What a lookup without allocation finds, in terms of the code's own \<^verbatim>\<open>walk\<close>.\<close>

definition leaf_pte :: "u64 \<Rightarrow> u64 \<Rightarrow> 'a kmem_scheme \<Rightarrow> u64" where
  "leaf_pte pt va st =
     (let pte = fst (walk_from 2 pt va False st) in if pte = 0 then 0 else load64 (memory st) pte)"

lemma slot_nonzero:
  assumes "KERNBASE \<le> kend" and "page_ok kend p"
  shows "p + 8 * PX l va \<noteq> 0"
proof -
  have "unat p + 8 * unat (PX l va) < 2 ^ 64" "0 < unat p"
    using assms PX_less [of l va]
    by (auto simp: page_ok_def word_less_nat_alt word_le_nat_alt PHYSTOP_def KERNBASE_def)
  moreover from this have "unat (p + 8 * PX l va) = unat p + 8 * unat (PX l va)"
    by (simp add: unat_word_ariths)
  ultimately show ?thesis by (metis add_is_0 less_numeral_extra(3) unsigned_0)
qed

lemma vm_rep_KERNBASE: "vm_rep kend pt G st ps \<Longrightarrow> KERNBASE \<le> kend"
  by (simp add: vm_rep_def kmem_rep_def)

lemma vm_walk:
  assumes "vm_rep kend pt G st ps" and "va < MAXVA"
  shows "walk pt va False st =
     Inr ((case G (0, vkey 0 va) of None \<Rightarrow> 0 | Some q \<Rightarrow> q + 8 * PX 0 va), st)"
  using assms walk_from_lookup [of kend pt G st 2 va pt]
  by (simp add: walk_def vm_rep_def tables_ok_def vkey_2 not_le [symmetric])

lemma leaf_pte_eq:
  assumes "vm_rep kend pt G st ps" and "va < MAXVA"
  shows "leaf_pte pt va st = pte_of G (memory st) va"
proof -
  have "walk_from 2 pt va False st = ((case G (0, vkey 0 va) of None \<Rightarrow> 0 | Some q \<Rightarrow> q + 8 * PX 0 va), st)"
    using vm_walk [OF assms] assms(2) by (simp add: walk_def not_le [symmetric])
  moreover have "q + 8 * PX 0 va \<noteq> 0" if "G (0, vkey 0 va) = Some q" for q
    using slot_nonzero [OF vm_rep_KERNBASE [OF assms(1)]] tables_okD(1) that assms(1)
    unfolding vm_rep_def by blast
  ultimately show ?thesis by (auto simp: leaf_pte_def pte_of_def split: option.splits)
qed

section \<open>Adding a table\<close>

lemma kmem_rep_cong:
  assumes "kmem_rep kend st ps" and "freelist st' = freelist st"
    and "\<And>p b. p \<in> set ps \<Longrightarrow> in_range b p 4096 \<Longrightarrow> memory st' b = memory st b"
  shows "kmem_rep kend st' ps"
  using assms free_chain_cong [of ps "memory st'" "memory st" "freelist st"]
  by (simp add: kmem_rep_def)

text \<open>The change an allocating walk makes: new tables come from the front of the free list, nothing else
  is written.\<close>

definition vm_ext ::
    "u64 \<Rightarrow> u64 \<Rightarrow> tables \<Rightarrow> 'a kmem_scheme \<Rightarrow> u64 list \<Rightarrow> tables \<Rightarrow> 'a kmem_scheme \<Rightarrow> u64 list \<Rightarrow> bool" where
  "vm_ext kend pt G st ps G' st' ps' \<longleftrightarrow>
     vm_rep kend pt G' st' ps' \<and> G \<subseteq>\<^sub>m G' \<and> kmem.more st' = kmem.more st
     \<and> (\<exists>used. ps = used @ ps' \<and> ran G' = ran G \<union> set used)
     \<and> (\<forall>b. (\<forall>p \<in> ran G'. \<not> in_range b p 4096) \<longrightarrow> memory st' b = memory st b)"

lemma vm_ext_refl: "vm_rep kend pt G st ps \<Longrightarrow> vm_ext kend pt G st ps G st ps"
  by (simp add: vm_ext_def)

lemma vm_ext_trans:
  assumes "vm_ext kend pt G st ps G1 st1 ps1" and "vm_ext kend pt G1 st1 ps1 G2 st2 ps2"
  shows "vm_ext kend pt G st ps G2 st2 ps2"
proof -
  obtain u1 u2 where "ps = u1 @ ps1" "ps1 = u2 @ ps2" "ran G1 = ran G \<union> set u1" "ran G2 = ran G1 \<union> set u2"
    using assms unfolding vm_ext_def by blast
  then have "ps = (u1 @ u2) @ ps2" "ran G2 = ran G \<union> set (u1 @ u2)" "ran G1 \<subseteq> ran G2" by auto
  moreover have "memory st2 b = memory st b" if "\<forall>p \<in> ran G2. \<not> in_range b p 4096" for b
  proof -
    have "memory st2 b = memory st1 b" using assms(2) that by (simp add: vm_ext_def)
    also have "\<forall>p \<in> ran G1. \<not> in_range b p 4096" using that \<open>ran G1 \<subseteq> ran G2\<close> by blast
    then have "memory st1 b = memory st b" using assms(1) by (simp add: vm_ext_def)
    finally show ?thesis .
  qed
  moreover have "G \<subseteq>\<^sub>m G2" "kmem.more st2 = kmem.more st" "vm_rep kend pt G2 st2 ps2"
    using assms map_le_trans by (auto simp: vm_ext_def)
  ultimately show ?thesis unfolding vm_ext_def by blast
qed

lemma vm_rep_pages:
  assumes "vm_rep kend pt G st ps" and "G x = Some p"
  shows "page_ok kend p" and "page_aligned p" and "p \<notin> set ps"
  using assms tables_okD [of kend pt G "fst x" "snd x" p] ranI [of G x p] by (auto simp: vm_rep_def)

lemma tables_ok_add:
  assumes "tables_ok kend pt G" and "G (Suc l, k) = Some p" and "i < 512"
    and "G (l, 512 * k + i) = None" and "page_ok kend pg" and "pg \<notin> ran G"
  shows "tables_ok kend pt (G((l, 512 * k + i) \<mapsto> pg))"
proof -
  have l: "Suc l \<le> 2" using tables_okD(3) [OF assms(1,2)] .
  have "inj_on (G((l, 512 * k + i) \<mapsto> pg)) (dom (G((l, 512 * k + i) \<mapsto> pg)))"
    using assms(1,4,6) unfolding tables_ok_def inj_on_def dom_def ran_def by (auto; metis)
  moreover have "(512 * k + i) div 512 = k" using assms(3) by simp
  ultimately show ?thesis using assms l unfolding tables_ok_def by auto
qed

lemma table_add:
  fixes st st1 :: "'a kmem_scheme"
  assumes rep: "vm_rep kend pt G st (pg # ps)" and p: "G (Suc l, k) = Some p" and i: "i < 512"
    and none: "G (l, 512 * k + i) = None" and alloc: "kalloc st = (pg, st1)"
  defines "st' \<equiv> st1\<lparr>memory := store64 (memset (memory st1) pg 0 4096) (p + 8 * of_nat i) (PA2PTE pg OR PTE_V)\<rparr>"
    and "G' \<equiv> G((l, 512 * k + i) \<mapsto> pg)"
  shows "vm_ext kend pt G st (pg # ps) G' st' ps"
    and "pte_of G' (memory st') va = pte_of G (memory st) va"
proof -
  have km: "kmem_rep kend st (pg # ps)" and tabs: "tables_ok kend pt G" and ent: "entries_ok G (memory st)"
    and fresh: "pg \<notin> ran G" "ran G \<inter> set ps = {}"
    using rep by (auto simp: vm_rep_def)
  from kalloc_pop [OF km] alloc have st1: "kmem_rep kend st1 ps"
    "memory st1 = (\<lambda>b. if in_range b pg 4096 then 5 else memory st b)" by auto
  have pg: "page_ok kend pg" "page_aligned pg" "pg \<notin> set ps"
    using km by (auto simp: kmem_rep_def page_ok_def)
  have pal: "page_aligned p" "p \<noteq> pg" "p \<notin> set ps"
    using vm_rep_pages [OF rep p] by auto
  have frame: "memory st' b = memory st b" if "\<not> in_range b pg 4096" "\<not> in_range b p 4096" for b
    using that by (simp add: st'_def slot_page_frame [OF pal(1) i] memset_eq st1)
  have load: "load64 (memory st') (q + 8 * of_nat j) =
      (if q = p \<and> j = i then PA2PTE pg OR PTE_V else if q = pg then 0
       else load64 (memory st) (q + 8 * of_nat j))" if "page_aligned q" "j < 512" for q j
  proof (cases "q = pg")
    case True
    then show ?thesis using pal that i pg
      by (simp add: st'_def load_slot_store load_slot_zero_page)
  next
    case False
    have "load64 (memset (memory st1) pg 0 4096) (q + 8 * of_nat j) = load64 (memory st) (q + 8 * of_nat j)"
      using that False pg other_page by (intro load_slot_frame) (auto simp: memset_eq st1)
    with False show ?thesis using pal that i by (simp add: st'_def load_slot_store)
  qed
  have km': "kmem_rep kend st' ps"
  proof (rule kmem_rep_cong [OF st1(1)])
    show "freelist st' = freelist st1" by (simp add: st'_def)
    fix q b assume q: "q \<in> set ps" "in_range b q 4096"
    then have "page_aligned q" using st1(1) by (auto simp: kmem_rep_def page_ok_def)
    with q pg pal have "\<not> in_range b pg 4096" "\<not> in_range b p 4096" using other_page by blast+
    with frame show "memory st' b = memory st1 b" by (simp add: st1)
  qed
  have tabs': "tables_ok kend pt G'"
    unfolding G'_def by (rule tables_ok_add [OF tabs p i none pg(1) fresh(1)])
  have ents': "entries_ok G' (memory st')"
    unfolding entries_ok_def
  proof (intro allI impI)
    fix l' k' j :: nat and p' assume p': "G' (Suc l', k') = Some p'" and j: "j < 512"
    show "case G' (l', 512 * k' + j) of None \<Rightarrow> load64 (memory st') (p' + 8 * of_nat j) AND PTE_V = 0
          | Some q \<Rightarrow> load64 (memory st') (p' + 8 * of_nat j) = PA2PTE q OR PTE_V"
    proof (cases "(Suc l', k') = (l, 512 * k + i)")
      case True
      have "G (l', 512 * k' + j) = None"
        using tables_okD(3,4) [OF tabs, of l' "512 * k' + j"] tables_okD(3) [OF tabs p] True none j
        by (cases "G (l', 512 * k' + j)") auto
      moreover have "p' = pg" "G' (l', 512 * k' + j) = G (l', 512 * k' + j)"
        using True p' by (auto simp: G'_def)
      ultimately show ?thesis using pal pg j by (simp add: load)
    next
      case False
      then have g: "G (Suc l', k') = Some p'" using p' by (auto simp: G'_def)
      have p'al: "page_aligned p'" "p' \<noteq> pg" using vm_rep_pages [OF rep g] by auto
      have key: "p' = p \<and> j = i \<longleftrightarrow> (l', 512 * k' + j) = (l, 512 * k + i)"
        using tables_inj [OF tabs g, of "(Suc l, k)"] p g digit_eq_iff [OF j i] by auto
      show ?thesis
        using entries_okD' [OF ent g j] key p'al by (auto simp: load j G'_def split: option.splits)
    qed
  qed
  have ran': "ran G' = insert pg (ran G)" using none by (simp add: G'_def)
  show "vm_ext kend pt G st (pg # ps) G' st' ps"
    unfolding vm_ext_def vm_rep_def
  proof (intro conjI)
    show "G \<subseteq>\<^sub>m G'" using none by (auto simp: G'_def map_le_def)
    show "kmem.more st' = kmem.more st" using alloc by (auto simp: st'_def kalloc_def Let_def split: if_splits)
    show "\<exists>used. pg # ps = used @ ps \<and> ran G' = ran G \<union> set used" using ran' by (intro exI [of _ "[pg]"]) simp
    show "\<forall>b. (\<forall>p \<in> ran G'. \<not> in_range b p 4096) \<longrightarrow> memory st' b = memory st b"
      using frame p ran' by (auto intro: ranI)
  qed (use tabs' ents' km' ran' fresh pg in auto)
  show "pte_of G' (memory st') va = pte_of G (memory st) va"
  proof -
    have px: "of_nat (unat (PX 0 va)) = PX 0 va" "unat (PX 0 va) < 512" by (simp_all add: PX_less)
    show ?thesis
    proof (cases "(0, vkey 0 va) = (l, 512 * k + i)")
      case True
      then show ?thesis using none load [OF pg(2) px(2)] pal by (auto simp: pte_of_def G'_def px)
    next
      case False
      then have same: "G' (0, vkey 0 va) = G (0, vkey 0 va)" by (auto simp: G'_def)
      show ?thesis
      proof (cases "G (0, vkey 0 va)")
        case (Some q)
        have "q \<noteq> p" "q \<noteq> pg" "page_aligned q"
          using tables_inj [OF tabs Some] p vm_rep_pages [OF rep Some] by auto
        then show ?thesis using load [of q "unat (PX 0 va)"] px Some same by (simp add: pte_of_def)
      qed (simp add: pte_of_def same)
    qed
  qed
qed

section \<open>The allocating walk\<close>

text \<open>A walk that may allocate finds the leaf entry in an extended table or returns the null pointer when
  the free list is exhausted; either way every leaf entry has kept its value.\<close>

definition walk_result :: "tables \<Rightarrow> u64 \<Rightarrow> u64 list \<Rightarrow> u64 \<Rightarrow> bool" where
  "walk_result G' va ps' a \<longleftrightarrow>
     (case G' (0, vkey 0 va) of None \<Rightarrow> a = 0 \<and> ps' = [] | Some q \<Rightarrow> a = q + 8 * PX 0 va)"

lemma walk_from_alloc:
  assumes "vm_rep kend pt G st ps" and "G (l, vkey l va) = Some p"
  shows "\<exists>a st' G' ps'. walk_from l p va True st = (a, st') \<and> vm_ext kend pt G st ps G' st' ps'
           \<and> (\<forall>v. pte_of G' (memory st') v = pte_of G (memory st) v) \<and> walk_result G' va ps' a"
  using assms
proof (induction l arbitrary: p G st ps)
  case 0
  then show ?case
    by (intro exI [of _ "p + 8 * PX 0 va"] exI [of _ st] exI [of _ G] exI [of _ ps])
      (simp add: walk_result_def vm_ext_refl)
next
  case (Suc l)
  have tabs: "tables_ok kend pt G" and ent: "entries_ok G (memory st)" and km: "kmem_rep kend st ps"
    using Suc.prems(1) by (simp_all add: vm_rep_def)
  have l: "l \<le> 2" using tables_okD(3) [OF tabs Suc.prems(2)] by simp
  note entry = entries_okD [OF ent Suc.prems(2)]
  show ?case
  proof (cases "G (l, vkey l va)")
    case (Some q)
    have "page_aligned q" using tables_okD [OF tabs Some] by simp
    with entry Some table_entry [of q] Suc.IH [OF Suc.prems(1) Some] show ?thesis by simp
  next
    case None
    note below = no_table_below [OF tabs None l]
    show ?thesis
    proof (cases ps)
      case Nil
      then have "kalloc st = (0, st)" using km kalloc_empty by blast
      with entry None below Nil Suc.prems(1) vm_ext_refl show ?thesis
        by (intro exI [of _ 0] exI [of _ st] exI [of _ G] exI [of _ ps]) (simp add: walk_result_def)
    next
      case (Cons pg ps1)
      obtain st1 where st1: "kalloc st = (pg, st1)" using kalloc_pop km Cons by blast
      have pg0: "pg \<noteq> 0" using km Cons page_ok_nonzero by (auto simp: kmem_rep_def)
      let ?i = "unat (PX (Suc l) va)"
      let ?st2 = "st1\<lparr>memory := store64 (memset (memory st1) pg 0 4096) (p + 8 * of_nat ?i) (PA2PTE pg OR PTE_V)\<rparr>"
      let ?G2 = "G((l, 512 * vkey (Suc l) va + ?i) \<mapsto> pg)"
      have none: "G (l, 512 * vkey (Suc l) va + ?i) = None" using None vkey_step [of l va] by simp
      note add = table_add [OF Suc.prems(1) [unfolded Cons] Suc.prems(2) PX_less none st1]
      have key: "?G2 (l, vkey l va) = Some pg" using vkey_step [of l va] by simp
      have "vm_rep kend pt ?G2 ?st2 ps1" using add(1) by (simp add: vm_ext_def)
      from Suc.IH [of ?G2, OF this key] obtain a st' G' ps' where
        rec: "walk_from l pg va True ?st2 = (a, st')" "vm_ext kend pt ?G2 ?st2 ps1 G' st' ps'"
        "\<forall>v. pte_of G' (memory st') v = pte_of ?G2 (memory ?st2) v" "walk_result G' va ps' a"
        by blast
      have "walk_from (Suc l) p va True st = (a, st')"
        using entry None st1 pg0 rec(1) by (simp add: PGSIZE_def)
      moreover have "\<forall>v. pte_of G' (memory st') v = pte_of G (memory st) v" using rec(3) add(2) by simp
      ultimately show ?thesis using vm_ext_trans [OF add(1) rec(2)] rec(4) Cons by blast
    qed
  qed
qed

lemma vm_walk_alloc:
  assumes "vm_rep kend pt G st ps" and "va < MAXVA"
  obtains a st' G' ps' where "walk pt va True st = Inr (a, st')" and "vm_ext kend pt G st ps G' st' ps'"
    and "\<And>v. pte_of G' (memory st') v = pte_of G (memory st) v" and "walk_result G' va ps' a"
proof -
  have "G (2, vkey 2 va) = Some pt" using assms by (simp add: vm_rep_def tables_ok_def vkey_2)
  from walk_from_alloc [OF assms(1) this] obtain a st' G' ps' where
    "walk_from 2 pt va True st = (a, st')" "vm_ext kend pt G st ps G' st' ps'"
    "\<forall>v. pte_of G' (memory st') v = pte_of G (memory st) v" "walk_result G' va ps' a" by blast
  then show thesis using assms(2) by (intro that [of a st' G' ps']) (simp_all add: walk_def not_le [symmetric])
qed

section \<open>Setting a leaf entry\<close>

lemma set_leaf:
  fixes st :: "'a kmem_scheme" and v :: u64
  assumes rep: "vm_rep kend pt G st ps" and q: "G (0, vkey 0 va) = Some q"
  defines "st' \<equiv> st\<lparr>memory := store64 (memory st) (q + 8 * PX 0 va) v\<rparr>"
  shows "vm_ext kend pt G st ps G st' ps"
    and "pte_of G (memory st') w = (if PGROUNDDOWN w = PGROUNDDOWN va then v else pte_of G (memory st) w)"
proof -
  have tabs: "tables_ok kend pt G" and ent: "entries_ok G (memory st)" and km: "kmem_rep kend st ps"
    and dis: "ran G \<inter> set ps = {}" using rep by (simp_all add: vm_rep_def)
  note qok = vm_rep_pages [OF rep q]
  have px: "of_nat (unat (PX 0 x)) = PX 0 x" for x by simp
  have st': "st' = st\<lparr>memory := store64 (memory st) (q + 8 * of_nat (unat (PX 0 va))) v\<rparr>"
    by (simp add: st'_def)
  have load: "load64 (memory st') (p + 8 * of_nat j) =
      (if p = q \<and> j = unat (PX 0 va) then v else load64 (memory st) (p + 8 * of_nat j))"
    if "page_aligned p" "j < 512" for p j
    using load_slot_store [OF qok(2) that(1) PX_less that(2)] by (auto simp: st')
  have frame: "memory st' b = memory st b" if "\<not> in_range b q 4096" for b
    using slot_page_frame [OF qok(2) PX_less that] by (simp add: st')
  have "entries_ok G (memory st')"
    unfolding entries_ok_def
  proof (intro allI impI)
    fix l k j :: nat and p assume p: "G (Suc l, k) = Some p" and j: "j < 512"
    have "p \<noteq> q" "page_aligned p" using tables_inj [OF tabs p] q vm_rep_pages [OF rep p] by auto
    then have "load64 (memory st') (p + 8 * of_nat j) = load64 (memory st) (p + 8 * of_nat j)"
      using j by (simp add: load)
    with entries_okD' [OF ent p j] show
      "case G (l, 512 * k + j) of None \<Rightarrow> load64 (memory st') (p + 8 * of_nat j) AND PTE_V = 0
       | Some q \<Rightarrow> load64 (memory st') (p + 8 * of_nat j) = PA2PTE q OR PTE_V" by (simp split: option.splits)
  qed
  moreover have "kmem_rep kend st' ps"
  proof (rule kmem_rep_cong [OF km])
    fix p b assume p: "p \<in> set ps" "in_range b p 4096"
    then have "page_aligned p" "p \<noteq> q" using km qok(3) by (auto simp: kmem_rep_def page_ok_def)
    then show "memory st' b = memory st b" using other_page [OF qok(2)] p(2) frame by blast
  qed (simp add: st'_def)
  ultimately show "vm_ext kend pt G st ps G st' ps"
    using tabs dis frame ranI [of G _ q, OF q] by (auto simp: vm_ext_def vm_rep_def st'_def)
  show "pte_of G (memory st') w = (if PGROUNDDOWN w = PGROUNDDOWN va then v else pte_of G (memory st) w)"
  proof (cases "G (0, vkey 0 w)")
    case None
    then have "PGROUNDDOWN w \<noteq> PGROUNDDOWN va" using q same_page_iff [of w va] by auto
    with None show ?thesis by (simp add: pte_of_def)
  next
    case (Some p)
    have "p = q \<longleftrightarrow> vkey 0 w = vkey 0 va" using tables_inj [OF tabs Some, of "(0, vkey 0 va)"] q Some by auto
    then have "p = q \<and> unat (PX 0 w) = unat (PX 0 va) \<longleftrightarrow> PGROUNDDOWN w = PGROUNDDOWN va"
      using same_page_iff [of w va] by (simp add: word_unat_eq_iff)
    with Some load [of p "unat (PX 0 w)"] vm_rep_pages [OF rep Some] show ?thesis
      by (auto simp: pte_of_def PX_less)
  qed
qed

section \<open>Mapping pages\<close>

text \<open>The pages \<open>mappages\<close> is asked for: \<open>a\<close>, \<open>a + 4096\<close> and so on, \<open>n\<close> of them.\<close>

definition nth_page :: "u64 \<Rightarrow> nat \<Rightarrow> u64" where
  "nth_page a i = a + of_nat i * PGSIZE"

lemma nth_page_0 [simp]: "nth_page a 0 = a"
  by (simp add: nth_page_def)

lemma nth_page_Suc: "nth_page a (Suc i) = nth_page (a + PGSIZE) i"
  by (simp add: nth_page_def algebra_simps)

lemma unat_nth_page:
  assumes "unat a + i * 4096 < 2 ^ 64"
  shows "unat (nth_page a i) = unat a + i * 4096"
proof -
  have "unat (of_nat i * PGSIZE) = i * 4096"
    using assms by (simp add: PGSIZE_def unat_word_ariths unat_of_nat_small)
  then show ?thesis using assms by (simp add: nth_page_def unat_word_ariths)
qed

lemma PGROUNDDOWN_aligned: "page_aligned a \<Longrightarrow> PGROUNDDOWN a = a"
  by (simp add: word_unat_eq_iff unat_PGROUNDDOWN page_aligned_def)
    (metis div_mult_mod_eq add.right_neutral)

lemma page_aligned_add: "page_aligned a \<Longrightarrow> unat (a + PGSIZE) = unat a + 4096 \<Longrightarrow> page_aligned (a + PGSIZE)"
  by (simp add: page_aligned_def)

text \<open>The entries after \<open>k\<close> pages have been mapped.\<close>

definition mapped_upto :: "u64 \<Rightarrow> nat \<Rightarrow> u64 \<Rightarrow> u64 \<Rightarrow> (u64 \<Rightarrow> u64) \<Rightarrow> u64 \<Rightarrow> u64" where
  "mapped_upto a k pa perm f va =
     (if \<exists>i<k. PGROUNDDOWN va = nth_page a i
      then PA2PTE (pa + (PGROUNDDOWN va - a)) OR perm OR PTE_V else f va)"

lemma mapped_upto_Suc:
  assumes "PGROUNDDOWN a = a"
  shows "mapped_upto (a + PGSIZE) k (pa + PGSIZE) perm
           (\<lambda>w. if PGROUNDDOWN w = PGROUNDDOWN a then PA2PTE pa OR perm OR PTE_V else f w) va
         = mapped_upto a (Suc k) pa perm f va"
proof -
  have "(\<exists>i<Suc k. X = nth_page a i) \<longleftrightarrow> X = a \<or> (\<exists>i<k. X = nth_page (a + PGSIZE) i)" for X
    unfolding less_Suc_eq_0_disj nth_page_Suc [symmetric] by auto
  then show ?thesis using assms by (auto simp: mapped_upto_def)
qed

lemma mappages_loop_step:
  assumes "vm_rep kend pt G st ps" and "a < MAXVA" and "pte_of G (memory st) a AND PTE_V = 0"
    and al: "PGROUNDDOWN a = a"
  obtains (oom) st1 G' where "\<And>b. mappages_loop pt a b pa perm st = Inr (-1, st1)"
      and "vm_ext kend pt G st ps G' st1 []" and "\<And>w. pte_of G' (memory st1) w = pte_of G (memory st) w"
  | (mapped) st1 G' ps' where "\<And>b. mappages_loop pt a b pa perm st =
           (if a = b then Inr (0, st1) else mappages_loop pt (a + PGSIZE) b (pa + PGSIZE) perm st1)"
      and "vm_ext kend pt G st ps G' st1 ps'"
      and "\<And>w. pte_of G' (memory st1) w = (if PGROUNDDOWN w = a then PA2PTE pa OR perm OR PTE_V else pte_of G (memory st) w)"
proof -
  obtain pte st1 G' ps' where w: "walk pt a True st = Inr (pte, st1)" "vm_ext kend pt G st ps G' st1 ps'"
    "\<And>w. pte_of G' (memory st1) w = pte_of G (memory st) w" "walk_result G' a ps' pte"
    using vm_walk_alloc [OF assms(1,2)] by metis
  have rep: "vm_rep kend pt G' st1 ps'" using w(2) by (simp add: vm_ext_def)
  show thesis
  proof (cases "G' (0, vkey 0 a)")
    case None
    then have "pte = 0" "ps' = []" using w(4) by (simp_all add: walk_result_def)
    with w(1-3) show thesis by (intro oom [of st1 G']) (simp_all add: mappages_loop.simps [of pt a])
  next
    case (Some q)
    then have pte: "pte = q + 8 * PX 0 a" using w(4) by (simp add: walk_result_def)
    let ?v = "PA2PTE pa OR perm OR PTE_V"
    let ?st2 = "st1\<lparr>memory := store64 (memory st1) pte ?v\<rparr>"
    have "pte \<noteq> 0"
      using slot_nonzero [OF vm_rep_KERNBASE [OF rep]] vm_rep_pages(1) [OF rep Some] pte by simp
    moreover have "load64 (memory st1) pte = pte_of G (memory st) a"
      using w(3) [of a] Some pte by (simp add: pte_of_def)
    ultimately have "mappages_loop pt a b pa perm st =
        (if a = b then Inr (0, ?st2) else mappages_loop pt (a + PGSIZE) b (pa + PGSIZE) perm ?st2)" for b
      using w(1) assms(3) by (simp add: mappages_loop.simps [of pt a])
    moreover note leaf = set_leaf [OF rep Some, of ?v, folded pte]
    ultimately show thesis
      using vm_ext_trans [OF w(2) leaf(1)] w(3) al by (intro mapped [of ?st2 G' ps']) auto
  qed
qed

lemma mappages_loop_maps:
  assumes "vm_rep kend pt G st ps" and "page_aligned a" and "unat a + n * 4096 < unat MAXVA"
    and "\<And>i. i \<le> n \<Longrightarrow> pte_of G (memory st) (nth_page a i) AND PTE_V = 0"
  shows "\<exists>r st' G' ps' k. mappages_loop pt a (nth_page a n) pa perm st = Inr (r, st')
           \<and> vm_ext kend pt G st ps G' st' ps'
           \<and> (\<forall>va. pte_of G' (memory st') va = mapped_upto a k pa perm (pte_of G (memory st)) va)
           \<and> (r = 0 \<and> k = Suc n \<or> r = -1 \<and> k \<le> n \<and> ps' = [])"
  using assms
proof (induction n arbitrary: a pa st G ps)
  case 0
  have a: "a < MAXVA" "PGROUNDDOWN a = a" using 0 by (simp_all add: word_less_nat_alt PGROUNDDOWN_aligned)
  have un: "pte_of G (memory st) a AND PTE_V = 0" using 0(4) [of 0] by simp
  from 0(1) a(1) un a(2) show ?case
  proof (cases rule: mappages_loop_step [where pa = pa and perm = perm])
    case (oom st1 G')
    then show ?thesis
      by (intro exI [of _ "-1"] exI [of _ st1] exI [of _ G'] exI [of _ "[]"] exI [of _ 0]) (simp add: mapped_upto_def)
  next
    case (mapped st1 G' ps')
    then show ?thesis
      by (intro exI [of _ 0] exI [of _ st1] exI [of _ G'] exI [of _ ps'] exI [of _ 1]) (simp add: mapped_upto_def)
  qed
next
  case (Suc n)
  have a: "a < MAXVA" "PGROUNDDOWN a = a"
    using Suc.prems by (simp_all add: word_less_nat_alt PGROUNDDOWN_aligned)
  have un: "pte_of G (memory st) a AND PTE_V = 0" using Suc.prems(4) [of 0] by simp
  have next_a: "unat (a + PGSIZE) = unat a + 4096" using a(1) by (rule next_page)
  have nth: "unat (nth_page a i) = unat a + i * 4096" if "i \<le> Suc n" for i
    using that Suc.prems(3) by (intro unat_nth_page) (simp add: MAXVA_def)
  have distinct: "PGROUNDDOWN (nth_page a (Suc i)) \<noteq> a" if "i \<le> n" for i
    using nth [of "Suc i"] that Suc.prems(2)
    by (simp add: word_unat_eq_iff unat_PGROUNDDOWN page_aligned_def)
  from Suc.prems(1) a(1) un a(2) show ?case
  proof (cases rule: mappages_loop_step [where pa = pa and perm = perm])
    case (oom st1 G')
    then show ?thesis
      by (intro exI [of _ "-1"] exI [of _ st1] exI [of _ G'] exI [of _ "[]"] exI [of _ 0]) (simp add: mapped_upto_def)
  next
    case (mapped st1 G1 ps1)
    have "nth_page a (Suc n) \<noteq> a" using nth [of "Suc n"] by (auto simp: word_unat_eq_iff)
    then have loop: "mappages_loop pt a (nth_page a (Suc n)) pa perm st =
        mappages_loop pt (a + PGSIZE) (nth_page (a + PGSIZE) n) (pa + PGSIZE) perm st1"
      using mapped(1) by (simp add: nth_page_Suc)
    have "pte_of G1 (memory st1) (nth_page (a + PGSIZE) i) AND PTE_V = 0" if "i \<le> n" for i
      using that Suc.prems(4) [of "Suc i"] distinct [of i] by (simp add: mapped(3) nth_page_Suc)
    moreover have "vm_rep kend pt G1 st1 ps1" using mapped(2) by (simp add: vm_ext_def)
    moreover have "page_aligned (a + PGSIZE)" using Suc.prems(2) next_a by (rule page_aligned_add)
    moreover have "unat (a + PGSIZE) + n * 4096 < unat MAXVA" using Suc.prems(3) next_a by simp
    ultimately obtain r st' G' ps' k where
      rec: "mappages_loop pt (a + PGSIZE) (nth_page (a + PGSIZE) n) (pa + PGSIZE) perm st1 = Inr (r, st')"
      "vm_ext kend pt G1 st1 ps1 G' st' ps'"
      "\<forall>va. pte_of G' (memory st') va = mapped_upto (a + PGSIZE) k (pa + PGSIZE) perm (pte_of G1 (memory st1)) va"
      "r = 0 \<and> k = Suc n \<or> r = -1 \<and> k \<le> n \<and> ps' = []"
      using Suc.IH [of G1 st1 ps1 "a + PGSIZE" "pa + PGSIZE"] by blast
    have "pte_of G1 (memory st1) = (\<lambda>w. if PGROUNDDOWN w = PGROUNDDOWN a then PA2PTE pa OR perm OR PTE_V
                                       else pte_of G (memory st) w)"
      using mapped(3) a(2) by auto
    then have "\<forall>va. pte_of G' (memory st') va = mapped_upto a (Suc k) pa perm (pte_of G (memory st)) va"
      using rec(3) mapped_upto_Suc [OF a(2)] by simp
    with rec(1,4) loop vm_ext_trans [OF mapped(2) rec(2)] show ?thesis
      by (intro exI [of _ r] exI [of _ st'] exI [of _ G'] exI [of _ ps'] exI [of _ "Suc k"]) auto
  qed
qed

lemma page_in_list:
  assumes "page_aligned a" and "page_aligned x" and "unat a + n * 4096 < 2 ^ 64"
  shows "(\<exists>i<Suc n. x = nth_page a i) \<longleftrightarrow> a \<le> x \<and> x \<le> nth_page a n"
proof -
  obtain A X where AX: "unat a = 4096 * A" "unat x = 4096 * X"
    using assms(1,2) page_aligned_obtain by metis
  have nth: "unat (nth_page a i) = unat a + i * 4096" if "i \<le> n" for i
    using that assms(3) by (intro unat_nth_page) (simp add: order.strict_trans1 [rotated])
  have "x = nth_page a i \<longleftrightarrow> X = A + i" if "i \<le> n" for i
    using nth [OF that] AX by (auto simp: word_unat_eq_iff)
  then have "(\<exists>i<Suc n. x = nth_page a i) \<longleftrightarrow> (\<exists>i\<le>n. X = A + i)" by (auto simp: less_Suc_eq_le)
  also have "\<dots> \<longleftrightarrow> A \<le> X \<and> X \<le> A + n" by (auto intro: exI [of _ "X - A"])
  finally show ?thesis using nth [of n] AX by (auto simp: word_le_nat_alt)
qed

text \<open>The range of an address and a size, as a first page and a number of further pages.\<close>

lemma page_span:
  assumes "0 < unat sz" and "unat va + unat sz \<le> unat MAXVA"
  obtains n where "PGROUNDDOWN (va + sz - 1) = nth_page (PGROUNDDOWN va) n"
    and "unat (PGROUNDDOWN va) + n * 4096 < unat MAXVA"
proof -
  let ?V = "unat va div 4096" and ?L = "(unat va + unat sz - 1) div 4096"
  have last: "unat (va + sz - 1) = unat va + unat sz - 1"
  proof -
    have "unat (va + sz) = unat va + unat sz"
      using assms(2) by (simp add: unat_word_ariths MAXVA_def)
    then show ?thesis using assms(1) unat_minus_one [of "va + sz"] by (auto simp: unat_eq_0 [symmetric])
  qed
  have VL: "?V \<le> ?L" by (rule div_le_mono) (use assms(1) in simp)
  have L: "?L * 4096 \<le> unat va + unat sz - 1" by simp
  have eq: "?V * 4096 + (?L - ?V) * 4096 = ?L * 4096" using VL by (metis add_mult_distrib le_add_diff_inverse)
  have bound: "unat (PGROUNDDOWN va) + (?L - ?V) * 4096 < unat MAXVA"
    unfolding unat_PGROUNDDOWN eq using L assms by linarith
  then have "unat (nth_page (PGROUNDDOWN va) (?L - ?V)) = ?L * 4096"
    using eq by (subst unat_nth_page) (simp_all add: unat_PGROUNDDOWN MAXVA_def)
  then have "PGROUNDDOWN (va + sz - 1) = nth_page (PGROUNDDOWN va) (?L - ?V)"
    by (simp add: word_unat_eq_iff unat_PGROUNDDOWN last)
  then show thesis using bound by (rule that)
qed

text \<open>A fresh table: \<^verbatim>\<open>uvmcreate\<close> takes a page and clears it.\<close>

lemma uvmcreate_rep:
  fixes st :: "'a kmem_scheme"
  assumes "kmem_rep kend st (pt # ps)"
  shows "\<exists>st'. uvmcreate st = (pt, st') \<and> vm_rep kend pt [(2, 0) \<mapsto> pt] st' ps
              \<and> (\<forall>b. \<not> in_range b pt 4096 \<longrightarrow> memory st' b = memory st b)"
proof -
  obtain st1 where st1: "kalloc st = (pt, st1)" "kmem_rep kend st1 ps"
    "memory st1 = (\<lambda>b. if in_range b pt 4096 then 5 else memory st b)" using kalloc_pop [OF assms] by blast
  let ?st' = "st1\<lparr>memory := memset (memory st1) pt 0 4096\<rparr>"
  have pt: "page_ok kend pt" "pt \<noteq> 0" "pt \<notin> set ps" "page_aligned pt"
    using assms page_ok_nonzero by (auto simp: kmem_rep_def page_ok_def)
  have "kmem_rep kend ?st' ps"
  proof (rule kmem_rep_cong [OF st1(2)])
    fix p b assume p: "p \<in> set ps" "in_range b p 4096"
    then have "page_aligned p" "p \<noteq> pt" using assms by (auto simp: kmem_rep_def page_ok_def)
    with p show "memory ?st' b = memory st1 b" using other_page [OF pt(4)] by (auto simp: memset_eq)
  qed simp
  moreover have "entries_ok [(2, 0) \<mapsto> pt] (memory ?st')"
    using load_slot_zero_page [OF pt(4)] by (auto simp: entries_ok_def split: option.splits)
  moreover have "tables_ok kend pt [(2, 0) \<mapsto> pt]"
    using pt by (auto simp: tables_ok_def)
  ultimately have "vm_rep kend pt [(2, 0) \<mapsto> pt] ?st' ps" using pt(3) by (simp add: vm_rep_def)
  moreover have "uvmcreate st = (pt, ?st')" using st1(1) pt(2) by (simp add: uvmcreate_def PGSIZE_def)
  ultimately show ?thesis by (intro exI [of _ ?st']) (simp add: memset_eq st1)
qed

definition in_span :: "u64 \<Rightarrow> u64 \<Rightarrow> u64 \<Rightarrow> bool" where
  "in_span va sz a \<longleftrightarrow>
     PGROUNDDOWN va \<le> PGROUNDDOWN a \<and> PGROUNDDOWN a \<le> PGROUNDDOWN (va + sz - 1)"

lemma mappages_rep:
  assumes rep: "vm_rep kend pt G st ps" and "0 < unat sz" and "unat va + unat sz \<le> unat MAXVA"
    and un: "\<And>a. a < MAXVA \<Longrightarrow> in_span va sz a \<Longrightarrow> pte_of G (memory st) a AND PTE_V = 0"
  shows "\<exists>r st' G' ps' k. mappages pt va sz pa perm st = Inr (r, st') \<and> vm_ext kend pt G st ps G' st' ps'
    \<and> (\<forall>a. pte_of G' (memory st') a = mapped_upto (PGROUNDDOWN va) k pa perm (pte_of G (memory st)) a)
    \<and> (r = 0 \<and> (\<forall>a. (\<exists>i<k. PGROUNDDOWN a = nth_page (PGROUNDDOWN va) i) \<longleftrightarrow> in_span va sz a)
       \<or> r = -1 \<and> ps' = [] \<and> (\<forall>a. (\<exists>i<Suc k. PGROUNDDOWN a = nth_page (PGROUNDDOWN va) i) \<longrightarrow> in_span va sz a))"
proof -
  let ?a = "PGROUNDDOWN va"
  obtain n where n: "PGROUNDDOWN (va + sz - 1) = nth_page ?a n" "unat ?a + n * 4096 < unat MAXVA"
    using page_span [OF assms(2,3)] by metis
  then have small: "unat ?a + n * 4096 < 2 ^ 64" by (simp add: MAXVA_def)
  have span: "(\<exists>i<Suc n. PGROUNDDOWN a = nth_page ?a i) \<longleftrightarrow> in_span va sz a" for a
    using page_in_list [OF page_aligned_PGROUNDDOWN page_aligned_PGROUNDDOWN small]
    unfolding in_span_def n(1) .
  have un': "pte_of G (memory st) (nth_page ?a i) AND PTE_V = 0" if "i \<le> n" for i
  proof -
    have un: "unat (nth_page ?a i) = unat ?a + i * 4096"
      using that small by (intro unat_nth_page) linarith
    then have "PGROUNDDOWN (nth_page ?a i) = nth_page ?a i"
      by (intro PGROUNDDOWN_aligned) (simp add: page_aligned_def unat_PGROUNDDOWN)
    then have "in_span va sz (nth_page ?a i)" using span [of "nth_page ?a i"] that less_Suc_eq_le by metis
    moreover have "nth_page ?a i < MAXVA"
      using un n(2) mult_le_mono1 [OF that, of 4096] by (simp add: word_less_nat_alt)
    ultimately show ?thesis using assms(4) by blast
  qed
  obtain r st' G' ps' k where m: "mappages_loop pt ?a (nth_page ?a n) pa perm st = Inr (r, st')"
    "vm_ext kend pt G st ps G' st' ps'"
    "\<forall>a. pte_of G' (memory st') a = mapped_upto ?a k pa perm (pte_of G (memory st)) a"
    "r = 0 \<and> k = Suc n \<or> r = -1 \<and> k \<le> n \<and> ps' = []"
    using mappages_loop_maps [OF rep page_aligned_PGROUNDDOWN n(2) un', where pa = pa and perm = perm] by blast
  have "mappages pt va sz pa perm st = Inr (r, st')"
    using m(1) assms(2) n(1) by (auto simp: mappages_def)
  moreover have "(\<exists>i<Suc j. PGROUNDDOWN a = nth_page ?a i) \<longrightarrow> in_span va sz a" if "j \<le> n" for j a
    using span [of a] that by (metis less_Suc_eq_le order_trans)
  ultimately show ?thesis
    using m(2-4) span by (intro exI [of _ r] exI [of _ st'] exI [of _ G'] exI [of _ ps'] exI [of _ k]) blast
qed

section \<open>Properties\<close>

text \<open>C9. On a well-formed page table and a range below \<^verbatim>\<open>MAXVA\<close> none of whose pages is mapped,
  \<^verbatim>\<open>mappages\<close> does not panic. It either returns 0, and then a lookup of any address finds the new entry
  when the address lies in a page of the range and what it found before otherwise; or it returns -1 when
  the free list is exhausted, and then no entry outside the range has changed. Either way the page
  table stays well-formed and no byte outside page-table pages is written.\<close>

theorem mappages_maps:
  assumes "vm_rep kend pt G st ps" and "0 < unat sz" and "unat va + unat sz \<le> unat MAXVA"
    and "\<And>a. a < MAXVA \<Longrightarrow> in_span va sz a \<Longrightarrow> leaf_pte pt a st AND PTE_V = 0"
  shows "\<exists>r st' G' ps'. mappages pt va sz pa perm st = Inr (r, st') \<and> vm_rep kend pt G' st' ps'
    \<and> (\<forall>b. (\<forall>p \<in> ran G'. \<not> in_range b p 4096) \<longrightarrow> memory st' b = memory st b)
    \<and> (r = 0 \<and> (\<forall>a<MAXVA. leaf_pte pt a st' =
           (if in_span va sz a then PA2PTE (pa + (PGROUNDDOWN a - PGROUNDDOWN va)) OR perm OR PTE_V
            else leaf_pte pt a st))
       \<or> r = -1 \<and> freelist st' = 0 \<and> (\<forall>a<MAXVA. in_span va sz a \<or> leaf_pte pt a st' = leaf_pte pt a st))"
proof -
  have "pte_of G (memory st) a AND PTE_V = 0" if "a < MAXVA" "in_span va sz a" for a
    using assms(4) [OF that] leaf_pte_eq [OF assms(1) that(1)] by simp
  from mappages_rep [OF assms(1-3) this, where pa = pa and perm = perm] obtain r st' G' ps' k where
    m: "mappages pt va sz pa perm st = Inr (r, st')" "vm_ext kend pt G st ps G' st' ps'"
    "\<forall>a. pte_of G' (memory st') a = mapped_upto (PGROUNDDOWN va) k pa perm (pte_of G (memory st)) a"
    "r = 0 \<and> (\<forall>a. (\<exists>i<k. PGROUNDDOWN a = nth_page (PGROUNDDOWN va) i) \<longleftrightarrow> in_span va sz a)
     \<or> r = -1 \<and> ps' = [] \<and> (\<forall>a. (\<exists>i<Suc k. PGROUNDDOWN a = nth_page (PGROUNDDOWN va) i) \<longrightarrow> in_span va sz a)"
    by blast
  have rep': "vm_rep kend pt G' st' ps'" using m(2) by (simp add: vm_ext_def)
  have leaf: "leaf_pte pt a st' = mapped_upto (PGROUNDDOWN va) k pa perm (\<lambda>_. leaf_pte pt a st) a"
    if "a < MAXVA" for a
    using that m(3) leaf_pte_eq [OF assms(1)] leaf_pte_eq [OF rep'] by (simp add: mapped_upto_def)
  have "r = 0 \<and> (\<forall>a<MAXVA. leaf_pte pt a st' =
           (if in_span va sz a then PA2PTE (pa + (PGROUNDDOWN a - PGROUNDDOWN va)) OR perm OR PTE_V
            else leaf_pte pt a st))
       \<or> r = -1 \<and> freelist st' = 0 \<and> (\<forall>a<MAXVA. in_span va sz a \<or> leaf_pte pt a st' = leaf_pte pt a st)"
    using m(4)
  proof (elim disjE conjE)
    assume "r = -1" "ps' = []"
      and k: "\<forall>a. (\<exists>i<Suc k. PGROUNDDOWN a = nth_page (PGROUNDDOWN va) i) \<longrightarrow> in_span va sz a"
    have "in_span va sz a \<or> leaf_pte pt a st' = leaf_pte pt a st" if "a < MAXVA" for a
    proof (cases "\<exists>i<k. PGROUNDDOWN a = nth_page (PGROUNDDOWN va) i")
      case True
      then show ?thesis using k less_SucI by blast
    qed (use leaf [OF that] in \<open>auto simp: mapped_upto_def\<close>)
    then show ?thesis using rep' \<open>r = -1\<close> \<open>ps' = []\<close> by (auto simp: vm_rep_def kmem_rep_def)
  qed (simp add: leaf mapped_upto_def)
  then show ?thesis using m(1,2) rep' unfolding vm_ext_def by blast
qed

theorem mappages_maps_witness:
  "let st = \<lparr>memory = (\<lambda>_. 0), freelist = 0x80002000\<rparr> in
   \<exists>r st' G' ps'. mappages 0x80001000 0x5432 0x3000 0x80010000 PTE_R st = Inr (r, st')
    \<and> vm_rep 0x80000000 0x80001000 G' st' ps'
    \<and> (\<forall>b. (\<forall>p \<in> ran G'. \<not> in_range b p 4096) \<longrightarrow> memory st' b = memory st b)
    \<and> (r = 0 \<and> (\<forall>a<MAXVA. leaf_pte 0x80001000 a st' =
           (if in_span 0x5432 0x3000 a then PA2PTE (0x80010000 + (PGROUNDDOWN a - PGROUNDDOWN 0x5432)) OR PTE_R OR PTE_V
            else leaf_pte 0x80001000 a st))
       \<or> r = -1 \<and> freelist st' = 0
          \<and> (\<forall>a<MAXVA. in_span 0x5432 0x3000 a \<or> leaf_pte 0x80001000 a st' = leaf_pte 0x80001000 a st))"
proof -
  let ?st = "\<lparr>memory = (\<lambda>_. 0), freelist = 0x80002000\<rparr> :: kmem"
  have "load64 (\<lambda>_. 0) a = 0" for a by (simp add: load64_def load_bytes_zero)
  then have rep: "vm_rep 0x80000000 0x80001000 [(2, 0) \<mapsto> 0x80001000] ?st [0x80002000]"
    by (auto simp: vm_rep_def tables_ok_def entries_ok_def kmem_rep_def page_ok_def page_aligned_def
        KERNBASE_def PHYSTOP_def split: option.splits)
  have "leaf_pte 0x80001000 a ?st AND PTE_V = 0" if "a < MAXVA" for a
    using leaf_pte_eq [OF rep that] by (simp add: pte_of_def)
  then show ?thesis
    unfolding Let_def by (intro mappages_maps [OF rep]) (simp_all add: MAXVA_def)
qed

end
