(* ===== verification/UserCopy.thy ===== *)
theory UserCopy
  imports PageTable
begin

text \<open>
  The routines that copy between the kernel and a user address space (\<^verbatim>\<open>copyin\<close>, \<^verbatim>\<open>copyout\<close> and
  \<^verbatim>\<open>copyinstr\<close> of \<^verbatim>\<open>kernel/vm.c\<close>) against a bytewise reading of the user's memory: each user address
  translates on its own, and a copy moves exactly the bytes so translated, page boundaries and all.
\<close>

section \<open>Translation of user addresses\<close>

definition user_addr :: "u64 \<Rightarrow> 'a kmem_scheme \<Rightarrow> u64 \<Rightarrow> u64 option" where
  "user_addr pt st va =
     (case walkaddr pt (PGROUNDDOWN va) st of
        Inl e \<Rightarrow> None
      | Inr pa \<Rightarrow> if pa = 0 then None else Some (pa + (va - PGROUNDDOWN va)))"

lemma walkaddr_Inr: "\<exists>pa. walkaddr pt va st = Inr pa"
  by (auto simp: walkaddr_def walk_def Let_def split: prod.splits)

lemma walkaddr_MAXVA: "walkaddr pt va st = Inr pa \<Longrightarrow> pa \<noteq> 0 \<Longrightarrow> va < MAXVA"
  by (auto simp: walkaddr_def not_le split: if_splits)

lemma user_addr_None_iff: "user_addr pt st va = None \<longleftrightarrow> walkaddr pt (PGROUNDDOWN va) st = Inr 0"
  using walkaddr_Inr [of pt "PGROUNDDOWN va" st] by (auto simp: user_addr_def split: if_splits)

lemma user_addr_Some_iff:
  "user_addr pt st va = Some a \<longleftrightarrow>
     (\<exists>pa. walkaddr pt (PGROUNDDOWN va) st = Inr pa \<and> pa \<noteq> 0 \<and> a = pa + (va - PGROUNDDOWN va))"
  using walkaddr_Inr [of pt "PGROUNDDOWN va" st] by (auto simp: user_addr_def split: if_splits)

lemma user_addr_MAXVA:
  assumes "user_addr pt st va = Some a"
  shows "PGROUNDDOWN va < MAXVA"
  using assms walkaddr_MAXVA unfolding user_addr_Some_iff by blast

text \<open>Writes that miss the page-table pages leave every translation as it was.\<close>

definition off_tables :: "tables \<Rightarrow> u64 \<Rightarrow> bool" where
  "off_tables G b \<longleftrightarrow> (\<forall>p \<in> ran G. \<not> in_range b p 4096)"

lemma walk_from_stable:
  assumes "tables_ok kend pt G" and "entries_ok G (memory st)" and "G (l, vkey l va) = Some p"
    and "\<And>b. \<not> off_tables G b \<Longrightarrow> memory st' b = memory st b"
  shows "walk_from l p va False st' = (fst (walk_from l p va False st), st')
         \<and> (\<forall>a. fst (walk_from l p va False st) = a \<longrightarrow> a \<noteq> 0 \<longrightarrow> load64 (memory st') a = load64 (memory st) a)"
proof -
  have slot: "load64 (memory st') (q + 8 * PX l va) = load64 (memory st) (q + 8 * PX l va)"
    if "G x = Some q" for x q l
  proof -
    have "page_aligned q" using tables_okD(2) [OF assms(1), of "fst x" "snd x"] that by simp
    then have "load64 (memory st') (q + 8 * of_nat (unat (PX l va))) = load64 (memory st) (q + 8 * of_nat (unat (PX l va)))"
      using that assms(4) by (intro load_slot_frame PX_less) (auto simp: off_tables_def intro: ranI)
    then show ?thesis by simp
  qed
  show ?thesis
    using assms(3)
  proof (induction l arbitrary: p)
    case 0
    then show ?case using slot [OF 0] by simp
  next
    case (Suc l)
    note entry = entries_okD [OF assms(2) Suc.prems]
    show ?case
    proof (cases "G (l, vkey l va)")
      case None
      with entry slot [OF Suc.prems, of "Suc l"] show ?thesis by simp
    next
      case (Some q)
      have "page_aligned q" using tables_okD [OF assms(1) Some] by simp
      with entry Some table_entry [of q] slot [OF Suc.prems, of "Suc l"] Suc.IH [OF Some] show ?thesis by simp
    qed
  qed
qed

lemma walkaddr_stable:
  assumes "tables_ok kend pt G" and "entries_ok G (memory st)"
    and "\<And>b. \<not> off_tables G b \<Longrightarrow> memory st' b = memory st b"
  shows "walkaddr pt va st' = walkaddr pt va st"
proof (cases "va < MAXVA")
  case True
  have "G (2, vkey 2 va) = Some pt" using assms(1) True by (simp add: tables_ok_def vkey_2)
  note w = walk_from_stable [OF assms(1,2) this assms(3)]
  obtain a s where a: "walk_from 2 pt va False st = (a, s)" by (cases "walk_from 2 pt va False st")
  with w have "walk_from 2 pt va False st' = (a, st')" "a \<noteq> 0 \<longrightarrow> load64 (memory st') a = load64 (memory st) a" by auto
  with a True show ?thesis by (auto simp: walkaddr_def walk_def)
qed (simp add: walkaddr_def not_less)

lemma user_addr_stable:
  assumes "tables_ok kend pt G" and "entries_ok G (memory st)"
    and "\<And>b. \<not> off_tables G b \<Longrightarrow> memory st' b = memory st b"
  shows "user_addr pt st' = user_addr pt st"
  using walkaddr_stable [OF assms] by (auto simp: user_addr_def fun_eq_iff)

lemma entries_ok_stable:
  assumes "tables_ok kend pt G" and "entries_ok G m"
    and "\<And>b. \<not> off_tables G b \<Longrightarrow> m' b = m b"
  shows "entries_ok G m'"
  unfolding entries_ok_def
proof (intro allI impI)
  fix l k i :: nat and p assume p: "G (Suc l, k) = Some p" and i: "i < 512"
  have "load64 m' (p + 8 * of_nat i) = load64 m (p + 8 * of_nat i)"
    using tables_okD(2) [OF assms(1) p] i p assms(3)
    by (intro load_slot_frame) (auto simp: off_tables_def intro: ranI)
  with entries_okD' [OF assms(2) p i] show
    "case G (l, 512 * k + i) of None \<Rightarrow> load64 m' (p + 8 * of_nat i) AND PTE_V = 0
     | Some q \<Rightarrow> load64 m' (p + 8 * of_nat i) = PA2PTE q OR PTE_V" by (simp split: option.splits)
qed

section \<open>One chunk of a copy\<close>

lemma memmove_disjoint:
  assumes n: "n < 2 ^ 64" and dis: "\<And>i. i < n \<Longrightarrow> \<not> in_range (src + of_nat i) dst n"
  shows "memmove m dst src n = (\<lambda>a. if in_range a dst n then m (src + (a - dst)) else m a)"
proof (cases "n = 0")
  case False
  have "n \<le> unat (dst - src)"
  proof (rule ccontr)
    assume "\<not> n \<le> unat (dst - src)"
    then have "\<not> in_range (src + of_nat (unat (dst - src))) dst n" by (intro dis) simp
    then show False using False by (simp add: in_range_def)
  qed
  moreover have "n \<le> unat (src - dst)"
    using dis [of 0] False by (simp add: in_range_def)
  ultimately show ?thesis
    using n False by (auto simp: memmove_def copy_forward_eq copy_backward_eq less_imp_le)
qed (simp add: memmove_def)

text \<open>Addresses within the page of \<open>va\<close> translate together.\<close>

lemma same_page_offset:
  assumes "i < 4096 - unat va mod 4096"
  shows "PGROUNDDOWN (va + of_nat i) = PGROUNDDOWN va"
    and "va + of_nat i - PGROUNDDOWN va = (va - PGROUNDDOWN va) + of_nat i"
proof -
  have "unat (PGROUNDDOWN va) = unat va div 4096 * 4096" by (rule unat_PGROUNDDOWN)
  obtain P where P: "unat (PGROUNDDOWN va) = 4096 * P" "4096 * P + 4096 \<le> 2 ^ 64"
    using page_aligned_PGROUNDDOWN by (rule page_aligned_obtain)
  have va: "unat va = 4096 * P + unat va mod 4096" using P(1) mult_div_mod_eq [of 4096 "unat va"] by (simp add: unat_PGROUNDDOWN)
  then have "unat (va + of_nat i) = unat va + i"
    using assms P(2) by (simp add: unat_word_ariths unat_of_nat_small)
  then have "unat (va + of_nat i) div 4096 = P" using va assms by (simp add: div_eq_iff_range)
  then show "PGROUNDDOWN (va + of_nat i) = PGROUNDDOWN va"
    using P(1) by (simp add: word_unat_eq_iff unat_PGROUNDDOWN)
qed simp

lemma user_addr_same_page:
  assumes "walkaddr pt (PGROUNDDOWN va) st = Inr pa" and "pa \<noteq> 0" and "i < 4096 - unat va mod 4096"
  shows "user_addr pt st (va + of_nat i) = Some (pa + (va - PGROUNDDOWN va) + of_nat i)"
  using assms same_page_offset [OF assms(3)] by (simp add: user_addr_Some_iff)

lemma chunk_facts:
  assumes "0 < (len :: u64)" and n0: "n0 = PGSIZE - (va - PGROUNDDOWN va)" and n: "n = (if n0 > len then len else n0)"
  shows "0 < unat n" and "unat n \<le> unat len" and "unat n \<le> 4096 - unat va mod 4096"
    and "unat (len - n) = unat len - unat n"
    and "i < unat (len - n) \<Longrightarrow> PGROUNDDOWN va + PGSIZE + of_nat i = va + of_nat (unat n + i)"
proof -
  have "0 < n" "n \<le> len" "n \<le> n0" using assms(1) n page_rest_pos [of va] n0 by auto
  then show "0 < unat n" "unat n \<le> unat len" "unat n \<le> 4096 - unat va mod 4096"
    and len: "unat (len - n) = unat len - unat n"
    using page_rest_le [of va] n0 by (simp_all add: word_less_nat_alt word_le_nat_alt unat_sub)
  assume "i < unat (len - n)"
  then have "n = n0" using n len by (auto split: if_splits)
  then show "PGROUNDDOWN va + PGSIZE + of_nat i = va + of_nat (unat n + i)" by (simp add: n0)
qed

section \<open>Copying in\<close>

text \<open>The kernel buffer: off the page tables, and apart from the user bytes that are read.\<close>

definition copyin_apart :: "tables \<Rightarrow> u64 \<Rightarrow> u64 \<Rightarrow> u64 \<Rightarrow> nat \<Rightarrow> 'a kmem_scheme \<Rightarrow> bool" where
  "copyin_apart G pt dst srcva n st \<longleftrightarrow>
     (\<forall>b. in_range b dst n \<longrightarrow> off_tables G b)
     \<and> (\<forall>i<n. \<forall>a. user_addr pt st (srcva + of_nat i) = Some a \<longrightarrow> \<not> in_range a dst n)"

lemma copyin_apartD:
  assumes "copyin_apart G pt dst srcva n st"
  shows "in_range b dst n \<Longrightarrow> off_tables G b"
    and "i < n \<Longrightarrow> user_addr pt st (srcva + of_nat i) = Some a \<Longrightarrow> \<not> in_range a dst n"
  using assms unfolding copyin_apart_def by blast+

lemma in_range_split:
  assumes "unat n \<le> k" and "k < 2 ^ 64"
  shows "in_range a dst k \<longleftrightarrow> in_range a dst (unat n) \<or> in_range a (dst + n) (k - unat n)"
    and "in_range a (dst + n) (k - unat n) \<Longrightarrow> \<not> in_range a dst (unat n)"
proof -
  have sub: "unat (d - n) = (if unat n \<le> unat d then unat d - unat n else unat d + 2 ^ 64 - unat n)" for d :: u64
    by (simp add: unat_sub_if')
  have eq: "a - (dst + n) = a - dst - n" by simp
  have "(d < k \<longleftrightarrow> d < u \<or> e < k - u) \<and> (e < k - u \<longrightarrow> \<not> d < u)"
    if "e = (if u \<le> d then d - u else d + 2 ^ 64 - u)" "u \<le> k" "k < 2 ^ 64" for d e u :: nat
  proof (cases "u \<le> d")
    case False
    then have "k - u \<le> e" using that by simp
    with False that(2) show ?thesis by auto
  qed (use that in auto)
  from this [OF sub [of "a - dst", folded eq] assms]
  show "in_range a dst k \<longleftrightarrow> in_range a dst (unat n) \<or> in_range a (dst + n) (k - unat n)"
    and "in_range a (dst + n) (k - unat n) \<Longrightarrow> \<not> in_range a dst (unat n)"
    unfolding in_range_def by blast+
qed

text \<open>What one round of the loop does; the other rounds then see the rest of the copy.\<close>

lemma copyin_chunk:
  assumes tabs: "tables_ok kend pt G" and ents: "entries_ok G (memory st)"
    and apart: "copyin_apart G pt dst srcva (unat len) st" and len: "0 < len"
    and pa: "walkaddr pt (PGROUNDDOWN srcva) st = Inr pa" "pa \<noteq> 0"
    and n0: "n0 = PGSIZE - (srcva - PGROUNDDOWN srcva)" and n: "n = (if n0 > len then len else n0)"
    and st1: "st1 = st\<lparr>memory := memmove (memory st) dst (pa + (srcva - PGROUNDDOWN srcva)) (unat n)\<rparr>"
  shows "\<not> in_range b dst (unat len) \<Longrightarrow> memory st1 b = memory st b"
    and "i < unat n \<Longrightarrow> \<exists>a. user_addr pt st (srcva + of_nat i) = Some a \<and> memory st1 (dst + of_nat i) = memory st a"
    and "user_addr pt st1 = user_addr pt st" and "entries_ok G (memory st1)"
    and "copyin_apart G pt (dst + n) (PGROUNDDOWN srcva + PGSIZE) (unat (len - n)) st1"
proof -
  let ?src = "pa + (srcva - PGROUNDDOWN srcva)"
  note ch = chunk_facts [OF len n0 n]
  note apartD = copyin_apartD [OF apart]
  have ua: "user_addr pt st (srcva + of_nat i) = Some (?src + of_nat i)" if "i < unat n" for i
    using user_addr_same_page [OF pa] that ch(3) by simp
  have small: "unat len < 2 ^ 64" using unsigned_less [of len, where 'a = nat] by simp
  note split = in_range_split [OF ch(2) small, of _ dst, folded ch(4)]
  have "\<not> in_range (?src + of_nat i) dst (unat n)" if "i < unat n" for i
    using apartD(2) [OF _ ua [OF that]] that ch(2) split(1) by simp
  then have m1: "memory st1 = (\<lambda>a. if in_range a dst (unat n) then memory st (?src + (a - dst)) else memory st a)"
    using ch(2) small by (simp add: st1 memmove_disjoint)
  show "memory st1 b = memory st b" if "\<not> in_range b dst (unat len)" for b
    using that split(1) [of b] by (simp add: m1)
  show "\<exists>a. user_addr pt st (srcva + of_nat i) = Some a \<and> memory st1 (dst + of_nat i) = memory st a"
    if "i < unat n" for i
    using ua [OF that] that ch(2) small by (simp add: m1 in_range_def unat_of_nat_small)
  have off: "memory st1 b = memory st b" if "\<not> off_tables G b" for b
    using apartD(1) [of b] that split(1) by (auto simp: m1)
  show stable: "user_addr pt st1 = user_addr pt st" "entries_ok G (memory st1)"
    using user_addr_stable [OF tabs ents off] entries_ok_stable [OF tabs ents off] by blast+
  show "copyin_apart G pt (dst + n) (PGROUNDDOWN srcva + PGSIZE) (unat (len - n)) st1"
    unfolding copyin_apart_def stable(1)
  proof (intro conjI allI impI)
    show "off_tables G b" if "in_range b (dst + n) (unat (len - n))" for b
      using apartD(1) that split(1) by blast
    show "\<not> in_range a (dst + n) (unat (len - n))"
      if "i < unat (len - n)" "user_addr pt st (PGROUNDDOWN srcva + PGSIZE + of_nat i) = Some a" for i a
      using apartD(2) [of "unat n + i" a] that(2) split(1) ch(4) that(1)
      unfolding ch(5) [OF that(1)] by auto
  qed
qed

lemma copyin_spec:
  assumes "tables_ok kend pt G" and "entries_ok G (memory st)" and "copyin_apart G pt dst srcva (unat len) st"
  shows "\<exists>r st'. copyin pt dst srcva len st = Inr (r, st')
     \<and> (\<forall>b. \<not> in_range b dst (unat len) \<longrightarrow> memory st' b = memory st b)
     \<and> (r = 0 \<and> (\<forall>i<unat len. \<exists>a. user_addr pt st (srcva + of_nat i) = Some a \<and> memory st' (dst + of_nat i) = memory st a)
        \<or> r = -1 \<and> (\<exists>i<unat len. user_addr pt st (srcva + of_nat i) = None))"
  using assms
proof (induction pt dst srcva len st rule: copyin.induct)
  case (1 pt dst srcva len st)
  obtain pa where pa: "walkaddr pt (PGROUNDDOWN srcva) st = Inr pa" using walkaddr_Inr by blast
  consider "len = 0" | "0 < len" "pa = 0" | "0 < len" "pa \<noteq> 0" using word_gt_0 by blast
  then show ?case
  proof cases
    case 2
    then have "user_addr pt st (srcva + of_nat 0) = None" "0 < unat len"
      using pa by (simp_all add: user_addr_None_iff word_less_nat_alt)
    then show ?thesis using 2 pa
      by (intro exI [of _ "-1"] exI [of _ st]) (auto simp: copyin.simps [of pt dst])
  next
    case 3
    define n0 where "n0 = PGSIZE - (srcva - PGROUNDDOWN srcva)"
    define n where "n = (if n0 > len then len else n0)"
    define st1 where "st1 = st\<lparr>memory := memmove (memory st) dst (pa + (srcva - PGROUNDDOWN srcva)) (unat n)\<rparr>"
    note ch = chunk_facts [OF 3(1) n0_def n_def]
    note step = copyin_chunk [OF "1.prems" 3(1) pa 3(2) n0_def n_def st1_def]
    have small: "unat len < 2 ^ 64" using unsigned_less [of len, where 'a = nat] by simp
    note split = in_range_split [OF ch(2) small, of _ dst, folded ch(4)]
    have run: "copyin pt dst srcva len st = copyin pt (dst + n) (PGROUNDDOWN srcva + PGSIZE) (len - n) st1"
      using 3 pa by (simp add: copyin.simps [of pt dst] Let_def n_def n0_def st1_def)
    obtain r st' where IH: "copyin pt (dst + n) (PGROUNDDOWN srcva + PGSIZE) (len - n) st1 = Inr (r, st')"
      "\<forall>b. \<not> in_range b (dst + n) (unat (len - n)) \<longrightarrow> memory st' b = memory st1 b"
      "r = 0 \<and> (\<forall>i<unat (len - n). \<exists>a. user_addr pt st (PGROUNDDOWN srcva + PGSIZE + of_nat i) = Some a
              \<and> memory st' (dst + n + of_nat i) = memory st1 a)
        \<or> r = -1 \<and> (\<exists>i<unat (len - n). user_addr pt st (PGROUNDDOWN srcva + PGSIZE + of_nat i) = None)"
      using "1.IH" [OF 3(1) refl pa 3(2) n0_def n_def st1_def "1.prems"(1) step(4,5)] unfolding step(3) by blast
    have frame: "memory st' b = memory st b" if "\<not> in_range b dst (unat len)" for b
      using that IH(2) split(1) [of b] step(1) by simp
    from IH(3) show ?thesis
    proof (elim disjE conjE exE)
      fix i assume r: "r = -1" and i: "i < unat (len - n)"
        "user_addr pt st (PGROUNDDOWN srcva + PGSIZE + of_nat i) = None"
      have "unat n + i < unat len" using i(1) ch(4) by simp
      with i(2) have "\<exists>i<unat len. user_addr pt st (srcva + of_nat i) = None"
        unfolding ch(5) [OF i(1)] by blast
      with r IH(1) run frame show ?thesis by auto
    next
      assume r: "r = 0" and c: "\<forall>i<unat (len - n). \<exists>a. user_addr pt st (PGROUNDDOWN srcva + PGSIZE + of_nat i) = Some a
              \<and> memory st' (dst + n + of_nat i) = memory st1 a"
      have "\<exists>a. user_addr pt st (srcva + of_nat i) = Some a \<and> memory st' (dst + of_nat i) = memory st a"
        if i: "i < unat len" for i
      proof (cases "i < unat n")
        case True
        then have "in_range (dst + of_nat i) dst (unat n)"
          using small i by (simp add: in_range_def unat_of_nat_small)
        then have "memory st' (dst + of_nat i) = memory st1 (dst + of_nat i)"
          using IH(2) split(2) by blast
        with step(2) [OF True] show ?thesis by simp
      next
        case False
        then have j: "i - unat n < unat (len - n)" "unat n + (i - unat n) = i" using i ch(4) by simp_all
        obtain a where a: "user_addr pt st (srcva + of_nat i) = Some a"
          "memory st' (dst + n + of_nat (i - unat n)) = memory st1 a"
          using c [rule_format, OF j(1)] unfolding ch(5) [OF j(1)] j(2) by blast
        have "dst + n + of_nat (i - unat n) = dst + of_nat i" using j(2) False by (simp add: of_nat_diff)
        moreover have "memory st1 a = memory st a"
          using copyin_apartD(2) [OF "1.prems"(3) i a(1)] by (rule step(1))
        ultimately show ?thesis using a by metis
      qed
      with r IH(1) run frame show ?thesis by auto
    qed
  qed (simp add: copyin.simps)
qed

section \<open>Copying out\<close>

text \<open>The user bytes written: distinct, off the page tables, and apart from the kernel buffer.\<close>

definition copyout_apart :: "tables \<Rightarrow> u64 \<Rightarrow> u64 \<Rightarrow> u64 \<Rightarrow> nat \<Rightarrow> 'a kmem_scheme \<Rightarrow> bool" where
  "copyout_apart G pt dstva src n st \<longleftrightarrow>
     (\<forall>i<n. \<forall>a. user_addr pt st (dstva + of_nat i) = Some a \<longrightarrow>
        off_tables G a \<and> \<not> in_range a src n \<and> (\<forall>j<n. user_addr pt st (dstva + of_nat j) = Some a \<longrightarrow> j = i))"

lemma copyout_apartD:
  assumes "copyout_apart G pt dstva src n st" and "i < n" and "user_addr pt st (dstva + of_nat i) = Some a"
  shows "off_tables G a" and "\<not> in_range a src n"
    and "j < n \<Longrightarrow> user_addr pt st (dstva + of_nat j) = Some a \<Longrightarrow> j = i"
  using assms unfolding copyout_apart_def by blast+

lemma in_range_offset: "n \<le> 2 ^ 64 \<Longrightarrow> in_range a b n \<longleftrightarrow> (\<exists>k<n. a = b + of_nat k)"
  using addr_offset_iff [of _ a b] unfolding in_range_def by (metis order.strict_trans2)

lemma copyout_chunk:
  assumes tabs: "tables_ok kend pt G" and ents: "entries_ok G (memory st)"
    and apart: "copyout_apart G pt dstva src (unat len) st" and len: "0 < len"
    and pa: "walkaddr pt (PGROUNDDOWN dstva) st = Inr pa" "pa \<noteq> 0"
    and n0: "n0 = PGSIZE - (dstva - PGROUNDDOWN dstva)" and n: "n = (if n0 > len then len else n0)"
    and st1: "st1 = st\<lparr>memory := memmove (memory st) (pa + (dstva - PGROUNDDOWN dstva)) src (unat n)\<rparr>"
  shows "(\<And>i. i < unat n \<Longrightarrow> user_addr pt st (dstva + of_nat i) \<noteq> Some b) \<Longrightarrow> memory st1 b = memory st b"
    and "i < unat n \<Longrightarrow> \<exists>a. user_addr pt st (dstva + of_nat i) = Some a \<and> memory st1 a = memory st (src + of_nat i)"
    and "user_addr pt st1 = user_addr pt st" and "entries_ok G (memory st1)"
    and "copyout_apart G pt (PGROUNDDOWN dstva + PGSIZE) (src + n) (unat (len - n)) st1"
    and "i < unat len \<Longrightarrow> memory st1 (src + of_nat i) = memory st (src + of_nat i)"
proof -
  let ?d = "pa + (dstva - PGROUNDDOWN dstva)"
  note ch = chunk_facts [OF len n0 n]
  note apartD = copyout_apartD [OF apart]
  have ua: "user_addr pt st (dstva + of_nat i) = Some (?d + of_nat i)" if "i < unat n" for i
    using user_addr_same_page [OF pa] that ch(3) by simp
  have small: "unat len < 2 ^ 64" "unat n < 2 ^ 64"
    using unsigned_less [of len, where 'a = nat] unsigned_less [of n, where 'a = nat] by simp_all
  have chunk: "in_range a ?d (unat n) \<longleftrightarrow> (\<exists>k<unat n. a = ?d + of_nat k)" for a
    using small by (intro in_range_offset) simp
  have src: "\<not> in_range (src + of_nat i) ?d (unat n)" if "i < unat len" for i
  proof
    assume "in_range (src + of_nat i) ?d (unat n)"
    then obtain k where k: "k < unat n" "src + of_nat i = ?d + of_nat k" using chunk by blast
    have "\<not> in_range (src + of_nat i) src (unat len)"
      using apartD(2) [OF _ ua [OF k(1)]] k ch(2) by simp
    then show False using that small by (simp add: in_range_def unat_of_nat_small)
  qed
  then have m1: "memory st1 = (\<lambda>a. if in_range a ?d (unat n) then memory st (src + (a - ?d)) else memory st a)"
    using small ch(2) by (simp add: st1 memmove_disjoint)
  show "memory st1 (src + of_nat i) = memory st (src + of_nat i)" if "i < unat len" for i
    using src [OF that] by (simp add: m1)
  show "memory st1 b = memory st b" if "\<And>i. i < unat n \<Longrightarrow> user_addr pt st (dstva + of_nat i) \<noteq> Some b" for b
    using that ua chunk [of b] by (auto simp: m1)
  show "\<exists>a. user_addr pt st (dstva + of_nat i) = Some a \<and> memory st1 a = memory st (src + of_nat i)"
    if "i < unat n" for i
    using ua [OF that] that small by (simp add: m1 in_range_def unat_of_nat_small)
  have off: "memory st1 b = memory st b" if "\<not> off_tables G b" for b
    using that apartD(1) [OF _ ua] ch(2) chunk by (auto simp: m1)
  show stable: "user_addr pt st1 = user_addr pt st" "entries_ok G (memory st1)"
    using user_addr_stable [OF tabs ents off] entries_ok_stable [OF tabs ents off] by blast+
  note split = in_range_split [OF ch(2) small(1), of _ src, folded ch(4)]
  have next_i: "unat n + i < unat len" if "i < unat (len - n)" for i using that ch(4) by simp
  show "copyout_apart G pt (PGROUNDDOWN dstva + PGSIZE) (src + n) (unat (len - n)) st1"
    unfolding copyout_apart_def stable(1)
  proof (intro allI impI conjI)
    fix i a assume i: "i < unat (len - n)" "user_addr pt st (PGROUNDDOWN dstva + PGSIZE + of_nat i) = Some a"
    note ap = apartD [OF next_i [OF i(1)] i(2) [unfolded ch(5) [OF i(1)]]]
    show "off_tables G a" "\<not> in_range a (src + n) (unat (len - n))" using ap split(1) by blast+
    fix j assume j: "j < unat (len - n)" "user_addr pt st (PGROUNDDOWN dstva + PGSIZE + of_nat j) = Some a"
    show "j = i" using ap(3) [OF next_i [OF j(1)] j(2) [unfolded ch(5) [OF j(1)]]] by simp
  qed
qed

lemma copyout_spec:
  assumes "tables_ok kend pt G" and "entries_ok G (memory st)" and "copyout_apart G pt dstva src (unat len) st"
  shows "\<exists>r st'. copyout pt dstva src len st = Inr (r, st')
     \<and> (\<forall>b. (\<forall>i<unat len. user_addr pt st (dstva + of_nat i) \<noteq> Some b) \<longrightarrow> memory st' b = memory st b)
     \<and> (r = 0 \<and> (\<forall>i<unat len. \<exists>a. user_addr pt st (dstva + of_nat i) = Some a \<and> memory st' a = memory st (src + of_nat i))
        \<or> r = -1 \<and> (\<exists>i<unat len. user_addr pt st (dstva + of_nat i) = None))"
  using assms
proof (induction pt dstva src len st rule: copyout.induct)
  case (1 pt dstva src len st)
  obtain pa where pa: "walkaddr pt (PGROUNDDOWN dstva) st = Inr pa" using walkaddr_Inr by blast
  consider "len = 0" | "0 < len" "pa = 0" | "0 < len" "pa \<noteq> 0" using word_gt_0 by blast
  then show ?case
  proof cases
    case 2
    then have "user_addr pt st (dstva + of_nat 0) = None" "0 < unat len"
      using pa by (simp_all add: user_addr_None_iff word_less_nat_alt)
    then show ?thesis using 2 pa
      by (intro exI [of _ "-1"] exI [of _ st]) (auto simp: copyout.simps [of pt dstva])
  next
    case 3
    define n0 where "n0 = PGSIZE - (dstva - PGROUNDDOWN dstva)"
    define n where "n = (if n0 > len then len else n0)"
    define st1 where "st1 = st\<lparr>memory := memmove (memory st) (pa + (dstva - PGROUNDDOWN dstva)) src (unat n)\<rparr>"
    note ch = chunk_facts [OF 3(1) n0_def n_def]
    note step = copyout_chunk [OF "1.prems" 3(1) pa 3(2) n0_def n_def st1_def]
    have run: "copyout pt dstva src len st = copyout pt (PGROUNDDOWN dstva + PGSIZE) (src + n) (len - n) st1"
      using 3 pa by (simp add: copyout.simps [of pt dstva] Let_def n_def n0_def st1_def)
    obtain r st' where IH: "copyout pt (PGROUNDDOWN dstva + PGSIZE) (src + n) (len - n) st1 = Inr (r, st')"
      "\<forall>b. (\<forall>i<unat (len - n). user_addr pt st (PGROUNDDOWN dstva + PGSIZE + of_nat i) \<noteq> Some b)
         \<longrightarrow> memory st' b = memory st1 b"
      "r = 0 \<and> (\<forall>i<unat (len - n). \<exists>a. user_addr pt st (PGROUNDDOWN dstva + PGSIZE + of_nat i) = Some a
              \<and> memory st' a = memory st1 (src + n + of_nat i))
        \<or> r = -1 \<and> (\<exists>i<unat (len - n). user_addr pt st (PGROUNDDOWN dstva + PGSIZE + of_nat i) = None)"
      using "1.IH" [OF 3(1) refl pa 3(2) n0_def n_def st1_def "1.prems"(1) step(4,5)] unfolding step(3) by blast
    have keep: "memory st' b = memory st1 b"
      if later: "\<And>i. i < unat len \<Longrightarrow> unat n \<le> i \<Longrightarrow> user_addr pt st (dstva + of_nat i) \<noteq> Some b" for b
    proof -
      have "user_addr pt st (PGROUNDDOWN dstva + PGSIZE + of_nat i) \<noteq> Some b" if "i < unat (len - n)" for i
        unfolding ch(5) [OF that] by (rule later) (use that ch(4) in simp_all)
      then show ?thesis using IH(2) by blast
    qed
    have frame: "memory st' b = memory st b" if "\<forall>i<unat len. user_addr pt st (dstva + of_nat i) \<noteq> Some b" for b
      using that keep [of b] step(1) [of b] ch(2) by simp
    from IH(3) show ?thesis
    proof (elim disjE conjE exE)
      fix i assume r: "r = -1" and i: "i < unat (len - n)"
        "user_addr pt st (PGROUNDDOWN dstva + PGSIZE + of_nat i) = None"
      have "unat n + i < unat len" using i(1) ch(4) by simp
      with i(2) have "\<exists>i<unat len. user_addr pt st (dstva + of_nat i) = None"
        unfolding ch(5) [OF i(1)] by blast
      with r IH(1) run frame show ?thesis by auto
    next
      assume r: "r = 0" and c: "\<forall>i<unat (len - n). \<exists>a. user_addr pt st (PGROUNDDOWN dstva + PGSIZE + of_nat i) = Some a
              \<and> memory st' a = memory st1 (src + n + of_nat i)"
      have "\<exists>a. user_addr pt st (dstva + of_nat i) = Some a \<and> memory st' a = memory st (src + of_nat i)"
        if i: "i < unat len" for i
      proof (cases "i < unat n")
        case True
        obtain a where a: "user_addr pt st (dstva + of_nat i) = Some a" "memory st1 a = memory st (src + of_nat i)"
          using step(2) [OF True] by blast
        have "memory st' a = memory st1 a"
          using copyout_apartD(3) [OF "1.prems"(3) i a(1)] True by (intro keep) fastforce
        with a show ?thesis by simp
      next
        case False
        then have j: "i - unat n < unat (len - n)" "unat n + (i - unat n) = i" using i ch(4) by simp_all
        have eq: "src + n + of_nat (i - unat n) = src + of_nat i" using j(2) False by (simp add: of_nat_diff)
        show ?thesis
          using c [rule_format, OF j(1)] unfolding ch(5) [OF j(1)] j(2) eq step(6) [OF i] .
      qed
      with r IH(1) run frame show ?thesis by auto
    qed
  qed (simp add: copyout.simps)
qed

section \<open>Copying in a string\<close>

definition copied :: "mem \<Rightarrow> u64 \<Rightarrow> u64 \<Rightarrow> nat \<Rightarrow> mem" where
  "copied m p dst k = (\<lambda>a. if in_range a dst k then m (p + (a - dst)) else m a)"

lemma copied_Suc:
  assumes "k < 2 ^ 64" and "\<And>i. i < k \<Longrightarrow> p + of_nat (Suc i) \<noteq> dst"
  shows "copied (m(dst := m p)) (p + 1) (dst + 1) k = copied m p dst (Suc k)"
proof
  fix a
  have "p + (a - dst) \<noteq> dst" if a: "in_range a (dst + 1) k"
  proof -
    obtain i where i: "i < k" "a = dst + 1 + of_nat i"
      using a assms(1) in_range_offset [of k a "dst + 1"] by auto
    then show ?thesis using assms(2) [of i] by (simp add: algebra_simps)
  qed
  then show "copied (m(dst := m p)) (p + 1) (dst + 1) k a = copied m p dst (Suc k) a"
    using not_in_range_before [OF assms(1), of dst]
    by (auto simp: copied_def in_range_Suc_start [OF assms(1)] algebra_simps)
qed

lemma copyinstr_page_spec:
  assumes "n < 2 ^ 64" and "\<forall>i<n. \<not> in_range (p + of_nat i) dst n"
  shows "(\<exists>k<n. m (p + of_nat k) = 0 \<and> (\<forall>i<k. m (p + of_nat i) \<noteq> 0)
            \<and> (\<exists>d x. copyinstr_page m p dst n mx = (copied m p dst (Suc k), True, d, x)))
         \<or> (\<forall>i<n. m (p + of_nat i) \<noteq> 0)
            \<and> copyinstr_page m p dst n mx = (copied m p dst n, False, dst + of_nat n, mx - of_nat n)"
  using assms
proof (induction m p dst n mx rule: copyinstr_page.induct)
  case (1 m p dst max_n)
  then show ?case by (simp add: copied_def)
next
  case (2 m p dst n mx)
  have n: "n < 2 ^ 64" using "2.prems"(1) by simp
  have ne: "p + of_nat i \<noteq> dst" if "i < Suc n" for i
    using "2.prems"(2) that by (auto simp: in_range_def)
  show ?case
  proof (cases "m p = 0")
    case True
    then have "m(dst := 0) = copied m p dst (Suc 0)" by (auto simp: copied_def fun_eq_iff in_range_Suc_start)
    with True show ?thesis by (intro disjI1 exI [of _ 0]) auto
  next
    case False
    let ?m = "m(dst := m p)"
    have "\<not> in_range (p + of_nat (Suc i)) dst (Suc n)" if "i < n" for i
      using "2.prems"(2) that Suc_less_eq by blast
    then have dis: "\<forall>i<n. \<not> in_range (p + 1 + of_nat i) (dst + 1) n"
      by (simp add: in_range_Suc_start [OF n] add.assoc)
    have val: "?m (p + 1 + of_nat i) = m (p + of_nat (Suc i))" if "i < n" for i
      using ne [of "Suc i"] that by (auto simp: algebra_simps)
    have cp: "copied ?m (p + 1) (dst + 1) k = copied m p dst (Suc k)" if "k \<le> n" for k
      using that n by (intro copied_Suc ne) auto
    from "2.IH" [OF False n dis] show ?thesis
    proof (elim disjE exE conjE)
      fix k d x assume k: "k < n" "?m (p + 1 + of_nat k) = 0" "\<forall>i<k. ?m (p + 1 + of_nat i) \<noteq> 0"
        "copyinstr_page ?m (p + 1) (dst + 1) n (mx - 1) = (copied ?m (p + 1) (dst + 1) (Suc k), True, d, x)"
      have "m (p + of_nat i) \<noteq> 0" if "i < Suc k" for i
        using that False k(1,3) val by (cases i) auto
      then show ?thesis
        using k False val cp [of "Suc k"] by (intro disjI1 exI [of _ "Suc k"]) auto
    next
      assume c: "\<forall>i<n. ?m (p + 1 + of_nat i) \<noteq> 0" "copyinstr_page ?m (p + 1) (dst + 1) n (mx - 1) =
        (copied ?m (p + 1) (dst + 1) n, False, dst + 1 + of_nat n, mx - 1 - of_nat n)"
      have "m (p + of_nat i) \<noteq> 0" if "i < Suc n" for i
        using that False c(1) val by (cases i) auto
      then show ?thesis using c(2) False cp [of n] by (simp add: algebra_simps)
    qed
  qed
qed

lemma all_less_add: "(\<forall>j < n + k. P j) \<longleftrightarrow> (\<forall>j<n. P j) \<and> (\<forall>i<k. P (n + i))" for n k :: nat
  by (auto; metis add_diff_inverse_nat nat_add_left_cancel_less)

text \<open>The byte of the user's memory at an offset, and where its first terminator lies.\<close>

definition ubyte :: "u64 \<Rightarrow> 'a kmem_scheme \<Rightarrow> u64 \<Rightarrow> u8 option" where
  "ubyte pt st va = map_option (memory st) (user_addr pt st va)"

definition ustring_at :: "u64 \<Rightarrow> 'a kmem_scheme \<Rightarrow> u64 \<Rightarrow> nat \<Rightarrow> bool" where
  "ustring_at pt st va k \<longleftrightarrow>
     ubyte pt st (va + of_nat k) = Some 0
     \<and> (\<forall>i<k. \<exists>c. ubyte pt st (va + of_nat i) = Some c \<and> c \<noteq> 0)"

lemma ustring_at_add:
  assumes "\<And>j. j < n \<Longrightarrow> \<exists>c. ubyte pt st (va + of_nat j) = Some c \<and> c \<noteq> 0"
    and "\<And>i. i \<le> k \<Longrightarrow> ubyte pt st1 (va1 + of_nat i) = ubyte pt st (va + of_nat (n + i))"
  shows "ustring_at pt st1 va1 k \<longleftrightarrow> ustring_at pt st va (n + k)"
  unfolding ustring_at_def all_less_add using assms by (simp del: of_nat_add)

lemma copyinstr_loop_spec:
  assumes "tables_ok kend pt G" and "entries_ok G (memory st)" and "copyin_apart G pt dst srcva (unat mx) st"
  shows "\<exists>r st'. copyinstr_loop pt dst srcva mx False st = Inr (r, st')
     \<and> (\<forall>b. \<not> in_range b dst (unat mx) \<longrightarrow> memory st' b = memory st b)
     \<and> (r = 0 \<and> (\<exists>k<unat mx. ustring_at pt st srcva k
                   \<and> (\<forall>i\<le>k. ubyte pt st (srcva + of_nat i) = Some (memory st' (dst + of_nat i))))
        \<or> r = -1 \<and> (\<forall>k<unat mx. \<not> ustring_at pt st srcva k))"
  using assms
proof (induction "unat mx" arbitrary: dst srcva mx st rule: less_induct)
  case less
  obtain pa where pa: "walkaddr pt (PGROUNDDOWN srcva) st = Inr pa" using walkaddr_Inr by blast
  consider "mx = 0" | "0 < mx" "pa = 0" | "0 < mx" "pa \<noteq> 0" using word_gt_0 by blast
  then show ?case
  proof cases
    case 2
    then have "ubyte pt st (srcva + of_nat 0) = None"
      using pa by (simp add: user_addr_None_iff ubyte_def)
    then have "\<not> ustring_at pt st srcva k" for k unfolding ustring_at_def by (cases k) fastforce+
    then show ?thesis using 2 pa
      by (intro exI [of _ "-1"] exI [of _ st]) (auto simp: copyinstr_loop.simps [of pt dst])
  next
    case 3
    define n0 where "n0 = PGSIZE - (srcva - PGROUNDDOWN srcva)"
    define n where "n = (if n0 > mx then mx else n0)"
    let ?src = "pa + (srcva - PGROUNDDOWN srcva)"
    define st1 where "st1 = st\<lparr>memory := memmove (memory st) dst ?src (unat n)\<rparr>"
    note ch = chunk_facts [OF 3(1) n0_def n_def]
    note step = copyin_chunk [OF less.prems 3(1) pa 3(2) n0_def n_def st1_def]
    note apartD = copyin_apartD [OF less.prems(3)]
    have small: "unat mx < 2 ^ 64" using unsigned_less [of mx, where 'a = nat] by simp
    note split = in_range_split [OF ch(2) small, of _ dst, folded ch(4)]
    have ua: "user_addr pt st (srcva + of_nat i) = Some (?src + of_nat i)" if "i < unat n" for i
      using user_addr_same_page [OF pa 3(2)] that ch(3) by simp
    have dis: "\<forall>i<unat n. \<not> in_range (?src + of_nat i) dst (unat n)"
      using apartD(2) [OF _ ua] ch(2) split(1) by simp
    have mm: "memory st1 = copied (memory st) ?src dst (unat n)"
      using ch(2) small dis by (simp add: st1_def memmove_disjoint copied_def)
    have ub: "ubyte pt st (srcva + of_nat i) = Some (memory st (?src + of_nat i))" if "i < unat n" for i
      using ua [OF that] by (simp add: ubyte_def)
    have "unat n < 2 ^ 64" using ch(2) small by simp
    from copyinstr_page_spec [OF this dis, where m = "memory st" and mx = mx] show ?thesis
    proof (elim disjE exE conjE)
      fix k d x assume k: "k < unat n" "memory st (?src + of_nat k) = 0" "\<forall>i<k. memory st (?src + of_nat i) \<noteq> 0"
        and page: "copyinstr_page (memory st) ?src dst (unat n) mx = (copied (memory st) ?src dst (Suc k), True, d, x)"
      let ?st2 = "st\<lparr>memory := copied (memory st) ?src dst (Suc k)\<rparr>"
      have "copyinstr_loop pt dst srcva mx False st = Inr (0, ?st2)"
        using 3 pa page by (simp add: copyinstr_loop.simps Let_def n_def [symmetric] n0_def [symmetric])
      moreover have "memory ?st2 b = memory st b" if "\<not> in_range b dst (unat mx)" for b
        using that k(1) ch(2) by (simp add: copied_def in_range_def)
      moreover have "ustring_at pt st srcva k" using k ub by (simp add: ustring_at_def)
      moreover have "ubyte pt st (srcva + of_nat i) = Some (memory ?st2 (dst + of_nat i))" if "i \<le> k" for i
        using that ub [of i] k(1) ch(2) small by (simp add: copied_def in_range_def unat_of_nat_small)
      moreover have "k < unat mx" using k(1) ch(2) by simp
      ultimately show ?thesis by (intro exI [of _ 0] exI [of _ ?st2]) auto
    next
      assume nz: "\<forall>i<unat n. memory st (?src + of_nat i) \<noteq> 0"
        and page: "copyinstr_page (memory st) ?src dst (unat n) mx =
            (copied (memory st) ?src dst (unat n), False, dst + of_nat (unat n), mx - of_nat (unat n))"
      have run: "copyinstr_loop pt dst srcva mx False st =
          copyinstr_loop pt (dst + n) (PGROUNDDOWN srcva + PGSIZE) (mx - n) False st1"
        using 3 pa page mm
        by (simp add: copyinstr_loop.simps [of pt dst] Let_def n_def [symmetric] n0_def [symmetric] st1_def)
      have later: "ubyte pt st1 (PGROUNDDOWN srcva + PGSIZE + of_nat i) = ubyte pt st (srcva + of_nat (unat n + i))"
        if "i < unat (mx - n)" for i
      proof -
        have "unat n + i < unat mx" using that ch(4) by simp
        then show ?thesis
          unfolding ubyte_def step(3) ch(5) [OF that]
          using step(1) [OF apartD(2) [of "unat n + i"]]
          by (cases "user_addr pt st (srcva + of_nat (unat n + i))") auto
      qed
      have str: "ustring_at pt st1 (PGROUNDDOWN srcva + PGSIZE) k \<longleftrightarrow> ustring_at pt st srcva (unat n + k)"
        if k: "k < unat (mx - n)" for k
        using later k ub nz by (intro ustring_at_add) auto
      have "unat (mx - n) < unat mx" using ch(1,2,4) by simp
      from less.hyps [OF this less.prems(1) step(4,5)] obtain r st' where
        IH: "copyinstr_loop pt (dst + n) (PGROUNDDOWN srcva + PGSIZE) (mx - n) False st1 = Inr (r, st')"
        "\<forall>b. \<not> in_range b (dst + n) (unat (mx - n)) \<longrightarrow> memory st' b = memory st1 b"
        "r = 0 \<and> (\<exists>k<unat (mx - n). ustring_at pt st1 (PGROUNDDOWN srcva + PGSIZE) k
                   \<and> (\<forall>i\<le>k. ubyte pt st1 (PGROUNDDOWN srcva + PGSIZE + of_nat i) = Some (memory st' (dst + n + of_nat i))))
        \<or> r = -1 \<and> (\<forall>k<unat (mx - n). \<not> ustring_at pt st1 (PGROUNDDOWN srcva + PGSIZE) k)" by blast
      have none: "\<not> ustring_at pt st srcva k" if "k < unat n" for k
        using ub [OF that] nz that by (simp add: ustring_at_def)
      have frame: "memory st' b = memory st b" if "\<not> in_range b dst (unat mx)" for b
        using that IH(2) split(1) [of b] step(1) by simp
      from IH(3) show ?thesis
      proof (elim disjE conjE exE)
        assume r: "r = -1" and no: "\<forall>k<unat (mx - n). \<not> ustring_at pt st1 (PGROUNDDOWN srcva + PGSIZE) k"
        have "\<not> ustring_at pt st srcva k" if "k < unat mx" for k
          using none [of k] str [of "k - unat n"] no that ch(4) by (cases "k < unat n") simp_all
        with r IH(1) run frame show ?thesis by auto
      next
        fix k assume r: "r = 0" and k: "k < unat (mx - n)" "ustring_at pt st1 (PGROUNDDOWN srcva + PGSIZE) k"
          and c: "\<forall>i\<le>k. ubyte pt st1 (PGROUNDDOWN srcva + PGSIZE + of_nat i) = Some (memory st' (dst + n + of_nat i))"
        have "ubyte pt st (srcva + of_nat i) = Some (memory st' (dst + of_nat i))" if i: "i \<le> unat n + k" for i
        proof (cases "i < unat n")
          case True
          then have "in_range (dst + of_nat i) dst (unat n)"
            using small ch(2) by (simp add: in_range_def unat_of_nat_small)
          then have "memory st' (dst + of_nat i) = memory st1 (dst + of_nat i)" using IH(2) split(2) by blast
          with step(2) [OF True] show ?thesis by (auto simp: ubyte_def)
        next
          case False
          then have j: "i - unat n \<le> k" "unat n + (i - unat n) = i" using i by simp_all
          have "dst + n + of_nat (i - unat n) = dst + of_nat i" using False by (simp add: of_nat_diff)
          then show ?thesis using c [rule_format, OF j(1)] later [of "i - unat n"] j k(1) by simp
        qed
        moreover have "unat n + k < unat mx" using k(1) ch(4) by simp
        ultimately show ?thesis using r IH(1) run frame str [OF k(1)] k(2)
          by (intro exI [of _ r] exI [of _ st']) auto
      qed
    qed
  qed (simp add: copyinstr_loop.simps)
qed

section \<open>A small address space\<close>

text \<open>One user page at address 0, mapped to the physical page \<open>0x80004000\<close>: it shows that the
  hypotheses used above can be met together.\<close>

definition small_space :: kmem where
  "small_space =
     \<lparr>memory =
        store64 (store64 (store64 (\<lambda>_. 0) 0x80003000 (PA2PTE 0x80004000 OR (PTE_R OR PTE_W OR PTE_U OR PTE_V)))
          0x80002000 (PA2PTE 0x80003000 OR PTE_V)) 0x80001000 (PA2PTE 0x80002000 OR PTE_V),
      freelist = 0x80005000\<rparr>"

definition small_tables :: tables where
  "small_tables = [(2, 0) \<mapsto> 0x80001000, (1, 0) \<mapsto> 0x80002000, (0, 0) \<mapsto> 0x80003000]"

lemma small_load:
  assumes "page_aligned p" and "i < 512"
  shows "load64 (memory small_space) (p + 8 * of_nat i) =
    (if i = 0 \<and> p = 0x80001000 then PA2PTE 0x80002000 OR PTE_V
     else if i = 0 \<and> p = 0x80002000 then PA2PTE 0x80003000 OR PTE_V
     else if i = 0 \<and> p = 0x80003000 then PA2PTE 0x80004000 OR (PTE_R OR PTE_W OR PTE_U OR PTE_V)
     else 0)"
proof -
  have al: "page_aligned 0x80001000" "page_aligned 0x80002000" "page_aligned 0x80003000"
    by (simp_all add: page_aligned_def)
  have zero: "load64 (\<lambda>_. 0) a = 0" for a by (simp add: load64_def load_bytes_zero)
  show ?thesis
    using load_slot_store [OF al(1) assms(1) _ assms(2), of 0] load_slot_store [OF al(2) assms(1) _ assms(2), of 0]
      load_slot_store [OF al(3) assms(1) _ assms(2), of 0]
    by (auto simp: small_space_def zero)
qed

lemma small_loads:
  "load64 (memory small_space) 0x80001000 = PA2PTE 0x80002000 OR PTE_V"
  "load64 (memory small_space) 0x80002000 = PA2PTE 0x80003000 OR PTE_V"
  "load64 (memory small_space) 0x80003000 = PA2PTE 0x80004000 OR (PTE_R OR PTE_W OR PTE_U OR PTE_V)"
  "load64 (memory small_space) 0x80005000 = 0"
  using small_load [of "0x80001000" 0] small_load [of "0x80002000" 0] small_load [of "0x80003000" 0]
    small_load [of "0x80005000" 0] by (simp_all add: page_aligned_def)

lemma small_space_rep: "vm_rep 0x80000000 0x80001000 small_tables small_space [0x80005000]"
proof -
  have tabs: "tables_ok 0x80000000 0x80001000 small_tables"
    by (auto simp: tables_ok_def small_tables_def page_ok_def page_aligned_def PHYSTOP_def KERNBASE_def
        inj_on_def split: if_splits)
  have ents: "entries_ok small_tables (memory small_space)"
    unfolding entries_ok_def
  proof (intro allI impI)
    fix l k i :: nat and p assume p: "small_tables (Suc l, k) = Some p" and i: "i < 512"
    have "page_aligned p" using tables_okD(2) [OF tabs p] .
    with p i show "case small_tables (l, 512 * k + i) of
        None \<Rightarrow> load64 (memory small_space) (p + 8 * of_nat i) AND PTE_V = 0
      | Some q \<Rightarrow> load64 (memory small_space) (p + 8 * of_nat i) = PA2PTE q OR PTE_V"
      by (auto simp: small_load small_loads small_tables_def split: if_splits)
  qed
  have "freelist small_space = 0x80005000" by (simp add: small_space_def)
  then have "kmem_rep 0x80000000 small_space [0x80005000]"
    by (simp add: kmem_rep_def page_ok_def page_aligned_def KERNBASE_def PHYSTOP_def small_loads)
  with tabs ents show ?thesis by (auto simp: vm_rep_def small_tables_def ran_def split: if_splits)
qed

lemma small_space_addr:
  assumes "unat va < 4096"
  shows "user_addr 0x80001000 small_space va = Some (0x80004000 + va)"
proof -
  have pd: "PGROUNDDOWN va = 0" using assms by (simp add: word_unat_eq_iff unat_PGROUNDDOWN)
  have k: "vkey 0 0 = 0" "PX 0 0 = 0" by (simp_all add: vkey_def PX_def)
  have "walkaddr 0x80001000 0 small_space = Inr 0x80004000"
    using vm_walk [OF small_space_rep, of 0] by (simp add: walkaddr_def k small_loads small_tables_def MAXVA_def page_consts PA2PTE_def PTE2PA_def)
  then show ?thesis by (simp add: user_addr_def pd)
qed

lemma small_space_apart:
  "i < 100 \<Longrightarrow> user_addr 0x80001000 small_space (10 + of_nat i) = Some (0x8000400A + of_nat i)"
  "copyout_apart small_tables 0x80001000 10 0x80006000 (unat (100 :: u64)) small_space"
  "copyin_apart small_tables 0x80001000 0x80007000 10 (unat (100 :: u64)) small_space"
proof -
  show ua: "user_addr 0x80001000 small_space (10 + of_nat i) = Some (0x8000400A + of_nat i)" if "i < 100" for i
    using that small_space_addr [of "10 + of_nat i"] by (simp add: unat_word_ariths unat_of_nat_small)
  have un: "unat (c + of_nat i) = unat c + i" if "i < 100" "unat c < 2 ^ 63" for c :: u64 and i
    using that by (simp add: unat_word_ariths unat_of_nat_small)
  have off: "off_tables small_tables b" if "0x80004000 \<le> unat b" for b
    using that by (auto simp: off_tables_def small_tables_def ran_def in_range_nowrap split: if_splits)
  show "copyout_apart small_tables 0x80001000 10 0x80006000 (unat (100 :: u64)) small_space"
    by (auto simp: copyout_apart_def ua un off in_range_nowrap word_unat_eq_iff)
  show "copyin_apart small_tables 0x80001000 0x80007000 10 (unat (100 :: u64)) small_space"
    by (auto simp: copyin_apart_def ua un off in_range_nowrap)
qed

section \<open>Properties\<close>

text \<open>C10. What \<^verbatim>\<open>copyout\<close> writes into a user address space \<^verbatim>\<open>copyin\<close> reads back: after a successful
  \<^verbatim>\<open>copyout\<close>, a \<^verbatim>\<open>copyin\<close> of the same range succeeds and fills its buffer with the original bytes, however
  many pages the range crosses and wherever they are in physical memory.\<close>

theorem copyout_copyin:
  assumes "vm_rep kend pt G st ps" and "copyout_apart G pt va src (unat len) st"
    and "copyin_apart G pt dst va (unat len) st" and "copyout pt va src len st = Inr (0, st1)"
  shows "\<exists>st2. copyin pt dst va len st1 = Inr (0, st2)
           \<and> bytes_at (memory st2) dst (unat len) = bytes_at (memory st) src (unat len)"
proof -
  have rep: "tables_ok kend pt G" "entries_ok G (memory st)" using assms(1) by (simp_all add: vm_rep_def)
  from copyout_spec [OF rep assms(2)] assms(4) have
    out: "\<forall>b. (\<forall>i<unat len. user_addr pt st (va + of_nat i) \<noteq> Some b) \<longrightarrow> memory st1 b = memory st b"
    "\<forall>i<unat len. \<exists>a. user_addr pt st (va + of_nat i) = Some a \<and> memory st1 a = memory st (src + of_nat i)"
    by auto
  have off: "memory st1 b = memory st b" if "\<not> off_tables G b" for b
    using out(1) copyout_apartD(1) [OF assms(2)] that by blast
  have stable: "user_addr pt st1 = user_addr pt st" "entries_ok G (memory st1)"
    using user_addr_stable [OF rep off] entries_ok_stable [OF rep off] by blast+
  have "copyin_apart G pt dst va (unat len) st1" using assms(3) by (simp add: copyin_apart_def stable)
  from copyin_spec [OF rep(1) stable(2) this] obtain r st2 where
    cin: "copyin pt dst va len st1 = Inr (r, st2)"
    "r = 0 \<and> (\<forall>i<unat len. \<exists>a. user_addr pt st (va + of_nat i) = Some a \<and> memory st2 (dst + of_nat i) = memory st1 a)
     \<or> r = -1 \<and> (\<exists>i<unat len. user_addr pt st (va + of_nat i) = None)" unfolding stable by blast
  have "r = 0" "\<forall>i<unat len. memory st2 (dst + of_nat i) = memory st (src + of_nat i)"
    using cin(2) out(2) by fastforce+
  with cin(1) show ?thesis by (auto intro!: exI [of _ st2] nth_equalityI)
qed

theorem copyout_copyin_witness:
  "\<exists>st1 st2. copyout 0x80001000 10 0x80006000 100 small_space = Inr (0, st1)
     \<and> copyin 0x80001000 0x80007000 10 100 st1 = Inr (0, st2)
     \<and> bytes_at (memory st2) 0x80007000 100 = bytes_at (memory small_space) 0x80006000 100"
proof -
  have rep: "tables_ok 0x80000000 0x80001000 small_tables" "entries_ok small_tables (memory small_space)"
    using small_space_rep by (simp_all add: vm_rep_def)
  obtain st1 where "copyout 0x80001000 10 0x80006000 100 small_space = Inr (0, st1)"
    using copyout_spec [OF rep small_space_apart(2)] small_space_apart(1) by auto
  with copyout_copyin [OF small_space_rep small_space_apart(2,3) this] show ?thesis by auto
qed

text \<open>C11. \<^verbatim>\<open>copyinstr\<close> with a bound of \<open>mx\<close> bytes succeeds exactly when the user's memory holds a terminated
  string of fewer than \<open>mx\<close> bytes at the address, every byte of it mapped; it then copies the string with
  its terminator. It never writes outside its buffer, and otherwise returns -1.\<close>

theorem copyinstr_correct:
  assumes "vm_rep kend pt G st ps" and "copyin_apart G pt dst srcva (unat mx) st"
  shows "\<exists>r st'. copyinstr pt dst srcva mx st = Inr (r, st')
     \<and> (\<forall>b. \<not> in_range b dst (unat mx) \<longrightarrow> memory st' b = memory st b)
     \<and> (r = 0 \<and> (\<exists>k<unat mx. ustring_at pt st srcva k
                   \<and> (\<forall>i\<le>k. ubyte pt st (srcva + of_nat i) = Some (memory st' (dst + of_nat i))))
        \<or> r = -1 \<and> (\<forall>k<unat mx. \<not> ustring_at pt st srcva k))"
  using copyinstr_loop_spec [of kend pt G st dst srcva mx] assms by (simp add: copyinstr_def vm_rep_def)

theorem copyinstr_correct_witness:
  "\<exists>r st'. copyinstr 0x80001000 0x80007000 10 100 small_space = Inr (r, st')
     \<and> (\<forall>b. \<not> in_range b 0x80007000 (unat (100 :: u64)) \<longrightarrow> memory st' b = memory small_space b)
     \<and> (r = 0 \<and> (\<exists>k<unat (100 :: u64). ustring_at 0x80001000 small_space 10 k
            \<and> (\<forall>i\<le>k. ubyte 0x80001000 small_space (10 + of_nat i) = Some (memory st' (0x80007000 + of_nat i))))
        \<or> r = -1 \<and> (\<forall>k<unat (100 :: u64). \<not> ustring_at 0x80001000 small_space 10 k))"
  by (rule copyinstr_correct [OF small_space_rep small_space_apart(3)])

end
