(* ===== verification/Hart.thy ===== *)
theory Hart
  imports Xv6_Prelude
begin

text \<open>
  The registers of one hart that the kernel reads and writes through the inline assembly of
  \<^verbatim>\<open>kernel/riscv.h\<close>, as plain storage cells, and the routines that turn device interrupts on and off.
\<close>

record hart =
  mhartid :: u64
  mstatus :: u64
  mepc :: u64
  sstatus :: u64
  sip :: u64
  sie :: u64
  mie :: u64
  sepc :: u64
  medeleg :: u64
  mideleg :: u64
  stvec :: u64
  mtvec :: u64
  pmpcfg0 :: u64
  pmpaddr0 :: u64
  satp :: u64
  mscratch :: u64
  scause :: u64
  stval :: u64
  tp :: u64

abbreviation MSTATUS_MPP_MASK :: u64 where "MSTATUS_MPP_MASK \<equiv> push_bit 11 3"
abbreviation MSTATUS_MPP_S :: u64 where "MSTATUS_MPP_S \<equiv> push_bit 11 1"
abbreviation MSTATUS_MIE :: u64 where "MSTATUS_MIE \<equiv> push_bit 3 1"
definition SSTATUS_SPP :: u64 where "SSTATUS_SPP = push_bit 8 1"
definition SSTATUS_SPIE :: u64 where "SSTATUS_SPIE = push_bit 5 1"
definition SSTATUS_SIE :: u64 where "SSTATUS_SIE = push_bit 1 1"
abbreviation SIE_SEIE :: u64 where "SIE_SEIE \<equiv> push_bit 9 1"
abbreviation SIE_STIE :: u64 where "SIE_STIE \<equiv> push_bit 5 1"
abbreviation SIE_SSIE :: u64 where "SIE_SSIE \<equiv> push_bit 1 1"
abbreviation MIE_MTIE :: u64 where "MIE_MTIE \<equiv> push_bit 7 1"

definition r_mhartid :: "'a hart_scheme \<Rightarrow> u64" where "r_mhartid h = mhartid h"
definition r_mstatus :: "'a hart_scheme \<Rightarrow> u64" where "r_mstatus h = mstatus h"
definition w_mstatus :: "u64 \<Rightarrow> 'a hart_scheme \<Rightarrow> 'a hart_scheme" where "w_mstatus x h = h\<lparr>mstatus := x\<rparr>"
definition w_mepc :: "u64 \<Rightarrow> 'a hart_scheme \<Rightarrow> 'a hart_scheme" where "w_mepc x h = h\<lparr>mepc := x\<rparr>"
definition r_sstatus :: "'a hart_scheme \<Rightarrow> u64" where "r_sstatus h = sstatus h"
definition w_sstatus :: "u64 \<Rightarrow> 'a hart_scheme \<Rightarrow> 'a hart_scheme" where "w_sstatus x h = h\<lparr>sstatus := x\<rparr>"
definition r_sip :: "'a hart_scheme \<Rightarrow> u64" where "r_sip h = sip h"
definition w_sip :: "u64 \<Rightarrow> 'a hart_scheme \<Rightarrow> 'a hart_scheme" where "w_sip x h = h\<lparr>sip := x\<rparr>"
definition r_sie :: "'a hart_scheme \<Rightarrow> u64" where "r_sie h = sie h"
definition w_sie :: "u64 \<Rightarrow> 'a hart_scheme \<Rightarrow> 'a hart_scheme" where "w_sie x h = h\<lparr>sie := x\<rparr>"
definition r_mie :: "'a hart_scheme \<Rightarrow> u64" where "r_mie h = mie h"
definition w_mie :: "u64 \<Rightarrow> 'a hart_scheme \<Rightarrow> 'a hart_scheme" where "w_mie x h = h\<lparr>mie := x\<rparr>"
definition r_sepc :: "'a hart_scheme \<Rightarrow> u64" where "r_sepc h = sepc h"
definition w_sepc :: "u64 \<Rightarrow> 'a hart_scheme \<Rightarrow> 'a hart_scheme" where "w_sepc x h = h\<lparr>sepc := x\<rparr>"
definition w_medeleg :: "u64 \<Rightarrow> 'a hart_scheme \<Rightarrow> 'a hart_scheme" where "w_medeleg x h = h\<lparr>medeleg := x\<rparr>"
definition w_mideleg :: "u64 \<Rightarrow> 'a hart_scheme \<Rightarrow> 'a hart_scheme" where "w_mideleg x h = h\<lparr>mideleg := x\<rparr>"
definition w_stvec :: "u64 \<Rightarrow> 'a hart_scheme \<Rightarrow> 'a hart_scheme" where "w_stvec x h = h\<lparr>stvec := x\<rparr>"
definition w_mtvec :: "u64 \<Rightarrow> 'a hart_scheme \<Rightarrow> 'a hart_scheme" where "w_mtvec x h = h\<lparr>mtvec := x\<rparr>"
definition w_pmpcfg0 :: "u64 \<Rightarrow> 'a hart_scheme \<Rightarrow> 'a hart_scheme" where "w_pmpcfg0 x h = h\<lparr>pmpcfg0 := x\<rparr>"
definition w_pmpaddr0 :: "u64 \<Rightarrow> 'a hart_scheme \<Rightarrow> 'a hart_scheme" where "w_pmpaddr0 x h = h\<lparr>pmpaddr0 := x\<rparr>"
definition w_satp :: "u64 \<Rightarrow> 'a hart_scheme \<Rightarrow> 'a hart_scheme" where "w_satp x h = h\<lparr>satp := x\<rparr>"
definition r_satp :: "'a hart_scheme \<Rightarrow> u64" where "r_satp h = satp h"
definition w_mscratch :: "u64 \<Rightarrow> 'a hart_scheme \<Rightarrow> 'a hart_scheme" where "w_mscratch x h = h\<lparr>mscratch := x\<rparr>"
definition r_scause :: "'a hart_scheme \<Rightarrow> u64" where "r_scause h = scause h"
definition r_stval :: "'a hart_scheme \<Rightarrow> u64" where "r_stval h = stval h"
definition r_tp :: "'a hart_scheme \<Rightarrow> u64" where "r_tp h = tp h"
definition w_tp :: "u64 \<Rightarrow> 'a hart_scheme \<Rightarrow> 'a hart_scheme" where "w_tp x h = h\<lparr>tp := x\<rparr>"

definition intr_on :: "'a hart_scheme \<Rightarrow> 'a hart_scheme" where
  "intr_on h = w_sstatus (r_sstatus h OR SSTATUS_SIE) h"

definition intr_off :: "'a hart_scheme \<Rightarrow> 'a hart_scheme" where
  "intr_off h = w_sstatus (r_sstatus h AND NOT SSTATUS_SIE) h"

definition intr_get :: "'a hart_scheme \<Rightarrow> bool" where
  "intr_get h \<longleftrightarrow> r_sstatus h AND SSTATUS_SIE \<noteq> 0"

lemma and_SIE: "x AND SSTATUS_SIE \<noteq> 0 \<longleftrightarrow> bit x 1"
proof -
  have "x AND SSTATUS_SIE = push_bit 1 (of_bool (bit x 1))"
    by (rule bit_word_eqI) (auto simp: SSTATUS_SIE_def bit_simps)
  moreover have "push_bit 1 (of_bool b) \<noteq> (0 :: u64) \<longleftrightarrow> b" for b by (cases b) simp_all
  ultimately show ?thesis by simp
qed

lemma intr_get_bit: "intr_get h \<longleftrightarrow> bit (sstatus h) 1"
  by (simp add: intr_get_def r_sstatus_def and_SIE)

lemma intr_simps [simp]: "intr_get (intr_on h)" "\<not> intr_get (intr_off h)"
  by (simp_all add: intr_get_bit intr_on_def intr_off_def w_sstatus_def r_sstatus_def SSTATUS_SIE_def bit_simps)

lemma intr_off_idem: "\<not> intr_get h \<Longrightarrow> intr_off h = h"
proof -
  assume "\<not> intr_get h"
  then have "sstatus h AND NOT SSTATUS_SIE = sstatus h"
    by (intro bit_word_eqI) (auto simp: intr_get_bit SSTATUS_SIE_def bit_simps)
  then show ?thesis by (simp add: intr_off_def w_sstatus_def r_sstatus_def)
qed

lemma intr_on_off: "intr_get h \<Longrightarrow> intr_on (intr_off h) = h"
proof -
  assume "intr_get h"
  then have "(sstatus h AND NOT SSTATUS_SIE) OR SSTATUS_SIE = sstatus h"
    by (intro bit_word_eqI) (auto simp: intr_get_bit SSTATUS_SIE_def bit_simps)
  then show ?thesis by (simp add: intr_on_def intr_off_def w_sstatus_def r_sstatus_def)
qed

end
