(* ===== verification/Spinlock.thy ===== *)
theory Spinlock
  imports Hart
begin

text \<open>
  Spin locks (\<^verbatim>\<open>kernel/spinlock.c\<close>) and the interrupt nesting of \<^verbatim>\<open>push_off\<close> and \<^verbatim>\<open>pop_off\<close>. A hart is extended
  by its \<^verbatim>\<open>struct cpu\<close>: the nesting depth, a number that stays far below the range of an \<^verbatim>\<open>int\<close>, and the saved interrupt flag. The routines run on one hart and
  one lock. A lock that another hart holds makes \<^verbatim>\<open>acquire\<close> spin, outcome \<open>Blocks\<close>. For the interleaving
  of several harts the routines are cut at their atomic accesses of the lock word.
\<close>

text \<open>\<^verbatim>\<open>noff\<close> is an \<^verbatim>\<open>int\<close> in C and an unbounded number here: nesting \<open>2^31\<close> levels deep is not described.\<close>

record cpu = hart +
  noff :: int
  intena :: bool

record spinlock =
  lk_locked :: u32
  lk_cpu :: "nat option"

definition initlock :: "spinlock \<Rightarrow> spinlock" where
  "initlock lk = lk\<lparr>lk_locked := 0, lk_cpu := None\<rparr>"

definition holding :: "nat \<Rightarrow> spinlock \<Rightarrow> bool" where
  "holding me lk \<longleftrightarrow> lk_locked lk \<noteq> 0 \<and> lk_cpu lk = Some me"

definition push_off :: "cpu \<Rightarrow> cpu" where
  "push_off c =
     (let old = intr_get c;
          c1 = intr_off c;
          c2 = (if noff c1 = 0 then c1\<lparr>intena := old\<rparr> else c1)
      in c2\<lparr>noff := noff c2 + 1\<rparr>)"

definition pop_off :: "cpu \<Rightarrow> cpu res" where
  "pop_off c =
     (if intr_get c then Inl (Panic ''pop_off - interruptible'')
      else if noff c < 1 then Inl (Panic ''pop_off'')
      else let c1 = c\<lparr>noff := noff c - 1\<rparr>
           in Inr (if noff c1 = 0 \<and> intena c1 then intr_on c1 else c1))"

text \<open>The atomic exchange behind \<^verbatim>\<open>__sync_lock_test_and_set\<close>: the old value and the new lock word.\<close>

definition test_and_set :: "spinlock \<Rightarrow> u32 \<times> spinlock" where
  "test_and_set lk = (lk_locked lk, lk\<lparr>lk_locked := 1\<rparr>)"

text \<open>\<^verbatim>\<open>acquire\<close> and \<^verbatim>\<open>release\<close> are made of the pieces between their accesses to the lock, which other harts may touch in between.\<close>

definition acquire_enter :: "nat \<Rightarrow> spinlock \<Rightarrow> cpu \<Rightarrow> cpu res" where
  "acquire_enter me lk c =
     (let c1 = push_off c
      in if holding me lk then Inl (Panic ''acquire'') else Inr c1)"

definition acquire_own :: "nat \<Rightarrow> spinlock \<Rightarrow> spinlock" where
  "acquire_own me lk = lk\<lparr>lk_cpu := Some me\<rparr>"

definition acquire :: "nat \<Rightarrow> spinlock \<Rightarrow> cpu \<Rightarrow> (spinlock \<times> cpu) res" where
  "acquire me lk c =
     rbind (acquire_enter me lk c) (\<lambda>c1.
       let (old, lk1) = test_and_set lk
       in if old \<noteq> 0 then Inl (Blocks ''acquire'')
          else Inr (acquire_own me lk1, c1))"

definition release_disown :: "nat \<Rightarrow> spinlock \<Rightarrow> spinlock res" where
  "release_disown me lk =
     (if \<not> holding me lk then Inl (Panic ''release'') else Inr (lk\<lparr>lk_cpu := None\<rparr>))"

definition release_unlock :: "spinlock \<Rightarrow> spinlock" where
  "release_unlock lk = lk\<lparr>lk_locked := 0\<rparr>"

definition release :: "nat \<Rightarrow> spinlock \<Rightarrow> cpu \<Rightarrow> (spinlock \<times> cpu) res" where
  "release me lk c =
     rbind (release_disown me lk) (\<lambda>lk1.
       let lk2 = release_unlock lk1
       in rbind (pop_off c) (\<lambda>c1. Inr (lk2, c1)))"

section \<open>Nesting of interrupt disabling\<close>

datatype off_op = PushOff | PopOff

fun run_off :: "off_op list \<Rightarrow> cpu \<Rightarrow> cpu res" where
  "run_off [] c = Inr c"
| "run_off (PushOff # ops) c = run_off ops (push_off c)"
| "run_off (PopOff # ops) c = rbind (pop_off c) (run_off ops)"

inductive matched :: "off_op list \<Rightarrow> bool" where
  matched_Nil: "matched []"
| matched_pair: "matched xs \<Longrightarrow> matched ys \<Longrightarrow> matched (PushOff # xs @ PopOff # ys)"

lemma run_off_append: "run_off (xs @ ys) c = rbind (run_off xs c) (run_off ys)"
proof (induction xs arbitrary: c)
  case (Cons x xs)
  then show ?case by (cases x) (simp_all add: rbind_assoc cong: rbind_cong)
qed simp

definition off_ok :: "cpu \<Rightarrow> bool" where
  "off_ok c \<longleftrightarrow> 0 \<le> noff c \<and> (0 < noff c \<longrightarrow> \<not> intr_get c)"

lemma intr_update [simp]:
  "intr_get (c\<lparr>noff := n\<rparr>) = intr_get c" "intr_get (c\<lparr>intena := b\<rparr>) = intr_get c"
  "intr_off (c\<lparr>noff := n\<rparr>) = (intr_off c)\<lparr>noff := n\<rparr>" "intr_on (c\<lparr>noff := n\<rparr>) = (intr_on c)\<lparr>noff := n\<rparr>"
  "intr_on (c\<lparr>intena := b\<rparr>) = (intr_on c)\<lparr>intena := b\<rparr>"
  "noff (intr_off c) = noff c" "intena (intr_off c) = intena c" "noff (intr_on c) = noff c" "intena (intr_on c) = intena c"
  by (simp_all add: intr_get_def intr_on_def intr_off_def r_sstatus_def w_sstatus_def)

lemma push_off_ok:
  assumes "off_ok c"
  shows "off_ok (push_off c)" and "noff (push_off c) = noff c + 1"
    and "pop_off (push_off c) = Inr (c\<lparr>intena := intena (push_off c)\<rparr>)"
    and "noff c \<noteq> 0 \<Longrightarrow> intena (push_off c) = intena c"
  using assms intr_on_off [of c] intr_off_idem [of c]
  by (auto simp: off_ok_def push_off_def pop_off_def Let_def)

text \<open>What a matched sequence leaves alone: everything but the saved flag, which it may overwrite at depth
  zero only.\<close>

definition same_off :: "cpu \<Rightarrow> cpu \<Rightarrow> bool" where
  "same_off c c' \<longleftrightarrow> c' = c\<lparr>intena := intena c'\<rparr> \<and> (noff c \<noteq> 0 \<longrightarrow> intena c' = intena c)"

lemma pop_off_intena:
  assumes "noff c \<noteq> 1"
  shows "pop_off (c\<lparr>intena := b\<rparr>) = map_sum id (\<lambda>c'. c'\<lparr>intena := b\<rparr>) (pop_off c)"
  using assms by (simp add: pop_off_def Let_def)

lemma matched_run:
  assumes "matched ops" and "off_ok c"
  shows "\<exists>c'. run_off ops c = Inr c' \<and> off_ok c' \<and> same_off c c'"
  using assms
proof (induction arbitrary: c rule: matched.induct)
  case matched_Nil
  then show ?case by (simp add: same_off_def)
next
  case (matched_pair xs ys)
  note p = push_off_ok [OF matched_pair.prems]
  have n: "noff (push_off c) \<noteq> 0" using p(2) matched_pair.prems by (simp add: off_ok_def)
  from matched_pair.IH(1) [OF p(1)] obtain c1 where c1: "run_off xs (push_off c) = Inr c1" "same_off (push_off c) c1" by blast
  have "c1 = push_off c" using c1(2) n by (cases c1) (simp add: same_off_def)
  moreover define c2 where "c2 = c\<lparr>intena := intena (push_off c)\<rparr>"
  ultimately have c2: "pop_off c1 = Inr c2" "off_ok c2" "same_off c c2"
    using p(3,4) matched_pair.prems by (auto simp: off_ok_def same_off_def)
  from matched_pair.IH(2) [OF c2(2)] obtain c3 where c3: "run_off ys c2 = Inr c3" "off_ok c3" "same_off c2 c3" by blast
  have "same_off c c3" using c2(3) c3(3) by (auto simp: same_off_def c2_def)
  moreover have "run_off (PushOff # xs @ PopOff # ys) c = Inr c3"
    using c1(1) c2(1) c3(1) by (simp add: run_off_append)
  ultimately show ?case using c3(2) by blast
qed

section \<open>Several harts and one lock\<close>

text \<open>Where a hart is in its use of the lock: outside, after \<^verbatim>\<open>push_off\<close> and spinning, after the successful
  exchange, in the critical section, in \<^verbatim>\<open>release\<close> after clearing the owner, or after clearing the lock word.\<close>

datatype spin_pc = Outside | Spinning | Taken | Critical | Leaving | Unlocked | Panicked

record spin_sys =
  s_lock :: spinlock
  s_cpu :: "nat \<Rightarrow> cpu"
  s_pc :: "nat \<Rightarrow> spin_pc"

definition at_pc :: "nat \<Rightarrow> spin_pc \<Rightarrow> spin_sys \<Rightarrow> spin_sys" where
  "at_pc me pc s = s\<lparr>s_pc := (s_pc s)(me := pc)\<rparr>"

definition on_cpu :: "nat \<Rightarrow> cpu \<Rightarrow> spin_sys \<Rightarrow> spin_sys" where
  "on_cpu me c s = s\<lparr>s_cpu := (s_cpu s)(me := c)\<rparr>"

inductive spin_step :: "spin_sys \<Rightarrow> spin_sys \<Rightarrow> bool" where
  spin_enter: "s_pc s me = Outside \<Longrightarrow> acquire_enter me (s_lock s) (s_cpu s me) = Inr c \<Longrightarrow>
     spin_step s (at_pc me Spinning (on_cpu me c s))"
| spin_enter_panic: "s_pc s me = Outside \<Longrightarrow> acquire_enter me (s_lock s) (s_cpu s me) = Inl e \<Longrightarrow>
     spin_step s (at_pc me Panicked s)"
| spin_fail: "s_pc s me = Spinning \<Longrightarrow> test_and_set (s_lock s) = (old, lk) \<Longrightarrow> old \<noteq> 0 \<Longrightarrow>
     spin_step s (s\<lparr>s_lock := lk\<rparr>)"
| spin_take: "s_pc s me = Spinning \<Longrightarrow> test_and_set (s_lock s) = (0, lk) \<Longrightarrow>
     spin_step s (at_pc me Taken (s\<lparr>s_lock := lk\<rparr>))"
| spin_own: "s_pc s me = Taken \<Longrightarrow>
     spin_step s (at_pc me Critical (s\<lparr>s_lock := acquire_own me (s_lock s)\<rparr>))"
| spin_disown: "s_pc s me = Critical \<Longrightarrow> release_disown me (s_lock s) = Inr lk \<Longrightarrow>
     spin_step s (at_pc me Leaving (s\<lparr>s_lock := lk\<rparr>))"
| spin_disown_panic: "s_pc s me = Critical \<Longrightarrow> release_disown me (s_lock s) = Inl e \<Longrightarrow> spin_step s (at_pc me Panicked s)"
| spin_unlock: "s_pc s me = Leaving \<Longrightarrow>
     spin_step s (at_pc me Unlocked (s\<lparr>s_lock := release_unlock (s_lock s)\<rparr>))"
| spin_leave: "s_pc s me = Unlocked \<Longrightarrow> pop_off (s_cpu s me) = Inr c \<Longrightarrow>
     spin_step s (at_pc me Outside (on_cpu me c s))"
| spin_leave_panic: "s_pc s me = Unlocked \<Longrightarrow> pop_off (s_cpu s me) = Inl e \<Longrightarrow> spin_step s (at_pc me Panicked s)"

inductive spin_reachable :: "spin_sys \<Rightarrow> bool" where
  spin_start: "\<forall>h. off_ok (cs h) \<and> noff (cs h) = 0 \<Longrightarrow>
     spin_reachable \<lparr>s_lock = initlock lk, s_cpu = cs, s_pc = (\<lambda>_. Outside)\<rparr>"
| spin_go: "spin_reachable s \<Longrightarrow> spin_step s t \<Longrightarrow> spin_reachable t"

definition owns :: "spin_pc \<Rightarrow> bool" where
  "owns pc \<longleftrightarrow> pc \<in> {Taken, Critical, Leaving}"

text \<open>The invariant, with the hart \<open>w\<close> that owns the lock word, if any.\<close>

definition hart_ok :: "nat option \<Rightarrow> spinlock \<Rightarrow> nat \<Rightarrow> cpu \<Rightarrow> spin_pc \<Rightarrow> bool" where
  "hart_ok w lk h c pc \<longleftrightarrow> pc \<noteq> Panicked \<and> off_ok c \<and> noff c = (if pc = Outside then 0 else 1)
     \<and> (owns pc \<longleftrightarrow> w = Some h) \<and> (lk_cpu lk = Some h \<longleftrightarrow> pc = Critical)"

definition spin_inv :: "nat option \<Rightarrow> spin_sys \<Rightarrow> bool" where
  "spin_inv w s \<longleftrightarrow> (\<forall>h. hart_ok w (s_lock s) h (s_cpu s h) (s_pc s h)) \<and> (lk_locked (s_lock s) \<noteq> 0 \<longleftrightarrow> w \<noteq> None)"

lemma owns_simps [simp]:
  "owns Taken" "owns Critical" "owns Leaving" "\<not> owns Outside" "\<not> owns Spinning" "\<not> owns Unlocked" "\<not> owns Panicked"
  by (simp_all add: owns_def)

lemma spin_inv_update:
  assumes "spin_inv w s" and "s_lock t = lk" and "s_cpu t = (s_cpu s)(me := c)" and "s_pc t = (s_pc s)(me := pc)"
    and "hart_ok w' lk me c pc" and "lk_locked lk \<noteq> 0 \<longleftrightarrow> w' \<noteq> None"
    and "\<And>h. h \<noteq> me \<Longrightarrow> (w' = Some h) = (w = Some h) \<and> (lk_cpu lk = Some h) = (lk_cpu (s_lock s) = Some h)"
  shows "spin_inv w' t"
  using assms by (auto simp: spin_inv_def hart_ok_def)

lemma pop_off_last:
  assumes "off_ok c" and "noff c = 1"
  shows "\<exists>c'. pop_off c = Inr c' \<and> off_ok c' \<and> noff c' = 0"
  using assms by (auto simp: off_ok_def pop_off_def Let_def)

lemma spin_inv_step:
  assumes step: "spin_step s t" and inv: "spin_inv w s"
  shows "\<exists>w'. spin_inv w' t"
proof -
  have ok: "hart_ok w (s_lock s) h (s_cpu s h) (s_pc s h)" for h using inv by (simp add: spin_inv_def)
  have lk: "lk_locked (s_lock s) \<noteq> 0 \<longleftrightarrow> w \<noteq> None" using inv by (simp add: spin_inv_def)
  from step show ?thesis
  proof cases
    case (spin_enter me c)
    then have c: "c = push_off (s_cpu s me)" by (auto simp: acquire_enter_def Let_def split: if_splits)
    then have "off_ok c \<and> noff c = 1"
      using ok [of me] push_off_ok spin_enter by (auto simp: hart_ok_def)
    then have "spin_inv w t"
      using ok [of me] lk spin_enter c by (intro spin_inv_update [OF inv, of t "s_lock s" me "push_off (s_cpu s me)" Spinning])
        (auto simp: at_pc_def on_cpu_def hart_ok_def)
    then show ?thesis ..
  next
    case (spin_fail me old lk')
    then have "t = s\<lparr>s_lock := (s_lock s)\<lparr>lk_locked := 1\<rparr>\<rparr>" "w \<noteq> None" using lk by (auto simp: test_and_set_def)
    then have "spin_inv w t" using inv by (auto simp: spin_inv_def hart_ok_def)
    then show ?thesis ..
  next
    case (spin_take me lk')
    then have "w = None" "lk' = (s_lock s)\<lparr>lk_locked := 1\<rparr>" using lk by (auto simp: test_and_set_def)
    then have "spin_inv (Some me) t"
      using ok [of me] spin_take by (intro spin_inv_update [OF inv, of t lk' me "s_cpu s me" Taken]) (auto simp: at_pc_def hart_ok_def)
    then show ?thesis ..
  next
    case (spin_own me)
    have own: "acquire_own me (s_lock s) = (s_lock s)\<lparr>lk_cpu := Some me\<rparr>" by (simp add: acquire_own_def)
    have w: "w = Some me" using ok [of me] spin_own by (simp add: hart_ok_def)
    have "lk_cpu (s_lock s) \<noteq> Some h" for h using ok [of h] ok [of me] spin_own w by (auto simp: hart_ok_def)
    then have "spin_inv w t"
      using ok [of me] lk spin_own w own
      by (intro spin_inv_update [OF inv, of t "(s_lock s)\<lparr>lk_cpu := Some me\<rparr>" me "s_cpu s me" Critical]) (auto simp: at_pc_def hart_ok_def)
    then show ?thesis ..
  next
    case (spin_disown me lk')
    then have "lk' = (s_lock s)\<lparr>lk_cpu := None\<rparr>" "holding me (s_lock s)" by (auto simp: release_disown_def split: if_splits)
    then have "spin_inv w t"
      using ok [of me] lk spin_disown
      by (intro spin_inv_update [OF inv, of t "(s_lock s)\<lparr>lk_cpu := None\<rparr>" me "s_cpu s me" Leaving])
        (auto simp: at_pc_def hart_ok_def holding_def)
    then show ?thesis ..
  next
    case (spin_unlock me)
    have w: "w = Some me" using ok [of me] spin_unlock by (simp add: hart_ok_def)
    then have "spin_inv None t"
      using ok [of me] spin_unlock release_unlock_def [of "s_lock s"]
      by (intro spin_inv_update [OF inv, of t "(s_lock s)\<lparr>lk_locked := 0\<rparr>" me "s_cpu s me" Unlocked]) (auto simp: at_pc_def hart_ok_def)
    then show ?thesis ..
  next
    case (spin_leave me c)
    then have "off_ok c \<and> noff c = 0" using ok [of me] pop_off_last [of "s_cpu s me"] by (auto simp: hart_ok_def)
    then have "spin_inv w t"
      using ok [of me] lk spin_leave by (intro spin_inv_update [OF inv, of t "s_lock s" me c Outside])
        (auto simp: at_pc_def on_cpu_def hart_ok_def)
    then show ?thesis ..
  next
    case (spin_leave_panic me e)
    then show ?thesis using ok [of me] pop_off_last [of "s_cpu s me"] by (auto simp: hart_ok_def)
  next
    case (spin_enter_panic me e)
    then show ?thesis using ok [of me] by (auto simp: acquire_enter_def Let_def hart_ok_def holding_def split: if_splits)
  next
    case (spin_disown_panic me e)
    then show ?thesis using ok [of me] lk by (auto simp: release_disown_def hart_ok_def holding_def split: if_splits)
  qed
qed

lemma spin_inv_reachable: "spin_reachable s \<Longrightarrow> \<exists>w. spin_inv w s"
proof (induction rule: spin_reachable.induct)
  case (spin_start cs lk)
  then show ?case by (intro exI [of _ None]) (simp add: spin_inv_def hart_ok_def initlock_def)
next
  case (spin_go s t)
  then show ?case using spin_inv_step by blast
qed

text \<open>A hart that runs \<^verbatim>\<open>acquire\<close> or \<^verbatim>\<open>release\<close> with nobody in between: the state when the call returns.\<close>

definition after_call :: "nat \<Rightarrow> spin_pc \<Rightarrow> spinlock \<times> cpu \<Rightarrow> spin_sys \<Rightarrow> spin_sys" where
  "after_call me pc r s = at_pc me pc (on_cpu me (snd r) (s\<lparr>s_lock := fst r\<rparr>))"

lemma acquire_runs:
  assumes s: "spin_reachable s" and pc: "s_pc s me = Outside" and run: "acquire me (s_lock s) (s_cpu s me) = Inr r"
  shows "spin_reachable (after_call me Critical r s)"
proof -
  obtain c where c: "acquire_enter me (s_lock s) (s_cpu s me) = Inr c" "lk_locked (s_lock s) = 0"
    "r = (acquire_own me (snd (test_and_set (s_lock s))), c)"
    using run by (auto simp: acquire_def rbind_eq_Inr test_and_set_def split: if_splits)
  let ?s1 = "at_pc me Spinning (on_cpu me c s)"
  let ?s2 = "at_pc me Taken (?s1\<lparr>s_lock := snd (test_and_set (s_lock s))\<rparr>)"
  have "spin_step s ?s1" by (rule spin_enter [OF pc c(1)])
  moreover have "spin_step ?s1 ?s2"
    using c(2) by (intro spin_take) (simp_all add: at_pc_def on_cpu_def test_and_set_def)
  moreover have "spin_step ?s2 (at_pc me Critical (?s2\<lparr>s_lock := acquire_own me (s_lock ?s2)\<rparr>))"
    by (rule spin_own) (simp add: at_pc_def)
  moreover have "at_pc me Critical (?s2\<lparr>s_lock := acquire_own me (s_lock ?s2)\<rparr>) = after_call me Critical r s"
    using c(3) by (simp add: after_call_def at_pc_def on_cpu_def)
  ultimately show ?thesis using s by (metis spin_go)
qed

lemma release_runs:
  assumes s: "spin_reachable s" and pc: "s_pc s me = Critical" and run: "release me (s_lock s) (s_cpu s me) = Inr r"
  shows "spin_reachable (after_call me Outside r s)"
proof -
  obtain lk c where c: "release_disown me (s_lock s) = Inr lk" "pop_off (s_cpu s me) = Inr c" "r = (release_unlock lk, c)"
    using run by (auto simp: release_def rbind_eq_Inr)
  let ?s1 = "at_pc me Leaving (s\<lparr>s_lock := lk\<rparr>)"
  let ?s2 = "at_pc me Unlocked (?s1\<lparr>s_lock := release_unlock (s_lock ?s1)\<rparr>)"
  have "spin_step s ?s1" by (rule spin_disown [OF pc c(1)])
  moreover have "spin_step ?s1 ?s2" by (rule spin_unlock) (simp add: at_pc_def)
  moreover have "spin_step ?s2 (at_pc me Outside (on_cpu me c ?s2))"
    using c(2) by (intro spin_leave) (simp_all add: at_pc_def)
  moreover have "at_pc me Outside (on_cpu me c ?s2) = after_call me Outside r s"
    using c(3) by (simp add: after_call_def at_pc_def on_cpu_def)
  ultimately show ?thesis using s by (metis spin_go)
qed

section \<open>Properties\<close>

text \<open>C22. Spin locks exclude. In every interleaving of any number of harts that acquire and release one lock,
  at the granularity of the single accesses to the lock word and the owner, at most one hart is between
  its successful exchange and its release, no hart panics in \<^verbatim>\<open>acquire\<close>, \<^verbatim>\<open>release\<close> or \<^verbatim>\<open>pop_off\<close>, the recorded owner
  is the hart in its critical section, and that hart has interrupts off. The functions themselves are such runs: when
  \<^verbatim>\<open>acquire\<close> returns, nobody had the lock and its hart is in the critical section of a state of this system; it spins if and only
  if some hart has the lock; and \<^verbatim>\<open>release\<close> returns and leads back outside.\<close>

theorem spinlock_exclusive:
  assumes "spin_reachable s"
  shows "(\<forall>h k. owns (s_pc s h) \<longrightarrow> owns (s_pc s k) \<longrightarrow> h = k)
     \<and> (\<forall>h. s_pc s h \<noteq> Panicked)
     \<and> (\<forall>h. s_pc s h = Critical \<longrightarrow> holding h (s_lock s) \<and> \<not> intr_get (s_cpu s h))
     \<and> (\<forall>h. holding h (s_lock s) \<longrightarrow> s_pc s h = Critical)
     \<and> (\<forall>h. s_pc s h = Outside \<longrightarrow>
          (if \<exists>k. owns (s_pc s k) then acquire h (s_lock s) (s_cpu s h) = Inl (Blocks ''acquire'')
           else \<exists>r. acquire h (s_lock s) (s_cpu s h) = Inr r \<and> spin_reachable (after_call h Critical r s)))
     \<and> (\<forall>h. s_pc s h = Critical \<longrightarrow>
          (\<exists>r. release h (s_lock s) (s_cpu s h) = Inr r \<and> spin_reachable (after_call h Outside r s)))"
proof -
  obtain w where w: "spin_inv w s" using spin_inv_reachable [OF assms] ..
  have ok: "hart_ok w (s_lock s) h (s_cpu s h) (s_pc s h)" for h using w by (simp add: spin_inv_def)
  have lk: "lk_locked (s_lock s) \<noteq> 0 \<longleftrightarrow> w \<noteq> None" using w by (simp add: spin_inv_def)
  have crit: "holding h (s_lock s) \<and> \<not> intr_get (s_cpu s h)" if "s_pc s h = Critical" for h
    using lk ok [of h] that by (auto simp: hart_ok_def off_ok_def holding_def)
  moreover have hold: "s_pc s h = Critical" if "holding h (s_lock s)" for h
    using ok [of h] that by (auto simp: hart_ok_def holding_def)
  moreover have "h = k" if "owns (s_pc s h)" "owns (s_pc s k)" for h k
    using ok [of h] ok [of k] that by (auto simp: hart_ok_def)
  moreover have "if \<exists>k. owns (s_pc s k) then acquire h (s_lock s) (s_cpu s h) = Inl (Blocks ''acquire'')
      else \<exists>r. acquire h (s_lock s) (s_cpu s h) = Inr r \<and> spin_reachable (after_call h Critical r s)"
    if out: "s_pc s h = Outside" for h
  proof -
    have "\<not> holding h (s_lock s)" using hold [of h] out by auto
    then have e: "acquire_enter h (s_lock s) (s_cpu s h) = Inr (push_off (s_cpu s h))" by (simp add: acquire_enter_def Let_def)
    have "(\<exists>k. owns (s_pc s k)) \<longleftrightarrow> lk_locked (s_lock s) \<noteq> 0" using ok lk by (auto simp: hart_ok_def)
    then show ?thesis
      using e acquire_runs [OF assms out] by (simp add: acquire_def test_and_set_def)
  qed
  moreover have "\<exists>r. release h (s_lock s) (s_cpu s h) = Inr r \<and> spin_reachable (after_call h Outside r s)"
    if c: "s_pc s h = Critical" for h
  proof -
    obtain c' where "pop_off (s_cpu s h) = Inr c'" using pop_off_last [of "s_cpu s h"] ok [of h] c by (auto simp: hart_ok_def)
    then have "\<exists>r. release h (s_lock s) (s_cpu s h) = Inr r"
      using crit [OF c] by (auto simp: release_def release_disown_def)
    then show ?thesis using release_runs [OF assms c] by blast
  qed
  ultimately show ?thesis using ok by (auto simp: hart_ok_def)
qed

definition idle_cpu :: cpu where
  "idle_cpu = \<lparr>mhartid = 0, mstatus = 0, mepc = 0, sstatus = 2, sip = 0, sie = 0, mie = 0, sepc = 0, medeleg = 0,
     mideleg = 0, stvec = 0, mtvec = 0, pmpcfg0 = 0, pmpaddr0 = 0, satp = 0, mscratch = 0, scause = 0, stval = 0,
     tp = 0, noff = 0, intena = False\<rparr>"

theorem spinlock_exclusive_witness:
  "\<exists>s :: spin_sys. s_pc s 0 = Spinning \<and> s_pc s 1 = Taken
     \<and> (\<forall>h k. owns (s_pc s h) \<longrightarrow> owns (s_pc s k) \<longrightarrow> h = k) \<and> (\<forall>h. s_pc s h \<noteq> Panicked)"
proof -
  let ?lk = "\<lparr>lk_locked = 0, lk_cpu = None\<rparr>"
  let ?s0 = "\<lparr>s_lock = initlock ?lk, s_cpu = (\<lambda>_. idle_cpu), s_pc = (\<lambda>_. Outside)\<rparr>"
  let ?s1 = "at_pc 0 Spinning (on_cpu 0 (push_off (s_cpu ?s0 0)) ?s0)"
  let ?s2 = "at_pc 1 Spinning (on_cpu 1 (push_off (s_cpu ?s1 1)) ?s1)"
  let ?s3 = "at_pc 1 Taken (?s2\<lparr>s_lock := \<lparr>lk_locked = 1, lk_cpu = None\<rparr>\<rparr>)"
  have "spin_reachable ?s0" by (rule spin_start) (simp add: idle_cpu_def off_ok_def)
  moreover have "spin_step ?s0 ?s1" by (rule spin_enter) (simp_all add: acquire_enter_def holding_def initlock_def)
  moreover have "spin_step ?s1 ?s2"
    by (rule spin_enter) (simp_all add: acquire_enter_def holding_def initlock_def at_pc_def on_cpu_def)
  moreover have "spin_step ?s2 ?s3"
    by (rule spin_take) (simp_all add: test_and_set_def initlock_def at_pc_def on_cpu_def)
  ultimately have "spin_reachable ?s3" by (blast intro: spin_go)
  moreover have "s_pc ?s3 0 = Spinning \<and> s_pc ?s3 1 = Taken" by (simp add: at_pc_def on_cpu_def)
  ultimately obtain s where s: "spin_reachable s" "s_pc s 0 = Spinning" "s_pc s 1 = Taken" by blast
  note x = spinlock_exclusive [OF s(1)]
  show ?thesis
    using s(2,3) conjunct1 [OF x] conjunct1 [OF conjunct2 [OF x]] by (intro exI [of _ s] conjI)
qed

text \<open>C23. \<^verbatim>\<open>push_off\<close> and \<^verbatim>\<open>pop_off\<close> nest: every well-matched sequence of them runs without a panic from any
  consistent state and restores the interrupt flag, the depth and every other register of the hart; at
  a depth other than zero it restores the saved flag as well.\<close>

theorem push_pop_matched:
  assumes "matched ops" and "off_ok c"
  shows "\<exists>c'. run_off ops c = Inr c' \<and> c' = c\<lparr>intena := intena c'\<rparr> \<and> (noff c \<noteq> 0 \<longrightarrow> c' = c)"
proof -
  obtain c' where c': "run_off ops c = Inr c'" "same_off c c'" using matched_run [OF assms] by blast
  then have "noff c \<noteq> 0 \<longrightarrow> c' = c" by (cases c; cases c') (simp add: same_off_def)
  with c' show ?thesis by (auto simp: same_off_def)
qed

theorem push_pop_matched_witness:
  "\<exists>c'. run_off [PushOff, PushOff, PopOff, PopOff] idle_cpu = Inr c' \<and> c' = idle_cpu\<lparr>intena := intena c'\<rparr>"
proof -
  have "matched (PushOff # [] @ PopOff # [])" by (intro matched.intros)
  then have "matched (PushOff # [PushOff, PopOff] @ PopOff # [])" by (intro matched.intros) simp
  then have "matched [PushOff, PushOff, PopOff, PopOff]" by simp
  moreover have "off_ok idle_cpu" by (simp add: idle_cpu_def off_ok_def)
  ultimately show ?thesis using push_pop_matched by blast
qed

end
