(* ===== verification/Ring.thy ===== *)
theory Ring
  imports Xv6_Prelude
begin

text \<open>
  The circular buffers of the kernel. The pipe (\<^verbatim>\<open>kernel/pipe.c\<close>), the console input line
  buffer (\<^verbatim>\<open>kernel/console.c\<close>) and the UART transmit buffer (\<^verbatim>\<open>kernel/uart.c\<close>) all keep
  an array of \<open>N\<close> characters and free-running unsigned counters, and index the array with the
  counter modulo \<open>N\<close>. The counters wrap around at the width of their C type, and this is only
  correct because \<open>N\<close> divides that modulus: the locale \<open>ring\<close> makes this the assumption, proves
  the list behaviour once, and each component interprets it at its own size and width.
\<close>

section \<open>The list a ring holds\<close>

definition ring_contents :: "'a list \<Rightarrow> 'w::len word \<Rightarrow> 'w word \<Rightarrow> 'a list" where
  "ring_contents buf r w =
     map (\<lambda>i. buf ! (unat (r + of_nat i) mod length buf)) [0..<unat (w - r)]"

lemma length_ring_contents [simp]: "length (ring_contents buf r w) = unat (w - r)"
  by (simp add: ring_contents_def)

lemma ring_contents_empty_iff: "ring_contents buf r w = [] \<longleftrightarrow> r = w"
  by (auto simp: ring_contents_def unat_eq_0)

lemma ring_contents_nth:
  "i < unat (w - r) \<Longrightarrow> ring_contents buf r w ! i = buf ! (unat (r + of_nat i) mod length buf)"
  by (simp add: ring_contents_def)

section \<open>The laws of a ring\<close>

locale ring =
  fixes N :: nat and ty :: "'w::len itself"
  assumes N_pos: "0 < N"
    and N_dvd: "N dvd 2 ^ LENGTH('w)"
    and N_less: "N < 2 ^ LENGTH('w)"
begin

lemma index_add: "unat (r + of_nat i :: 'w word) mod N = (unat r + i) mod N"
proof -
  have "unat (r + of_nat i :: 'w word) = (unat r + i) mod 2 ^ LENGTH('w)"
    by (simp add: unat_word_ariths unat_of_nat take_bit_eq_mod mod_simps)
  then show ?thesis by (simp add: mod_mod_cancel N_dvd)
qed

lemma index_inj:
  assumes "i < N" and "j < N"
    and "unat (r + of_nat i :: 'w word) mod N = unat (r + of_nat j) mod N"
  shows "i = j"
proof -
  have eq: "(unat r + i) mod N = (unat r + j) mod N"
    using assms(3) by (simp add: index_add)
  have "i mod N = j mod N"
    using eq unfolding nat_mod_eq_iff by (simp add: add.assoc)
  with assms(1,2) show ?thesis by simp
qed

lemma put:
  fixes r w :: "'w word"
  assumes len: "length buf = N" and room: "unat (w - r) < N"
  shows "ring_contents (buf[unat w mod N := x]) r (w + 1) = ring_contents buf r w @ [x]"
proof -
  let ?n = "unat (w - r)"
  have w: "w = r + of_nat ?n" by simp
  have n1: "unat (w + 1 - r) = Suc ?n"
    using unat_plus_one_noteq [of "w - r"] room N_less by (simp add: algebra_simps)
  have pos: "unat w mod N < length buf" using len N_pos by simp
  have old: "buf[unat w mod N := x] ! (unat (r + of_nat i) mod N) = buf ! (unat (r + of_nat i) mod N)"
    if "i < ?n" for i
    using that room index_inj [of i ?n r] w by (metis less_imp_neq less_trans nth_list_update_neq)
  show ?thesis
    by (rule nth_equalityI)
      (use n1 len pos old w in \<open>auto simp: ring_contents_nth nth_append less_Suc_eq\<close>)
qed

lemma get:
  fixes r w :: "'w word"
  assumes len: "length buf = N" and ne: "r \<noteq> w"
  shows "ring_contents buf r w = buf ! (unat r mod N) # ring_contents buf (r + 1) w"
proof -
  have n: "unat (w - r) = Suc (unat (w - (r + 1)))"
    by (rule word_diff_Suc [OF ne])
  show ?thesis
    unfolding ring_contents_def n
    by (simp add: upt_conv_Cons map_Suc_upt [symmetric] o_def len algebra_simps
        del: upt_Suc map_Suc_upt)
qed

end

end
