(* ===== verification/Uart.thy ===== *)
theory Uart
  imports Ring
begin

text \<open>
  The UART driver (\<^verbatim>\<open>kernel/uart.c\<close>): the transmit ring and the accesses to the device registers. What the
  device answers is a parameter of the state: \<open>u_lsr n\<close> is the value of the \<open>n\<close>-th read of the line status
  register and \<open>u_rhr n\<close> that of the \<open>n\<close>-th read of the receive register. The writes to the registers are
  recorded in order. \<^verbatim>\<open>uartstart\<close> reports how many bytes it has taken from the ring, which is the number of times
  it has called \<^verbatim>\<open>wakeup\<close>. Waiting for ring space, and spinning forever, is the outcome \<open>Blocks\<close>. The flags
  \<^verbatim>\<open>panicked\<close> and \<^verbatim>\<open>pr.locking\<close> of \<^verbatim>\<open>kernel/printf.c\<close> are kept beside the driver's state.
\<close>

section \<open>State and operations\<close>

datatype uart_reg = RHR | THR | IER | FCR | LCR | LSR

fun uart_off :: "uart_reg \<Rightarrow> nat" where
  "uart_off RHR = 0"
| "uart_off THR = 0"
| "uart_off IER = 1"
| "uart_off FCR = 2"
| "uart_off LCR = 3"
| "uart_off LSR = 5"

declare uart_off.simps [simp del]

datatype uart_flag = IER_RX_ENABLE | IER_TX_ENABLE | FCR_FIFO_ENABLE | FCR_FIFO_CLEAR | LCR_EIGHT_BITS
  | LCR_BAUD_LATCH | LSR_RX_READY | LSR_TX_IDLE

fun uart_bits :: "uart_flag \<Rightarrow> u8" where
  "uart_bits IER_RX_ENABLE = push_bit 0 1"
| "uart_bits IER_TX_ENABLE = push_bit 1 1"
| "uart_bits FCR_FIFO_ENABLE = push_bit 0 1"
| "uart_bits FCR_FIFO_CLEAR = push_bit 1 3"
| "uart_bits LCR_EIGHT_BITS = push_bit 0 3"
| "uart_bits LCR_BAUD_LATCH = push_bit 7 1"
| "uart_bits LSR_RX_READY = push_bit 0 1"
| "uart_bits LSR_TX_IDLE = push_bit 5 1"

declare uart_bits.simps [simp del]

definition UART_TX_BUF_SIZE :: nat where "UART_TX_BUF_SIZE = 32"

record uart =
  u_lsr :: "nat \<Rightarrow> u8"
  u_nlsr :: nat
  u_rhr :: "nat \<Rightarrow> u8"
  u_nrhr :: nat
  u_writes :: "(nat \<times> u8) list"
  uart_tx_buf :: "u8 list"
  uart_tx_w :: u64
  uart_tx_r :: u64
  u_panicked :: bool
  pr_locking :: bool

definition WriteReg :: "nat \<Rightarrow> u8 \<Rightarrow> uart \<Rightarrow> uart" where
  "WriteReg reg v u = u\<lparr>u_writes := u_writes u @ [(reg, v)]\<rparr>"

definition read_lsr :: "uart \<Rightarrow> u8 \<times> uart" where
  "read_lsr u = (u_lsr u (u_nlsr u), u\<lparr>u_nlsr := u_nlsr u + 1\<rparr>)"

definition read_rhr :: "uart \<Rightarrow> u8 \<times> uart" where
  "read_rhr u = (u_rhr u (u_nrhr u), u\<lparr>u_nrhr := u_nrhr u + 1\<rparr>)"

definition uartinit :: "uart \<Rightarrow> uart" where
  "uartinit u =
     (let u1 = WriteReg (uart_off IER) 0 u;
          u2 = WriteReg (uart_off LCR) (uart_bits LCR_BAUD_LATCH) u1;
          u3 = WriteReg 0 3 u2;
          u4 = WriteReg 1 0 u3;
          u5 = WriteReg (uart_off LCR) (uart_bits LCR_EIGHT_BITS) u4;
          u6 = WriteReg (uart_off FCR) ((uart_bits FCR_FIFO_ENABLE) OR uart_bits FCR_FIFO_CLEAR) u5
      in WriteReg (uart_off IER) ((uart_bits IER_TX_ENABLE) OR uart_bits IER_RX_ENABLE) u6)"

function uartstart :: "uart \<Rightarrow> nat \<times> uart" where
  "uartstart u =
     (if uart_tx_w u = uart_tx_r u then (0, u)
      else let (s, u1) = read_lsr u in
           if s AND uart_bits LSR_TX_IDLE = 0 then (0, u1)
           else let c = uart_tx_buf u1 ! (unat (uart_tx_r u1) mod UART_TX_BUF_SIZE);
                    u2 = u1\<lparr>uart_tx_r := uart_tx_r u1 + 1\<rparr>;
                    (k, u3) = uartstart (WriteReg (uart_off THR) c u2)
                in (Suc k, u3))"
  by pat_completeness auto
termination
proof (relation "measure (\<lambda>u. unat (uart_tx_w u - uart_tx_r u))", goal_cases)
  case (2 u s x u1 c u2)
  then have "u1 = u\<lparr>u_nlsr := u_nlsr u + 1\<rparr>" by (simp add: read_lsr_def)
  moreover have "unat (uart_tx_w u - uart_tx_r u) = Suc (unat (uart_tx_w u - (uart_tx_r u + 1)))"
    using 2(1) by (intro word_diff_Suc) auto
  ultimately show ?case using 2 by (simp add: WriteReg_def)
qed simp

declare uartstart.simps [simp del]

definition uartputc :: "u8 \<Rightarrow> uart \<Rightarrow> (nat \<times> uart) res" where
  "uartputc c u =
     (if u_panicked u then Inl (Blocks ''panicked'')
      else if uart_tx_w u = uart_tx_r u + of_nat UART_TX_BUF_SIZE then Inl (Blocks ''uartputc'')
      else let u1 = u\<lparr>uart_tx_buf := (uart_tx_buf u)[unat (uart_tx_w u) mod UART_TX_BUF_SIZE := c]\<rparr>;
               u2 = u1\<lparr>uart_tx_w := uart_tx_w u1 + 1\<rparr>
           in Inr (uartstart u2))"

text \<open>The busy wait of \<^verbatim>\<open>uartputc_sync\<close>; \<open>None\<close> if the device never becomes idle.\<close>

partial_function (option) wait_tx_idle :: "uart \<Rightarrow> uart option" where
  "wait_tx_idle u = (let (s, u1) = read_lsr u in if s AND uart_bits LSR_TX_IDLE = 0 then wait_tx_idle u1 else Some u1)"

definition uartputc_sync :: "u8 \<Rightarrow> uart \<Rightarrow> uart res" where
  "uartputc_sync c u =
     (if u_panicked u then Inl (Blocks ''panicked'')
      else case wait_tx_idle u of None \<Rightarrow> Inl (Blocks ''uartputc_sync'') | Some u1 \<Rightarrow> Inr (WriteReg (uart_off THR) c u1))"

definition uartgetc :: "uart \<Rightarrow> int \<times> uart" where
  "uartgetc u =
     (let (s, u1) = read_lsr u
      in if s AND 1 \<noteq> 0 then let (c, u2) = read_rhr u1 in (uint c, u2) else (-1, u1))"

section \<open>The transmit ring\<close>

interpretation uart_ring: ring UART_TX_BUF_SIZE "TYPE(64)"
  by unfold_locales (auto simp: UART_TX_BUF_SIZE_def)

definition uart_pending :: "uart \<Rightarrow> u8 list" where
  "uart_pending u = ring_contents (uart_tx_buf u) (uart_tx_r u) (uart_tx_w u)"

definition uart_sent :: "uart \<Rightarrow> u8 list" where
  "uart_sent u = map snd (filter (\<lambda>(r, v). r = uart_off THR) (u_writes u))"

definition uart_inv :: "uart \<Rightarrow> bool" where
  "uart_inv u \<longleftrightarrow> length (uart_tx_buf u) = UART_TX_BUF_SIZE \<and> length (uart_pending u) \<le> UART_TX_BUF_SIZE"

lemma uart_full_iff:
  "uart_tx_w u = uart_tx_r u + of_nat UART_TX_BUF_SIZE \<longleftrightarrow> length (uart_pending u) = UART_TX_BUF_SIZE"
proof -
  have "uart_tx_w u = uart_tx_r u + of_nat UART_TX_BUF_SIZE \<longleftrightarrow> uart_tx_w u - uart_tx_r u = of_nat UART_TX_BUF_SIZE"
    by (auto simp: algebra_simps)
  also have "\<dots> \<longleftrightarrow> unat (uart_tx_w u - uart_tx_r u) = unat (of_nat UART_TX_BUF_SIZE :: u64)"
    by (simp only: word_unat_eq_iff)
  finally show ?thesis by (simp add: UART_TX_BUF_SIZE_def uart_pending_def)
qed

definition uart_next :: "uart \<Rightarrow> uart" where
  "uart_next u =
     (let u1 = snd (read_lsr u)
      in WriteReg (uart_off THR) (uart_tx_buf u1 ! (unat (uart_tx_r u1) mod UART_TX_BUF_SIZE)) (u1\<lparr>uart_tx_r := uart_tx_r u1 + 1\<rparr>))"

lemma uart_next_pending:
  assumes "uart_inv u" and "uart_tx_w u \<noteq> uart_tx_r u"
  shows "uart_sent (uart_next u) @ uart_pending (uart_next u) = uart_sent u @ uart_pending u"
    and "length (uart_sent (uart_next u)) = Suc (length (uart_sent u))" and "uart_inv (uart_next u)"
proof -
  have p: "uart_pending u = uart_tx_buf u ! (unat (uart_tx_r u) mod UART_TX_BUF_SIZE) # uart_pending (uart_next u)"
    using assms uart_ring.get [of "uart_tx_buf u" "uart_tx_r u" "uart_tx_w u"]
    by (simp add: uart_pending_def uart_next_def WriteReg_def read_lsr_def uart_inv_def)
  have q: "uart_sent (uart_next u) = uart_sent u @ [uart_tx_buf u ! (unat (uart_tx_r u) mod UART_TX_BUF_SIZE)]"
    by (simp add: uart_sent_def uart_next_def WriteReg_def read_lsr_def)
  show "uart_sent (uart_next u) @ uart_pending (uart_next u) = uart_sent u @ uart_pending u"
    "length (uart_sent (uart_next u)) = Suc (length (uart_sent u))" using p q by simp_all
  have "uart_tx_buf (uart_next u) = uart_tx_buf u" by (simp add: uart_next_def WriteReg_def read_lsr_def)
  then show "uart_inv (uart_next u)" using assms(1) p by (simp add: uart_inv_def)
qed

lemma uartstart_cases:
  "uartstart u =
     (if uart_tx_w u = uart_tx_r u then (0, u)
      else if u_lsr u (u_nlsr u) AND uart_bits LSR_TX_IDLE = 0 then (0, u\<lparr>u_nlsr := u_nlsr u + 1\<rparr>)
      else (Suc (fst (uartstart (uart_next u))), snd (uartstart (uart_next u))))"
  by (subst uartstart.simps) (simp add: read_lsr_def uart_next_def Let_def case_prod_unfold)

lemma uart_next_shorter:
  assumes "uart_tx_w u \<noteq> uart_tx_r u"
  shows "unat (uart_tx_w (uart_next u) - uart_tx_r (uart_next u)) < unat (uart_tx_w u - uart_tx_r u)"
  using assms word_diff_Suc [of "uart_tx_r u" "uart_tx_w u"] by (simp add: uart_next_def WriteReg_def read_lsr_def)

lemma uartstart_fifo:
  assumes "uart_inv u"
  shows "uart_inv (snd (uartstart u))
       \<and> uart_sent (snd (uartstart u)) @ uart_pending (snd (uartstart u)) = uart_sent u @ uart_pending u
       \<and> length (uart_sent (snd (uartstart u))) = length (uart_sent u) + fst (uartstart u)"
  using assms
proof (induction "unat (uart_tx_w u - uart_tx_r u)" arbitrary: u rule: less_induct)
  case less
  let ?v = "uart_next u"
  consider "uart_tx_w u = uart_tx_r u" | "uart_tx_w u \<noteq> uart_tx_r u" "u_lsr u (u_nlsr u) AND uart_bits LSR_TX_IDLE = 0"
    | "uart_tx_w u \<noteq> uart_tx_r u" "u_lsr u (u_nlsr u) AND uart_bits LSR_TX_IDLE \<noteq> 0" by blast
  then show ?case
  proof cases
    case 1 then show ?thesis using less.prems by (simp add: uartstart_cases [of u])
  next
    case 2 then show ?thesis using less.prems
      by (simp add: uartstart_cases [of u] uart_inv_def uart_pending_def uart_sent_def)
  next
    case 3
    from less.hyps [OF uart_next_shorter uart_next_pending(3)] 3(1) less.prems
      uart_next_pending [OF less.prems 3(1)] 3
    show ?thesis by (simp add: uartstart_cases [of u])
  qed
qed

text \<open>The clients of the ring: a writer's \<^verbatim>\<open>uartputc\<close>, which is retried later if it has to sleep, and the interrupt
  handler's \<^verbatim>\<open>uartstart\<close>. \<open>uart_run\<close> also collects the bytes that \<^verbatim>\<open>uartputc\<close> has accepted.\<close>

datatype uart_op = UPut u8 | UIntr

fun uart_run :: "uart_op list \<Rightarrow> uart \<Rightarrow> u8 list \<times> uart" where
  "uart_run [] u = ([], u)"
| "uart_run (UIntr # os) u = uart_run os (snd (uartstart u))"
| "uart_run (UPut c # os) u =
     (case uartputc c u of Inl _ \<Rightarrow> uart_run os u
      | Inr (_, u1) \<Rightarrow> (let (bs, u2) = uart_run os u1 in (c # bs, u2)))"

lemma uartputc_fifo:
  assumes "uart_inv u" and "uartputc c u = Inr (k, u')"
  shows "uart_inv u'" and "uart_sent u' @ uart_pending u' = uart_sent u @ uart_pending u @ [c]"
proof -
  let ?u = "u\<lparr>uart_tx_buf := (uart_tx_buf u)[unat (uart_tx_w u) mod UART_TX_BUF_SIZE := c], uart_tx_w := uart_tx_w u + 1\<rparr>"
  from assms(2) have e: "uartstart ?u = (k, u')" and nf: "length (uart_pending u) \<noteq> UART_TX_BUF_SIZE"
    by (auto simp: uartputc_def uart_full_iff split: if_splits)
  then have room: "unat (uart_tx_w u - uart_tx_r u) < UART_TX_BUF_SIZE"
    using assms(1) by (simp add: uart_inv_def uart_pending_def)
  then have p: "uart_pending ?u = uart_pending u @ [c]"
    using assms(1) uart_ring.put [of "uart_tx_buf u" "uart_tx_w u" "uart_tx_r u" c] by (simp add: uart_pending_def uart_inv_def)
  moreover have "uart_sent ?u = uart_sent u" by (simp add: uart_sent_def)
  moreover have "uart_inv ?u" using assms(1) p room by (simp add: uart_inv_def uart_pending_def)
  ultimately show "uart_inv u'" "uart_sent u' @ uart_pending u' = uart_sent u @ uart_pending u @ [c]"
    using uartstart_fifo [of ?u] e by simp_all
qed

lemma uart_run_fifo:
  "uart_inv u \<Longrightarrow> uart_inv (snd (uart_run os u))
     \<and> uart_sent (snd (uart_run os u)) @ uart_pending (snd (uart_run os u)) = uart_sent u @ uart_pending u @ fst (uart_run os u)"
proof (induction os u rule: uart_run.induct)
  case (3 c os u)
  show ?case
  proof (cases "uartputc c u")
    case (Inl e) then show ?thesis using 3 by simp
  next
    case (Inr r)
    obtain k u1 where r: "r = (k, u1)" by fastforce
    with Inr have f: "uart_inv u1" "uart_sent u1 @ uart_pending u1 = uart_sent u @ uart_pending u @ [c]"
      using uartputc_fifo [OF 3(3), of c k u1] by simp_all
    then have "uart_sent u1 @ uart_pending u1 @ fst (uart_run os u1) = uart_sent u @ uart_pending u @ c # fst (uart_run os u1)"
      by (metis append.assoc append_Cons append_Nil)
    with 3(2) [OF Inr r [symmetric] f(1)] Inr r show ?thesis by (simp add: case_prod_unfold Let_def)
  qed
qed (use uartstart_fifo in auto)

text \<open>C24. The UART transmitter is a FIFO, across the wrap-around of its counters and whatever the device answers: after
  any interleaving of \<^verbatim>\<open>uartputc\<close> calls with transmit interrupts, the bytes written to the transmit register
  followed by the bytes still in the ring are the bytes accepted by \<^verbatim>\<open>uartputc\<close>, each once and in order, and the ring
  never holds more than \<open>UART_TX_BUF_SIZE\<close> of them.\<close>

theorem uart_transmits_in_order:
  assumes "length (uart_tx_buf u) = UART_TX_BUF_SIZE" and "uart_tx_r u = uart_tx_w u"
    and "uart_run os u = (accepted, u')"
  shows "uart_sent u' @ uart_pending u' = uart_sent u @ accepted \<and> length (uart_pending u') \<le> UART_TX_BUF_SIZE"
proof -
  have "uart_pending u = []" using assms(2) by (simp add: uart_pending_def ring_contents_empty_iff)
  then have "uart_inv u" using assms(1) by (simp add: uart_inv_def)
  from uart_run_fifo [OF this, of os] assms(3) \<open>uart_pending u = []\<close>
  show ?thesis by (simp add: uart_inv_def)
qed

text \<open>A device that is busy at its first and third status read, with counters about to wrap around.\<close>

definition sample_uart :: uart where
  "sample_uart = \<lparr>u_lsr = (\<lambda>n. if n = 0 \<or> n = 2 then 0 else uart_bits LSR_TX_IDLE), u_nlsr = 0, u_rhr = (\<lambda>_. 0), u_nrhr = 0,
     u_writes = [], uart_tx_buf = replicate 32 0, uart_tx_w = - 1, uart_tx_r = - 1, u_panicked = False, pr_locking = True\<rparr>"

theorem uart_transmits_in_order_witness:
  "\<exists>u'. uart_run [UPut 65, UPut 66, UIntr] sample_uart = ([65, 66], u') \<and> uart_sent u' @ uart_pending u' = [65, 66]
     \<and> length (uart_pending u') \<le> UART_TX_BUF_SIZE \<and> uart_pending u' = []"
proof -
  let ?os = "[UPut 65, UPut 66, UIntr]"
  have e: "fst (uart_run ?os sample_uart) = [65, 66] \<and> uart_pending (snd (uart_run ?os sample_uart)) = []"
    by (simp add: sample_uart_def uartputc_def uartstart_cases uart_next_def WriteReg_def read_lsr_def UART_TX_BUF_SIZE_def
        uart_bits.simps Let_def uart_pending_def ring_contents_empty_iff)
  moreover have "length (uart_tx_buf sample_uart) = UART_TX_BUF_SIZE" "uart_tx_r sample_uart = uart_tx_w sample_uart"
    "uart_sent sample_uart = []" by (simp_all add: sample_uart_def UART_TX_BUF_SIZE_def uart_sent_def)
  ultimately show ?thesis
    using uart_transmits_in_order [of sample_uart ?os "fst (uart_run ?os sample_uart)" "snd (uart_run ?os sample_uart)"]
    by (intro exI [of _ "snd (uart_run ?os sample_uart)"]) (simp add: prod_eq_iff del: uart_run.simps)
qed

lemma wait_tx_idle_ends:
  assumes "u_lsr u (u_nlsr u + n) AND uart_bits LSR_TX_IDLE \<noteq> 0"
    and "\<forall>m<n. u_lsr u (u_nlsr u + m) AND uart_bits LSR_TX_IDLE = 0"
  shows "wait_tx_idle u = Some (u\<lparr>u_nlsr := u_nlsr u + n + 1\<rparr>)"
  using assms
proof (induction n arbitrary: u)
  case 0 then show ?case by (subst wait_tx_idle.simps) (simp add: read_lsr_def)
next
  case (Suc n)
  let ?u = "u\<lparr>u_nlsr := u_nlsr u + 1\<rparr>"
  have "u_lsr u (u_nlsr u) AND uart_bits LSR_TX_IDLE = 0" using Suc.prems(2) by force
  moreover have "wait_tx_idle ?u = Some (?u\<lparr>u_nlsr := u_nlsr ?u + n + 1\<rparr>)"
    by (rule Suc.IH) (use Suc.prems in \<open>auto dest: spec [of _ "Suc _"]\<close>)
  ultimately show ?case by (subst wait_tx_idle.simps) (simp add: read_lsr_def)
qed

text \<open>A device that is again and again ready to transmit.\<close>

definition tx_live :: "uart \<Rightarrow> bool" where
  "tx_live u \<longleftrightarrow> \<not> u_panicked u \<and> (\<forall>n. \<exists>m\<ge>n. u_lsr u m AND uart_bits LSR_TX_IDLE \<noteq> 0)"

lemma uartputc_sync_sends:
  assumes "tx_live u"
  shows "\<exists>u'. uartputc_sync c u = Inr u' \<and> tx_live u' \<and> uart_sent u' = uart_sent u @ [c]"
proof -
  let ?P = "\<lambda>n. u_lsr u (u_nlsr u + n) AND uart_bits LSR_TX_IDLE \<noteq> 0"
  from assms obtain m where "m \<ge> u_nlsr u" "u_lsr u m AND uart_bits LSR_TX_IDLE \<noteq> 0" unfolding tx_live_def by blast
  then have ex: "?P (m - u_nlsr u)" by simp
  define n where "n = (LEAST n. ?P n)"
  have "?P n" unfolding n_def by (rule LeastI) (rule ex)
  moreover have "\<forall>m<n. u_lsr u (u_nlsr u + m) AND uart_bits LSR_TX_IDLE = 0" unfolding n_def using not_less_Least by blast
  ultimately have "wait_tx_idle u = Some (u\<lparr>u_nlsr := u_nlsr u + n + 1\<rparr>)" by (rule wait_tx_idle_ends)
  then show ?thesis using assms
    by (auto simp: uartputc_sync_def tx_live_def WriteReg_def uart_sent_def)
qed

end
