(* ===== verification/KPrintf.thy ===== *)
theory KPrintf
  imports Uart
begin

text \<open>
  Kernel output (\<^verbatim>\<open>kernel/printf.c\<close> and \<^verbatim>\<open>consputc\<close> of \<^verbatim>\<open>kernel/console.c\<close>): formatted printing through the polled
  transmitter, and \<^verbatim>\<open>panic\<close>. A C string is the list of its bytes without the terminator; the variable arguments are
  a list of tagged values, and reading an argument that is missing or of another kind is \<open>Undefined\<close>. The signed
  negation in \<^verbatim>\<open>printint\<close> wraps around.
\<close>

section \<open>Operations\<close>

definition BACKSPACE :: int where "BACKSPACE = 0x100"

definition consputc :: "int \<Rightarrow> uart \<Rightarrow> uart res" where
  "consputc c u =
     (if c = BACKSPACE
      then rbind (uartputc_sync 8 u) (\<lambda>u1. rbind (uartputc_sync 32 u1) (\<lambda>u2. uartputc_sync 8 u2))
      else uartputc_sync (of_int c) u)"

definition digits :: "u8 list" where
  "digits = map of_char ''0123456789abcdef''"

text \<open>The digits go to a buffer of sixteen bytes, least significant first.\<close>

definition printint_push :: "u8 \<Rightarrow> u8 list \<Rightarrow> u8 list res" where
  "printint_push c buf = (if length buf < 16 then Inr (buf @ [c]) else Inl (Undefined ''printint: buf''))"

function printint_digits :: "u32 \<Rightarrow> u32 \<Rightarrow> u8 list \<Rightarrow> u8 list res" where
  "printint_digits x base buf =
     (if base \<le> 1 then Inl (Undefined ''printint: base'')
      else rbind (printint_push (digits ! unat (x mod base)) buf) (\<lambda>buf1.
        if x div base \<noteq> 0 then printint_digits (x div base) base buf1 else Inr buf1))"
  by pat_completeness auto
termination
proof (relation "measure (\<lambda>(x, base, buf). unat x)", goal_cases)
  case (2 x base buf buf1)
  then have "1 < unat base" by (simp add: word_le_nat_alt not_le)
  moreover have "0 < unat x" using 2(3) by (metis div_0 neq0_conv unat_eq_0)
  ultimately have "unat x div unat base < unat x" by simp
  then show ?case by (simp add: unat_div)
qed simp

declare printint_digits.simps [simp del]

definition printint :: "u32 \<Rightarrow> u32 \<Rightarrow> bool \<Rightarrow> uart \<Rightarrow> uart res" where
  "printint xx base sign u =
     (let sign1 = (sign \<and> sint xx < 0);
          x = (if sign1 then - xx else xx)
      in rbind (printint_digits x base []) (\<lambda>buf.
         rbind (if sign1 then printint_push 45 buf else Inr buf) (\<lambda>buf1.
         rfold (\<lambda>c. consputc (uint c)) (rev buf1) u)))"

fun printptr_digits :: "nat \<Rightarrow> u64 \<Rightarrow> uart \<Rightarrow> uart res" where
  "printptr_digits 0 x u = Inr u"
| "printptr_digits (Suc k) x u =
     rbind (consputc (uint (digits ! unat (drop_bit 60 x))) u) (printptr_digits k (push_bit 4 x))"

definition printptr :: "u64 \<Rightarrow> uart \<Rightarrow> uart res" where
  "printptr x u = rbind (consputc 48 u) (\<lambda>u1. rbind (consputc 120 u1) (printptr_digits 16 x))"

datatype parg = ArgInt u32 | ArgPtr u64 | ArgStr "u8 list option"

definition bytes_of :: "string \<Rightarrow> u8 list" where
  "bytes_of s = map of_char s"

definition print_str :: "u8 list \<Rightarrow> uart \<Rightarrow> uart res" where
  "print_str s = rfold (\<lambda>c. consputc (uint c)) s"

definition printf_arg :: "u8 \<Rightarrow> parg list \<Rightarrow> uart \<Rightarrow> (parg list \<times> uart) res" where
  "printf_arg c args u =
     (if c = of_char (CHR ''d'') \<or> c = of_char (CHR ''x'') then
        (case args of ArgInt n # r \<Rightarrow>
           rbind (printint n (if c = of_char (CHR ''d'') then 10 else 16) True u) (\<lambda>u1. Inr (r, u1))
         | _ \<Rightarrow> Inl (Undefined ''va_arg''))
      else if c = of_char (CHR ''p'') then
        (case args of ArgPtr p # r \<Rightarrow> rbind (printptr p u) (\<lambda>u1. Inr (r, u1)) | _ \<Rightarrow> Inl (Undefined ''va_arg''))
      else if c = of_char (CHR ''s'') then
        (case args of ArgStr s # r \<Rightarrow>
           rbind (print_str (case s of None \<Rightarrow> bytes_of ''(null)'' | Some t \<Rightarrow> t) u) (\<lambda>u1. Inr (r, u1))
         | _ \<Rightarrow> Inl (Undefined ''va_arg''))
      else if c = 37 then rbind (consputc 37 u) (\<lambda>u1. Inr (args, u1))
      else rbind (consputc 37 u) (\<lambda>u1. rbind (consputc (uint c) u1) (\<lambda>u2. Inr (args, u2))))"

fun printf_loop :: "u8 list \<Rightarrow> parg list \<Rightarrow> uart \<Rightarrow> uart res" where
  "printf_loop [] args u = Inr u"
| "printf_loop (c # fmt) args u =
     (if c = 0 then Inr u
      else if c \<noteq> 37 then rbind (consputc (uint c) u) (printf_loop fmt args)
      else case fmt of
             [] \<Rightarrow> Inr u
           | d # fmt1 \<Rightarrow> if d = 0 then Inr u
                        else rbind (printf_arg d args u) (\<lambda>(args1, u1). printf_loop fmt1 args1 u1))"

definition printf :: "u8 list option \<Rightarrow> parg list \<Rightarrow> uart \<Rightarrow> uart res" where
  "printf fmt args u =
     (case fmt of None \<Rightarrow> Inl (Panic ''null fmt'') | Some f \<Rightarrow> printf_loop f args u)"

text \<open>The state in which \<^verbatim>\<open>panic\<close> enters its endless loop. The message is itself used as a format.\<close>

definition panic :: "u8 list \<Rightarrow> uart \<Rightarrow> uart res" where
  "panic s u =
     rbind (printf (Some (bytes_of ''panic: '')) [] (u\<lparr>pr_locking := False\<rparr>)) (\<lambda>u1.
     rbind (printf (Some s) [] u1) (\<lambda>u2.
     rbind (printf (Some [10]) [] u2) (\<lambda>u3.
     Inr (u3\<lparr>u_panicked := True\<rparr>))))"

definition printfinit :: "uart \<Rightarrow> uart" where
  "printfinit u = u\<lparr>pr_locking := True\<rparr>"

section \<open>What is printed\<close>

definition cons_bytes :: "int \<Rightarrow> u8 list" where
  "cons_bytes c = (if c = BACKSPACE then [8, 32, 8] else [of_int c])"

lemma consputc_sends:
  assumes "tx_live u"
  shows "\<exists>u'. consputc c u = Inr u' \<and> tx_live u' \<and> uart_sent u' = uart_sent u @ cons_bytes c"
proof (cases "c = BACKSPACE")
  case True
  obtain u1 where u1: "uartputc_sync 8 u = Inr u1" "tx_live u1" "uart_sent u1 = uart_sent u @ [8]"
    using uartputc_sync_sends [OF assms] by blast
  obtain u2 where u2: "uartputc_sync 32 u1 = Inr u2" "tx_live u2" "uart_sent u2 = uart_sent u1 @ [32]"
    using uartputc_sync_sends [OF u1(2)] by blast
  obtain u3 where u3: "uartputc_sync 8 u2 = Inr u3" "tx_live u3" "uart_sent u3 = uart_sent u2 @ [8]"
    using uartputc_sync_sends [OF u2(2)] by blast
  show ?thesis using True u1 u2 u3 by (simp add: consputc_def cons_bytes_def)
next
  case False
  then show ?thesis using uartputc_sync_sends [OF assms, of "of_int c"] by (simp add: consputc_def cons_bytes_def)
qed

lemma cons_bytes_u8 [simp]: "cons_bytes (uint (c :: u8)) = [c]"
  using uint_bounded [of c] by (simp add: cons_bytes_def BACKSPACE_def)

lemma print_str_sends:
  "tx_live u \<Longrightarrow> \<exists>u'. print_str s u = Inr u' \<and> tx_live u' \<and> uart_sent u' = uart_sent u @ s"
proof (induction s arbitrary: u)
  case (Cons c s)
  obtain u1 where u1: "consputc (uint c) u = Inr u1" "tx_live u1" "uart_sent u1 = uart_sent u @ [c]"
    using consputc_sends [OF Cons.prems, of "uint c"] by auto
  show ?case using Cons.IH [OF u1(2)] u1 by (auto simp: print_str_def)
qed (simp add: print_str_def)

text \<open>The digits of a number in a base, least significant first.\<close>

function num_digits :: "nat \<Rightarrow> nat \<Rightarrow> nat list" where
  "num_digits b n = (n mod b) # (if b \<le> 1 \<or> n div b = 0 then [] else num_digits b (n div b))"
  by pat_completeness auto
termination
proof (relation "measure snd", goal_cases)
  case (2 b n)
  then have "1 < b" "0 < n" by (auto intro: ccontr)
  then show ?case by simp
qed simp

declare num_digits.simps [simp del]

lemma num_digits_value: "1 < b \<Longrightarrow> foldr (\<lambda>d v. v * b + d) (num_digits b n) 0 = n"
proof (induction b n rule: num_digits.induct)
  case (1 b n)
  show ?case
  proof (cases "n div b = 0")
    case True
    then have "n mod b = n" using 1 by (auto simp: div_eq_0_iff)
    then show ?thesis using True by (simp add: num_digits.simps [of b n])
  next
    case False
    then show ?thesis using 1 by (simp add: num_digits.simps [of b n])
  qed
qed

lemma num_digits_ne [simp]: "num_digits b n \<noteq> []"
  by (simp add: num_digits.simps)

lemma num_digits_less: "1 < b \<Longrightarrow> \<forall>d \<in> set (num_digits b n). d < b"
proof (induction b n rule: num_digits.induct)
  case (1 b n)
  have m: "n mod b < b" using 1(2) by simp
  show ?case
  proof (cases "n div b = 0")
    case True then show ?thesis using m by (simp add: num_digits.simps [of b n])
  next
    case False
    then have "\<forall>d \<in> set (num_digits b (n div b)). d < b" using 1 by simp
    then show ?thesis using m False by (simp only: num_digits.simps [of b n] list.set set_simps) auto
  qed
qed

lemma num_digits_last: "1 < b \<Longrightarrow> last (num_digits b n) = 0 \<Longrightarrow> num_digits b n = [0]"
proof (induction b n rule: num_digits.induct)
  case (1 b n)
  show ?case
  proof (cases "n div b = 0")
    case True then show ?thesis using 1 by (simp add: num_digits.simps [of b n])
  next
    case False
    then have "num_digits b (n div b) = [0]" using 1 by (simp add: num_digits.simps [of b n])
    then have "n div b = 0" using num_digits_value [of b "n div b"] 1 by simp
    then show ?thesis using False by simp
  qed
qed

lemma num_digits_length: "1 < b \<Longrightarrow> n < b ^ Suc k \<Longrightarrow> length (num_digits b n) \<le> Suc k"
proof (induction k arbitrary: n)
  case 0 then show ?case by (simp add: num_digits.simps)
next
  case (Suc k)
  have "n div b < b ^ Suc k" using Suc.prems by (simp add: div_less_iff_less_mult mult.commute)
  then show ?case using Suc.IH [of "n div b"] Suc.prems(1) by (simp add: num_digits.simps [of b n])
qed

lemma printint_digits_eq:
  assumes "1 < base" and "length buf + length (num_digits (unat base) (unat x)) \<le> 16"
  shows "printint_digits x base buf = Inr (buf @ map ((!) digits) (num_digits (unat base) (unat x)))"
  using assms
proof (induction x base buf rule: printint_digits.induct)
  case (1 x base buf)
  have b: "1 < unat base" using 1(2) by (simp add: word_less_nat_alt)
  have z: "x div base = 0 \<longleftrightarrow> unat x div unat base = 0" by (simp add: word_unat_eq_iff unat_div)
  note nd = num_digits.simps [of "unat base" "unat x"]
  show ?case
  proof (cases "x div base = 0")
    case True
    then show ?thesis using 1(2,3) b z nd
      by (subst printint_digits.simps) (simp add: printint_push_def unat_mod not_le)
  next
    case False
    have "length buf < 16" using 1(3) nd by simp
    moreover have "length buf + 1 + length (num_digits (unat base) (unat (x div base))) \<le> 16"
      using 1(3) nd False b z by (simp add: unat_div)
    ultimately show ?thesis
      using 1(1) [OF _ _ False, of "buf @ [digits ! unat (x mod base)]"] 1(2) b False z nd
      by (subst printint_digits.simps) (simp add: printint_push_def unat_mod unat_div not_le)
  qed
qed

lemma nat_abs_sint:
  fixes xx :: u32
  shows "unat (if sint xx < 0 then - xx else xx) = nat \<bar>sint xx\<bar>"
proof (cases "sint xx < 0")
  case True
  have "uint (- xx) = (- uint xx) mod 2 ^ 32" by (simp add: uint_word_ariths)
  also have "\<dots> = (2 ^ 32 - uint xx) mod 2 ^ 32" by (simp add: mod_diff_left_eq [symmetric])
  also have "\<dots> = 2 ^ 32 - uint xx" using True uint_bounded [of xx]
    by (intro mod_pos_pos_trivial) (auto simp: sint32 split: if_splits)
  finally have "uint (- xx) = 2 ^ 32 - uint xx" .
  moreover have "sint xx = uint xx - 2 ^ 32" using True by (auto simp: sint32 split: if_splits)
  ultimately have "nat (uint (- xx)) = nat \<bar>sint xx\<bar>" using True by simp
  then show ?thesis using True by simp
next
  case False
  then have "sint xx = uint xx" using uint_bounded [of xx] by (auto simp: sint32 split: if_splits)
  then show ?thesis using False by simp
qed

lemma printint_prints:
  assumes "tx_live u" and "base = 10 \<or> base = 16"
  shows "\<exists>u' ds. printint xx base True u = Inr u' \<and> tx_live u' \<and>
      uart_sent u' = uart_sent u @ (if sint xx < 0 then [45] else []) @ map ((!) digits) ds \<and>
      ds \<noteq> [] \<and> (\<forall>d \<in> set ds. d < unat base) \<and> (hd ds = 0 \<longrightarrow> ds = [0]) \<and>
      foldl (\<lambda>v d. v * unat base + d) 0 ds = nat \<bar>sint xx\<bar>"
proof -
  define n where "n = (if sint xx < 0 then - xx else xx)"
  define ds where "ds = num_digits (unat base) (unat n)"
  have b: "1 < unat base" "1 < base" "10 \<le> unat base" using assms(2) by auto
  have "unat n < 2 ^ 32" using unsigned_less [of n, where 'a = nat] by simp
  also have "\<dots> < 10 ^ 10" by simp
  also have "\<dots> \<le> unat base ^ Suc 9" using power_mono [OF b(3), of 10] by simp
  finally have len: "length ds \<le> 10" unfolding ds_def using num_digits_length [OF b(1), of "unat n" 9] by simp
  have e: "printint_digits n base [] = Inr (map ((!) digits) ds)"
    unfolding ds_def by (subst printint_digits_eq) (use b len in \<open>simp_all add: ds_def\<close>)
  let ?out = "(if sint xx < 0 then [45] else []) @ map ((!) digits) (rev ds)"
  have p: "printint xx base True u = print_str ?out u"
    using e len by (simp add: printint_def n_def Let_def printint_push_def print_str_def rev_map)
  obtain u' where u': "print_str ?out u = Inr u'" "uart_sent u' = uart_sent u @ ?out" and l: "tx_live u'"
    using print_str_sends [OF assms(1), of ?out] by blast
  have v: "foldl (\<lambda>v d. v * unat base + d) 0 (rev ds) = nat \<bar>sint xx\<bar>"
    using num_digits_value [OF b(1), of "unat n"] nat_abs_sint [of xx] by (simp add: ds_def n_def foldl_conv_foldr)
  have h: "hd (rev ds) = 0 \<longrightarrow> rev ds = [0]"
  proof
    assume "hd (rev ds) = 0"
    then have "ds = [0]" using num_digits_last [OF b(1), of "unat n"] by (simp add: ds_def hd_rev)
    then show "rev ds = [0]" by simp
  qed
  show ?thesis
  proof (intro exI [of _ u'] exI [of _ "rev ds"] conjI)
    show "printint xx base True u = Inr u'" using p u'(1) by simp
    show "uart_sent u' = uart_sent u @ ?out" by (rule u'(2))
    show "rev ds \<noteq> []" by (simp add: ds_def)
    show "\<forall>d \<in> set (rev ds). d < unat base" using num_digits_less [OF b(1), of "unat n"] by (simp add: ds_def)
  qed (fact h v l)+
qed

text \<open>C25. \<^verbatim>\<open>printint\<close>, with the bases that \<^verbatim>\<open>printf\<close> passes, never writes beyond its buffer of sixteen bytes and prints a
  minus sign for a negative argument followed by the digits of its absolute value in the base, without leading zeros,
  on every device that keeps becoming ready.\<close>

theorem printint_correct:
  assumes "tx_live u" and "base = 10 \<or> base = 16"
  shows "\<exists>u' ds. printint xx base True u = Inr u' \<and>
      uart_sent u' = uart_sent u @ (if sint xx < 0 then [45] else []) @ map ((!) digits) ds \<and>
      ds \<noteq> [] \<and> (\<forall>d \<in> set ds. d < unat base) \<and> (hd ds = 0 \<longrightarrow> ds = [0]) \<and>
      foldl (\<lambda>v d. v * unat base + d) 0 ds = nat \<bar>sint xx\<bar>"
  using printint_prints [OF assms, of xx] by (elim exE conjE, intro exI conjI) assumption+

lemma sample_live: "tx_live sample_uart"
  unfolding tx_live_def
proof (intro conjI allI)
  fix n show "\<exists>m\<ge>n. u_lsr sample_uart m AND uart_bits LSR_TX_IDLE \<noteq> 0"
    by (rule exI [of _ "n + 3"]) (simp add: sample_uart_def uart_bits.simps)
qed (simp add: sample_uart_def)

theorem printint_correct_witness:
  "\<exists>u' ds. printint (- 120) 16 True (sample_uart) = Inr u' \<and>
      uart_sent u' = [45] @ map ((!) digits) ds \<and> ds \<noteq> [] \<and> foldl (\<lambda>v d. v * 16 + d) 0 ds = 120"
  using printint_correct [OF sample_live, of 16 "- 120"] by (auto simp: uart_sent_def sample_uart_def)

lemma printf_literal:
  "0 \<notin> set t \<Longrightarrow> 37 \<notin> set t \<Longrightarrow> printf (Some t) [] v = print_str t v"
proof (induction t arbitrary: v)
  case (Cons c t)
  then show ?case by (cases "consputc (uint c) v") (auto simp: printf_def print_str_def)
qed (simp add: printf_def print_str_def)

text \<open>Formats whose conversions fit the arguments.\<close>

definition args_after :: "u8 \<Rightarrow> parg list \<Rightarrow> parg list option" where
  "args_after c args =
     (if c = of_char (CHR ''d'') \<or> c = of_char (CHR ''x'') then (case args of ArgInt _ # r \<Rightarrow> Some r | _ \<Rightarrow> None)
      else if c = of_char (CHR ''p'') then (case args of ArgPtr _ # r \<Rightarrow> Some r | _ \<Rightarrow> None)
      else if c = of_char (CHR ''s'') then (case args of ArgStr _ # r \<Rightarrow> Some r | _ \<Rightarrow> None)
      else Some args)"

fun fmt_ok :: "u8 list \<Rightarrow> parg list \<Rightarrow> bool" where
  "fmt_ok [] args = True"
| "fmt_ok (c # fmt) args =
     (if c = 0 then True
      else if c \<noteq> 37 then fmt_ok fmt args
      else case fmt of [] \<Rightarrow> True
           | d # fmt1 \<Rightarrow> d = 0 \<or> (case args_after d args of None \<Rightarrow> False | Some r \<Rightarrow> fmt_ok fmt1 r))"

lemma printptr_ends: "tx_live u \<Longrightarrow> \<exists>u'. printptr x u = Inr u' \<and> tx_live u'"
proof -
  assume live: "tx_live u"
  have dig: "\<exists>v'. printptr_digits k y v = Inr v' \<and> tx_live v'" if "tx_live v" for k y v
    using that
  proof (induction k arbitrary: y v)
    case (Suc k)
    obtain v1 where v1: "consputc (uint (digits ! unat (drop_bit 60 y))) v = Inr v1" "tx_live v1"
      using consputc_sends [OF Suc.prems] by blast
    show ?case using Suc.IH [OF v1(2), of "push_bit 4 y"] v1 by simp
  qed simp
  obtain u1 where u1: "consputc 48 u = Inr u1" "tx_live u1" using consputc_sends [OF live] by blast
  obtain u2 where u2: "consputc 120 u1 = Inr u2" "tx_live u2" using consputc_sends [OF u1(2)] by blast
  show ?thesis using u1 u2 dig [OF u2(2), of 16 x] by (simp add: printptr_def)
qed

lemma printf_arg_ends:
  assumes live: "tx_live u" and a: "args_after c args = Some r"
  shows "\<exists>u'. printf_arg c args u = Inr (r, u') \<and> tx_live u'"
proof -
  obtain u1 where u1: "consputc 37 u = Inr u1" "tx_live u1" using consputc_sends [OF live] by blast
  obtain u2 where u2: "consputc (uint c) u1 = Inr u2" "tx_live u2" using consputc_sends [OF u1(2)] by blast
  have i: "\<exists>u'. printint n b True u = Inr u' \<and> tx_live u'" if "b = 10 \<or> b = 16" for n b
    using printint_prints [OF live that, of n] by blast
  have p: "\<exists>u'. print_str t u = Inr u' \<and> tx_live u'" for t using print_str_sends [OF live, of t] by blast
  let ?d = "of_char (CHR ''d'') :: u8" and ?x = "of_char (CHR ''x'') :: u8" and ?p = "of_char (CHR ''p'') :: u8"
    and ?s = "of_char (CHR ''s'') :: u8"
  consider (num) "c = ?d \<or> c = ?x" | (ptr) "c = ?p" | (str) "c = ?s" | (other) "c \<noteq> ?d" "c \<noteq> ?x" "c \<noteq> ?p" "c \<noteq> ?s" by blast
  then show ?thesis
  proof cases
    case num
    then obtain n where n: "args = ArgInt n # r" using a unfolding args_after_def by (simp split: list.splits parg.splits)
    obtain v where "printint n (if c = ?d then 10 else 16) True u = Inr v" "tx_live v"
      using i [of 10 n] i [of 16 n] by (cases "c = ?d") auto
    then show ?thesis using num n by (simp add: printf_arg_def)
  next
    case ptr
    then obtain q where "args = ArgPtr q # r" using a unfolding args_after_def by (simp split: list.splits parg.splits)
    then show ?thesis using ptr printptr_ends [OF live, of q] by (auto simp: printf_arg_def)
  next
    case str
    then obtain t where "args = ArgStr t # r" using a unfolding args_after_def by (simp split: list.splits parg.splits)
    then show ?thesis using str p [of "case t of None \<Rightarrow> bytes_of ''(null)'' | Some s \<Rightarrow> s"] by (auto simp: printf_arg_def)
  next
    case other
    then show ?thesis using a u1 u2 by (cases "c = 37") (simp_all add: printf_arg_def args_after_def)
  qed
qed

lemma printf_loop_ends:
  "tx_live u \<Longrightarrow> fmt_ok fmt args \<Longrightarrow> \<exists>u'. printf_loop fmt args u = Inr u' \<and> tx_live u'"
proof (induction fmt args arbitrary: u rule: fmt_ok.induct)
  case (2 c fmt args)
  consider "c = 0" | "c \<noteq> 0" "c \<noteq> 37" | "c = 37" "fmt = []" | d fmt1 where "c = 37" "fmt = d # fmt1" by (cases fmt) auto
  then show ?case
  proof cases
    case 2: 2
    obtain u1 where "consputc (uint c) u = Inr u1" "tx_live u1" using consputc_sends [OF "2.prems"(1)] by blast
    then show ?thesis using 2 "2.IH"(1) [of u1] "2.prems" by simp
  next
    case 4: 4
    show ?thesis
    proof (cases "d = 0")
      case False
      then obtain r where r: "args_after d args = Some r" "fmt_ok fmt1 r" using "2.prems"(2) 4 by (auto split: option.splits)
      obtain u1 where u1: "printf_arg d args u = Inr (r, u1)" "tx_live u1" using printf_arg_ends [OF "2.prems"(1) r(1)] by blast
      show ?thesis using "2.IH"(2) [OF _ _ 4(2) r(1) u1(2)] 4 False r u1 by simp
    qed (use 4 "2.prems" in simp)
  qed (use "2.prems" in auto)
qed simp

lemma printf_ends: "tx_live u \<Longrightarrow> fmt_ok fmt args \<Longrightarrow> \<exists>u'. printf (Some fmt) args u = Inr u' \<and> tx_live u'"
  by (simp add: printf_def printf_loop_ends)

text \<open>C26. Once \<^verbatim>\<open>panic\<close> has printed its message the console output is frozen: \<^verbatim>\<open>uartputc\<close>, \<^verbatim>\<open>uartputc_sync\<close> and
  every further \<^verbatim>\<open>printf\<close> of a message spin forever. A message without conversions is printed verbatim.\<close>

theorem panic_freezes_output:
  assumes "tx_live u" and "0 \<notin> set s" and "37 \<notin> set s" and "c \<noteq> 0" and "c \<noteq> 37"
  shows "\<exists>u'. panic s u = Inr u' \<and> uart_sent u' = uart_sent u @ bytes_of ''panic: '' @ s @ [10] \<and>
     uartputc d u' = Inl (Blocks ''panicked'') \<and> uartputc_sync d u' = Inl (Blocks ''panicked'') \<and>
     printf (Some (c # fmt)) args u' = Inl (Blocks ''panicked'')"
proof -
  let ?u = "u\<lparr>pr_locking := False\<rparr>"
  have live: "tx_live ?u" and same: "uart_sent ?u = uart_sent u" using assms(1) by (simp_all add: tx_live_def uart_sent_def)
  obtain u1 where u1: "print_str (bytes_of ''panic: '') ?u = Inr u1" "tx_live u1" "uart_sent u1 = uart_sent u @ bytes_of ''panic: ''"
    using print_str_sends [OF live, of "bytes_of ''panic: ''"] same by auto
  obtain u2 where u2: "print_str s u1 = Inr u2" "tx_live u2" "uart_sent u2 = uart_sent u1 @ s"
    using print_str_sends [OF u1(2), of s] by blast
  obtain u3 where u3: "print_str [10] u2 = Inr u3" "uart_sent u3 = uart_sent u2 @ [10]"
    using print_str_sends [OF u2(2), of "[10]"] by blast
  have p: "panic s u = Inr (u3\<lparr>u_panicked := True\<rparr>)"
    using u1 u2 u3 assms(2,3) by (simp add: panic_def printf_literal bytes_of_def)
  have sent: "uart_sent (u3\<lparr>u_panicked := True\<rparr>) = uart_sent u3" by (simp add: uart_sent_def)
  have "uint c \<noteq> BACKSPACE" using uint_bounded [of c] by (simp add: BACKSPACE_def)
  with p sent u1 u2 u3 assms(4,5) show ?thesis
    by (simp add: uartputc_def uartputc_sync_def printf_def consputc_def)
qed

theorem panic_freezes_output_witness:
  "\<exists>u'. panic (bytes_of ''kfree'') sample_uart = Inr u' \<and> uart_sent u' = bytes_of ''panic: kfree'' @ [10] \<and>
     uartputc 65 u' = Inl (Blocks ''panicked'') \<and> uartputc_sync 65 u' = Inl (Blocks ''panicked'') \<and>
     printf (Some (bytes_of ''x'')) [] u' = Inl (Blocks ''panicked'')"
  using panic_freezes_output [OF sample_live, of "bytes_of ''kfree''" "of_char CHR ''x''" 65 "[]" "[]"]
  by (simp add: bytes_of_def uart_sent_def sample_uart_def)

end
