(* ===== verification/KernCopy.thy ===== *)
theory KernCopy
  imports UserCopy
begin

text \<open>
  The copies between user memory and kernel objects that the model keeps in typed records rather than in
  the byte memory (buffers, inodes, local arrays of a system call). The kernel side of a transfer is a
  byte list; the user side is walked page by page as in \<^verbatim>\<open>copyout\<close>, \<^verbatim>\<open>copyin\<close> and \<^verbatim>\<open>copyinstr\<close> of \<^verbatim>\<open>kernel/vm.c\<close>.
  A failing \<^verbatim>\<open>copyin\<close> reports the bytes that the kernel object has received before the failure. The string
  routines of \<^verbatim>\<open>kernel/string.c\<close> on arrays of characters are given on byte lists in the same way.
\<close>

section \<open>Definitions\<close>

fun write_list :: "mem \<Rightarrow> u64 \<Rightarrow> u8 list \<Rightarrow> mem" where
  "write_list m a [] = m"
| "write_list m a (b # bs) = write_list (m(a := b)) (a + 1) bs"

lemma chunk_pos: "0 < unat (PGSIZE - (va - PGROUNDDOWN va))"
  using page_rest_pos [of va] by (simp add: word_less_nat_alt)

function copyout_bytes :: "u64 \<Rightarrow> u64 \<Rightarrow> u8 list \<Rightarrow> 'a kmem_scheme \<Rightarrow> (int \<times> 'a kmem_scheme) res" where
  "copyout_bytes pagetable dstva bs st =
     (if bs \<noteq> []
      then let va0 = PGROUNDDOWN dstva
           in rbind (walkaddr pagetable va0 st) (\<lambda>pa0.
                if pa0 = 0 then Inr (-1, st)
                else let n0 = unat (PGSIZE - (dstva - va0));
                         n = (if n0 > length bs then length bs else n0);
                         st1 = st\<lparr>memory := write_list (memory st) (pa0 + (dstva - va0)) (take n bs)\<rparr>
                     in copyout_bytes pagetable (va0 + PGSIZE) (drop n bs) st1)
      else Inr (0, st))"
  by pat_completeness auto
termination
  by (relation "measure (\<lambda>(pagetable, dstva, bs, st). length bs)") (use chunk_pos in \<open>auto split: if_splits\<close>)

function copyin_bytes :: "u64 \<Rightarrow> u64 \<Rightarrow> nat \<Rightarrow> 'a kmem_scheme \<Rightarrow> (int \<times> u8 list) res" where
  "copyin_bytes pagetable srcva len st =
     (if len > 0
      then let va0 = PGROUNDDOWN srcva
           in rbind (walkaddr pagetable va0 st) (\<lambda>pa0.
                if pa0 = 0 then Inr (-1, [])
                else let n0 = unat (PGSIZE - (srcva - va0));
                         n = (if n0 > len then len else n0)
                     in rbind (copyin_bytes pagetable (va0 + PGSIZE) (len - n) st) (\<lambda>(r, bs).
                          Inr (r, bytes_at (memory st) (pa0 + (srcva - va0)) n @ bs)))
      else Inr (0, []))"
  by pat_completeness auto
termination
  by (relation "measure (\<lambda>(pagetable, srcva, len, st). len)") (use chunk_pos in \<open>auto split: if_splits\<close>)

text \<open>The string copy: the bytes received without the terminator, and 0 if a terminator was met.\<close>

function copyinstr_bytes :: "u64 \<Rightarrow> u64 \<Rightarrow> nat \<Rightarrow> 'a kmem_scheme \<Rightarrow> (int \<times> u8 list) res" where
  "copyinstr_bytes pagetable srcva mx st =
     (if mx > 0
      then let va0 = PGROUNDDOWN srcva
           in rbind (walkaddr pagetable va0 st) (\<lambda>pa0.
                if pa0 = 0 then Inr (-1, [])
                else let n0 = unat (PGSIZE - (srcva - va0));
                         n = (if n0 > mx then mx else n0);
                         page = bytes_at (memory st) (pa0 + (srcva - va0)) n;
                         s = takeWhile (\<lambda>c. c \<noteq> 0) page
                     in if length s < n then Inr (0, s)
                        else rbind (copyinstr_bytes pagetable (va0 + PGSIZE) (mx - n) st) (\<lambda>(r, bs). Inr (r, s @ bs)))
      else Inr (-1, []))"
  by pat_completeness auto
termination
  by (relation "measure (\<lambda>(pagetable, srcva, mx, st). mx)") (use chunk_pos in \<open>auto split: if_splits\<close>)

declare copyout_bytes.simps [simp del] copyin_bytes.simps [simp del] copyinstr_bytes.simps [simp del]

text \<open>\<^verbatim>\<open>strncpy\<close>, \<^verbatim>\<open>safestrcpy\<close>, \<^verbatim>\<open>strncmp\<close> and \<^verbatim>\<open>strlen\<close> on character arrays. Reading past the end of the source array
  yields \<open>0\<close>: the arrays of the kernel that are read this way are terminated within their bounds.\<close>

definition char_at :: "u8 list \<Rightarrow> nat \<Rightarrow> u8" where
  "char_at s i = (if i < length s then s ! i else 0)"

definition strlen_bytes :: "u8 list \<Rightarrow> nat" where
  "strlen_bytes s = length (takeWhile (\<lambda>c. c \<noteq> 0) s)"

definition strncpy_bytes :: "u8 list \<Rightarrow> nat \<Rightarrow> u8 list" where
  "strncpy_bytes t n =
     (let s = take n (takeWhile (\<lambda>c. c \<noteq> 0) t) in s @ replicate (n - length s) 0)"

definition safestrcpy_bytes :: "u8 list \<Rightarrow> u8 list \<Rightarrow> nat \<Rightarrow> u8 list" where
  "safestrcpy_bytes d t n =
     (let s = take (n - 1) (takeWhile (\<lambda>c. c \<noteq> 0) t)
      in if n = 0 then d else s @ 0 # drop (Suc (length s)) d)"

fun strncmp_bytes :: "u8 list \<Rightarrow> u8 list \<Rightarrow> nat \<Rightarrow> int" where
  "strncmp_bytes p q 0 = 0"
| "strncmp_bytes p q (Suc n) =
     (if char_at p 0 \<noteq> 0 \<and> char_at p 0 = char_at q 0 then strncmp_bytes (drop 1 p) (drop 1 q) n
      else uint (char_at p 0) - uint (char_at q 0))"

section \<open>What the transfers read and write\<close>

lemma chunk_facts_nat:
  assumes "0 < len" and n0: "n0 = unat (PGSIZE - (va - PGROUNDDOWN va))" and n: "n = (if n0 > len then len else n0)"
  shows "0 < n" and "n \<le> len" and "n \<le> 4096 - unat va mod 4096"
    and "i < len - n \<Longrightarrow> PGROUNDDOWN va + PGSIZE + of_nat i = va + of_nat (n + i)"
proof -
  show "0 < n" "n \<le> len" using assms(1) n chunk_pos [of va] n0 by auto
  have "n \<le> n0" using n by auto
  then show "n \<le> 4096 - unat va mod 4096" using page_rest_le [of va] n0 by simp
  assume "i < len - n"
  then have "n = n0" using n by (auto split: if_splits)
  then show "PGROUNDDOWN va + PGSIZE + of_nat i = va + of_nat (n + i)" by (simp add: n0)
qed

lemma chunk_bytes:
  assumes "walkaddr pt (PGROUNDDOWN va) st = Inr pa" and "pa \<noteq> 0" and "n \<le> 4096 - unat va mod 4096" and "i < n"
  shows "ubyte pt st (va + of_nat i) = Some (bytes_at (memory st) (pa + (va - PGROUNDDOWN va)) n ! i)"
  using user_addr_same_page [OF assms(1,2), of i] assms(3,4) by (simp add: ubyte_def)

lemma unmapped_byte:
  assumes "walkaddr pt (PGROUNDDOWN va) st = Inr 0"
  shows "ubyte pt st va = None"
  using assms by (simp add: ubyte_def user_addr_None_iff)

definition ubytes :: "u64 \<Rightarrow> 'a kmem_scheme \<Rightarrow> u64 \<Rightarrow> u8 list \<Rightarrow> bool" where
  "ubytes pt st va bs \<longleftrightarrow> (\<forall>i<length bs. ubyte pt st (va + of_nat i) = Some (bs ! i))"

lemma ubytes_append:
  assumes "ubytes pt st va xs" and "\<forall>i<length ys. ubyte pt st (va + of_nat (length xs + i)) = Some (ys ! i)"
  shows "ubytes pt st va (xs @ ys)"
  unfolding ubytes_def
proof (intro allI impI)
  fix i assume i: "i < length (xs @ ys)"
  show "ubyte pt st (va + of_nat i) = Some ((xs @ ys) ! i)"
  proof (cases "i < length xs")
    case True
    then show ?thesis using assms(1) by (simp add: ubytes_def nth_append)
  next
    case False
    then show ?thesis using assms(2) [rule_format, of "i - length xs"] i by (simp add: nth_append)
  qed
qed

lemma copyin_bytes_spec:
  "\<exists>r bs. copyin_bytes pt va len st = Inr (r, bs) \<and> ubytes pt st va bs
     \<and> (r = 0 \<and> length bs = len \<or> r = -1 \<and> length bs < len \<and> ubyte pt st (va + of_nat (length bs)) = None)"
proof (induction len arbitrary: va rule: less_induct)
  case (less len)
  obtain pa where pa: "walkaddr pt (PGROUNDDOWN va) st = Inr pa" using walkaddr_Inr by blast
  consider "len = 0" | "0 < len" "pa = 0" | "0 < len" "pa \<noteq> 0" by blast
  then show ?case
  proof cases
    case 2
    then show ?thesis using pa unmapped_byte [of pt va st] by (simp add: copyin_bytes.simps [of pt] ubytes_def)
  next
    case 3
    define n0 n where "n0 = unat (PGSIZE - (va - PGROUNDDOWN va))" and "n = (if n0 > len then len else n0)"
    note ch = chunk_facts_nat [OF 3(1) n0_def n_def]
    let ?pg = "bytes_at (memory st) (pa + (va - PGROUNDDOWN va)) n"
    have pg: "ubytes pt st va ?pg" using chunk_bytes [OF pa 3(2) ch(3)] by (simp add: ubytes_def)
    have "len - n < len" using ch(1,2) by simp
    from less.IH [OF this, of "PGROUNDDOWN va + PGSIZE"]
    obtain r bs where IH: "copyin_bytes pt (PGROUNDDOWN va + PGSIZE) (len - n) st = Inr (r, bs)"
      "ubytes pt st (PGROUNDDOWN va + PGSIZE) bs"
      "r = 0 \<and> length bs = len - n \<or> r = -1 \<and> length bs < len - n
         \<and> ubyte pt st (PGROUNDDOWN va + PGSIZE + of_nat (length bs)) = None"
      by blast
    have "length bs \<le> len - n" using IH(3) by auto
    then have "\<forall>i<length bs. ubyte pt st (va + of_nat (length ?pg + i)) = Some (bs ! i)"
      using IH(2) ch(4) by (auto simp: ubytes_def)
    then have "ubytes pt st va (?pg @ bs)" using pg by (rule ubytes_append [rotated])
    moreover have "copyin_bytes pt va len st = Inr (r, ?pg @ bs)"
      using 3 pa IH(1) by (simp add: copyin_bytes.simps [of pt va] Let_def n0_def [symmetric] n_def [symmetric])
    moreover have "length bs < len - n \<Longrightarrow>
        ubyte pt st (PGROUNDDOWN va + PGSIZE + of_nat (length bs)) = ubyte pt st (va + of_nat (length (?pg @ bs)))"
      by (simp only: ch(4) length_append length_bytes_at)
    ultimately show ?thesis using IH(3) ch(2)
      by (intro exI [of _ r] exI [of _ "?pg @ bs"]) (auto simp del: of_nat_add)
  qed (simp add: copyin_bytes.simps ubytes_def)
qed

lemma ubytes_ustring:
  assumes "ubytes pt st va s" and "0 \<notin> set s" and "ubyte pt st (va + of_nat (length s)) = Some 0"
  shows "ustring_at pt st va (length s)"
  using assms by (auto simp: ustring_at_def ubytes_def in_set_conv_nth)

lemma ubytes_no_ustring:
  assumes "ubytes pt st va s" and "0 \<notin> set s" and "k < length s"
  shows "\<not> ustring_at pt st va k"
  using assms by (auto simp: ustring_at_def ubytes_def in_set_conv_nth)

lemma copyinstr_bytes_spec:
  "\<exists>r s. copyinstr_bytes pt va mx st = Inr (r, s) \<and> ubytes pt st va s \<and> 0 \<notin> set s
     \<and> (r = 0 \<and> length s < mx \<and> ubyte pt st (va + of_nat (length s)) = Some 0
        \<or> r = -1 \<and> (length s = mx \<or> length s < mx \<and> ubyte pt st (va + of_nat (length s)) = None))"
proof (induction mx arbitrary: va rule: less_induct)
  case (less mx)
  obtain pa where pa: "walkaddr pt (PGROUNDDOWN va) st = Inr pa" using walkaddr_Inr by blast
  consider "mx = 0" | "0 < mx" "pa = 0" | "0 < mx" "pa \<noteq> 0" by blast
  then show ?case
  proof cases
    case 2
    then show ?thesis using pa unmapped_byte [of pt va st] by (simp add: copyinstr_bytes.simps [of pt] ubytes_def)
  next
    case 3
    define n0 n where "n0 = unat (PGSIZE - (va - PGROUNDDOWN va))" and "n = (if n0 > mx then mx else n0)"
    note ch = chunk_facts_nat [OF 3(1) n0_def n_def]
    let ?pg = "bytes_at (memory st) (pa + (va - PGROUNDDOWN va)) n"
    define s where "s = takeWhile (\<lambda>c. c \<noteq> 0) ?pg"
    note fold = n0_def [symmetric] n_def [symmetric] s_def [symmetric]
    have pg: "ubyte pt st (va + of_nat i) = Some (?pg ! i)" if "i < n" for i using chunk_bytes [OF pa 3(2) ch(3) that] .
    have len: "length s \<le> n" using length_takeWhile_le [of "\<lambda>c. c \<noteq> 0" ?pg] by (simp add: s_def)
    have nz: "0 \<notin> set s" using set_takeWhileD [of _ "\<lambda>c. c \<noteq> 0" ?pg] by (auto simp: s_def)
    have us: "ubytes pt st va s" using pg len by (auto simp: ubytes_def s_def takeWhile_nth)
    show ?thesis
    proof (cases "length s < n")
      case True
      then have "?pg ! length s = 0" using nth_length_takeWhile [of "\<lambda>c. c \<noteq> 0" ?pg] by (simp add: s_def)
      moreover have "copyinstr_bytes pt va mx st = Inr (0, s)"
        using True 3 pa by (simp add: copyinstr_bytes.simps [of pt va] Let_def fold)
      ultimately show ?thesis using us nz True pg [of "length s"] ch(2) by auto
    next
      case False
      then have sn: "length s = n" using len by simp
      have "mx - n < mx" using ch(1,2) by simp
      from less.IH [OF this, of "PGROUNDDOWN va + PGSIZE"]
      obtain r bs where IH: "copyinstr_bytes pt (PGROUNDDOWN va + PGSIZE) (mx - n) st = Inr (r, bs)"
        "ubytes pt st (PGROUNDDOWN va + PGSIZE) bs" "0 \<notin> set bs"
        "r = 0 \<and> length bs < mx - n \<and> ubyte pt st (PGROUNDDOWN va + PGSIZE + of_nat (length bs)) = Some 0
         \<or> r = -1 \<and> (length bs = mx - n \<or> length bs < mx - n \<and> ubyte pt st (PGROUNDDOWN va + PGSIZE + of_nat (length bs)) = None)"
        by blast
      have "length bs \<le> mx - n" using IH(4) by auto
      then have "\<forall>i<length bs. ubyte pt st (va + of_nat (length s + i)) = Some (bs ! i)"
        using IH(2) ch(4) sn by (auto simp: ubytes_def)
      then have "ubytes pt st va (s @ bs)" using us by (rule ubytes_append [rotated])
      moreover have "copyinstr_bytes pt va mx st = Inr (r, s @ bs)"
        using 3 pa IH(1) False by (simp add: copyinstr_bytes.simps [of pt va] Let_def fold)
      moreover have "length bs < mx - n \<Longrightarrow>
          ubyte pt st (PGROUNDDOWN va + PGSIZE + of_nat (length bs)) = ubyte pt st (va + of_nat (length (s @ bs)))"
        by (simp only: ch(4) length_append sn)
      ultimately show ?thesis using IH(3,4) nz ch(2) sn
        by (intro exI [of _ r] exI [of _ "s @ bs"]) (auto simp del: of_nat_add)
    qed
  qed (simp add: copyinstr_bytes.simps ubytes_def)
qed

end
