(* ===== verification/Sleeplock.thy ===== *)
theory Sleeplock
  imports Xv6_Prelude
begin

text \<open>
  Sleep locks (\<^verbatim>\<open>kernel/sleeplock.c\<close>): the lock word and the pid of the holder. Each routine runs under
  the inner spin lock and is one atomic step. \<^verbatim>\<open>acquiresleep\<close> on a held lock sleeps; the caller's state
  does not advance, which the outcome \<open>Blocks\<close> records.
\<close>

record sleeplock =
  sl_locked :: u32
  sl_pid :: int

definition initsleeplock :: sleeplock where
  "initsleeplock = \<lparr>sl_locked = 0, sl_pid = 0\<rparr>"

definition acquiresleep :: "int \<Rightarrow> sleeplock \<Rightarrow> sleeplock res" where
  "acquiresleep mypid lk =
     (if sl_locked lk \<noteq> 0 then Inl (Blocks ''acquiresleep'')
      else Inr (lk\<lparr>sl_locked := 1, sl_pid := mypid\<rparr>))"

definition releasesleep :: "sleeplock \<Rightarrow> sleeplock" where
  "releasesleep lk = lk\<lparr>sl_locked := 0, sl_pid := 0\<rparr>"

definition holdingsleep :: "int \<Rightarrow> sleeplock \<Rightarrow> bool" where
  "holdingsleep mypid lk \<longleftrightarrow> sl_locked lk \<noteq> 0 \<and> sl_pid lk = mypid"

section \<open>A lock shared by several processes\<close>

text \<open>Each process is outside, asleep on the lock, or holds it. A process that finds the lock taken
  sleeps; a release wakes every sleeper, and a woken process tests the lock again.\<close>

datatype sl_where = SlOut | SlAsleep | SlRetry | SlHolds

inductive sl_step :: "sleeplock \<times> (int \<Rightarrow> sl_where) \<Rightarrow> sleeplock \<times> (int \<Rightarrow> sl_where) \<Rightarrow> bool" where
  sl_enter: "ps p \<in> {SlOut, SlRetry} \<Longrightarrow> acquiresleep p lk = Inr lk' \<Longrightarrow> sl_step (lk, ps) (lk', ps(p := SlHolds))"
| sl_sleep: "ps p \<in> {SlOut, SlRetry} \<Longrightarrow> acquiresleep p lk = Inl (Blocks r) \<Longrightarrow> sl_step (lk, ps) (lk, ps(p := SlAsleep))"
| sl_leave: "ps p = SlHolds \<Longrightarrow> holdingsleep p lk \<Longrightarrow>
     sl_step (lk, ps) (releasesleep lk, (\<lambda>q. if q = p then SlOut else if ps q = SlAsleep then SlRetry else ps q))"

inductive sl_reachable :: "sleeplock \<times> (int \<Rightarrow> sl_where) \<Rightarrow> bool" where
  sl_start: "sl_reachable (initsleeplock, \<lambda>_. SlOut)"
| sl_go: "sl_reachable s \<Longrightarrow> sl_step s t \<Longrightarrow> sl_reachable t"

inductive_cases sl_stepE: "sl_step s t"

definition sl_inv :: "sleeplock \<times> (int \<Rightarrow> sl_where) \<Rightarrow> bool" where
  "sl_inv s \<longleftrightarrow> (\<forall>p. snd s p = SlHolds \<longleftrightarrow> holdingsleep p (fst s))
     \<and> (sl_locked (fst s) = 0 \<longrightarrow> (\<forall>p. snd s p \<noteq> SlAsleep))"

lemma sl_inv_step:
  assumes "sl_step s t" and "sl_inv s"
  shows "sl_inv t"
  using assms
proof (induction rule: sl_step.induct)
  case (sl_enter ps p lk lk')
  then show ?case
    by (auto simp: sl_inv_def acquiresleep_def holdingsleep_def split: if_splits)
next
  case (sl_sleep ps p lk r)
  have "ps p \<noteq> SlHolds" using sl_sleep.hyps(1) by auto
  with sl_sleep have "\<not> holdingsleep p lk" "sl_locked lk \<noteq> 0"
    by (simp_all add: sl_inv_def acquiresleep_def split: if_splits)
  with sl_sleep show ?case by (simp add: sl_inv_def)
next
  case (sl_leave ps p lk)
  then have "ps q \<noteq> SlHolds" if "q \<noteq> p" for q
    using that by (auto simp: sl_inv_def holdingsleep_def)
  then show ?case by (simp add: sl_inv_def releasesleep_def holdingsleep_def)
qed

lemma sl_inv_reachable: "sl_reachable s \<Longrightarrow> sl_inv s"
proof (induction rule: sl_reachable.induct)
  case sl_start
  then show ?case by (simp add: sl_inv_def initsleeplock_def holdingsleep_def)
next
  case (sl_go s t)
  then show ?case using sl_inv_step by blast
qed

text \<open>C15. In every interleaving of processes that acquire and release a sleep lock at most one process
  holds it, \<^verbatim>\<open>holdingsleep\<close> says so of the holder and of nobody else, and nobody is left asleep on a free
  lock.\<close>

theorem sleeplock_exclusive:
  assumes "sl_reachable (lk, ps)"
  shows "(\<forall>p q. ps p = SlHolds \<longrightarrow> ps q = SlHolds \<longrightarrow> p = q)
       \<and> (\<forall>p. holdingsleep p lk \<longleftrightarrow> ps p = SlHolds)
       \<and> (sl_locked lk = 0 \<longrightarrow> (\<forall>p. ps p \<noteq> SlAsleep))"
  using sl_inv_reachable [OF assms] by (auto simp: sl_inv_def holdingsleep_def)

theorem sleeplock_exclusive_witness:
  "\<exists>lk ps. ps 3 = SlHolds \<and> ps 4 = SlAsleep
     \<and> (\<forall>p q. ps p = SlHolds \<longrightarrow> ps q = SlHolds \<longrightarrow> p = q)
     \<and> (\<forall>p. holdingsleep p lk \<longleftrightarrow> ps p = SlHolds)
     \<and> (sl_locked lk = 0 \<longrightarrow> (\<forall>p. ps p \<noteq> SlAsleep))"
proof -
  let ?lk = "\<lparr>sl_locked = 1, sl_pid = 3\<rparr>"
  have "sl_step (initsleeplock, \<lambda>_. SlOut) (?lk, (\<lambda>_. SlOut)(3 := SlHolds))"
    by (rule sl_enter) (simp_all add: acquiresleep_def initsleeplock_def)
  moreover have "sl_step (?lk, (\<lambda>_. SlOut)(3 := SlHolds)) (?lk, (\<lambda>_. SlOut)(3 := SlHolds, 4 := SlAsleep))"
    by (rule sl_sleep) (simp_all add: acquiresleep_def)
  ultimately have "sl_reachable (?lk, (\<lambda>_. SlOut)(3 := SlHolds, 4 := SlAsleep))"
    using sl_start sl_go by blast
  from sleeplock_exclusive [OF this]
  show ?thesis
    by (intro exI [of _ ?lk] exI [of _ "(\<lambda>_. SlOut)(3 := SlHolds, 4 := SlAsleep)"] conjI) (simp, simp, blast+)
qed

end
