(* ===== verification/Bio.thy ===== *)
theory Bio
  imports Sleeplock Kalloc
begin

text \<open>
  The buffer cache (\<^verbatim>\<open>kernel/bio.c\<close>): \<open>NBUF\<close> buffers on a doubly linked list in order of last use. A
  buffer pointer is an index; the list head is the index \<open>NBUF\<close>. The disk is a function from block
  numbers to blocks; a request to the driver reads or writes one block of it, and a ghost field remembers the
  writes in order, so that a crash between two of them can be described. The state extends the kernel
  memory, so that the file system above can use both.
\<close>

section \<open>Blocks\<close>

text \<open>The bytes of a block; indices below \<open>BSIZE\<close> are meaningful.\<close>

type_synonym block = "nat \<Rightarrow> u8"

definition BSIZE :: nat where "BSIZE = 1024"
definition NBUF :: nat where "NBUF = 30"

definition get32 :: "block \<Rightarrow> nat \<Rightarrow> u32" where
  "get32 b o1 = ucast (b o1) OR push_bit 8 (ucast (b (o1 + 1)))
     OR push_bit 16 (ucast (b (o1 + 2))) OR push_bit 24 (ucast (b (o1 + 3)))"

definition put32 :: "block \<Rightarrow> nat \<Rightarrow> u32 \<Rightarrow> block" where
  "put32 b o1 v = b(o1 := ucast v, o1 + 1 := ucast (drop_bit 8 v),
     o1 + 2 := ucast (drop_bit 16 v), o1 + 3 := ucast (drop_bit 24 v))"

lemma get32_put32_same [simp]: "get32 (put32 b o1 v) o1 = v"
proof (rule bit_word_eqI)
  fix n assume n: "n < LENGTH(32)"
  consider "n < 8" | k where "n = 8 + k" "k < 8" | k where "n = 16 + k" "k < 8" | k where "n = 24 + k" "k < 8"
  proof -
    have "n = 8 + (n - 8)" if "8 \<le> n" using that by simp
    moreover have "n = 16 + (n - 16)" if "16 \<le> n" using that by simp
    moreover have "n = 24 + (n - 24)" if "24 \<le> n" using that by simp
    moreover have "n - 24 < 8" "n - 8 < 8 \<or> 16 \<le> n" "n - 16 < 8 \<or> 24 \<le> n" using n by auto
    ultimately show thesis using that n by (metis not_less)
  qed
  then show "bit (get32 (put32 b o1 v) o1) n = bit v n"
    by cases (auto simp: get32_def put32_def bit_simps)
qed

lemma get32_put32_other: "o2 + 4 \<le> o1 \<or> o1 + 4 \<le> o2 \<Longrightarrow> get32 (put32 b o1 v) o2 = get32 b o2"
  by (auto simp: get32_def put32_def)

section \<open>State and operations\<close>

record buf =
  b_valid :: bool
  b_dev :: u32
  b_blockno :: u32
  b_lock :: sleeplock
  b_refcnt :: u32
  b_prev :: nat
  b_next :: nat
  b_data :: block

record bio = kmem +
  curpid :: int
  bufs :: "nat \<Rightarrow> buf"
  disk :: "u32 \<Rightarrow> block"
  disk_log :: "(u32 \<times> block) list"

abbreviation bhead :: nat where "bhead \<equiv> NBUF"

definition upd_buf :: "nat \<Rightarrow> (buf \<Rightarrow> buf) \<Rightarrow> 'a bio_scheme \<Rightarrow> 'a bio_scheme" where
  "upd_buf i f st = st\<lparr>bufs := (bufs st)(i := f (bufs st i))\<rparr>"

definition binit_one :: "nat \<Rightarrow> 'a bio_scheme \<Rightarrow> 'a bio_scheme" where
  "binit_one b st =
     (let st1 = upd_buf b (\<lambda>x. x\<lparr>b_next := b_next (bufs st bhead), b_prev := bhead, b_lock := initsleeplock\<rparr>) st;
          st2 = upd_buf (b_next (bufs st1 bhead)) (\<lambda>x. x\<lparr>b_prev := b\<rparr>) st1
      in upd_buf bhead (\<lambda>x. x\<lparr>b_next := b\<rparr>) st2)"

definition binit :: "'a bio_scheme \<Rightarrow> 'a bio_scheme" where
  "binit st = fold binit_one [0..<NBUF] (upd_buf bhead (\<lambda>x. x\<lparr>b_prev := bhead, b_next := bhead\<rparr>) st)"

text \<open>What the cache relies on of the driver's \<^verbatim>\<open>virtio_disk_rw\<close>: a request transfers the whole block.\<close>

definition disk_rw :: "nat \<Rightarrow> bool \<Rightarrow> 'a bio_scheme \<Rightarrow> 'a bio_scheme" where
  "disk_rw b wr st =
     (let n = b_blockno (bufs st b)
      in if wr then st\<lparr>disk := (disk st)(n := b_data (bufs st b)), disk_log := disk_log st @ [(n, b_data (bufs st b))]\<rparr>
         else upd_buf b (\<lambda>x. x\<lparr>b_data := disk st n\<rparr>) st)"

text \<open>The two scans of \<^verbatim>\<open>bget\<close> follow the links until they are back at the head. The first argument
  bounds the number of links followed; on a list of \<open>NBUF\<close> buffers \<open>NBUF + 1\<close> is enough.\<close>

fun bget_cached :: "nat \<Rightarrow> u32 \<Rightarrow> u32 \<Rightarrow> nat \<Rightarrow> 'a bio_scheme \<Rightarrow> nat option res" where
  "bget_cached 0 dev blockno b st = Inl (Blocks ''bget: list'')"
| "bget_cached (Suc k) dev blockno b st =
     (if b = bhead then Inr None
      else if b_dev (bufs st b) = dev \<and> b_blockno (bufs st b) = blockno then Inr (Some b)
      else bget_cached k dev blockno (b_next (bufs st b)) st)"

fun bget_unused :: "nat \<Rightarrow> nat \<Rightarrow> 'a bio_scheme \<Rightarrow> nat option res" where
  "bget_unused 0 b st = Inl (Blocks ''bget: list'')"
| "bget_unused (Suc k) b st =
     (if b = bhead then Inr None
      else if b_refcnt (bufs st b) = 0 then Inr (Some b)
      else bget_unused k (b_prev (bufs st b)) st)"

definition lock_buf :: "nat \<Rightarrow> 'a bio_scheme \<Rightarrow> 'a bio_scheme res" where
  "lock_buf b st = rbind (acquiresleep (curpid st) (b_lock (bufs st b))) (\<lambda>lk.
     Inr (upd_buf b (\<lambda>x. x\<lparr>b_lock := lk\<rparr>) st))"

definition bget :: "u32 \<Rightarrow> u32 \<Rightarrow> 'a bio_scheme \<Rightarrow> (nat \<times> 'a bio_scheme) res" where
  "bget dev blockno st =
     rbind (bget_cached (Suc NBUF) dev blockno (b_next (bufs st bhead)) st) (\<lambda>c.
       case c of
         Some b \<Rightarrow> rbind (lock_buf b (upd_buf b (\<lambda>x. x\<lparr>b_refcnt := b_refcnt x + 1\<rparr>) st)) (\<lambda>st1. Inr (b, st1))
       | None \<Rightarrow>
           rbind (bget_unused (Suc NBUF) (b_prev (bufs st bhead)) st) (\<lambda>u.
             case u of
               Some b \<Rightarrow> rbind (lock_buf b (upd_buf b (\<lambda>x. x\<lparr>b_dev := dev, b_blockno := blockno,
                             b_valid := False, b_refcnt := 1\<rparr>) st)) (\<lambda>st1. Inr (b, st1))
             | None \<Rightarrow> Inl (Panic ''bget: no buffers'')))"

definition bread :: "u32 \<Rightarrow> u32 \<Rightarrow> 'a bio_scheme \<Rightarrow> (nat \<times> 'a bio_scheme) res" where
  "bread dev blockno st =
     rbind (bget dev blockno st) (\<lambda>(b, st1).
       if \<not> b_valid (bufs st1 b)
       then Inr (b, upd_buf b (\<lambda>x. x\<lparr>b_valid := True\<rparr>) (disk_rw b False st1))
       else Inr (b, st1))"

definition bwrite :: "nat \<Rightarrow> 'a bio_scheme \<Rightarrow> 'a bio_scheme res" where
  "bwrite b st =
     (if \<not> holdingsleep (curpid st) (b_lock (bufs st b)) then Inl (Panic ''bwrite'')
      else Inr (disk_rw b True st))"

text \<open>The list surgery of \<^verbatim>\<open>brelse\<close>, assignment by assignment.\<close>

definition move_to_front :: "nat \<Rightarrow> 'a bio_scheme \<Rightarrow> 'a bio_scheme" where
  "move_to_front b st =
     (let st1 = upd_buf (b_next (bufs st b)) (\<lambda>x. x\<lparr>b_prev := b_prev (bufs st b)\<rparr>) st;
          st2 = upd_buf (b_prev (bufs st1 b)) (\<lambda>x. x\<lparr>b_next := b_next (bufs st1 b)\<rparr>) st1;
          st3 = upd_buf b (\<lambda>x. x\<lparr>b_next := b_next (bufs st2 bhead)\<rparr>) st2;
          st4 = upd_buf b (\<lambda>x. x\<lparr>b_prev := bhead\<rparr>) st3;
          st5 = upd_buf (b_next (bufs st4 bhead)) (\<lambda>x. x\<lparr>b_prev := b\<rparr>) st4
      in upd_buf bhead (\<lambda>x. x\<lparr>b_next := b\<rparr>) st5)"

definition brelse :: "nat \<Rightarrow> 'a bio_scheme \<Rightarrow> 'a bio_scheme res" where
  "brelse b st =
     (if \<not> holdingsleep (curpid st) (b_lock (bufs st b)) then Inl (Panic ''brelse'')
      else let st1 = upd_buf b (\<lambda>x. x\<lparr>b_lock := releasesleep (b_lock x)\<rparr>) st;
               st2 = upd_buf b (\<lambda>x. x\<lparr>b_refcnt := b_refcnt x - 1\<rparr>) st1
           in if b_refcnt (bufs st2 b) = 0 then Inr (move_to_front b st2) else Inr st2)"

definition bpin :: "nat \<Rightarrow> 'a bio_scheme \<Rightarrow> 'a bio_scheme" where
  "bpin b = upd_buf b (\<lambda>x. x\<lparr>b_refcnt := b_refcnt x + 1\<rparr>)"

definition bunpin :: "nat \<Rightarrow> 'a bio_scheme \<Rightarrow> 'a bio_scheme" where
  "bunpin b = upd_buf b (\<lambda>x. x\<lparr>b_refcnt := b_refcnt x - 1\<rparr>)"

section \<open>The linked list as a list\<close>

fun links :: "(nat \<Rightarrow> nat) \<Rightarrow> (nat \<Rightarrow> nat) \<Rightarrow> nat \<Rightarrow> nat list \<Rightarrow> nat \<Rightarrow> bool" where
  "links nxt prv a [] b \<longleftrightarrow> nxt a = b \<and> prv b = a"
| "links nxt prv a (x # xs) b \<longleftrightarrow> nxt a = x \<and> prv x = a \<and> links nxt prv x xs b"

lemma links_append: "links nxt prv a (xs @ y # ys) b \<longleftrightarrow> links nxt prv a xs y \<and> links nxt prv y ys b"
  by (induction xs arbitrary: a) auto

lemma links_cong:
  assumes "\<And>x. x \<in> insert a (set xs) \<Longrightarrow> nxt' x = nxt x" and "\<And>x. x \<in> insert b (set xs) \<Longrightarrow> prv' x = prv x"
  shows "links nxt' prv' a xs b \<longleftrightarrow> links nxt prv a xs b"
  using assms by (induction xs arbitrary: a) auto

text \<open>Unlinking an element and linking it in again behind the head, as six assignments.\<close>

definition front_nxt :: "nat \<Rightarrow> nat \<Rightarrow> (nat \<Rightarrow> nat) \<Rightarrow> (nat \<Rightarrow> nat) \<Rightarrow> nat \<Rightarrow> nat" where
  "front_nxt h b nxt prv = (let nxt1 = nxt(prv b := nxt b) in nxt1(b := nxt1 h, h := b))"

definition front_prv :: "nat \<Rightarrow> nat \<Rightarrow> (nat \<Rightarrow> nat) \<Rightarrow> (nat \<Rightarrow> nat) \<Rightarrow> nat \<Rightarrow> nat" where
  "front_prv h b nxt prv =
     (let nxt1 = nxt(prv b := nxt b) in prv(nxt b := prv b, b := h, nxt1 h := b))"

lemma links_ends:
  "links nxt prv a xs b \<Longrightarrow> nxt a = hd (xs @ [b]) \<and> prv b = last (a # xs)"
  by (induction xs arbitrary: a) auto

lemma links_unlink:
  assumes "links nxt prv a xs b" and "links nxt prv b zs c" and "distinct (a # xs @ b # zs)" and "c \<notin> set (a # xs @ b # zs)"
  shows "links (nxt(last (a # xs) := hd (zs @ [c]))) (prv(hd (zs @ [c]) := last (a # xs))) a (xs @ zs) c"
  using assms
proof (induction xs arbitrary: a)
  case Nil
  show ?case
  proof (cases zs)
    case (Cons z zs')
    have "links (nxt(a := z)) (prv(z := a)) z zs' c \<longleftrightarrow> links nxt prv z zs' c"
      using Nil.prems Cons by (intro links_cong) auto
    with Nil.prems Cons show ?thesis by (simp add: fun_upd_def)
  qed simp
next
  case (Cons x xs)
  have "hd (zs @ [c]) \<noteq> x" using Cons.prems(3,4) by (cases zs) auto
  moreover have "a \<noteq> last (x # xs)" using Cons.prems(3) last_in_set [of "x # xs"] by auto
  moreover have "links (nxt(last (x # xs) := hd (zs @ [c]))) (prv(hd (zs @ [c]) := last (x # xs))) x (xs @ zs) c"
    using Cons.prems by (intro Cons.IH) auto
  moreover have "last (a # x # xs) = last (x # xs)" by simp
  ultimately show ?case using Cons.prems(1) by (simp del: last.simps add: fun_upd_def)
qed

lemma links_front:
  assumes "links nxt prv h (ys @ b # zs) h" and "distinct (h # ys @ b # zs)"
  shows "links (front_nxt h b nxt prv) (front_prv h b nxt prv) h (b # ys @ zs) h"
proof (cases ys)
  case Nil
  have b: "nxt h = b" "prv b = h" "prv (nxt b) = b" "b \<noteq> h"
    using assms Nil by (cases zs; auto)+
  have "front_nxt h b nxt prv = nxt" "front_prv h b nxt prv = prv"
    using b by (auto simp: front_nxt_def front_prv_def fun_eq_iff)
  with assms(1) Nil show ?thesis by simp
next
  case (Cons y ys')
  have l: "links nxt prv h (y # ys') b" "links nxt prv b zs h"
    using assms(1) Cons by (simp_all add: links_append)
  have ends: "nxt h = y" "prv b = last (y # ys')" "nxt b = hd (zs @ [h])"
    using links_ends [OF l(1)] links_ends [OF l(2)] by auto
  have ne: "h \<noteq> last (y # ys')" "hd (zs @ [h]) \<noteq> b" "b \<noteq> h" "y \<noteq> b" "y \<noteq> h"
    using assms(2) Cons last_in_set [of "y # ys'"] by (auto, (cases zs; auto)+)
  let ?n = "nxt(last (y # ys') := hd (zs @ [h]))" and ?p = "prv(hd (zs @ [h]) := last (y # ys'))"
  have un: "links ?n ?p y (ys' @ zs) h"
    using l assms(2) Cons by (intro links_unlink [of nxt prv y ys' b]) auto
  have fn: "front_nxt h b nxt prv = ?n(b := y, h := b)" "front_prv h b nxt prv = ?p(b := h, y := b)"
    using ends ne by (simp_all add: front_nxt_def front_prv_def)
  have "links (?n(b := y, h := b)) (?p(b := h, y := b)) y (ys' @ zs) h \<longleftrightarrow> links ?n ?p y (ys' @ zs) h"
    using assms(2) Cons ne by (intro links_cong) auto
  with un ne show ?thesis unfolding fn by (simp add: Cons)
qed

definition nx :: "'a bio_scheme \<Rightarrow> nat \<Rightarrow> nat" where "nx st i = b_next (bufs st i)"
definition pv :: "'a bio_scheme \<Rightarrow> nat \<Rightarrow> nat" where "pv st i = b_prev (bufs st i)"

lemma nx_upd [simp]:
  "nx (upd_buf i (\<lambda>x. x\<lparr>b_next := v\<rparr>) st) = (nx st)(i := v)"
  "nx (upd_buf i (\<lambda>x. x\<lparr>b_prev := v\<rparr>) st) = nx st"
  "pv (upd_buf i (\<lambda>x. x\<lparr>b_next := v\<rparr>) st) = pv st"
  "pv (upd_buf i (\<lambda>x. x\<lparr>b_prev := v\<rparr>) st) = (pv st)(i := v)"
  by (auto simp: nx_def pv_def upd_buf_def fun_eq_iff)

lemma links_move_to_front:
  assumes "nx st b \<noteq> b" and "b \<noteq> bhead"
  shows "nx (move_to_front b st) = front_nxt bhead b (nx st) (pv st)"
    and "pv (move_to_front b st) = front_prv bhead b (nx st) (pv st)"
  using assms
  by (simp_all add: move_to_front_def Let_def front_nxt_def front_prv_def
      flip: nx_def [of _ b] nx_def [of _ bhead] pv_def [of _ b])

definition lru :: "'a bio_scheme \<Rightarrow> nat list \<Rightarrow> bool" where
  "lru st xs \<longleftrightarrow> distinct xs \<and> set xs = {0..<NBUF} \<and> links (nx st) (pv st) bhead xs bhead"

lemma lru_cong: "nx st' = nx st \<Longrightarrow> pv st' = pv st \<Longrightarrow> lru st' xs \<longleftrightarrow> lru st xs"
  by (simp add: lru_def)

lemma lru_move_to_front:
  assumes "lru st xs" and "b < NBUF"
  shows "lru (move_to_front b st) (b # remove1 b xs)"
proof -
  obtain ys zs where xs: "xs = ys @ b # zs" "b \<notin> set ys"
    using assms by (metis atLeast0LessThan lessThan_iff lru_def split_list_first)
  have d: "distinct (bhead # ys @ b # zs)" "links (nx st) (pv st) bhead (ys @ b # zs) bhead"
    using assms xs by (auto simp: lru_def)
  have "nx st b = hd (zs @ [bhead])"
    using d(2) links_ends [of "nx st" "pv st"] unfolding links_append by blast
  moreover have "hd (zs @ [bhead]) \<noteq> b" using d(1) by (cases zs) auto
  ultimately have ne: "nx st b \<noteq> b" "b \<noteq> bhead" using assms(2) by auto
  have "remove1 b xs = ys @ zs" using xs by (simp add: remove1_append)
  moreover have "set (b # ys @ zs) = set xs" "distinct (b # ys @ zs)" using xs d by auto
  ultimately show ?thesis
    using links_front [OF d(2,1)] assms(1) by (simp add: lru_def links_move_to_front [OF ne])
qed

section \<open>The scans of \<^verbatim>\<open>bget\<close>\<close>

abbreviation is_block :: "u32 \<Rightarrow> u32 \<Rightarrow> 'a bio_scheme \<Rightarrow> nat \<Rightarrow> bool" where
  "is_block dev blockno st i \<equiv> b_dev (bufs st i) = dev \<and> b_blockno (bufs st i) = blockno"

lemma bget_cached_find:
  assumes "links (nx st) (pv st) a xs bhead" and "bhead \<notin> set xs" and "length xs < k"
  shows "bget_cached k dev blockno (nx st a) st = Inr (find (is_block dev blockno st) xs)"
  using assms
proof (induction xs arbitrary: a k)
  case Nil
  then show ?case by (cases k) auto
next
  case (Cons x xs)
  then obtain k' where "k = Suc k'" by (cases k) auto
  with Cons.prems Cons.IH [of x k'] show ?case by (simp add: nx_def)
qed

lemma bget_unused_find:
  assumes "links (nx st) (pv st) bhead xs b" and "bhead \<notin> set xs" and "length xs < k"
  shows "bget_unused k (pv st b) st = Inr (find (\<lambda>i. b_refcnt (bufs st i) = 0) (rev xs))"
  using assms
proof (induction xs arbitrary: b k rule: rev_induct)
  case Nil
  then show ?case by (cases k) auto
next
  case (snoc x xs)
  then obtain k' where "k = Suc k'" by (cases k) auto
  with snoc.prems snoc.IH [of x k'] show ?case by (simp add: pv_def links_append)
qed

lemma lru_length: "lru st xs \<Longrightarrow> length xs = NBUF"
  using distinct_card [of xs] by (simp add: lru_def)

lemma bget_lru:
  assumes "lru st xs"
  shows "bget dev blockno st =
    (case find (is_block dev blockno st) xs of
       Some b \<Rightarrow> rbind (lock_buf b (upd_buf b (\<lambda>x. x\<lparr>b_refcnt := b_refcnt x + 1\<rparr>) st)) (\<lambda>st1. Inr (b, st1))
     | None \<Rightarrow> (case find (\<lambda>i. b_refcnt (bufs st i) = 0) (rev xs) of
          Some b \<Rightarrow> rbind (lock_buf b (upd_buf b (\<lambda>x. x\<lparr>b_dev := dev, b_blockno := blockno,
                      b_valid := False, b_refcnt := 1\<rparr>) st)) (\<lambda>st1. Inr (b, st1))
        | None \<Rightarrow> Inl (Panic ''bget: no buffers'')))"
proof -
  have l: "links (nx st) (pv st) bhead xs bhead" "bhead \<notin> set xs" "length xs < Suc NBUF"
    using assms lru_length [OF assms] by (auto simp: lru_def)
  show ?thesis
    using bget_cached_find [OF l] bget_unused_find [OF l]
    by (simp add: bget_def nx_def pv_def split: option.splits)
qed

section \<open>What the cache promises\<close>

text \<open>At most one buffer holds a given block of a device, an unused valid buffer agrees with the disk,
  a locked buffer is in use by the current process, and every buffer in use belongs to the device.\<close>

definition uniq_bufs :: "'a bio_scheme \<Rightarrow> bool" where
  "uniq_bufs st \<longleftrightarrow> (\<forall>i<NBUF. \<forall>j<NBUF. b_dev (bufs st i) = b_dev (bufs st j) \<longrightarrow>
     b_blockno (bufs st i) = b_blockno (bufs st j) \<longrightarrow> b_dev (bufs st i) \<noteq> 0 \<longrightarrow> i = j)"

definition buf_ok :: "u32 \<Rightarrow> int \<Rightarrow> (u32 \<Rightarrow> block) \<Rightarrow> buf \<Rightarrow> bool" where
  "buf_ok dev pid D x \<longleftrightarrow>
     (b_refcnt x = 0 \<longrightarrow> b_valid x \<longrightarrow> b_dev x = dev \<longrightarrow> b_data x = D (b_blockno x))
     \<and> (sl_locked (b_lock x) \<noteq> 0 \<longrightarrow> b_refcnt x \<noteq> 0 \<and> sl_pid (b_lock x) = pid)
     \<and> (b_refcnt x \<noteq> 0 \<longrightarrow> b_dev x = dev \<and> b_valid x)"

definition bio_ok :: "u32 \<Rightarrow> 'a bio_scheme \<Rightarrow> bool" where
  "bio_ok dev st \<longleftrightarrow> dev \<noteq> 0 \<and> (\<exists>xs. lru st xs) \<and> uniq_bufs st
     \<and> (\<forall>i<NBUF. buf_ok dev (curpid st) (disk st) (bufs st i))"

definition slot :: "u32 \<Rightarrow> u32 \<Rightarrow> 'a bio_scheme \<Rightarrow> nat option" where
  "slot dev b st = find (is_block dev b st) [0..<NBUF]"

definition contents :: "u32 \<Rightarrow> 'a bio_scheme \<Rightarrow> u32 \<Rightarrow> block" where
  "contents dev st b = (case slot dev b st of
     None \<Rightarrow> disk st b | Some i \<Rightarrow> if b_valid (bufs st i) then b_data (bufs st i) else disk st b)"

definition pins :: "u32 \<Rightarrow> 'a bio_scheme \<Rightarrow> u32 \<Rightarrow> u32" where
  "pins dev st b = (case slot dev b st of None \<Rightarrow> 0 | Some i \<Rightarrow> b_refcnt (bufs st i))"

definition held :: "u32 \<Rightarrow> 'a bio_scheme \<Rightarrow> u32 \<Rightarrow> bool" where
  "held dev st b = (case slot dev b st of None \<Rightarrow> False | Some i \<Rightarrow> sl_locked (b_lock (bufs st i)) \<noteq> 0)"

lemma find_unique:
  assumes "x \<in> set xs" and "P x" and "\<And>y. y \<in> set xs \<Longrightarrow> P y \<Longrightarrow> y = x"
  shows "find P xs = Some x"
proof -
  obtain y where "find P xs = Some y" using assms(1,2) by (cases "find P xs") (auto simp: find_None_iff)
  then show ?thesis using assms(3) by (metis find_Some_iff nth_mem)
qed

lemma find_SomeD: "find P xs = Some x \<Longrightarrow> x \<in> set xs \<and> P x"
  by (induction xs) (auto split: if_splits)

lemma find_first:
  "find P xs = Some x \<Longrightarrow> \<exists>us vs. xs = us @ x # vs \<and> (\<forall>y \<in> set us. \<not> P y)"
proof (induction xs)
  case (Cons y ys)
  show ?case
  proof (cases "P y")
    case True
    with Cons.prems show ?thesis by (intro exI [of _ "[]"] exI [of _ ys]) simp
  next
    case False
    with Cons obtain us vs where "ys = us @ x # vs" "\<forall>y \<in> set us. \<not> P y" by auto
    with False show ?thesis by (intro exI [of _ "y # us"] exI [of _ vs]) simp
  qed
qed simp

lemma slot_SomeD: "slot dev b st = Some i \<Longrightarrow> i < NBUF \<and> is_block dev b st i"
  unfolding slot_def by (auto simp: find_Some_iff)

lemma slot_None: "slot dev b st = None \<longleftrightarrow> (\<forall>i<NBUF. \<not> is_block dev b st i)"
  unfolding slot_def by (auto simp: find_None_iff)

lemma uniq_bufsD:
  "uniq_bufs st \<Longrightarrow> i < NBUF \<Longrightarrow> j < NBUF \<Longrightarrow> is_block dev b st i \<Longrightarrow> is_block dev b st j \<Longrightarrow> dev \<noteq> 0 \<Longrightarrow> i = j"
  unfolding uniq_bufs_def by metis

lemma slot_unique:
  assumes "bio_ok dev st" and "i < NBUF" and "is_block dev b st i"
  shows "slot dev b st = Some i"
  unfolding slot_def
proof (rule find_unique)
  fix j assume "j \<in> set [0..<NBUF]" "is_block dev b st j"
  then show "j = i" using assms uniq_bufsD [of st j i dev b] by (simp add: bio_ok_def)
qed (use assms in auto)

text \<open>A buffer without its list links; the view of the cache depends on these only.\<close>

definition core :: "buf \<Rightarrow> buf" where
  "core x = x\<lparr>b_prev := 0, b_next := 0\<rparr>"

lemma core_eqD:
  assumes "core x = core y"
  shows "b_valid x = b_valid y" "b_dev x = b_dev y" "b_blockno x = b_blockno y" "b_lock x = b_lock y"
    "b_refcnt x = b_refcnt y" "b_data x = b_data y"
  using assms by (cases x; cases y; simp add: core_def)+

lemma core_links [simp]: "core (x\<lparr>b_prev := v\<rparr>) = core x" "core (x\<lparr>b_next := v\<rparr>) = core x"
  by (simp_all add: core_def)

lemma core_upd_buf:
  "(\<And>x. core (f x) = core x) \<Longrightarrow> core (bufs (upd_buf i f st) j) = core (bufs st j)"
  by (simp add: upd_buf_def)

lemma core_move_to_front: "core (bufs (move_to_front b st) j) = core (bufs st j)"
  by (simp add: move_to_front_def Let_def core_upd_buf)

lemma slot_cong:
  assumes "\<And>i. i < NBUF \<Longrightarrow> b_dev (bufs st' i) = b_dev (bufs st i) \<and> b_blockno (bufs st' i) = b_blockno (bufs st i)"
  shows "slot dev x st' = slot dev x st"
  unfolding slot_def using assms by (intro find_cong) auto

lemma upd_view:
  assumes sl: "slot dev b st = Some i"
    and others: "\<And>j. j < NBUF \<Longrightarrow> j \<noteq> i \<Longrightarrow> core (bufs st' j) = core (bufs st j)"
    and id: "b_dev (bufs st' i) = b_dev (bufs st i)" "b_blockno (bufs st' i) = b_blockno (bufs st i)"
    and disk: "\<And>x. x \<noteq> b \<Longrightarrow> disk st' x = disk st x"
  shows "slot dev x st' = slot dev x st"
    and "contents dev st' = (contents dev st)(b := if b_valid (bufs st' i) then b_data (bufs st' i) else disk st' b)"
    and "pins dev st' = (pins dev st)(b := b_refcnt (bufs st' i))"
    and "held dev st' = (held dev st)(b := sl_locked (b_lock (bufs st' i)) \<noteq> 0)"
proof -
  have same: "slot dev x st' = slot dev x st" for x
    using others core_eqD id by (intro slot_cong) (metis (no_types))
  then show "slot dev x st' = slot dev x st" .
  have other: "j \<noteq> i \<and> j < NBUF" if "slot dev x st = Some j" "x \<noteq> b" for x j
    using slot_SomeD [OF that(1)] slot_SomeD [OF sl] that(2) by auto
  show "contents dev st' = (contents dev st)(b := if b_valid (bufs st' i) then b_data (bufs st' i) else disk st' b)"
    and "pins dev st' = (pins dev st)(b := b_refcnt (bufs st' i))"
    and "held dev st' = (held dev st)(b := sl_locked (b_lock (bufs st' i)) \<noteq> 0)"
    using sl other core_eqD [OF others] disk
    by (auto simp: contents_def pins_def held_def same fun_eq_iff split: option.splits)
qed

lemma upd_bio_ok:
  assumes ok: "bio_ok dev st" and sl: "slot dev b st = Some i"
    and others: "\<And>j. j < NBUF \<Longrightarrow> j \<noteq> i \<Longrightarrow> core (bufs st' j) = core (bufs st j)"
    and id: "b_dev (bufs st' i) = b_dev (bufs st i)" "b_blockno (bufs st' i) = b_blockno (bufs st i)"
    and disk: "\<And>x. x \<noteq> b \<Longrightarrow> disk st' x = disk st x" and pid: "curpid st' = curpid st"
    and lru: "lru st' xs'" and buf: "buf_ok dev (curpid st) (disk st') (bufs st' i)"
  shows "bio_ok dev st'"
proof -
  have same: "b_dev (bufs st' j) = b_dev (bufs st j)" "b_blockno (bufs st' j) = b_blockno (bufs st j)" if "j < NBUF" for j
    using id core_eqD(2,3) [OF others [OF that]] by (cases "j = i"; simp)+
  have "uniq_bufs st'" using ok same by (simp add: bio_ok_def uniq_bufs_def)
  moreover have "buf_ok dev (curpid st) (disk st') (bufs st' j)" if j: "j < NBUF" for j
  proof (cases "j = i")
    case False
    have "b_blockno (bufs st j) \<noteq> b" if "b_dev (bufs st j) = dev"
      using slot_unique [OF ok j, of b] that sl False by auto
    with core_eqD [OF others [OF j False]] show ?thesis
      using ok j disk by (simp add: bio_ok_def buf_ok_def)
  qed (use buf in simp)
  ultimately show ?thesis using ok lru pid by (auto simp: bio_ok_def)
qed

lemma find_slot:
  assumes "bio_ok dev st" and "lru st xs"
  shows "find (is_block dev b st) xs = slot dev b st"
proof (cases "slot dev b st")
  case None
  then have "find (is_block dev b st) xs = None"
    using assms(2) by (auto simp: slot_None find_None_iff lru_def)
  with None show ?thesis by simp
next
  case (Some i)
  note i = slot_SomeD [OF Some]
  have "find (is_block dev b st) xs = Some i"
  proof (rule find_unique)
    show "i \<in> set xs" using assms(2) i by (auto simp: lru_def)
    fix j assume "j \<in> set xs" "is_block dev b st j"
    then show "j = i" using assms i slot_unique [OF assms(1), of j b] Some by (auto simp: lru_def)
  qed (use i in simp)
  with Some show ?thesis by simp
qed

text \<open>Everything but the buffers and the disk is left alone.\<close>

definition bframe :: "'a bio_scheme \<Rightarrow> 'a bio_scheme \<Rightarrow> bool" where
  "bframe st st' \<longleftrightarrow> memory st' = memory st \<and> freelist st' = freelist st \<and> curpid st' = curpid st
     \<and> bio.more st' = bio.more st"

lemma bframe_refl [simp]: "bframe st st"
  by (simp add: bframe_def)

lemma bframe_trans: "bframe st st1 \<Longrightarrow> bframe st1 st2 \<Longrightarrow> bframe st st2"
  by (simp add: bframe_def)

lemma bframe_upd_buf [simp]: "bframe st (upd_buf i f st)"
  by (simp add: bframe_def upd_buf_def)

lemma bframe_curpid: "bframe st st' \<Longrightarrow> curpid st' = curpid st"
  by (simp add: bframe_def)

lemma upd_buf_simps [simp]:
  "bufs (upd_buf i f st) = (bufs st)(i := f (bufs st i))" "disk (upd_buf i f st) = disk st"
  "disk_log (upd_buf i f st) = disk_log st" "curpid (upd_buf i f st) = curpid st"
  by (simp_all add: upd_buf_def)

lemma lru_upd_buf [simp]:
  assumes "\<And>x. b_next (f x) = b_next x" and "\<And>x. b_prev (f x) = b_prev x"
  shows "lru (upd_buf i f st) xs \<longleftrightarrow> lru st xs"
  by (rule lru_cong) (auto simp: nx_def pv_def fun_eq_iff assms)

lemma set_valid_noop:
  "b_valid x \<Longrightarrow> x\<lparr>b_refcnt := r, b_lock := l, b_valid := True\<rparr> = x\<lparr>b_refcnt := r, b_lock := l\<rparr>"
  by (cases x) simp

lemma bread_cached:
  assumes ok: "bio_ok dev st" and sl: "slot dev b st = Some i" and free: "\<not> held dev st b"
    and max: "pins dev st b + 1 \<noteq> 0"
  defines "st' \<equiv> upd_buf i (\<lambda>x. x\<lparr>b_refcnt := b_refcnt x + 1, b_lock := (b_lock x)\<lparr>sl_locked := 1, sl_pid := curpid st\<rparr>,
                     b_data := contents dev st b, b_valid := True\<rparr>) st"
  shows "bread dev b st = Inr (i, st')" and "bio_ok dev st'"
proof -
  obtain xs where lru: "lru st xs" using ok by (auto simp: bio_ok_def)
  note i = slot_SomeD [OF sl]
  have unlocked: "sl_locked (b_lock (bufs st i)) = 0" using free sl by (simp add: held_def)
  have "bget dev b st = Inr (i, upd_buf i (\<lambda>x. x\<lparr>b_refcnt := b_refcnt x + 1, b_lock := (b_lock x)\<lparr>sl_locked := 1, sl_pid := curpid st\<rparr>\<rparr>) st)"
    using unlocked by (simp add: bget_lru [OF lru] find_slot [OF ok lru] sl lock_buf_def acquiresleep_def upd_buf_def)
  then show "bread dev b st = Inr (i, st')"
    using sl i by (cases "b_valid (bufs st i)") (simp_all add: bread_def st'_def disk_rw_def upd_buf_def contents_def set_valid_noop)
  have "lru st' xs" using lru by (simp add: st'_def)
  then show "bio_ok dev st'"
    using ok sl max i by (intro upd_bio_ok [OF ok sl]) (auto simp: st'_def buf_ok_def pins_def)
qed

lemma bread_uncached:
  assumes ok: "bio_ok dev st" and none: "slot dev b st = None" and room: "j < NBUF" "b_refcnt (bufs st j) = 0"
  obtains i where "i < NBUF" and "b_refcnt (bufs st i) = 0"
    and "bread dev b st = Inr (i, upd_buf i (\<lambda>x. x\<lparr>b_dev := dev, b_blockno := b, b_refcnt := 1,
           b_lock := (b_lock x)\<lparr>sl_locked := 1, sl_pid := curpid st\<rparr>, b_data := disk st b, b_valid := True\<rparr>) st)"
proof -
  obtain xs where lru: "lru st xs" using ok by (auto simp: bio_ok_def)
  have "j \<in> set (rev xs)" using lru room by (simp add: lru_def)
  then obtain i where i: "find (\<lambda>i. b_refcnt (bufs st i) = 0) (rev xs) = Some i"
    using room(2) by (cases "find (\<lambda>i. b_refcnt (bufs st i) = 0) (rev xs)") (auto simp: find_None_iff)
  then have in_xs: "i \<in> set (rev xs)" "b_refcnt (bufs st i) = 0" using find_SomeD [OF i] by simp_all
  then have iN: "i < NBUF" using lru by (simp add: lru_def)
  have unlocked: "sl_locked (b_lock (bufs st i)) = 0"
    using ok iN in_xs(2) by (auto simp: bio_ok_def buf_ok_def)
  have "bget dev b st = Inr (i, upd_buf i (\<lambda>x. x\<lparr>b_dev := dev, b_blockno := b, b_valid := False, b_refcnt := 1,
           b_lock := (b_lock x)\<lparr>sl_locked := 1, sl_pid := curpid st\<rparr>\<rparr>) st)"
    using unlocked i by (simp add: bget_lru [OF lru] find_slot [OF ok lru] none lock_buf_def acquiresleep_def upd_buf_def)
  then show thesis
    using iN in_xs(2) by (intro that [of i]) (simp_all add: bread_def disk_rw_def upd_buf_def)
qed

lemma evict_view:
  fixes st :: "'a bio_scheme" and f :: "buf \<Rightarrow> buf"
  assumes ok: "bio_ok dev st" and none: "slot dev b st = None" and i: "i < NBUF" "b_refcnt (bufs st i) = 0"
  defines "f \<equiv> \<lambda>x. x\<lparr>b_dev := dev, b_blockno := b, b_refcnt := 1,
           b_lock := (b_lock x)\<lparr>sl_locked := 1, sl_pid := curpid st\<rparr>, b_data := disk st b, b_valid := True\<rparr>"
  defines "st' \<equiv> upd_buf i f st"
  shows "bio_ok dev st'" and "slot dev b st' = Some i" and "contents dev st' = contents dev st"
    and "pins dev st' = (pins dev st)(b := 1)" and "held dev st' = (held dev st)(b := True)"
    and "\<And>x. pins dev st x \<noteq> 0 \<Longrightarrow> slot dev x st' = slot dev x st"
proof -
  obtain xs where lru: "lru st xs" using ok by (auto simp: bio_ok_def)
  have bi: "bufs st' = (bufs st)(i := f (bufs st i))" "disk st' = disk st" "curpid st' = curpid st"
    by (simp_all add: st'_def)
  have none': "\<not> is_block dev b st j" if "j < NBUF" for j using none that by (simp add: slot_None)
  have "uniq_bufs st'"
    unfolding uniq_bufs_def bi
  proof (intro allI impI)
    fix j k assume jk: "j < NBUF" "k < NBUF"
      "b_dev (((bufs st)(i := f (bufs st i))) j) = b_dev (((bufs st)(i := f (bufs st i))) k)"
      "b_blockno (((bufs st)(i := f (bufs st i))) j) = b_blockno (((bufs st)(i := f (bufs st i))) k)"
      "b_dev (((bufs st)(i := f (bufs st i))) j) \<noteq> 0"
    show "j = k"
    proof (cases "j = i \<or> k = i")
      case True
      then show ?thesis using jk none' [of j] none' [of k] by (auto simp: f_def split: if_splits)
    next
      case False
      then show ?thesis using jk ok uniq_bufsD [of st j k] by (auto simp: bio_ok_def)
    qed
  qed
  moreover have "buf_ok dev (curpid st) (disk st) (f (bufs st i))" by (simp add: buf_ok_def f_def)
  moreover have "lru st' xs" using lru by (simp add: st'_def f_def)
  ultimately show ok': "bio_ok dev st'" using ok by (auto simp: bio_ok_def bi)
  show sb: "slot dev b st' = Some i"
    using i by (intro slot_unique [OF ok']) (auto simp: bi f_def)
  have other: "slot dev x st' = (if slot dev x st = Some i then None else slot dev x st)" if "x \<noteq> b" for x
  proof (cases "slot dev x st")
    case None
    then have "slot dev x st' = None" using that by (auto simp: slot_None bi f_def)
    with None show ?thesis by simp
  next
    case (Some k)
    note k = slot_SomeD [OF Some]
    show ?thesis
    proof (cases "k = i")
      case True
      have "\<not> is_block dev x st' j" if j: "j < NBUF" for j
      proof (cases "j = i")
        case False
        then show ?thesis using slot_unique [OF ok j, of x] Some \<open>k = i\<close> by (auto simp: bi)
      qed (use \<open>x \<noteq> b\<close> in \<open>simp add: bi f_def\<close>)
      with True Some show ?thesis by (simp add: slot_None)
    next
      case False
      then have "slot dev x st' = Some k" using k by (intro slot_unique [OF ok']) (auto simp: bi)
      with False Some show ?thesis by simp
    qed
  qed
  have cl: "contents dev st x = disk st x" if "slot dev x st = Some i" for x
    using slot_SomeD [OF that] ok i that by (auto simp: contents_def bio_ok_def buf_ok_def)
  have lk: "sl_locked (b_lock (bufs st i)) = 0" using ok i by (auto simp: bio_ok_def buf_ok_def)
  show "contents dev st' = contents dev st"
  proof
    fix x show "contents dev st' x = contents dev st x"
    proof (cases "x = b")
      case True
      then show ?thesis by (simp add: contents_def sb none bi f_def)
    next
      case False
      then show ?thesis using other [OF False] cl [of x] slot_SomeD [of dev x st i]
        by (auto simp: contents_def bi split: option.splits if_splits)
    qed
  qed
  show "pins dev st' = (pins dev st)(b := 1)" "held dev st' = (held dev st)(b := True)"
    using other sb i lk by (auto simp: pins_def held_def fun_eq_iff bi f_def split: option.splits)
  show "slot dev x st' = slot dev x st" if "pins dev st x \<noteq> 0" for x
  proof -
    have "x \<noteq> b" "slot dev x st \<noteq> Some i" using that none i by (auto simp: pins_def)
    then show ?thesis by (simp add: other)
  qed
qed

text \<open>The operations on the view of the cache: the current contents of every block, the number of
  references to it, and whether its buffer is locked.\<close>

lemma bread_ok:
  assumes ok: "bio_ok dev st" and free: "\<not> held dev st b" and max: "pins dev st b + 1 \<noteq> 0"
    and room: "pins dev st b \<noteq> 0 \<or> (\<exists>j<NBUF. b_refcnt (bufs st j) = 0)"
  obtains i st' where "bread dev b st = Inr (i, st')" and "bio_ok dev st'" and "slot dev b st' = Some i"
    and "contents dev st' = contents dev st" and "pins dev st' = (pins dev st)(b := pins dev st b + 1)"
    and "held dev st' = (held dev st)(b := True)" and "\<And>x. pins dev st x \<noteq> 0 \<Longrightarrow> slot dev x st' = slot dev x st"
    and "disk st' = disk st" and "disk_log st' = disk_log st" and "bframe st st'"
proof (cases "slot dev b st")
  case (Some i)
  let ?f = "\<lambda>x. x\<lparr>b_refcnt := b_refcnt x + 1, b_lock := (b_lock x)\<lparr>sl_locked := 1, sl_pid := curpid st\<rparr>,
                     b_data := contents dev st b, b_valid := True\<rparr>"
  note r = bread_cached [OF ok Some free max]
  have v: "slot dev x (upd_buf i ?f st) = slot dev x st"
    "contents dev (upd_buf i ?f st) = contents dev st"
    "pins dev (upd_buf i ?f st) = (pins dev st)(b := pins dev st b + 1)"
    "held dev (upd_buf i ?f st) = (held dev st)(b := True)" for x
    using upd_view [OF Some, of "upd_buf i ?f st"] Some by (simp_all add: pins_def)
  show thesis using r v Some by (intro that [of i "upd_buf i ?f st"]) simp_all
next
  case None
  then obtain j where j: "j < NBUF" "b_refcnt (bufs st j) = 0" using room by (auto simp: pins_def)
  obtain i where i: "i < NBUF" "b_refcnt (bufs st i) = 0"
    and r: "bread dev b st = Inr (i, upd_buf i (\<lambda>x. x\<lparr>b_dev := dev, b_blockno := b, b_refcnt := 1,
           b_lock := (b_lock x)\<lparr>sl_locked := 1, sl_pid := curpid st\<rparr>, b_data := disk st b, b_valid := True\<rparr>) st)"
    using bread_uncached [OF ok None j] by blast
  have "pins dev st b = 0" using None by (simp add: pins_def)
  with evict_view [OF ok None i] r show thesis by (intro that [OF r]) simp_all
qed

lemma pinned_slot: "pins dev st b \<noteq> 0 \<Longrightarrow> \<exists>i. slot dev b st = Some i \<and> b_refcnt (bufs st i) = pins dev st b"
  by (auto simp: pins_def split: option.splits)

lemma slot_view:
  "slot dev b st = Some i \<Longrightarrow> pins dev st b = b_refcnt (bufs st i)"
  "slot dev b st = Some i \<Longrightarrow> held dev st b \<longleftrightarrow> sl_locked (b_lock (bufs st i)) \<noteq> 0"
  by (simp_all add: pins_def held_def)

lemma bwrite_ok:
  assumes ok: "bio_ok dev st" and sl: "slot dev b st = Some i" and h: "held dev st b"
  shows "\<exists>st'. bwrite i st = Inr st' \<and> bio_ok dev st' \<and> (\<forall>x. slot dev x st' = slot dev x st)
      \<and> contents dev st' = contents dev st \<and> pins dev st' = pins dev st \<and> held dev st' = held dev st
      \<and> disk st' = (disk st)(b := contents dev st b) \<and> disk_log st' = disk_log st @ [(b, contents dev st b)]
      \<and> bframe st st'"
proof -
  note i = slot_SomeD [OF sl]
  have x: "sl_locked (b_lock (bufs st i)) \<noteq> 0" "buf_ok dev (curpid st) (disk st) (bufs st i)"
    using h sl ok i by (auto simp: held_def bio_ok_def)
  then have v: "b_valid (bufs st i)" "b_refcnt (bufs st i) \<noteq> 0" "holdingsleep (curpid st) (b_lock (bufs st i))"
    by (auto simp: buf_ok_def holdingsleep_def)
  have c: "contents dev st b = b_data (bufs st i)" using sl v by (simp add: contents_def)
  let ?st' = "disk_rw i True st"
  have st': "bufs ?st' = bufs st" "disk ?st' = (disk st)(b := contents dev st b)"
    "disk_log ?st' = disk_log st @ [(b, contents dev st b)]" "curpid ?st' = curpid st" "bframe st ?st'"
    "nx ?st' = nx st" "pv ?st' = pv st"
    using i c by (auto simp: disk_rw_def Let_def bframe_def nx_def pv_def fun_eq_iff)
  obtain xs where "lru st xs" using ok by (auto simp: bio_ok_def)
  then have "lru ?st' xs" using st' lru_cong by metis
  then have "bio_ok dev ?st'"
    using x v st' by (intro upd_bio_ok [OF ok sl]) (auto simp: buf_ok_def)
  moreover have "slot dev y ?st' = slot dev y st" "contents dev ?st' = contents dev st"
    "pins dev ?st' = pins dev st" "held dev ?st' = held dev st" for y
    using upd_view [OF sl, of ?st'] st' v c slot_view [OF sl] by (simp_all add: fun_upd_idem)
  ultimately show ?thesis using st' v by (intro exI [of _ ?st']) (simp add: bwrite_def)
qed

lemma set_data_ok:
  fixes d :: block
  assumes ok: "bio_ok dev st" and sl: "slot dev b st = Some i" and p: "pins dev st b \<noteq> 0"
  defines "st' \<equiv> upd_buf i (\<lambda>x. x\<lparr>b_data := d\<rparr>) st"
  shows "bio_ok dev st'" and "slot dev x st' = slot dev x st" and "contents dev st' = (contents dev st)(b := d)"
    and "pins dev st' = pins dev st" and "held dev st' = held dev st"
proof -
  note i = slot_SomeD [OF sl] and sv = slot_view [OF sl]
  have x: "buf_ok dev (curpid st) (disk st) (bufs st i)" using ok i by (simp add: bio_ok_def)
  obtain xs where "lru st xs" using ok by (auto simp: bio_ok_def)
  then have "lru st' xs" by (simp add: st'_def)
  then show "bio_ok dev st'"
    using x p sv by (intro upd_bio_ok [OF ok sl]) (auto simp: st'_def buf_ok_def)
  have v: "slot dev x st' = slot dev x st"
    "contents dev st' = (contents dev st)(b := if b_valid (bufs st' i) then b_data (bufs st' i) else disk st' b)"
    "pins dev st' = (pins dev st)(b := b_refcnt (bufs st' i))"
    "held dev st' = (held dev st)(b := sl_locked (b_lock (bufs st' i)) \<noteq> 0)" for x
    by (rule upd_view [OF sl]; simp add: st'_def)+
  have bi: "b_valid (bufs st' i)" "b_data (bufs st' i) = d" "b_refcnt (bufs st' i) = pins dev st b"
    "(sl_locked (b_lock (bufs st' i)) \<noteq> 0) = held dev st b"
    using x p sv by (simp_all add: st'_def buf_ok_def)
  show "slot dev x st' = slot dev x st" "contents dev st' = (contents dev st)(b := d)"
    "pins dev st' = pins dev st" "held dev st' = held dev st"
    unfolding v using bi(1) by (simp_all add: bi(2-4))
qed

lemma set_refcnt_ok:
  assumes ok: "bio_ok dev st" and sl: "slot dev b st = Some i" and p: "pins dev st b \<noteq> 0" and r: "r \<noteq> 0"
  defines "st' \<equiv> upd_buf i (\<lambda>x. x\<lparr>b_refcnt := r\<rparr>) st"
  shows "bio_ok dev st'" and "slot dev x st' = slot dev x st" and "contents dev st' = contents dev st"
    and "pins dev st' = (pins dev st)(b := r)" and "held dev st' = held dev st"
proof -
  note i = slot_SomeD [OF sl] and sv = slot_view [OF sl]
  have x: "buf_ok dev (curpid st) (disk st) (bufs st i)" using ok i by (simp add: bio_ok_def)
  obtain xs where "lru st xs" using ok by (auto simp: bio_ok_def)
  then have "lru st' xs" by (simp add: st'_def)
  then show "bio_ok dev st'"
    using x p r sv by (intro upd_bio_ok [OF ok sl]) (auto simp: st'_def buf_ok_def)
  have v: "slot dev x st' = slot dev x st"
    "contents dev st' = (contents dev st)(b := if b_valid (bufs st' i) then b_data (bufs st' i) else disk st' b)"
    "pins dev st' = (pins dev st)(b := b_refcnt (bufs st' i))"
    "held dev st' = (held dev st)(b := sl_locked (b_lock (bufs st' i)) \<noteq> 0)" for x
    by (rule upd_view [OF sl]; simp add: st'_def)+
  have bi: "b_valid (bufs st' i)" "b_data (bufs st' i) = contents dev st b" "b_refcnt (bufs st' i) = r"
    "(sl_locked (b_lock (bufs st' i)) \<noteq> 0) = held dev st b"
    using x p sv sl by (simp_all add: st'_def buf_ok_def contents_def)
  show "slot dev x st' = slot dev x st" "contents dev st' = contents dev st"
    "pins dev st' = (pins dev st)(b := r)" "held dev st' = held dev st"
    unfolding v using bi(1) by (simp_all add: bi(2-4))
qed

lemma bpin_eq: "bpin i st = upd_buf i (\<lambda>x. x\<lparr>b_refcnt := b_refcnt (bufs st i) + 1\<rparr>) st"
  and bunpin_eq: "bunpin i st = upd_buf i (\<lambda>x. x\<lparr>b_refcnt := b_refcnt (bufs st i) - 1\<rparr>) st"
  by (simp_all add: bpin_def bunpin_def upd_buf_def)

lemma brelse_ok:
  assumes ok: "bio_ok dev st" and sl: "slot dev b st = Some i" and h: "held dev st b"
    and clean: "pins dev st b = 1 \<longrightarrow> contents dev st b = disk st b"
  shows "\<exists>st'. brelse i st = Inr st' \<and> bio_ok dev st' \<and> (\<forall>x. slot dev x st' = slot dev x st)
      \<and> contents dev st' = contents dev st \<and> pins dev st' = (pins dev st)(b := pins dev st b - 1)
      \<and> held dev st' = (held dev st)(b := False) \<and> disk st' = disk st \<and> disk_log st' = disk_log st
      \<and> bframe st st'"
proof -
  note i = slot_SomeD [OF sl] and sv = slot_view [OF sl]
  have x: "buf_ok dev (curpid st) (disk st) (bufs st i)" using ok i by (simp add: bio_ok_def)
  then have v: "b_valid (bufs st i)" "b_refcnt (bufs st i) \<noteq> 0" "holdingsleep (curpid st) (b_lock (bufs st i))"
    using h sv by (auto simp: buf_ok_def holdingsleep_def)
  have c: "contents dev st b = b_data (bufs st i)" using sl v by (simp add: contents_def)
  let ?f = "\<lambda>x. x\<lparr>b_lock := releasesleep (b_lock x), b_refcnt := b_refcnt x - 1\<rparr>"
  let ?st2 = "upd_buf i ?f st"
  define st' where "st' = (if b_refcnt (bufs st i) = 1 then move_to_front i ?st2 else ?st2)"
  have run: "brelse i st = Inr st'"
    using v by (simp add: brelse_def st'_def upd_buf_def)
  have cores: "core (bufs st' j) = core (bufs ?st2 j)" for j
    by (simp add: st'_def core_move_to_front)
  have rest: "disk st' = disk st" "disk_log st' = disk_log st" "bframe st st'"
    by (simp_all add: st'_def move_to_front_def Let_def bframe_def upd_buf_def)
  obtain xs where "lru st xs" using ok by (auto simp: bio_ok_def)
  then have "\<exists>xs'. lru st' xs'" using lru_move_to_front [of ?st2 xs i] i by (auto simp: st'_def)
  then obtain xs' where lru': "lru st' xs'" ..
  have fi: "b_valid (bufs st' i) = b_valid (bufs st i)" "b_dev (bufs st' i) = b_dev (bufs st i)"
    "b_blockno (bufs st' i) = b_blockno (bufs st i)" "b_lock (bufs st' i) = releasesleep (b_lock (bufs st i))"
    "b_refcnt (bufs st' i) = b_refcnt (bufs st i) - 1" "b_data (bufs st' i) = b_data (bufs st i)"
    using core_eqD [OF cores [of i]] by simp_all
  have oth: "core (bufs st' j) = core (bufs st j)" if "j \<noteq> i" for j using cores [of j] that by simp
  have "buf_ok dev (curpid st) (disk st') (bufs st' i)"
    using x v clean c sv i by (auto simp: buf_ok_def fi rest releasesleep_def)
  then have "bio_ok dev st'"
    using lru' rest fi oth by (intro upd_bio_ok [OF ok sl]) (auto simp: bframe_def)
  moreover have "slot dev y st' = slot dev y st" "contents dev st' = contents dev st"
    "pins dev st' = (pins dev st)(b := pins dev st b - 1)" "held dev st' = (held dev st)(b := False)" for y
    using upd_view [OF sl, of st'] oth fi rest v c sv by (simp_all add: fun_upd_idem releasesleep_def)
  ultimately show ?thesis using run rest by blast
qed

text \<open>While fewer blocks than buffers are referenced, some buffer is unused.\<close>

lemma unused_buffer:
  assumes ok: "bio_ok dev st" and few: "card {b. pins dev st b \<noteq> 0} < NBUF"
  shows "\<exists>j<NBUF. b_refcnt (bufs st j) = 0"
proof (rule ccontr)
  assume "\<not> ?thesis"
  then have used: "b_refcnt (bufs st j) \<noteq> 0" "b_dev (bufs st j) = dev" if "j < NBUF" for j
    using that ok by (auto simp: bio_ok_def buf_ok_def)
  let ?g = "\<lambda>j. b_blockno (bufs st j)"
  have sl: "slot dev (?g j) st = Some j" if "j < NBUF" for j
    using slot_unique [OF ok that] used(2) [OF that] by simp
  have "inj_on ?g {0..<NBUF}"
    by (rule inj_onI) (metis atLeastLessThan_iff option.inject sl)
  moreover have "?g ` {0..<NBUF} \<subseteq> {b. pins dev st b \<noteq> 0}"
    using sl used(1) by (auto simp: pins_def)
  ultimately have "NBUF \<le> card {b. pins dev st b \<noteq> 0}"
    using card_inj_on_le [of ?g "{0..<NBUF}"] by simp
  with few show False by simp
qed

section \<open>Initialisation\<close>

lemma links_push:
  assumes "links nxt prv h xs h" and "b \<notin> set xs" and "b \<noteq> h" and "distinct xs" and "h \<notin> set xs"
  shows "links (nxt(b := nxt h, h := b)) (prv(b := h, nxt h := b)) h (b # xs) h"
proof (cases xs)
  case (Cons y ys)
  have "links (nxt(b := y, h := b)) (prv(b := h, y := b)) y ys h \<longleftrightarrow> links nxt prv y ys h"
    using assms Cons by (intro links_cong) auto
  with assms Cons show ?thesis by (simp add: fun_upd_def)
qed (use assms in auto)

lemma binit_one_links:
  assumes "links (nx st) (pv st) bhead xs bhead" and "b \<notin> set xs" and "b < NBUF" and "distinct xs" and "bhead \<notin> set xs"
  shows "links (nx (binit_one b st)) (pv (binit_one b st)) bhead (b # xs) bhead"
proof -
  have "nx (binit_one b st) = (nx st)(b := nx st bhead, bhead := b)"
    "pv (binit_one b st) = (pv st)(b := bhead, nx st bhead := b)"
    using assms(3) by (auto simp: binit_one_def Let_def upd_buf_def nx_def pv_def fun_eq_iff)
  then show ?thesis using links_push [OF assms(1,2) _ assms(4,5)] assms(3) by simp
qed

lemma binit_links:
  "k \<le> NBUF \<Longrightarrow> links (nx st) (pv st) bhead [] bhead \<Longrightarrow>
     links (nx (fold binit_one [0..<k] st)) (pv (fold binit_one [0..<k] st)) bhead (rev [0..<k]) bhead"
proof (induction k)
  case (Suc k)
  have "links (nx (binit_one k (fold binit_one [0..<k] st))) (pv (binit_one k (fold binit_one [0..<k] st))) bhead
      (k # rev [0..<k]) bhead"
    using Suc by (intro binit_one_links) auto
  then show ?case by simp
qed simp

lemma binit_lru: "lru (binit st) (rev [0..<NBUF])"
proof -
  let ?st0 = "upd_buf bhead (\<lambda>x. x\<lparr>b_prev := bhead, b_next := bhead\<rparr>) st"
  have "links (nx ?st0) (pv ?st0) bhead [] bhead" by (simp add: nx_def pv_def)
  from binit_links [OF order_refl this] show ?thesis by (auto simp: lru_def binit_def)
qed

definition blank_buf :: "buf \<Rightarrow> bool" where
  "blank_buf x \<longleftrightarrow> \<not> b_valid x \<and> b_dev x = 0 \<and> b_refcnt x = 0 \<and> sl_locked (b_lock x) = 0"

lemma blank_binit_one: "(\<And>j. blank_buf (bufs st j)) \<Longrightarrow> blank_buf (bufs (binit_one b st) j)"
  by (auto simp: binit_one_def Let_def blank_buf_def initsleeplock_def)

lemma blank_fold: "(\<And>j. blank_buf (bufs st j)) \<Longrightarrow> blank_buf (bufs (fold binit_one xs st) j)"
  by (induction xs arbitrary: st) (auto simp: blank_binit_one)

lemma binit_ok:
  assumes "\<And>j. blank_buf (bufs st j)" and "dev \<noteq> 0"
  shows "bio_ok dev (binit st)" and "pins dev (binit st) b = 0" and "\<not> held dev (binit st) b"
    and "contents dev (binit st) = disk (binit st)"
proof -
  have blank: "blank_buf (bufs (binit st) j)" for j
    unfolding binit_def using assms(1) by (intro blank_fold) (auto simp: blank_buf_def)
  then show "bio_ok dev (binit st)"
    using assms(2) binit_lru [of st] by (auto simp: bio_ok_def buf_ok_def uniq_bufs_def blank_buf_def)
  have none: "slot dev b (binit st) = None" for b
    using blank assms(2) by (auto simp: slot_None blank_buf_def)
  show "pins dev (binit st) b = 0" "\<not> held dev (binit st) b" "contents dev (binit st) = disk (binit st)"
    by (auto simp: pins_def held_def contents_def none)
qed

section \<open>A client of the cache\<close>

datatype bio_req = BRead u32 | BWrite u32 block

fun bio_client :: "u32 \<Rightarrow> bio_req list \<Rightarrow> 'a bio_scheme \<Rightarrow> (block list \<times> 'a bio_scheme) res" where
  "bio_client dev [] st = Inr ([], st)"
| "bio_client dev (BRead b # rs) st =
     rbind (bread dev b st) (\<lambda>(i, st1).
     rbind (brelse i st1) (\<lambda>st2.
     rbind (bio_client dev rs st2) (\<lambda>(out, st3). Inr (b_data (bufs st1 i) # out, st3))))"
| "bio_client dev (BWrite b d # rs) st =
     rbind (bread dev b st) (\<lambda>(i, st1).
     rbind (bwrite i (upd_buf i (\<lambda>x. x\<lparr>b_data := d\<rparr>) st1)) (\<lambda>st2.
     rbind (brelse i st2) (bio_client dev rs)))"

fun plain_disk :: "bio_req list \<Rightarrow> (u32 \<Rightarrow> block) \<Rightarrow> block list \<times> (u32 \<Rightarrow> block)" where
  "plain_disk [] D = ([], D)"
| "plain_disk (BRead b # rs) D = (let (out, D') = plain_disk rs D in (D b # out, D'))"
| "plain_disk (BWrite b d # rs) D = plain_disk rs (D(b := d))"

definition quiet :: "u32 \<Rightarrow> 'a bio_scheme \<Rightarrow> bool" where
  "quiet dev st \<longleftrightarrow> bio_ok dev st \<and> pins dev st = (\<lambda>_. 0) \<and> held dev st = (\<lambda>_. False)"

lemma quiet_contents:
  assumes "quiet dev st"
  shows "contents dev st = disk st"
proof
  fix b
  show "contents dev st b = disk st b"
  proof (cases "slot dev b st")
    case (Some i)
    note i = slot_SomeD [OF Some]
    have "b_refcnt (bufs st i) = 0" using assms slot_view(1) [OF Some] by (simp add: quiet_def)
    then show ?thesis using assms i Some by (auto simp: quiet_def contents_def bio_ok_def buf_ok_def)
  qed (simp add: contents_def)
qed

lemma quiet_bread:
  assumes "quiet dev st"
  obtains i st' where "bread dev b st = Inr (i, st')" and "bio_ok dev st'" and "slot dev b st' = Some i"
    and "contents dev st' = disk st" and "pins dev st' = (\<lambda>_. 0)(b := 1)" and "held dev st' = (\<lambda>_. False)(b := True)"
    and "disk st' = disk st"
proof -
  have q: "bio_ok dev st" "pins dev st = (\<lambda>_. 0)" "held dev st = (\<lambda>_. False)"
    using assms by (simp_all add: quiet_def)
  then have room: "\<exists>j<NBUF. b_refcnt (bufs st j) = 0" by (intro unused_buffer [of dev]) (simp_all add: NBUF_def)
  show thesis
  proof (rule bread_ok [of dev st b])
    fix i st' assume "bread dev b st = Inr (i, st')" "bio_ok dev st'" "slot dev b st' = Some i"
      "contents dev st' = contents dev st" "pins dev st' = (pins dev st)(b := pins dev st b + 1)"
      "held dev st' = (held dev st)(b := True)" "disk st' = disk st"
    then show thesis using quiet_contents [OF assms] q by (intro that [of i st']) simp_all
  qed (use q room in simp_all)
qed

lemma bio_client_transparent:
  "quiet dev st \<Longrightarrow> \<exists>st'. bio_client dev rs st = Inr (fst (plain_disk rs (disk st)), st')
      \<and> disk st' = snd (plain_disk rs (disk st))"
proof (induction rs arbitrary: st)
  case (Cons r rs)
  obtain b d where r: "r = BRead b \<or> r = BWrite b d" by (cases r) auto
  obtain i st1 where b: "bread dev b st = Inr (i, st1)" "bio_ok dev st1" "slot dev b st1 = Some i"
    "contents dev st1 = disk st" "pins dev st1 = (\<lambda>_. 0)(b := 1)" "held dev st1 = (\<lambda>_. False)(b := True)"
    "disk st1 = disk st"
    using quiet_bread [OF Cons.prems] by blast
  have "b_valid (bufs st1 i)"
    using slot_SomeD [OF b(3)] b(2,5) slot_view(1) [OF b(3)] by (auto simp: bio_ok_def buf_ok_def)
  then have data: "b_data (bufs st1 i) = disk st b"
    using fun_cong [OF b(4), of b] b(3) by (simp add: contents_def)
  show ?case
  proof (cases "r = BRead b")
    case True
    obtain st2 where st2: "brelse i st1 = Inr st2" "bio_ok dev st2" "pins dev st2 = (\<lambda>_. 0)"
      "held dev st2 = (\<lambda>_. False)" "disk st2 = disk st"
      using brelse_ok [OF b(2,3)] b(4-7) by (auto simp: fun_upd_idem)
    then have "quiet dev st2" by (simp add: quiet_def)
    from Cons.IH [OF this] show ?thesis
      using b(1) st2(1,5) data True by (auto simp: Let_def split: prod.splits)
  next
    case False
    let ?st2 = "upd_buf i (\<lambda>x. x\<lparr>b_data := d\<rparr>) st1"
    have p1: "pins dev st1 b \<noteq> 0" using b(5) by simp
    note sd = set_data_ok [OF b(2,3) p1, where d = d]
    obtain st3 where st3: "bwrite i ?st2 = Inr st3" "bio_ok dev st3" "slot dev b st3 = Some i"
      "contents dev st3 b = d" "pins dev st3 = (\<lambda>_. 0)(b := 1)" "held dev st3 = (\<lambda>_. False)(b := True)"
      "disk st3 = (disk st)(b := d)"
      using bwrite_ok [OF sd(1), of b i] sd(2-5) b(3-7) by auto
    obtain st4 where st4: "brelse i st3 = Inr st4" "bio_ok dev st4" "pins dev st4 = (\<lambda>_. 0)"
      "held dev st4 = (\<lambda>_. False)" "disk st4 = (disk st)(b := d)"
      using brelse_ok [OF st3(2,3)] st3(4-7) by (auto simp: fun_upd_idem)
    then have "quiet dev st4" by (simp add: quiet_def)
    from Cons.IH [OF this] show ?thesis
      using b(1) st3(1) st4(1,5) r False by (auto simp: fun_upd_def)
  qed
qed simp

lemma binit_disk: "disk (binit st) = disk st"
proof -
  have "disk (fold binit_one xs st) = disk st" for xs and st :: "'a bio_scheme"
    by (induction xs arbitrary: st) (simp_all add: binit_one_def Let_def)
  then show ?thesis by (simp add: binit_def)
qed

section \<open>Properties\<close>

text \<open>C1. After \<^verbatim>\<open>binit\<close> the cache is transparent: for every sequence of block reads and block writes
  through \<^verbatim>\<open>bread\<close>, \<^verbatim>\<open>bwrite\<close> and \<^verbatim>\<open>brelse\<close>, however many blocks it touches, no operation panics or blocks,
  every read returns what a plain array of blocks would return, and the disk ends up as that array.\<close>

theorem bcache_transparent:
  assumes "\<And>j. blank_buf (bufs st j)" and "dev \<noteq> 0"
  shows "\<exists>st'. bio_client dev rs (binit st) = Inr (fst (plain_disk rs (disk st)), st')
              \<and> disk st' = snd (plain_disk rs (disk st))"
proof -
  have "quiet dev (binit st)" using binit_ok [OF assms] by (auto simp: quiet_def)
  from bio_client_transparent [OF this, of rs] show ?thesis by (simp add: binit_disk)
qed

definition zero_bio :: bio where
  "zero_bio = \<lparr>memory = (\<lambda>_. 0), freelist = 0, curpid = 1,
     bufs = (\<lambda>_. \<lparr>b_valid = False, b_dev = 0, b_blockno = 0, b_lock = initsleeplock, b_refcnt = 0,
                   b_prev = 0, b_next = 0, b_data = (\<lambda>_. 0)\<rparr>),
     disk = (\<lambda>_ _. 0), disk_log = []\<rparr>"

lemma zero_bio_blank: "blank_buf (bufs zero_bio j)"
  by (simp add: zero_bio_def blank_buf_def initsleeplock_def)

theorem bcache_transparent_witness:
  "\<exists>st'. bio_client 1 [BWrite 7 (\<lambda>_. 3), BRead 8, BRead 7] (binit zero_bio) = Inr ([(\<lambda>_. 0), (\<lambda>_. 3)], st')
     \<and> disk st' = (\<lambda>_ _. 0)(7 := (\<lambda>_. 3))"
  using bcache_transparent [OF zero_bio_blank, of 1 "[BWrite 7 (\<lambda>_. 3), BRead 8, BRead 7]"]
  by (simp add: zero_bio_def fun_eq_iff)

text \<open>C6. \<^verbatim>\<open>bget\<close> finds a cached block wherever it is in the list, and otherwise recycles the least recently
  used buffer among those nobody references; it panics only when every buffer is referenced. The
  pointer surgery of \<^verbatim>\<open>brelse\<close> moves the buffer to the most recently used end when the last reference
  goes, and keeps the list of all buffers intact.\<close>

theorem bget_brelse_lru:
  assumes "lru st xs"
  shows "(case bget dev blockno st of
            Inr (i, st') \<Rightarrow> lru st' xs \<and> i < NBUF \<and> is_block dev blockno st' i
              \<and> (is_block dev blockno st i
                 \<or> (\<forall>j<NBUF. \<not> is_block dev blockno st j) \<and> b_refcnt (bufs st i) = 0
                    \<and> (\<exists>ys zs. xs = ys @ i # zs \<and> (\<forall>j \<in> set zs. b_refcnt (bufs st j) \<noteq> 0)))
          | Inl e \<Rightarrow> e = Blocks ''acquiresleep''
              \<or> e = Panic ''bget: no buffers'' \<and> (\<forall>j<NBUF. b_refcnt (bufs st j) \<noteq> 0))
       \<and> (\<forall>i<NBUF. \<forall>st'. brelse i st = Inr st' \<longrightarrow>
            lru st' (if b_refcnt (bufs st i) = 1 then i # remove1 i xs else xs))"
proof (intro conjI allI impI)
  have xs: "set xs = {0..<NBUF}" using assms by (simp add: lru_def)
  show "case bget dev blockno st of
            Inr (i, st') \<Rightarrow> lru st' xs \<and> i < NBUF \<and> is_block dev blockno st' i
              \<and> (is_block dev blockno st i
                 \<or> (\<forall>j<NBUF. \<not> is_block dev blockno st j) \<and> b_refcnt (bufs st i) = 0
                    \<and> (\<exists>ys zs. xs = ys @ i # zs \<and> (\<forall>j \<in> set zs. b_refcnt (bufs st j) \<noteq> 0)))
          | Inl e \<Rightarrow> e = Blocks ''acquiresleep''
              \<or> e = Panic ''bget: no buffers'' \<and> (\<forall>j<NBUF. b_refcnt (bufs st j) \<noteq> 0)"
  proof (cases "find (is_block dev blockno st) xs")
    case (Some i)
    then show ?thesis
      using find_SomeD [OF Some] xs assms by (simp add: bget_lru [OF assms] lock_buf_def acquiresleep_def)
  next
    case None
    then have none: "\<forall>j<NBUF. \<not> is_block dev blockno st j" using xs by (auto simp: find_None_iff)
    show ?thesis
    proof (cases "find (\<lambda>i. b_refcnt (bufs st i) = 0) (rev xs)")
      case None2: None
      then have "\<forall>j<NBUF. b_refcnt (bufs st j) \<noteq> 0" using xs by (auto simp: find_None_iff)
      with None None2 show ?thesis by (simp add: bget_lru [OF assms])
    next
      case (Some i)
      obtain us vs where "rev xs = us @ i # vs" "\<forall>j \<in> set us. b_refcnt (bufs st j) \<noteq> 0"
        using find_first [OF Some] by blast
      then have "\<exists>ys zs. xs = ys @ i # zs \<and> (\<forall>j \<in> set zs. b_refcnt (bufs st j) \<noteq> 0)"
        by (intro exI [of _ "rev vs"] exI [of _ "rev us"]) (simp add: rev_eq_append_conv)
      moreover have "i < NBUF" "b_refcnt (bufs st i) = 0" using find_SomeD [OF Some] xs by simp_all
      ultimately show ?thesis
        using None Some none assms by (simp add: bget_lru [OF assms] lock_buf_def acquiresleep_def)
    qed
  qed
  fix i st' assume i: "i < NBUF" and rel: "brelse i st = Inr st'"
  let ?f = "\<lambda>x. x\<lparr>b_lock := releasesleep (b_lock x), b_refcnt := b_refcnt x - 1\<rparr>"
  have "st' = (if b_refcnt (bufs st i) = 1 then move_to_front i (upd_buf i ?f st) else upd_buf i ?f st)"
    using rel by (auto simp: brelse_def upd_buf_def Let_def split: if_splits)
  then show "lru st' (if b_refcnt (bufs st i) = 1 then i # remove1 i xs else xs)"
    using lru_move_to_front [of "upd_buf i ?f st" xs i] assms i by simp
qed

theorem bget_brelse_lru_witness:
  "let st = binit zero_bio; xs = rev [0..<NBUF] in
     lru st xs
     \<and> (case bget 1 5 st of
          Inr (i, st') \<Rightarrow> lru st' xs \<and> i < NBUF \<and> is_block 1 5 st' i
            \<and> (is_block 1 5 st i
               \<or> (\<forall>j<NBUF. \<not> is_block 1 5 st j) \<and> b_refcnt (bufs st i) = 0
                  \<and> (\<exists>ys zs. xs = ys @ i # zs \<and> (\<forall>j \<in> set zs. b_refcnt (bufs st j) \<noteq> 0)))
        | Inl e \<Rightarrow> e = Blocks ''acquiresleep''
            \<or> e = Panic ''bget: no buffers'' \<and> (\<forall>j<NBUF. b_refcnt (bufs st j) \<noteq> 0))
     \<and> (\<forall>i<NBUF. \<forall>st'. brelse i st = Inr st' \<longrightarrow>
          lru st' (if b_refcnt (bufs st i) = 1 then i # remove1 i xs else xs))"
  using bget_brelse_lru [OF binit_lru, of zero_bio 1 5] binit_lru [of zero_bio] unfolding Let_def by blast

end
