(* ===== verification/Fslog.thy ===== *)
theory Fslog
  imports Bio
begin

text \<open>
  The redo log of the file system (\<^verbatim>\<open>kernel/log.c\<close>). The state extends that of the buffer cache by the
  fields of \<^verbatim>\<open>struct log\<close>. The loops over the logged blocks are the ones of the source; an index past the
  end of the in-memory header is undefined behaviour. \<^verbatim>\<open>wakeup(&log)\<close> has no effect on this state; a call
  that would sleep has the outcome \<open>Blocks\<close>. The theory shows that a commit is atomic: whichever disk
  writes have happened when the machine stops, recovery brings the disk to the state before or after
  the whole transaction.
\<close>

section \<open>State and operations\<close>

definition MAXOPBLOCKS :: nat where "MAXOPBLOCKS = 10"
definition LOGSIZE :: nat where "LOGSIZE = 30"

record fslog = bio +
  l_start :: u32
  l_size :: int
  l_outstanding :: int
  l_committing :: bool
  l_dev :: u32
  l_n :: int
  l_block :: "u32 list"

definition log_block :: "nat \<Rightarrow> 'a fslog_scheme \<Rightarrow> u32 res" where
  "log_block i st = (if i < LOGSIZE then Inr (l_block st ! i) else Inl (Undefined ''log.lh.block''))"

definition set_log_block :: "nat \<Rightarrow> u32 \<Rightarrow> 'a fslog_scheme \<Rightarrow> 'a fslog_scheme res" where
  "set_log_block i v st =
     (if i < LOGSIZE then Inr (st\<lparr>l_block := (l_block st)[i := v]\<rparr>) else Inl (Undefined ''log.lh.block''))"

definition install_trans_one :: "bool \<Rightarrow> nat \<Rightarrow> 'a fslog_scheme \<Rightarrow> 'a fslog_scheme res" where
  "install_trans_one recovering tail st =
     rbind (bread (l_dev st) (l_start st + of_nat tail + 1) st) (\<lambda>(lbuf, st1).
     rbind (log_block tail st1) (\<lambda>b.
     rbind (bread (l_dev st1) b st1) (\<lambda>(dbuf, st2).
     let st3 = upd_buf dbuf (\<lambda>x. x\<lparr>b_data := b_data (bufs st2 lbuf)\<rparr>) st2 in
     rbind (bwrite dbuf st3) (\<lambda>st4.
     let st5 = (if \<not> recovering then bunpin dbuf st4 else st4) in
     rbind (brelse lbuf st5) (brelse dbuf)))))"

definition install_trans :: "bool \<Rightarrow> 'a fslog_scheme \<Rightarrow> 'a fslog_scheme res" where
  "install_trans recovering st = rfold (install_trans_one recovering) [0..<nat (l_n st)] st"

definition read_head :: "'a fslog_scheme \<Rightarrow> 'a fslog_scheme res" where
  "read_head st =
     rbind (bread (l_dev st) (l_start st) st) (\<lambda>(buf, st1).
     let lh = b_data (bufs st1 buf);
         n = sint (get32 lh 0) in
     rbind (rfold (\<lambda>i. set_log_block i (get32 lh (4 + 4 * i))) [0..<nat n] (st1\<lparr>l_n := n\<rparr>)) (\<lambda>st2.
     brelse buf st2))"

definition write_head :: "'a fslog_scheme \<Rightarrow> 'a fslog_scheme res" where
  "write_head st =
     rbind (bread (l_dev st) (l_start st) st) (\<lambda>(buf, st1).
     let st2 = upd_buf buf (\<lambda>x. x\<lparr>b_data := put32 (b_data x) 0 (of_int (l_n st1))\<rparr>) st1 in
     rbind (rfold (\<lambda>i s. rbind (log_block i s) (\<lambda>b.
              Inr (upd_buf buf (\<lambda>x. x\<lparr>b_data := put32 (b_data x) (4 + 4 * i) b\<rparr>) s))) [0..<nat (l_n st2)] st2) (\<lambda>st3.
     rbind (bwrite buf st3) (brelse buf)))"

definition recover_from_log :: "'a fslog_scheme \<Rightarrow> 'a fslog_scheme res" where
  "recover_from_log st =
     rbind (read_head st) (\<lambda>st1.
     rbind (install_trans True st1) (\<lambda>st2.
     write_head (st2\<lparr>l_n := 0\<rparr>)))"

definition initlog :: "u32 \<Rightarrow> u32 \<Rightarrow> u32 \<Rightarrow> 'a fslog_scheme \<Rightarrow> 'a fslog_scheme res" where
  "initlog dev logstart nlog st =
     (if 4 + 4 * LOGSIZE \<ge> BSIZE then Inl (Panic ''initlog: too big logheader'')
      else recover_from_log (st\<lparr>l_start := logstart, l_size := sint nlog, l_dev := dev\<rparr>))"

definition begin_op :: "'a fslog_scheme \<Rightarrow> 'a fslog_scheme res" where
  "begin_op st =
     (if l_committing st then Inl (Blocks ''begin_op'')
      else if l_n st + (l_outstanding st + 1) * int MAXOPBLOCKS > int LOGSIZE then Inl (Blocks ''begin_op'')
      else Inr (st\<lparr>l_outstanding := l_outstanding st + 1\<rparr>))"

definition write_log_one :: "nat \<Rightarrow> 'a fslog_scheme \<Rightarrow> 'a fslog_scheme res" where
  "write_log_one tail st =
     rbind (bread (l_dev st) (l_start st + of_nat tail + 1) st) (\<lambda>(to, st1).
     rbind (log_block tail st1) (\<lambda>b.
     rbind (bread (l_dev st1) b st1) (\<lambda>(frm, st2).
     let st3 = upd_buf to (\<lambda>x. x\<lparr>b_data := b_data (bufs st2 frm)\<rparr>) st2 in
     rbind (bwrite to st3) (\<lambda>st4.
     rbind (brelse frm st4) (brelse to)))))"

definition write_log :: "'a fslog_scheme \<Rightarrow> 'a fslog_scheme res" where
  "write_log st = rfold write_log_one [0..<nat (l_n st)] st"

definition commit :: "'a fslog_scheme \<Rightarrow> 'a fslog_scheme res" where
  "commit st =
     (if l_n st > 0
      then rbind (write_log st) (\<lambda>st1.
           rbind (write_head st1) (\<lambda>st2.
           rbind (install_trans False st2) (\<lambda>st3.
           write_head (st3\<lparr>l_n := 0\<rparr>))))
      else Inr st)"

definition end_op :: "'a fslog_scheme \<Rightarrow> 'a fslog_scheme res" where
  "end_op st =
     (let st1 = st\<lparr>l_outstanding := l_outstanding st - 1\<rparr>
      in if l_committing st1 then Inl (Panic ''log.committing'')
         else if l_outstanding st1 = 0
         then rbind (commit (st1\<lparr>l_committing := True\<rparr>)) (\<lambda>st2. Inr (st2\<lparr>l_committing := False\<rparr>))
         else Inr st1)"

text \<open>The search of \<^verbatim>\<open>log_write\<close> for the block among the first \<open>n\<close> entries.\<close>

fun log_index :: "nat \<Rightarrow> nat \<Rightarrow> u32 \<Rightarrow> u32 list \<Rightarrow> nat" where
  "log_index i 0 b bs = i"
| "log_index i (Suc k) b bs = (if bs ! i = b then i else log_index (Suc i) k b bs)"

definition log_write :: "nat \<Rightarrow> 'a fslog_scheme \<Rightarrow> 'a fslog_scheme res" where
  "log_write b st =
     (if l_n st \<ge> int LOGSIZE \<or> l_n st \<ge> l_size st - 1 then Inl (Panic ''too big a transaction'')
      else if l_outstanding st < 1 then Inl (Panic ''log_write outside of trans'')
      else let blockno = b_blockno (bufs st b);
               i = log_index 0 (nat (l_n st)) blockno (l_block st)
           in rbind (set_log_block i blockno st) (\<lambda>st1.
                if int i = l_n st1
                then let st2 = bpin b st1 in Inr (st2\<lparr>l_n := l_n st2 + 1\<rparr>)
                else Inr st1))"

section \<open>Copying a block through the cache\<close>

lemma bframe_log:
  fixes st :: "'a fslog_scheme"
  assumes "bframe st st'"
  shows "l_start st' = l_start st" and "l_size st' = l_size st" and "l_outstanding st' = l_outstanding st"
    and "l_committing st' = l_committing st" and "l_dev st' = l_dev st" and "l_n st' = l_n st"
    and "l_block st' = l_block st"
  using assms by (cases st; cases st'; simp add: bframe_def)+

text \<open>Between two operations no buffer is locked and \<open>P\<close> gives the references to each block.\<close>

definition calm :: "u32 \<Rightarrow> (u32 \<Rightarrow> u32) \<Rightarrow> 'a bio_scheme \<Rightarrow> bool" where
  "calm dev P st \<longleftrightarrow> bio_ok dev st \<and> held dev st = (\<lambda>_. False) \<and> pins dev st = P"

lemma contents_slot:
  assumes "bio_ok dev st" and "slot dev b st = Some i" and "pins dev st b \<noteq> 0"
  shows "b_data (bufs st i) = contents dev st b"
  using assms slot_SomeD [OF assms(2)] slot_view(1) [OF assms(2)]
  by (auto simp: contents_def bio_ok_def buf_ok_def)

lemma copy_to_log:
  assumes calm: "calm dev P st" and d: "P d = 0" and s: "P s \<noteq> 0" "P s + 1 \<noteq> 0"
    and few: "card {b. P b \<noteq> 0} < NBUF"
  shows "\<exists>to st1 frm st2 st4 st5 st6. bread dev d st = Inr (to, st1) \<and> bread dev s st1 = Inr (frm, st2)
     \<and> bwrite to (upd_buf to (\<lambda>x. x\<lparr>b_data := b_data (bufs st2 frm)\<rparr>) st2) = Inr st4
     \<and> brelse frm st4 = Inr st5 \<and> brelse to st5 = Inr st6
     \<and> calm dev P st6 \<and> contents dev st6 = (contents dev st)(d := contents dev st s)
     \<and> disk st6 = (disk st)(d := contents dev st s) \<and> disk_log st6 = disk_log st @ [(d, contents dev st s)]
     \<and> bframe st st1 \<and> bframe st st6"
proof -
  have q: "bio_ok dev st" "held dev st = (\<lambda>_. False)" "pins dev st = P" using calm by (simp_all add: calm_def)
  have ne: "s \<noteq> d" using d s by auto
  obtain to st1 where r1: "bread dev d st = Inr (to, st1)" "bio_ok dev st1" "slot dev d st1 = Some to"
    "contents dev st1 = contents dev st" "pins dev st1 = P(d := 1)" "held dev st1 = (\<lambda>_. False)(d := True)"
    "disk st1 = disk st" "disk_log st1 = disk_log st" "bframe st st1"
    by (rule bread_ok [of dev st d]) (use q d unused_buffer [OF q(1)] few in auto)
  obtain frm st2 where r2: "bread dev s st1 = Inr (frm, st2)" "bio_ok dev st2" "slot dev s st2 = Some frm"
    "contents dev st2 = contents dev st" "pins dev st2 = P(d := 1, s := P s + 1)"
    "held dev st2 = (\<lambda>_. False)(d := True, s := True)" "slot dev d st2 = Some to"
    "disk st2 = disk st" "disk_log st2 = disk_log st" "bframe st1 st2"
    by (rule bread_ok [of dev st1 s]) (use r1 s ne in auto)
  let ?v = "contents dev st s"
  have v: "b_data (bufs st2 frm) = ?v" using contents_slot [OF r2(2,3)] r2(4,5) s by simp
  have p2: "pins dev st2 d \<noteq> 0" using r2(5) ne by simp
  note sd = set_data_ok [OF r2(2,7) p2, where d = ?v]
  obtain st4 where r4: "bwrite to (upd_buf to (\<lambda>x. x\<lparr>b_data := ?v\<rparr>) st2) = Inr st4" "bio_ok dev st4"
    "slot dev s st4 = Some frm" "slot dev d st4 = Some to" "contents dev st4 = (contents dev st)(d := ?v)"
    "pins dev st4 = P(d := 1, s := P s + 1)" "held dev st4 = (\<lambda>_. False)(d := True, s := True)"
    "disk st4 = (disk st)(d := ?v)" "disk_log st4 = disk_log st @ [(d, ?v)]"
    "bframe (upd_buf to (\<lambda>x. x\<lparr>b_data := ?v\<rparr>) st2) st4"
    using bwrite_ok [OF sd(1), of d to] sd(2-5) r2 ne by auto
  obtain st5 where r5: "brelse frm st4 = Inr st5" "bio_ok dev st5" "slot dev d st5 = Some to"
    "contents dev st5 = (contents dev st)(d := ?v)" "pins dev st5 = P(d := 1)" "held dev st5 = (\<lambda>_. False)(d := True)"
    "disk st5 = (disk st)(d := ?v)" "disk_log st5 = disk_log st @ [(d, ?v)]" "bframe st4 st5"
    using brelse_ok [OF r4(2,3)] r4 s ne by (auto simp: fun_upd_twist fun_upd_idem)
  obtain st6 where r6: "brelse to st5 = Inr st6" "bio_ok dev st6"
    "contents dev st6 = (contents dev st)(d := ?v)" "pins dev st6 = P" "held dev st6 = (\<lambda>_. False)"
    "disk st6 = (disk st)(d := ?v)" "disk_log st6 = disk_log st @ [(d, ?v)]" "bframe st5 st6"
    using brelse_ok [OF r5(2,3)] r5 d by (auto simp: fun_upd_idem)
  have "bframe st st6"
    using r1(9) r2(10) r4(10) r5(9) r6(8) bframe_upd_buf bframe_trans by metis
  with r1(1,9) r2(1) r4(1) r5(1) r6 v show ?thesis by (auto simp: calm_def)
qed

text \<open>Installing a block from the log. Outside recovery the home block is pinned and loses its pin.\<close>

lemma copy_home:
  assumes calm: "calm dev P st" and s: "P s = 0" "contents dev st s = disk st s" and ne: "s \<noteq> d"
    and d: "P d + 1 \<noteq> 0" and few: "card {b. P b \<noteq> 0} < NBUF"
    and mode: "if recovering then P d = 0 \<and> card {b. P b \<noteq> 0} + 1 < NBUF else P d \<noteq> 0"
  defines "P' \<equiv> if recovering then P else P(d := P d - 1)"
  shows "\<exists>lb st1 db st2 st4 st5 st6. bread dev s st = Inr (lb, st1) \<and> bread dev d st1 = Inr (db, st2)
     \<and> bwrite db (upd_buf db (\<lambda>x. x\<lparr>b_data := b_data (bufs st2 lb)\<rparr>) st2) = Inr st4
     \<and> brelse lb (if \<not> recovering then bunpin db st4 else st4) = Inr st5 \<and> brelse db st5 = Inr st6
     \<and> calm dev P' st6 \<and> contents dev st6 = (contents dev st)(d := contents dev st s)
     \<and> disk st6 = (disk st)(d := contents dev st s) \<and> disk_log st6 = disk_log st @ [(d, contents dev st s)]
     \<and> bframe st st1 \<and> bframe st st6"
proof -
  have q: "bio_ok dev st" "held dev st = (\<lambda>_. False)" "pins dev st = P" using calm by (simp_all add: calm_def)
  obtain lb st1 where r1: "bread dev s st = Inr (lb, st1)" "bio_ok dev st1" "slot dev s st1 = Some lb"
    "contents dev st1 = contents dev st" "pins dev st1 = P(s := 1)" "held dev st1 = (\<lambda>_. False)(s := True)"
    "disk st1 = disk st" "disk_log st1 = disk_log st" "bframe st st1"
    by (rule bread_ok [of dev st s]) (use q s unused_buffer [OF q(1)] few in auto)
  have room: "pins dev st1 d \<noteq> 0 \<or> (\<exists>j<NBUF. b_refcnt (bufs st1 j) = 0)"
  proof (cases recovering)
    case True
    have "{b. pins dev st1 b \<noteq> 0} = insert s {b. P b \<noteq> 0}" using r1(5) by auto
    then have "card {b. pins dev st1 b \<noteq> 0} < NBUF" using mode True s by simp
    then show ?thesis using unused_buffer [OF r1(2)] by blast
  qed (use mode r1(5) ne in auto)
  obtain db st2 where r2: "bread dev d st1 = Inr (db, st2)" "bio_ok dev st2" "slot dev d st2 = Some db"
    "contents dev st2 = contents dev st" "pins dev st2 = P(s := 1, d := P d + 1)"
    "held dev st2 = (\<lambda>_. False)(s := True, d := True)" "slot dev s st2 = Some lb"
    "disk st2 = disk st" "disk_log st2 = disk_log st" "bframe st1 st2"
    by (rule bread_ok [of dev st1 d]) (use r1 d ne room in auto)
  let ?v = "contents dev st s"
  have v: "b_data (bufs st2 lb) = ?v" using contents_slot [OF r2(2,7)] r2(4,5) ne by simp
  have p2: "pins dev st2 d \<noteq> 0" using r2(5) d by simp
  note sd = set_data_ok [OF r2(2,3) p2, where d = ?v]
  obtain st4 where r4: "bwrite db (upd_buf db (\<lambda>x. x\<lparr>b_data := ?v\<rparr>) st2) = Inr st4" "bio_ok dev st4"
    "slot dev s st4 = Some lb" "slot dev d st4 = Some db" "contents dev st4 = (contents dev st)(d := ?v)"
    "pins dev st4 = P(s := 1, d := P d + 1)" "held dev st4 = (\<lambda>_. False)(s := True, d := True)"
    "disk st4 = (disk st)(d := ?v)" "disk_log st4 = disk_log st @ [(d, ?v)]"
    "bframe (upd_buf db (\<lambda>x. x\<lparr>b_data := ?v\<rparr>) st2) st4"
    using bwrite_ok [OF sd(1), of d db] sd(2-5) r2 ne by auto
  define st4' where "st4' = (if \<not> recovering then bunpin db st4 else st4)"
  have r4': "bio_ok dev st4'" "slot dev s st4' = Some lb" "slot dev d st4' = Some db"
    "contents dev st4' = (contents dev st)(d := ?v)" "pins dev st4' = P(s := 1, d := if recovering then P d + 1 else P d)"
    "held dev st4' = (\<lambda>_. False)(s := True, d := True)" "disk st4' = (disk st)(d := ?v)"
    "disk_log st4' = disk_log st @ [(d, ?v)]" "bframe st4 st4'"
  proof -
    have un: "bunpin db st4 = upd_buf db (\<lambda>x. x\<lparr>b_refcnt := P d\<rparr>) st4"
    proof -
      have "b_refcnt (bufs st4 db) = P d + 1" using slot_view(1) [OF r4(4)] r4(6) by simp
      then show ?thesis by (simp add: bunpin_eq)
    qed
    have p4: "pins dev st4 d \<noteq> 0" "\<not> recovering \<Longrightarrow> P d \<noteq> 0" using r4(6) d mode by auto
    note sr = set_refcnt_ok [OF r4(2,4) p4(1), where r = "P d"]
    show "bio_ok dev st4'" "slot dev s st4' = Some lb" "slot dev d st4' = Some db"
      "contents dev st4' = (contents dev st)(d := ?v)" "pins dev st4' = P(s := 1, d := if recovering then P d + 1 else P d)"
      "held dev st4' = (\<lambda>_. False)(s := True, d := True)" "disk st4' = (disk st)(d := ?v)"
      "disk_log st4' = disk_log st @ [(d, ?v)]" "bframe st4 st4'"
      using r4 sr p4 by (cases recovering; simp add: st4'_def un)+
  qed
  obtain st5 where r5: "brelse lb st4' = Inr st5" "bio_ok dev st5" "slot dev d st5 = Some db"
    "contents dev st5 = (contents dev st)(d := ?v)" "pins dev st5 = P(d := if recovering then P d + 1 else P d)"
    "held dev st5 = (\<lambda>_. False)(d := True)"
    "disk st5 = (disk st)(d := ?v)" "disk_log st5 = disk_log st @ [(d, ?v)]" "bframe st4' st5"
    using brelse_ok [OF r4'(1,2)] r4' s ne by (auto simp: fun_upd_twist fun_upd_idem)
  obtain st6 where r6: "brelse db st5 = Inr st6" "bio_ok dev st6"
    "contents dev st6 = (contents dev st)(d := ?v)" "pins dev st6 = P'" "held dev st6 = (\<lambda>_. False)"
    "disk st6 = (disk st)(d := ?v)" "disk_log st6 = disk_log st @ [(d, ?v)]" "bframe st5 st6"
    using brelse_ok [OF r5(2,3)] r5 by (auto simp: fun_upd_idem P'_def)
  have "bframe st st6"
    using r1(9) r2(10) r4(10) r4'(9) r5(9) r6(8) bframe_upd_buf bframe_trans by metis
  with r1(1,9) r2(1) r4(1) r5(1) r6 v show ?thesis by (auto simp: calm_def st4'_def)
qed

section \<open>The loops of the log\<close>

text \<open>Where the log lives and what it holds: the log blocks follow the header block, the home blocks are
  distinct, outside the log, and referenced by the log alone.\<close>

definition log_at :: "u32 \<Rightarrow> nat \<Rightarrow> u32" where
  "log_at start tail = start + of_nat tail + 1"

definition in_log :: "u32 \<Rightarrow> u32 \<Rightarrow> bool" where
  "in_log start b \<longleftrightarrow> start \<le> b \<and> unat b < unat start + LOGSIZE"

lemma unat_log_at:
  assumes "unat start + LOGSIZE < 2 ^ 32" and "tail < LOGSIZE"
  shows "unat (log_at start tail) = unat start + tail + 1"
proof -
  have "unat (of_nat tail :: u32) = tail" using assms by (simp add: LOGSIZE_def unat_of_nat_small)
  then show ?thesis using assms by (simp add: log_at_def LOGSIZE_def unat_word_ariths)
qed

lemma log_at_facts:
  assumes "unat start + LOGSIZE < 2 ^ 32" and "Suc t < LOGSIZE"
  shows "in_log start (log_at start t)" and "log_at start t \<noteq> start"
    and "Suc u < LOGSIZE \<Longrightarrow> log_at start t = log_at start u \<longleftrightarrow> t = u"
  using unat_log_at [OF assms(1), of t] unat_log_at [OF assms(1), of u] assms
  by (auto simp: in_log_def word_le_nat_alt word_unat_eq_iff)

definition log_wf :: "'a fslog_scheme \<Rightarrow> bool" where
  "log_wf st \<longleftrightarrow> 0 \<le> l_n st \<and> l_n st < int LOGSIZE \<and> length (l_block st) = LOGSIZE
     \<and> unat (l_start st) + LOGSIZE < 2 ^ 32
     \<and> distinct (take (nat (l_n st)) (l_block st))
     \<and> (\<forall>b \<in> set (take (nat (l_n st)) (l_block st)). \<not> in_log (l_start st) b)"

abbreviation homes :: "'a fslog_scheme \<Rightarrow> u32 list" where
  "homes st \<equiv> take (nat (l_n st)) (l_block st)"

lemma log_wf_nth:
  assumes "log_wf st" and "t < nat (l_n st)"
  shows "homes st ! t = l_block st ! t" and "\<not> in_log (l_start st) (l_block st ! t)" and "Suc t < LOGSIZE"
    and "length (homes st) = nat (l_n st)"
  using assms nth_mem [of t "homes st"] by (auto simp: log_wf_def)

text \<open>The pins of a transaction that is about to commit.\<close>

definition home_pins :: "u32 list \<Rightarrow> u32 \<Rightarrow> u32" where
  "home_pins bs b = (if b \<in> set bs then 1 else 0)"

lemma home_pins_card: "card {b. home_pins bs b \<noteq> 0} \<le> length bs"
  by (simp add: home_pins_def card_length)

text \<open>The effect of the loops on a disk: log blocks first, home blocks after.\<close>

definition log_writes :: "u32 \<Rightarrow> u32 list \<Rightarrow> (u32 \<Rightarrow> block) \<Rightarrow> nat \<Rightarrow> (u32 \<times> block) list" where
  "log_writes start bs C k = map (\<lambda>t. (log_at start t, C (bs ! t))) [0..<k]"

definition home_writes :: "u32 list \<Rightarrow> (u32 \<Rightarrow> block) \<Rightarrow> nat \<Rightarrow> (u32 \<times> block) list" where
  "home_writes bs C k = map (\<lambda>t. (bs ! t, C (bs ! t))) [0..<k]"

definition apply_writes :: "(u32 \<times> block) list \<Rightarrow> (u32 \<Rightarrow> block) \<Rightarrow> u32 \<Rightarrow> block" where
  "apply_writes ws D = fold (\<lambda>(b, d) X. X(b := d)) ws D"

lemma apply_writes_simps [simp]:
  "apply_writes [] D = D" "apply_writes (ws @ [(b, d)]) D = (apply_writes ws D)(b := d)"
  by (simp_all add: apply_writes_def)

lemma apply_writes_append: "apply_writes (ws @ vs) D = apply_writes vs (apply_writes ws D)"
  by (simp add: apply_writes_def)

lemma apply_writes_other: "b \<notin> fst ` set ws \<Longrightarrow> apply_writes ws D b = D b"
  by (induction ws rule: rev_induct) auto

lemma rfold_upt:
  assumes "I 0 s" and "\<And>t s. t < n \<Longrightarrow> I t s \<Longrightarrow> \<exists>s'. f t s = Inr s' \<and> I (Suc t) s'"
  shows "\<exists>s'. rfold f [0..<n] s = Inr s' \<and> I n s'"
  using assms(2)
proof (induction n)
  case (Suc n)
  then obtain s1 where s1: "rfold f [0..<n] s = Inr s1" "I n s1" by auto
  obtain s2 where "f n s1 = Inr s2" "I (Suc n) s2" using Suc.prems [of n s1] s1(2) by auto
  with s1(1) show ?case by (simp add: rfold_append)
qed (use assms(1) in simp)

lemma log_writes_Suc: "log_writes start bs C (Suc k) = log_writes start bs C k @ [(log_at start k, C (bs ! k))]"
  and home_writes_Suc: "home_writes bs C (Suc k) = home_writes bs C k @ [(bs ! k, C (bs ! k))]"
  by (simp_all add: log_writes_def home_writes_def)

lemma log_writes_other:
  assumes "unat start + LOGSIZE < 2 ^ 32" and "k < LOGSIZE" and "\<not> in_log start b"
  shows "apply_writes (log_writes start bs C k) D b = D b"
proof (rule apply_writes_other)
  have "b \<noteq> log_at start t" if "t < k" for t
    using log_at_facts(1) [OF assms(1), of t] that assms(2,3) by auto
  then show "b \<notin> fst ` set (log_writes start bs C k)" unfolding log_writes_def by fastforce
qed

definition log_step_inv where
  "log_step_inv st P C D ws s \<longleftrightarrow> calm (l_dev st) P s \<and> contents (l_dev st) s = C \<and> disk s = D
     \<and> disk_log s = disk_log st @ ws \<and> bframe st s"

lemma write_log_ok:
  assumes wf: "log_wf st" and n: "nat (l_n st) < NBUF" and calm: "calm (l_dev st) (home_pins (homes st)) st"
  defines "C \<equiv> contents (l_dev st) st" and "ws \<equiv> \<lambda>k. log_writes (l_start st) (homes st) (contents (l_dev st) st) k"
  shows "\<exists>st'. write_log st = Inr st' \<and>
     log_step_inv st (home_pins (homes st)) (apply_writes (ws (nat (l_n st))) C)
       (apply_writes (ws (nat (l_n st))) (disk st)) (ws (nat (l_n st))) st'"
  unfolding write_log_def
proof (rule rfold_upt [where I = "\<lambda>t. log_step_inv st (home_pins (homes st)) (apply_writes (ws t) C)
          (apply_writes (ws t) (disk st)) (ws t)"])
  let ?n = "nat (l_n st)" and ?bs = "homes st" and ?start = "l_start st"
  show "log_step_inv st (home_pins ?bs) (apply_writes (ws 0) C) (apply_writes (ws 0) (disk st)) (ws 0) st"
    using calm by (simp add: log_step_inv_def ws_def C_def log_writes_def)
  fix t s assume t: "t < ?n"
    and I: "log_step_inv st (home_pins ?bs) (apply_writes (ws t) C) (apply_writes (ws t) (disk st)) (ws t) s"
  note nth = log_wf_nth [OF wf t]
  have start: "unat ?start + LOGSIZE < 2 ^ 32" "length (l_block st) = LOGSIZE" using wf by (simp_all add: log_wf_def)
  have s: "calm (l_dev st) (home_pins ?bs) s" "contents (l_dev st) s = apply_writes (ws t) C"
    "disk s = apply_writes (ws t) (disk st)" "disk_log s = disk_log st @ ws t" "bframe st s"
    using I by (simp_all add: log_step_inv_def)
  have src: "contents (l_dev st) s (l_block st ! t) = C (?bs ! t)"
    unfolding s(2) ws_def nth(1) using log_writes_other [OF start(1)] nth(2,3) by simp
  have in_bs: "l_block st ! t \<in> set ?bs" using nth t nth_mem [of t ?bs] by simp
  have "log_at ?start t \<notin> set ?bs" using log_at_facts(1) [OF start(1) nth(3)] wf by (auto simp: log_wf_def)
  then have P: "home_pins ?bs (log_at ?start t) = 0" "home_pins ?bs (l_block st ! t) = 1"
    using in_bs by (simp_all add: home_pins_def)
  have few: "card {b. home_pins ?bs b \<noteq> 0} < NBUF"
    using home_pins_card [of ?bs] nth(4) n by simp
  obtain to st1 frm st2 st4 st5 st6 where c: "bread (l_dev st) (log_at ?start t) s = Inr (to, st1)"
    "bread (l_dev st) (l_block st ! t) st1 = Inr (frm, st2)"
    "bwrite to (upd_buf to (\<lambda>x. x\<lparr>b_data := b_data (bufs st2 frm)\<rparr>) st2) = Inr st4"
    "brelse frm st4 = Inr st5" "brelse to st5 = Inr st6"
    "calm (l_dev st) (home_pins ?bs) st6"
    "contents (l_dev st) st6 = (contents (l_dev st) s)(log_at ?start t := C (?bs ! t))"
    "disk st6 = (disk s)(log_at ?start t := C (?bs ! t))" "disk_log st6 = disk_log s @ [(log_at ?start t, C (?bs ! t))]"
    "bframe s st1" "bframe s st6"
    using copy_to_log [OF s(1) P(1) _ _ few, of "l_block st ! t"] P(2) src by auto
  have "bframe st st1" "bframe st st6" using s(5) c(10,11) bframe_trans by blast+
  note fr = bframe_log [OF s(5)] bframe_log [OF this(1)]
  have "write_log_one t s = Inr st6"
    using c(1-5) nth(3) by (simp add: write_log_one_def log_block_def fr log_at_def [symmetric])
  moreover have "log_step_inv st (home_pins ?bs) (apply_writes (ws (Suc t)) C) (apply_writes (ws (Suc t)) (disk st)) (ws (Suc t)) st6"
    using c(6-9) s \<open>bframe st st6\<close> by (simp add: log_step_inv_def ws_def log_writes_Suc C_def)
  ultimately show "\<exists>s'. write_log_one t s = Inr s' \<and>
      log_step_inv st (home_pins ?bs) (apply_writes (ws (Suc t)) C) (apply_writes (ws (Suc t)) (disk st)) (ws (Suc t)) s'"
    by blast
qed

lemma unpinned_contents:
  assumes "bio_ok dev st" and "pins dev st b = 0"
  shows "contents dev st b = disk st b"
proof (cases "slot dev b st")
  case (Some i)
  note i = slot_SomeD [OF Some]
  have "b_refcnt (bufs st i) = 0" using assms(2) slot_view(1) [OF Some] by simp
  then show ?thesis using assms(1) i Some by (auto simp: contents_def bio_ok_def buf_ok_def)
qed (simp add: contents_def)

definition install_writes :: "u32 \<Rightarrow> u32 list \<Rightarrow> (u32 \<Rightarrow> block) \<Rightarrow> nat \<Rightarrow> (u32 \<times> block) list" where
  "install_writes start bs C k = map (\<lambda>t. (bs ! t, C (log_at start t))) [0..<k]"

lemma install_writes_Suc:
  "install_writes start bs C (Suc k) = install_writes start bs C k @ [(bs ! k, C (log_at start k))]"
  by (simp add: install_writes_def)

lemma install_writes_other:
  assumes "k \<le> length bs" and "b \<notin> set bs"
  shows "apply_writes (install_writes start bs C k) D b = D b"
  using assms by (intro apply_writes_other) (auto simp: install_writes_def)

lemma home_pins_drop:
  assumes "distinct bs" and "t < length bs"
  shows "(home_pins (drop t bs))(bs ! t := home_pins (drop t bs) (bs ! t) - 1) = home_pins (drop (Suc t) bs)"
proof -
  have "drop t bs = bs ! t # drop (Suc t) bs" using assms(2) by (rule Cons_nth_drop_Suc [symmetric])
  moreover have "bs ! t \<notin> set (drop (Suc t) bs)"
    using assms calculation by (metis distinct.simps(2) distinct_drop)
  ultimately show ?thesis by (auto simp: home_pins_def fun_eq_iff)
qed

lemma install_trans_ok:
  assumes wf: "log_wf st" and n: "nat (l_n st) < NBUF"
    and calm: "calm (l_dev st) (if recovering then (\<lambda>_. 0) else home_pins (homes st)) st"
  defines "C \<equiv> contents (l_dev st) st" and "ws \<equiv> \<lambda>k. install_writes (l_start st) (homes st) (contents (l_dev st) st) k"
  shows "\<exists>st'. install_trans recovering st = Inr st' \<and>
     log_step_inv st (if recovering then (\<lambda>_. 0) else home_pins (drop (nat (l_n st)) (homes st)))
       (apply_writes (ws (nat (l_n st))) C) (apply_writes (ws (nat (l_n st))) (disk st)) (ws (nat (l_n st))) st'"
  unfolding install_trans_def
proof (rule rfold_upt [where I = "\<lambda>t. log_step_inv st (if recovering then (\<lambda>_. 0) else home_pins (drop t (homes st)))
          (apply_writes (ws t) C) (apply_writes (ws t) (disk st)) (ws t)"])
  let ?n = "nat (l_n st)" and ?bs = "homes st" and ?start = "l_start st"
  let ?P = "\<lambda>t. if recovering then (\<lambda>_. 0) else home_pins (drop t ?bs)"
  show "log_step_inv st (?P 0) (apply_writes (ws 0) C) (apply_writes (ws 0) (disk st)) (ws 0) st"
    using calm by (cases recovering) (simp_all add: log_step_inv_def ws_def C_def install_writes_def)
  fix t s assume t: "t < ?n"
    and I: "log_step_inv st (?P t) (apply_writes (ws t) C) (apply_writes (ws t) (disk st)) (ws t) s"
  note nth = log_wf_nth [OF wf t]
  have start: "unat ?start + LOGSIZE < 2 ^ 32" "distinct ?bs" "\<forall>b \<in> set ?bs. \<not> in_log ?start b"
    using wf by (simp_all add: log_wf_def)
  have s: "calm (l_dev st) (?P t) s" "contents (l_dev st) s = apply_writes (ws t) C"
    "disk s = apply_writes (ws t) (disk st)" "disk_log s = disk_log st @ ws t" "bframe st s"
    using I by (simp_all add: log_step_inv_def)
  have at: "log_at ?start t \<notin> set ?bs" using log_at_facts(1) [OF start(1) nth(3)] start(3) by blast
  then have src: "contents (l_dev st) s (log_at ?start t) = C (log_at ?start t)"
    unfolding s(2) ws_def using install_writes_other t nth(4) by simp
  have "t < length ?bs" using t nth(4) by simp
  then have bt: "?bs ! t \<in> set (drop t ?bs)" "?bs ! t \<in> set ?bs"
    using Cons_nth_drop_Suc [of t ?bs, symmetric] nth_mem [of t ?bs] by (simp_all del: take_eq_Nil nth_take)
  then have bt3: "?bs ! t \<noteq> log_at ?start t" using at by metis
  have P0: "?P t (log_at ?start t) = 0" using at by (auto simp: home_pins_def dest: in_set_dropD)
  have clean: "contents (l_dev st) s (log_at ?start t) = disk s (log_at ?start t)"
    using s(1) P0 by (intro unpinned_contents) (simp_all add: calm_def)
  have few: "card {b. ?P t b \<noteq> 0} < NBUF" "recovering \<Longrightarrow> card {b. ?P t b \<noteq> 0} + 1 < NBUF"
    using home_pins_card [of "drop t ?bs"] nth(4) n by (auto simp: NBUF_def)
  have mode: "if recovering then ?P t (?bs ! t) = 0 \<and> card {b. ?P t b \<noteq> 0} + 1 < NBUF else ?P t (?bs ! t) \<noteq> 0"
    "?P t (?bs ! t) + 1 \<noteq> 0"
    using bt few(2) by (auto simp: home_pins_def)
  have P': "(if recovering then ?P t else (?P t)(?bs ! t := ?P t (?bs ! t) - 1)) = ?P (Suc t)"
    using home_pins_drop [OF start(2) \<open>t < length ?bs\<close>] by simp
  obtain lb st1 db st2 st4 st5 st6 where c: "bread (l_dev st) (log_at ?start t) s = Inr (lb, st1)"
    "bread (l_dev st) (?bs ! t) st1 = Inr (db, st2)"
    "bwrite db (upd_buf db (\<lambda>x. x\<lparr>b_data := b_data (bufs st2 lb)\<rparr>) st2) = Inr st4"
    "brelse lb (if \<not> recovering then bunpin db st4 else st4) = Inr st5" "brelse db st5 = Inr st6"
    "calm (l_dev st) (?P (Suc t)) st6"
    "contents (l_dev st) st6 = (contents (l_dev st) s)(?bs ! t := C (log_at ?start t))"
    "disk st6 = (disk s)(?bs ! t := C (log_at ?start t))" "disk_log st6 = disk_log s @ [(?bs ! t, C (log_at ?start t))]"
    "bframe s st1" "bframe s st6"
    using copy_home [OF s(1) P0 clean bt3 [symmetric] mode(2) few(1) mode(1)] unfolding P' src by blast
  have "bframe st st1" "bframe st st6" using s(5) c(10,11) bframe_trans by blast+
  note fr = bframe_log [OF s(5)] bframe_log [OF this(1)]
  have "install_trans_one recovering t s = Inr st6"
    using c(1-5) nth(1,3) by (simp add: install_trans_one_def log_block_def fr log_at_def [symmetric])
  moreover have "log_step_inv st (?P (Suc t)) (apply_writes (ws (Suc t)) C) (apply_writes (ws (Suc t)) (disk st)) (ws (Suc t)) st6"
    using c(6-9) s \<open>bframe st st6\<close> by (simp add: log_step_inv_def ws_def install_writes_Suc C_def)
  ultimately show "\<exists>s'. install_trans_one recovering t s = Inr s' \<and>
      log_step_inv st (?P (Suc t)) (apply_writes (ws (Suc t)) C) (apply_writes (ws (Suc t)) (disk st)) (ws (Suc t)) s'"
    by blast
qed

lemma view_cong:
  fixes st :: "'a bio_scheme" and st' :: "'b bio_scheme"
  assumes "bufs st' = bufs st" and "disk st' = disk st" and "curpid st' = curpid st"
  shows slot_state_cong: "slot dev b st' = slot dev b st" and contents_cong: "contents dev st' = contents dev st"
    and pins_cong: "pins dev st' = pins dev st" and held_cong: "held dev st' = held dev st"
    and bio_ok_cong: "bio_ok dev st' = bio_ok dev st" and calm_cong: "calm dev P st' = calm dev P st"
proof -
  show s: "slot dev b st' = slot dev b st" for b using assms by (simp add: slot_def)
  then show "contents dev st' = contents dev st"
    using assms by (auto simp: contents_def fun_eq_iff split: option.splits)
  show p: "pins dev st' = pins dev st" and h: "held dev st' = held dev st"
    using s assms by (auto simp: pins_def held_def fun_eq_iff split: option.splits)
  have "nx st' = nx st" "pv st' = pv st" using assms by (auto simp: nx_def pv_def fun_eq_iff)
  then show ok: "bio_ok dev st' = bio_ok dev st" using assms by (simp add: bio_ok_def lru_def uniq_bufs_def)
  show "calm dev P st' = calm dev P st" by (simp add: calm_def ok p h)
qed

section \<open>The header block\<close>

lemma write_block:
  assumes calm: "calm dev P st" and d: "P d = 0" and few: "card {b. P b \<noteq> 0} < NBUF"
  shows "\<exists>buf st1. bread dev d st = Inr (buf, st1) \<and> b_data (bufs st1 buf) = contents dev st d \<and> bframe st st1
     \<and> (\<exists>st2. brelse buf st1 = Inr st2 \<and> calm dev P st2 \<and> contents dev st2 = contents dev st
          \<and> disk st2 = disk st \<and> disk_log st2 = disk_log st \<and> bframe st st2)
     \<and> (\<forall>v. \<exists>st3 st4. bwrite buf (upd_buf buf (\<lambda>x. x\<lparr>b_data := v\<rparr>) st1) = Inr st3 \<and> brelse buf st3 = Inr st4
          \<and> calm dev P st4 \<and> contents dev st4 = (contents dev st)(d := v)
          \<and> disk st4 = (disk st)(d := v) \<and> disk_log st4 = disk_log st @ [(d, v)] \<and> bframe st st4)"
proof -
  have q: "bio_ok dev st" "held dev st = (\<lambda>_. False)" "pins dev st = P" using calm by (simp_all add: calm_def)
  obtain buf st1 where r1: "bread dev d st = Inr (buf, st1)" "bio_ok dev st1" "slot dev d st1 = Some buf"
    "contents dev st1 = contents dev st" "pins dev st1 = P(d := 1)" "held dev st1 = (\<lambda>_. False)(d := True)"
    "disk st1 = disk st" "disk_log st1 = disk_log st" "bframe st st1"
    by (rule bread_ok [of dev st d]) (use q d unused_buffer [OF q(1)] few in auto)
  have p1: "pins dev st1 d \<noteq> 0" using r1(5) by simp
  have data: "b_data (bufs st1 buf) = contents dev st d" using contents_slot [OF r1(2,3)] r1(4,5) by simp
  have "\<exists>st2. brelse buf st1 = Inr st2 \<and> calm dev P st2 \<and> contents dev st2 = contents dev st
          \<and> disk st2 = disk st \<and> disk_log st2 = disk_log st \<and> bframe st st2"
    using brelse_ok [OF r1(2,3)] r1 d unpinned_contents [OF q(1), of d] q(3)
    by (auto simp: fun_upd_idem calm_def intro: bframe_trans)
  moreover have "\<exists>st3 st4. bwrite buf (upd_buf buf (\<lambda>x. x\<lparr>b_data := v\<rparr>) st1) = Inr st3 \<and> brelse buf st3 = Inr st4
          \<and> calm dev P st4 \<and> contents dev st4 = (contents dev st)(d := v)
          \<and> disk st4 = (disk st)(d := v) \<and> disk_log st4 = disk_log st @ [(d, v)] \<and> bframe st st4" for v
  proof -
    note sd = set_data_ok [OF r1(2,3) p1, where d = v]
    obtain st3 where r3: "bwrite buf (upd_buf buf (\<lambda>x. x\<lparr>b_data := v\<rparr>) st1) = Inr st3" "bio_ok dev st3"
      "slot dev d st3 = Some buf" "contents dev st3 = (contents dev st)(d := v)" "pins dev st3 = P(d := 1)"
      "held dev st3 = (\<lambda>_. False)(d := True)" "disk st3 = (disk st)(d := v)" "disk_log st3 = disk_log st @ [(d, v)]"
      "bframe (upd_buf buf (\<lambda>x. x\<lparr>b_data := v\<rparr>) st1) st3"
      using bwrite_ok [OF sd(1), of d buf] sd(2-5) r1 by auto
    obtain st4 where r4: "brelse buf st3 = Inr st4" "bio_ok dev st4" "contents dev st4 = (contents dev st)(d := v)"
      "pins dev st4 = P" "held dev st4 = (\<lambda>_. False)" "disk st4 = (disk st)(d := v)"
      "disk_log st4 = disk_log st @ [(d, v)]" "bframe st3 st4"
      using brelse_ok [OF r3(2,3)] r3 d by (auto simp: fun_upd_idem)
    have "bframe st st4" using r1(9) r3(9) r4(8) bframe_upd_buf bframe_trans by metis
    with r3(1) r4 show ?thesis by (auto simp: calm_def)
  qed
  ultimately show ?thesis using r1(1,9) data by blast
qed

definition header_of :: "int \<Rightarrow> u32 list \<Rightarrow> block \<Rightarrow> block" where
  "header_of n bs d = fold (\<lambda>i x. put32 x (4 + 4 * i) (bs ! i)) [0..<nat n] (put32 d 0 (of_int n))"

lemma header_fold:
  "get32 (fold (\<lambda>i x. put32 x (4 + 4 * i) (bs ! i)) [0..<k] d) 0 = get32 d 0"
  "i < k \<Longrightarrow> get32 (fold (\<lambda>i x. put32 x (4 + 4 * i) (bs ! i)) [0..<k] d) (4 + 4 * i) = bs ! i"
  by (induction k) (auto simp: get32_put32_other less_Suc_eq)

lemma header_of_get:
  "get32 (header_of n bs d) 0 = of_int n"
  "i < nat n \<Longrightarrow> get32 (header_of n bs d) (4 + 4 * i) = bs ! i"
  by (simp_all add: header_of_def header_fold)

lemma upd_buf_upd_buf: "upd_buf b f (upd_buf b g st) = upd_buf b (\<lambda>x. f (g x)) st"
  by (simp add: upd_buf_def)

lemma upd_buf_const: "upd_buf b (\<lambda>x. x\<lparr>b_data := f (b_data x)\<rparr>) st = upd_buf b (\<lambda>x. x\<lparr>b_data := f (b_data (bufs st b))\<rparr>) st"
  by (simp add: upd_buf_def)

lemma write_head_loop:
  assumes "k \<le> LOGSIZE"
  shows "rfold (\<lambda>i s. rbind (log_block i s) (\<lambda>b.
              Inr (upd_buf buf (\<lambda>x. x\<lparr>b_data := put32 (b_data x) (4 + 4 * i) b\<rparr>) s))) [0..<k] st
         = Inr (upd_buf buf (\<lambda>x. x\<lparr>b_data := fold (\<lambda>i x. put32 x (4 + 4 * i) (l_block st ! i)) [0..<k] (b_data x)\<rparr>) st)"
  using assms
proof (induction k)
  case (Suc k)
  then show ?case by (simp add: rfold_append log_block_def upd_buf_upd_buf bframe_log [OF bframe_upd_buf])
qed (simp add: upd_buf_def)

lemma write_head_ok:
  assumes calm: "calm (l_dev st) P st" and P: "P (l_start st) = 0" and few: "card {b. P b \<noteq> 0} < NBUF"
    and n: "l_n st \<le> int LOGSIZE"
  defines "h \<equiv> header_of (l_n st) (l_block st) (contents (l_dev st) st (l_start st))"
  shows "\<exists>st'. write_head st = Inr st' \<and> log_step_inv st P ((contents (l_dev st) st)(l_start st := h))
       ((disk st)(l_start st := h)) [(l_start st, h)] st'"
proof -
  from write_block [OF calm P few] obtain buf st1 where w: "bread (l_dev st) (l_start st) st = Inr (buf, st1)"
    "b_data (bufs st1 buf) = contents (l_dev st) st (l_start st)" "bframe st st1"
    and "\<forall>v. \<exists>st3 st4. bwrite buf (upd_buf buf (\<lambda>x. x\<lparr>b_data := v\<rparr>) st1) = Inr st3 \<and> brelse buf st3 = Inr st4
          \<and> calm (l_dev st) P st4 \<and> contents (l_dev st) st4 = (contents (l_dev st) st)(l_start st := v)
          \<and> disk st4 = (disk st)(l_start st := v) \<and> disk_log st4 = disk_log st @ [(l_start st, v)] \<and> bframe st st4"
    by blast
  then obtain st3 st4 where v: "bwrite buf (upd_buf buf (\<lambda>x. x\<lparr>b_data := h\<rparr>) st1) = Inr st3" "brelse buf st3 = Inr st4"
    "log_step_inv st P ((contents (l_dev st) st)(l_start st := h)) ((disk st)(l_start st := h)) [(l_start st, h)] st4"
    unfolding log_step_inv_def by blast
  note fr = bframe_log [OF w(3)] bframe_log [OF bframe_upd_buf]
  have hh: "fold (\<lambda>i x. put32 x (4 + 4 * i) (l_block st ! i)) [0..<nat (l_n st)]
      (put32 (b_data (bufs st1 buf)) 0 (of_int (l_n st))) = h"
    using w(2) by (simp add: h_def header_of_def)
  have up: "upd_buf buf (\<lambda>x. x\<lparr>b_data := fold (\<lambda>i x. put32 x (4 + 4 * i) (l_block st ! i)) [0..<nat (l_n st)]
      (put32 (b_data x) 0 (of_int (l_n st)))\<rparr>) st1 = upd_buf buf (\<lambda>x. x\<lparr>b_data := h\<rparr>) st1"
    unfolding upd_buf_def using hh by (simp add: fun_upd_def)
  have "nat (l_n st) \<le> LOGSIZE" using n by simp
  then have "write_head st = Inr st4"
    using v(1,2) up by (simp add: write_head_def w(1) Let_def fr write_head_loop upd_buf_upd_buf)
  with v(3) show ?thesis by blast
qed

lemma read_head_loop:
  assumes "k \<le> LOGSIZE" and "length (l_block st) = LOGSIZE"
  shows "rfold (\<lambda>i. set_log_block i (f i)) [0..<k] st = Inr (st\<lparr>l_block := map f [0..<k] @ drop k (l_block st)\<rparr>)"
  using assms
proof (induction k)
  case (Suc k)
  then have "drop k (l_block st) = l_block st ! k # drop (Suc k) (l_block st)"
    by (simp add: Cons_nth_drop_Suc)
  with Suc show ?case by (simp add: rfold_append set_log_block_def list_update_append)
qed simp

lemma log_view [simp]:
  fixes st :: "'a fslog_scheme"
  shows "contents dev (st\<lparr>l_n := n\<rparr>) = contents dev st" "calm dev P (st\<lparr>l_n := n\<rparr>) = calm dev P st"
    "contents dev (st\<lparr>l_block := bs\<rparr>) = contents dev st" "calm dev P (st\<lparr>l_block := bs\<rparr>) = calm dev P st"
    "contents dev (st\<lparr>l_start := a\<rparr>) = contents dev st" "calm dev P (st\<lparr>l_start := a\<rparr>) = calm dev P st"
    "contents dev (st\<lparr>l_size := z\<rparr>) = contents dev st" "calm dev P (st\<lparr>l_size := z\<rparr>) = calm dev P st"
    "contents dev (st\<lparr>l_dev := d\<rparr>) = contents dev st" "calm dev P (st\<lparr>l_dev := d\<rparr>) = calm dev P st"
    "contents dev (st\<lparr>l_committing := c\<rparr>) = contents dev st" "calm dev P (st\<lparr>l_committing := c\<rparr>) = calm dev P st"
    "contents dev (st\<lparr>l_outstanding := k\<rparr>) = contents dev st" "calm dev P (st\<lparr>l_outstanding := k\<rparr>) = calm dev P st"
  by (rule contents_cong calm_cong; simp)+

section \<open>Commit and recovery\<close>

definition commit_writes :: "u32 \<Rightarrow> nat \<Rightarrow> u32 list \<Rightarrow> (u32 \<Rightarrow> block) \<Rightarrow> (u32 \<times> block) list" where
  "commit_writes start n bs C =
     (let h = header_of (int n) bs (C start)
      in log_writes start (take n bs) C n @ [(start, h)] @ home_writes (take n bs) C n @ [(start, header_of 0 bs h)])"

lemma apply_log_writes:
  assumes "unat start + LOGSIZE < 2 ^ 32" and "k < LOGSIZE"
  shows "apply_writes (log_writes start bs C k) D start = D start"
    and "t < k \<Longrightarrow> apply_writes (log_writes start bs C k) D (log_at start t) = C (bs ! t)"
proof -
  show "apply_writes (log_writes start bs C k) D start = D start"
  proof (rule apply_writes_other)
    have "log_at start t \<noteq> start" if "t < k" for t using log_at_facts(2) [OF assms(1), of t] that assms(2) by simp
    then show "start \<notin> fst ` set (log_writes start bs C k)" by (fastforce simp: log_writes_def)
  qed
  show "t < k \<Longrightarrow> apply_writes (log_writes start bs C k) D (log_at start t) = C (bs ! t)"
    using assms(2)
  proof (induction k)
    case (Suc k)
    then show ?case using log_at_facts(3) [OF assms(1), of t k] by (auto simp: log_writes_Suc less_Suc_eq)
  qed simp
qed

lemma apply_home_writes:
  "k \<le> length bs \<Longrightarrow> apply_writes (home_writes bs C k) D b = (if b \<in> set (take k bs) then C b else D b)"
proof (induction k)
  case (Suc k)
  then show ?case by (auto simp: home_writes_Suc take_Suc_conv_app_nth)
qed (simp add: home_writes_def)

lemma install_as_home_writes:
  "(\<And>t. t < k \<Longrightarrow> X (log_at start t) = C (bs ! t)) \<Longrightarrow> install_writes start bs X k = home_writes bs C k"
  by (simp add: install_writes_def home_writes_def)

lemma bframe_l_n: "bframe st st' \<Longrightarrow> bframe (st\<lparr>l_n := n\<rparr>) (st'\<lparr>l_n := n\<rparr>)"
  for st :: "'a fslog_scheme"
  by (cases st; cases st') (simp add: bframe_def)

lemma commit_ok:
  assumes wf: "log_wf st" and pos: "0 < l_n st" and n: "nat (l_n st) < NBUF"
    and calm: "calm (l_dev st) (home_pins (homes st)) st"
  defines "ws \<equiv> commit_writes (l_start st) (nat (l_n st)) (l_block st) (contents (l_dev st) st)"
  shows "\<exists>st'. commit st = Inr st' \<and> disk_log st' = disk_log st @ ws \<and> disk st' = apply_writes ws (disk st)
     \<and> calm (l_dev st) (\<lambda>_. 0) st' \<and> bframe (st\<lparr>l_n := 0\<rparr>) st'"
proof -
  let ?n = "nat (l_n st)" and ?bs = "homes st" and ?start = "l_start st" and ?dev = "l_dev st"
  define C D where "C = contents ?dev st" and "D = disk st"
  define lw where "lw = log_writes ?start ?bs C ?n"
  define h where "h = header_of (l_n st) (l_block st) (C ?start)"
  have start: "unat ?start + LOGSIZE < 2 ^ 32" "?n < LOGSIZE" "l_n st \<le> int LOGSIZE" "int ?n = l_n st"
    "length (l_block st) = LOGSIZE"
    using wf by (auto simp: log_wf_def)
  have few: "card {b. home_pins ?bs b \<noteq> 0} < NBUF" using home_pins_card [of ?bs] n by simp
  have P: "home_pins ?bs ?start = 0"
    using wf by (auto simp: home_pins_def log_wf_def in_log_def)
  obtain s1 where s1: "write_log st = Inr s1" "calm ?dev (home_pins ?bs) s1" "contents ?dev s1 = apply_writes lw C"
    "disk s1 = apply_writes lw D" "disk_log s1 = disk_log st @ lw" "bframe st s1"
    using write_log_ok [OF wf n calm] by (auto simp: log_step_inv_def C_def D_def lw_def)
  note f1 = bframe_log [OF s1(6)]
  have C1: "apply_writes lw C ?start = C ?start" using apply_log_writes(1) [OF start(1,2)] by (simp add: lw_def)
  obtain s2 where s2: "write_head s1 = Inr s2" "calm ?dev (home_pins ?bs) s2"
    "contents ?dev s2 = (apply_writes lw C)(?start := h)"
    "disk s2 = apply_writes (lw @ [(?start, h)]) D" "disk_log s2 = disk_log st @ lw @ [(?start, h)]" "bframe s1 s2"
    using write_head_ok [of s1 "home_pins ?bs"] s1 P few start(3) C1 by (auto simp: log_step_inv_def f1 h_def)
  note f2 = bframe_log [OF s2(6)]
  have X: "contents ?dev s2 (log_at ?start t) = C (?bs ! t)" if "t < ?n" for t
    using apply_log_writes(2) [OF start(1,2) that, of ?bs C C] log_at_facts(2) [OF start(1), of t] that start(2)
    unfolding s2(3) lw_def by simp
  have wf2: "log_wf s2" using wf by (simp add: log_wf_def f1 f2)
  obtain s3 where s3: "install_trans False s2 = Inr s3" "calm ?dev (\<lambda>_. 0) s3"
    "contents ?dev s3 = apply_writes (home_writes ?bs C ?n) (contents ?dev s2)"
    "disk s3 = apply_writes (home_writes ?bs C ?n) (disk s2)" "disk_log s3 = disk_log s2 @ home_writes ?bs C ?n" "bframe s2 s3"
  proof -
    have "install_writes ?start ?bs (contents ?dev s2) ?n = home_writes ?bs C ?n"
      by (rule install_as_home_writes) (rule X)
    moreover have "home_pins (drop ?n ?bs) = (\<lambda>_. 0)" by (simp add: home_pins_def fun_eq_iff)
    ultimately show thesis
      using install_trans_ok [OF wf2, of False] n s2(2) that by (auto simp: log_step_inv_def f1 f2)
  qed
  note f3 = bframe_log [OF s3(6)]
  have "contents ?dev s3 ?start = h"
    using apply_home_writes [of ?n ?bs C "contents ?dev s2" ?start] P start(2,5) s2(3)
    unfolding s3(3) by (auto simp: home_pins_def split: if_splits)
  moreover have "card {b. (\<lambda>_ :: u32. 0 :: u32) b \<noteq> 0} < NBUF" by (simp add: NBUF_def)
  ultimately obtain s4 where s4: "write_head (s3\<lparr>l_n := 0\<rparr>) = Inr s4" "calm ?dev (\<lambda>_. 0) s4"
    "disk s4 = apply_writes ws D" "disk_log s4 = disk_log st @ ws" "bframe (s3\<lparr>l_n := 0\<rparr>) s4"
    using write_head_ok [of "s3\<lparr>l_n := 0\<rparr>" "\<lambda>_. 0"] s3(2,4,5) s2(4,5) start(4)
    by (auto simp: log_step_inv_def f1 f2 f3 h_def ws_def commit_writes_def Let_def C_def D_def lw_def
        apply_writes_append apply_writes_def)
  have "bframe st s3" using s1(6) s2(6) s3(6) bframe_trans by blast
  then have "bframe (st\<lparr>l_n := 0\<rparr>) s4" using bframe_l_n s4(5) bframe_trans by blast
  moreover have "commit st = Inr s4" using pos s1(1) s2(1) s3(1) s4(1) by (simp add: commit_def)
  ultimately show ?thesis using s4 by (simp add: D_def)
qed

lemma upd_buf_log: "upd_buf b f (st\<lparr>l_n := n, l_block := bs\<rparr>) = (upd_buf b f st)\<lparr>l_n := n, l_block := bs\<rparr>"
  by (simp add: upd_buf_def)

lemma brelse_log:
  "brelse b (st\<lparr>l_n := n, l_block := bs\<rparr>) = map_sum id (\<lambda>s. s\<lparr>l_n := n, l_block := bs\<rparr>) (brelse b st)"
proof -
  have "move_to_front b (s\<lparr>l_n := n, l_block := bs\<rparr>) = (move_to_front b s)\<lparr>l_n := n, l_block := bs\<rparr>" for s :: "'a fslog_scheme"
    by (simp add: move_to_front_def Let_def upd_buf_log del: upd_buf_simps)
  then show ?thesis by (simp add: brelse_def Let_def upd_buf_log del: upd_buf_simps)
qed

lemma sint_of_int_u32: "0 \<le> n \<Longrightarrow> n < 2 ^ 31 \<Longrightarrow> sint (of_int n :: u32) = n"
  by (simp add: signed_of_int signed_take_bit_int_eq_self)

lemma recover_ok:
  fixes st :: "'a fslog_scheme"
  defines "D \<equiv> disk st" and "start \<equiv> l_start st"
  defines "n \<equiv> sint (get32 (D start) 0)"
  defines "bs \<equiv> map (\<lambda>i. get32 (D start) (4 + 4 * i)) [0..<nat n]"
  assumes calm: "calm (l_dev st) (\<lambda>_. 0) st" and len: "length (l_block st) = LOGSIZE"
    and start: "unat start + LOGSIZE < 2 ^ 32" and n: "0 \<le> n" "nat n < NBUF"
    and bs: "distinct bs" "\<forall>b \<in> set bs. \<not> in_log start b"
  shows "\<exists>st' h. recover_from_log st = Inr st' \<and> get32 h 0 = 0
     \<and> disk st' = (apply_writes (install_writes start bs D (nat n)) D)(start := h)
     \<and> calm (l_dev st) (\<lambda>_. 0) st' \<and> l_n st' = 0"
proof -
  let ?dev = "l_dev st"
  have C: "contents ?dev st = D"
    using calm unpinned_contents by (fastforce simp: calm_def D_def fun_eq_iff)
  have few: "card {b. (\<lambda>_ :: u32. 0 :: u32) b \<noteq> 0} < NBUF" by (simp add: NBUF_def)
  have nL: "nat n < LOGSIZE" using n by (simp add: NBUF_def LOGSIZE_def)
  from write_block [OF calm _ few, of start] obtain buf st1 st2 where
    b: "bread ?dev start st = Inr (buf, st1)" "b_data (bufs st1 buf) = D start" "bframe st st1"
    and r: "brelse buf st1 = Inr st2" "calm ?dev (\<lambda>_. 0) st2" "contents ?dev st2 = D" "disk st2 = D" "bframe st st2"
    unfolding C D_def by blast
  note f1 = bframe_log [OF b(3)] and f2 = bframe_log [OF r(5)]
  define lb where "lb = bs @ drop (nat n) (l_block st)"
  define s2 where "s2 = st2\<lparr>l_n := n, l_block := lb\<rparr>"
  have "read_head st = Inr s2"
    using r(1) nL len by (simp add: read_head_def b Let_def read_head_loop start_def [symmetric] n_def [symmetric]
        bs_def [symmetric] f1 brelse_log lb_def s2_def)
  moreover have lb: "length lb = LOGSIZE" "take (nat n) lb = bs" using nL len by (simp_all add: lb_def bs_def)
  have v2: "calm ?dev (\<lambda>_. 0) s2" "contents ?dev s2 = D" "disk s2 = D" "l_dev s2 = ?dev" "l_start s2 = start"
    "l_n s2 = n" "l_block s2 = lb"
    using r by (simp_all add: s2_def f2 start_def)
  have wf: "log_wf s2" using start n bs lb nL by (auto simp: log_wf_def v2)
  obtain s3 where s3: "install_trans True s2 = Inr s3" "calm ?dev (\<lambda>_. 0) s3"
    "disk s3 = apply_writes (install_writes start bs D (nat n)) D" "bframe s2 s3"
    using install_trans_ok [OF wf, of True] n v2 lb by (auto simp: log_step_inv_def)
  note f3 = bframe_log [OF s3(4)]
  obtain s4 where s4: "write_head (s3\<lparr>l_n := 0\<rparr>) = Inr s4" "calm ?dev (\<lambda>_. 0) s4"
    "disk s4 = (disk s3)(start := header_of 0 lb (contents ?dev s3 start))" "bframe (s3\<lparr>l_n := 0\<rparr>) s4"
    using write_head_ok [of "s3\<lparr>l_n := 0\<rparr>" "\<lambda>_. 0"] s3(2) few by (auto simp: log_step_inv_def f3 v2)
  have "recover_from_log st = Inr s4"
    using \<open>read_head st = Inr s2\<close> s3(1) s4(1) by (simp add: recover_from_log_def)
  moreover have "get32 (header_of 0 lb (contents ?dev s3 start)) 0 = 0" using header_of_get(1) [of 0] by simp
  ultimately show ?thesis using s4 s3(3) bframe_log(6) [OF s4(4)] by auto
qed

section \<open>A crash during a commit\<close>

lemma binit_frame: "bframe st (binit st)"
proof -
  have "bframe s (fold binit_one xs s)" for xs and s :: "'a bio_scheme"
  proof (induction xs arbitrary: s)
    case (Cons x xs)
    have "bframe s (binit_one x s)" by (simp add: bframe_def binit_one_def Let_def upd_buf_def)
    with Cons show ?case using bframe_trans by (metis fold_simps(2))
  qed simp
  then show ?thesis unfolding binit_def using bframe_upd_buf bframe_trans by metis
qed

lemma boot_calm:
  assumes "\<And>j. blank_buf (bufs boot j)" and "dev \<noteq> 0"
  shows "calm dev (\<lambda>_. 0) (binit boot)"
  using binit_ok [OF assms] by (auto simp: calm_def)

lemma recovered:
  fixes boot :: "'a fslog_scheme"
  assumes boot: "\<And>j. blank_buf (bufs boot j)" "length (l_block boot) = LOGSIZE" "dev \<noteq> 0"
    and start: "unat start + LOGSIZE < 2 ^ 32"
    and hdr: "get32 (D start) 0 = of_int (int n)" "\<And>i. i < n \<Longrightarrow> get32 (D start) (4 + 4 * i) = bs ! i"
    and bs: "length bs = n" "n < NBUF" "distinct bs" "\<forall>b \<in> set bs. \<not> in_log start b"
    and blk: "\<And>t. t < n \<Longrightarrow> D (log_at start t) = C (bs ! t)"
  shows "\<exists>r. initlog dev start nlog (binit (boot\<lparr>disk := D\<rparr>)) = Inr r \<and> get32 (disk r start) 0 = 0
     \<and> (\<forall>b. \<not> in_log start b \<longrightarrow> disk r b = (if b \<in> set bs then C b else D b))"
proof -
  let ?b = "binit (boot\<lparr>disk := D\<rparr>)"
  define s where "s = ?b\<lparr>l_start := start, l_size := sint nlog, l_dev := dev\<rparr>"
  have calm: "calm dev (\<lambda>_. 0) s"
    using boot_calm [of "boot\<lparr>disk := D\<rparr>" dev] boot by (simp add: s_def)
  have v: "disk s = D" "l_start s = start" "l_dev s = dev" "length (l_block s) = LOGSIZE"
    using boot(2) binit_disk [of "boot\<lparr>disk := D\<rparr>"] bframe_log(7) [OF binit_frame, of "boot\<lparr>disk := D\<rparr>"]
    by (simp_all add: s_def)
  have n: "sint (get32 (D start) 0) = int n"
    unfolding hdr(1) by (rule sint_of_int_u32) (use bs(2) in \<open>simp_all add: NBUF_def\<close>)
  have m: "map (\<lambda>i. get32 (D start) (4 + 4 * i)) [0..<n] = bs"
    using hdr(2) bs(1) by (intro nth_equalityI) simp_all
  obtain r h where r: "recover_from_log s = Inr r" "get32 h 0 = 0"
    "disk r = (apply_writes (install_writes start bs D n) D)(start := h)"
    using recover_ok [of s] calm start bs by (auto simp: v n m)
  have "install_writes start bs D n = home_writes bs C n" by (rule install_as_home_writes) (rule blk)
  then have "disk r b = (if b \<in> set bs then C b else D b)" if "\<not> in_log start b" for b
    using r(3) that start apply_home_writes [of n bs C D b] bs(1) by (auto simp: in_log_def LOGSIZE_def)
  moreover have "initlog dev start nlog ?b = Inr r"
    using r(1) by (simp add: initlog_def LOGSIZE_def BSIZE_def s_def)
  ultimately show ?thesis using r by auto
qed

lemma take_map_upt: "take k (map f [0..<n]) = map f [0..<min k n]"
  by (simp add: take_map min_def)

lemma commit_disks:
  fixes C D :: "u32 \<Rightarrow> block"
  assumes start: "unat start + LOGSIZE < 2 ^ 32" and n: "n < LOGSIZE" "n \<le> length bs"
    and bs: "\<forall>b \<in> set (take n bs). \<not> in_log start b"
  defines "h \<equiv> header_of (int n) bs (C start)"
  defines "X \<equiv> \<lambda>k. apply_writes (take k (commit_writes start n bs C)) D"
  shows "k \<le> n \<Longrightarrow> X k start = D start \<and> (\<forall>b. \<not> in_log start b \<longrightarrow> X k b = D b)"
    and "n < k \<Longrightarrow> k < 2 * n + 2 \<Longrightarrow> X k start = h \<and> (\<forall>t<n. X k (log_at start t) = C (take n bs ! t))
        \<and> (\<forall>b. \<not> in_log start b \<and> b \<notin> set (take n bs) \<longrightarrow> X k b = D b)"
    and "2 * n + 2 \<le> k \<Longrightarrow> X k start = header_of 0 bs h
        \<and> (\<forall>b. \<not> in_log start b \<longrightarrow> X k b = (if b \<in> set (take n bs) then C b else D b))"
proof -
  let ?bs = "take n bs"
  let ?lw = "log_writes start ?bs C" and ?hw = "home_writes ?bs C"
  have len: "length (?lw j) = j" "length (?hw j) = j" for j by (simp_all add: log_writes_def home_writes_def)
  have out: "start \<notin> set ?bs" "\<And>t. t < n \<Longrightarrow> log_at start t \<notin> set ?bs" "\<And>b. \<not> in_log start b \<Longrightarrow> b \<noteq> start"
    "in_log start start"
    using bs log_at_facts(1) [OF start] n(1) by (fastforce simp: in_log_def)+
  have hw: "apply_writes (?hw j) Y b = (if b \<in> set (take j ?bs) then C b else Y b)" if "j \<le> n" for j Y b
    using that n by (simp add: apply_home_writes)
  have keep: "apply_writes (?hw j) Y b = Y b" if "j \<le> n" "b \<notin> set ?bs" for j Y b
    using hw [OF that(1)] that(2) set_take_subset [of j ?bs] by auto
  show "X k start = D start \<and> (\<forall>b. \<not> in_log start b \<longrightarrow> X k b = D b)" if "k \<le> n"
  proof -
    have "take k (commit_writes start n bs C) = ?lw k"
      using that by (simp add: commit_writes_def Let_def len) (simp add: log_writes_def take_map_upt min_def)
    then show ?thesis
      using apply_log_writes(1) [OF start, of k] log_writes_other [OF start, of k] that n(1) by (simp add: X_def)
  qed
  let ?Y = "(apply_writes (?lw n) D)(start := h)"
  have Y: "?Y start = h" "t < n \<Longrightarrow> ?Y (log_at start t) = C (?bs ! t)" "\<not> in_log start b \<Longrightarrow> ?Y b = D b" for t b
    using apply_log_writes(2) [OF start n(1), of t] log_at_facts(2) [OF start, of t] log_writes_other [OF start n(1), of b]
      n(1) out(3) [of b] by auto
  show "X k start = h \<and> (\<forall>t<n. X k (log_at start t) = C (?bs ! t))
        \<and> (\<forall>b. \<not> in_log start b \<and> b \<notin> set ?bs \<longrightarrow> X k b = D b)" if k: "n < k" "k < 2 * n + 2"
  proof -
    define j where "j = k - n - 1"
    have j: "k = n + 1 + j" "j \<le> n" using k by (auto simp: j_def)
    have "take k (commit_writes start n bs C) = ?lw n @ [(start, h)] @ ?hw j"
      using j by (simp add: commit_writes_def Let_def len h_def) (simp add: home_writes_def take_map_upt min_def)
    then have "X k = apply_writes (?hw j) ?Y" by (simp add: X_def apply_writes_append) (simp add: apply_writes_def)
    then show ?thesis using keep [OF j(2)] Y out by (simp del: fun_upd_apply)
  qed
  show "X k start = header_of 0 bs h \<and> (\<forall>b. \<not> in_log start b \<longrightarrow> X k b = (if b \<in> set ?bs then C b else D b))"
    if "2 * n + 2 \<le> k"
  proof -
    have "take k (commit_writes start n bs C) = (?lw n @ [(start, h)] @ ?hw n) @ [(start, header_of 0 bs h)]"
      using that by (simp add: commit_writes_def Let_def len h_def)
    then have "X k = (apply_writes (?hw n) ?Y)(start := header_of 0 bs h)"
      by (simp add: X_def apply_writes_append) (simp add: apply_writes_def)
    then show ?thesis using hw [OF order_refl] Y(3) out by auto
  qed
qed

section \<open>Writing a block inside a transaction\<close>

lemma log_index_bounds: "i \<le> log_index i k b bs \<and> log_index i k b bs \<le> i + k"
proof (induction i k b bs rule: log_index.induct)
  case (2 i k b bs)
  then show ?case by (cases "bs ! i = b") auto
qed simp

lemma log_index_hit: "log_index i k b bs < i + k \<Longrightarrow> bs ! log_index i k b bs = b"
  by (induction i k b bs rule: log_index.induct) auto

lemma log_index_miss: "log_index i k b bs = i + k \<Longrightarrow> i \<le> j \<Longrightarrow> j < i + k \<Longrightarrow> bs ! j \<noteq> b"
proof (induction i k b bs rule: log_index.induct)
  case (2 i k b bs)
  then show ?case by (cases "j = i") (auto split: if_splits)
qed simp

lemma log_index_homes:
  fixes b :: u32
  assumes "log_wf st"
  defines "r \<equiv> log_index 0 (nat (l_n st)) b (l_block st)"
  shows "if b \<in> set (homes st) then r < nat (l_n st) \<and> l_block st ! r = b else r = nat (l_n st)"
proof -
  have len: "nat (l_n st) \<le> length (l_block st)" using assms(1) by (auto simp: log_wf_def)
  have r: "r \<le> nat (l_n st)" using log_index_bounds [of 0 "nat (l_n st)" b "l_block st"] by (simp add: r_def)
  have hit: "r < nat (l_n st) \<Longrightarrow> l_block st ! r = b"
    unfolding r_def by (rule log_index_hit) simp
  have miss: "r = nat (l_n st) \<Longrightarrow> b \<notin> set (homes st)"
    using log_index_miss [of 0 "nat (l_n st)" b "l_block st"] len by (auto simp: r_def in_set_conv_nth)
  have "b \<in> set (homes st)" if "r < nat (l_n st)"
    using hit [OF that] that len by (auto simp: in_set_conv_nth)
  with r hit miss show ?thesis by (metis le_neq_implies_less)
qed

text \<open>What a transaction in progress keeps: the logged blocks are pinned, once each.\<close>

definition tx_inv :: "'a fslog_scheme \<Rightarrow> bool" where
  "tx_inv st \<longleftrightarrow> log_wf st \<and> calm (l_dev st) (home_pins (homes st)) st"

definition same_log :: "'a fslog_scheme \<Rightarrow> 'a fslog_scheme \<Rightarrow> bool" where
  "same_log st st' \<longleftrightarrow> l_start st' = l_start st \<and> l_size st' = l_size st \<and> l_outstanding st' = l_outstanding st
     \<and> l_committing st' = l_committing st \<and> l_dev st' = l_dev st \<and> disk st' = disk st \<and> disk_log st' = disk_log st"

lemma log_write_held:
  assumes inv: "log_wf st" and ok: "bio_ok dev st" and sl: "slot dev b st = Some i" and h: "held dev st b"
    and p: "pins dev st = (home_pins (homes st))(b := home_pins (homes st) b + 1)"
    and out: "1 \<le> l_outstanding st" and room: "l_n st + 1 < int LOGSIZE" "l_n st < l_size st - 1"
    and b: "\<not> in_log (l_start st) b" and dev: "dev = l_dev st"
  shows "\<exists>st'. log_write i st = Inr st' \<and> log_wf st' \<and> bio_ok dev st' \<and> (\<forall>x. slot dev x st' = slot dev x st)
     \<and> contents dev st' = contents dev st \<and> held dev st' = held dev st
     \<and> pins dev st' = (home_pins (homes st'))(b := 2) \<and> set (homes st') = insert b (set (homes st))
     \<and> l_n st' \<le> l_n st + (if b \<in> set (homes st) then 0 else 1) \<and> same_log st st'"
proof -
  let ?n = "nat (l_n st)" and ?r = "log_index 0 (nat (l_n st)) b (l_block st)"
  note r = log_index_homes [OF inv, of b]
  have n: "0 \<le> l_n st" "length (l_block st) = LOGSIZE" "?n < LOGSIZE" using inv room by (auto simp: log_wf_def)
  have bno: "b_blockno (bufs st i) = b" using slot_SomeD [OF sl] by simp
  have pb: "pins dev st b \<noteq> 0" using p by (auto simp: home_pins_def)
  show ?thesis
  proof (cases "b \<in> set (homes st)")
    case True
    then have rr: "?r < ?n" "l_block st ! ?r = b" using r by auto
    then have "log_write i st = Inr st"
      using n out room rr list_update_id [of "l_block st" ?r]
      by (simp add: log_write_def bno Let_def set_log_block_def)
    moreover have "pins dev st = (home_pins (homes st))(b := 2)" using p True by (simp add: home_pins_def)
    ultimately show ?thesis using inv ok True by (auto simp: same_log_def)
  next
    case False
    then have rr: "?r = ?n" using r by simp
    define st1 where "st1 = st\<lparr>l_block := (l_block st)[?n := b]\<rparr>"
    define st' where "st' = (bpin i st1)\<lparr>l_n := l_n st + 1\<rparr>"
    have f: "l_block (bpin i st1) = l_block st1" "l_n (bpin i st1) = l_n st1"
      using bframe_log [OF bframe_upd_buf] by (simp_all add: bpin_def)
    have "log_write i st = Inr st'"
      using n out room rr by (simp add: log_write_def bno Let_def set_log_block_def st'_def st1_def f [unfolded st1_def])
    have v1: "bio_ok dev st1" "slot dev x st1 = slot dev x st" "contents dev st1 = contents dev st"
      "pins dev st1 = pins dev st" "held dev st1 = held dev st" for x
      using view_cong [of st1 st dev] ok by (simp_all add: st1_def)
    have p1: "pins dev st1 b = 1" "pins dev st1 b \<noteq> 0" using p False by (simp_all add: v1 home_pins_def)
    have "b_refcnt (bufs st1 i) = 1" using slot_view(1) [of dev b st1 i] p1 sl v1(2) by simp
    then have bp: "bpin i st1 = upd_buf i (\<lambda>x. x\<lparr>b_refcnt := 2\<rparr>) st1" by (simp add: bpin_eq)
    note sr = set_refcnt_ok [OF v1(1) sl [folded v1(2)] p1(2), of 2]
    have v: "bio_ok dev st'" "slot dev x st' = slot dev x st" "contents dev st' = contents dev st"
      "pins dev st' = (pins dev st)(b := 2)" "held dev st' = held dev st" for x
      using view_cong [of st' "bpin i st1" dev] sr v1 by (simp_all add: st'_def bp)
    have fl: "l_start st' = l_start st" "l_size st' = l_size st" "l_outstanding st' = l_outstanding st"
      "l_committing st' = l_committing st" "l_dev st' = l_dev st" "disk st' = disk st" "disk_log st' = disk_log st"
      "l_n st' = l_n st + 1" "l_block st' = (l_block st)[?n := b]"
      using bframe_log [OF bframe_upd_buf [of st1 i]] by (simp_all add: st'_def bpin_def st1_def)
    have hs: "homes st' = homes st @ [b]"
      using n by (simp add: fl nat_add_distrib take_Suc_conv_app_nth)
    have "log_wf st'"
      using inv False b n room hs by (simp add: log_wf_def fl)
    moreover have "pins dev st' = (home_pins (homes st'))(b := 2)"
      unfolding v hs using p by (auto simp: home_pins_def fun_eq_iff)
    moreover have "set (homes st') = insert b (set (homes st))" unfolding hs by simp
    moreover have "same_log st st'" by (simp add: same_log_def fl)
    ultimately show ?thesis
      using \<open>log_write i st = Inr st'\<close> v(1-3,5) False fl(8) by (intro exI [of _ st']) simp
  qed
qed

text \<open>The pattern of every file-system update: read the block, change it, log it, release it.\<close>

definition tx_write :: "u32 \<Rightarrow> block \<Rightarrow> 'a fslog_scheme \<Rightarrow> 'a fslog_scheme res" where
  "tx_write b v st =
     rbind (bread (l_dev st) b st) (\<lambda>(i, st1).
     rbind (log_write i (upd_buf i (\<lambda>x. x\<lparr>b_data := v\<rparr>) st1)) (brelse i))"

lemma tx_write_ok:
  assumes inv: "tx_inv st" and out: "1 \<le> l_outstanding st" and room: "l_n st + 1 < int NBUF" "l_n st < l_size st - 1"
    and b: "\<not> in_log (l_start st) b"
  shows "\<exists>st'. tx_write b v st = Inr st' \<and> tx_inv st' \<and> contents (l_dev st) st' = (contents (l_dev st) st)(b := v)
     \<and> set (homes st') = insert b (set (homes st)) \<and> same_log st st'
     \<and> l_n st' \<le> l_n st + (if b \<in> set (homes st) then 0 else 1)"
proof -
  let ?dev = "l_dev st" and ?P = "home_pins (homes st)"
  have wf: "log_wf st" and calm: "calm ?dev ?P st" using inv by (simp_all add: tx_inv_def)
  have q: "bio_ok ?dev st" "held ?dev st = (\<lambda>_. False)" "pins ?dev st = ?P" using calm by (simp_all add: calm_def)
  have "length (homes st) < NBUF" using room wf by (auto simp: log_wf_def)
  then have few: "card {x. pins ?dev st x \<noteq> 0} < NBUF"
    using home_pins_card [of "homes st"] unfolding q(3) by linarith
  obtain i st1 where r1: "bread ?dev b st = Inr (i, st1)" "bio_ok ?dev st1" "slot ?dev b st1 = Some i"
    "contents ?dev st1 = contents ?dev st" "pins ?dev st1 = ?P(b := ?P b + 1)" "held ?dev st1 = (\<lambda>_. False)(b := True)"
    "disk st1 = disk st" "disk_log st1 = disk_log st" "bframe st st1"
    by (rule bread_ok [of ?dev st b]) (use q unused_buffer [OF q(1) few] in \<open>auto simp: home_pins_def\<close>)
  let ?st2 = "upd_buf i (\<lambda>x. x\<lparr>b_data := v\<rparr>) st1"
  have p1: "pins ?dev st1 b \<noteq> 0" using r1(5) by (simp add: home_pins_def)
  note sd = set_data_ok [OF r1(2,3) p1, where d = v]
  have "bframe st ?st2" using r1(9) bframe_trans bframe_upd_buf by blast
  note f = bframe_log [OF this]
  have w2: "log_wf ?st2" using wf by (simp add: log_wf_def f)
  have h2: "homes ?st2 = homes st" by (simp only: f)
  have p2: "pins ?dev ?st2 = (home_pins (homes ?st2))(b := home_pins (homes ?st2) b + 1)"
    unfolding h2 sd(4) r1(5) ..
  have s2: "slot ?dev b ?st2 = Some i" "held ?dev ?st2 b" "held ?dev ?st2 = (\<lambda>_. False)(b := True)"
    "contents ?dev ?st2 = (contents ?dev st)(b := v)"
    unfolding sd(2,3,5) r1(3,4,6) by simp_all
  have c2: "1 \<le> l_outstanding ?st2" "l_n ?st2 + 1 < int LOGSIZE" "l_n ?st2 < l_size ?st2 - 1" "\<not> in_log (l_start ?st2) b"
    "?dev = l_dev ?st2"
    using out room b by (simp_all add: f LOGSIZE_def NBUF_def)
  from log_write_held [OF w2 sd(1) s2(1,2) p2 c2] obtain st3 where r3: "log_write i ?st2 = Inr st3" "log_wf st3" "bio_ok ?dev st3" "slot ?dev b st3 = Some i"
    "contents ?dev st3 = (contents ?dev st)(b := v)" "held ?dev st3 = (\<lambda>_. False)(b := True)"
    "pins ?dev st3 = (home_pins (homes st3))(b := 2)" "set (homes st3) = insert b (set (homes st))"
    "l_n st3 \<le> l_n st + (if b \<in> set (homes st) then 0 else 1)" "same_log ?st2 st3"
    unfolding s2(3,4) f(6,7) using s2(1) by (elim exE conjE) simp
  obtain st4 where r4: "brelse i st3 = Inr st4" "bio_ok ?dev st4" "contents ?dev st4 = (contents ?dev st)(b := v)"
    "pins ?dev st4 = (home_pins (homes st3))(b := 1)" "held ?dev st4 = (\<lambda>_. False)" "disk st4 = disk st3"
    "disk_log st4 = disk_log st3" "bframe st3 st4"
    using brelse_ok [OF r3(3,4)] r3(5-7) by (auto simp: fun_upd_idem)
  note f4 = bframe_log [OF r4(8)]
  have same: "same_log st st4" using r3(10) r1(7,8) by (simp add: same_log_def f f4 r4)
  have "home_pins (homes st3) b = 1" using r3(8) by (simp add: home_pins_def)
  then have "calm ?dev (home_pins (homes st4)) st4" using r4 by (simp add: calm_def f4 fun_upd_idem)
  moreover have "log_wf st4" using r3(2) by (simp add: log_wf_def f4)
  ultimately have "tx_inv st4" using same by (simp add: tx_inv_def same_log_def)
  moreover have "tx_write b v st = Inr st4" using r1(1) r3(1) r4(1) by (simp add: tx_write_def)
  ultimately show ?thesis using r3(8,9) r4(3) same f4 by (intro exI [of _ st4]) simp
qed

lemma commit_crash:
  fixes st :: "'a fslog_scheme" and boot :: "'b fslog_scheme"
  assumes wf: "log_wf st" and n: "0 < l_n st" "l_n st < int NBUF"
    and calm: "calm (l_dev st) (home_pins (homes st)) st"
    and empty: "get32 (disk st (l_start st)) 0 = 0"
    and boot: "\<forall>j. blank_buf (bufs boot j)" "length (l_block boot) = LOGSIZE"
  shows "\<exists>st' ws. commit st = Inr st' \<and> disk_log st' = disk_log st @ ws \<and> nat (l_n st) < length ws
     \<and> calm (l_dev st) (\<lambda>_. 0) st' \<and> bframe (st\<lparr>l_n := 0\<rparr>) st' \<and> get32 (disk st' (l_start st)) 0 = 0
     \<and> (\<forall>b. \<not> in_log (l_start st) b \<longrightarrow> disk st' b = contents (l_dev st) st b) \<and>
     (\<forall>k \<le> length ws. \<exists>r.
        initlog (l_dev st) (l_start st) nlog (binit (boot\<lparr>disk := apply_writes (take k ws) (disk st)\<rparr>)) = Inr r
        \<and> get32 (disk r (l_start st)) 0 = 0
        \<and> (\<forall>b. \<not> in_log (l_start st) b \<longrightarrow>
              disk r b = (if k \<le> nat (l_n st) then disk st b else contents (l_dev st) st b)))"
proof -
  let ?n = "nat (l_n st)" and ?bs = "homes st" and ?start = "l_start st" and ?dev = "l_dev st"
  let ?C = "contents ?dev st" and ?D = "disk st"
  let ?ws = "commit_writes ?start ?n (l_block st) ?C"
  have w: "unat ?start + LOGSIZE < 2 ^ 32" "?n < LOGSIZE" "?n \<le> length (l_block st)" "distinct ?bs"
    "\<forall>b \<in> set ?bs. \<not> in_log ?start b" "length ?bs = ?n"
    using wf by (auto simp: log_wf_def)
  have nN: "?n < NBUF" using n by simp
  obtain st' where st': "commit st = Inr st'" "disk_log st' = disk_log st @ ?ws" "disk st' = apply_writes ?ws ?D"
    "calm ?dev (\<lambda>_. 0) st'" "bframe (st\<lparr>l_n := 0\<rparr>) st'"
    using commit_ok [OF wf n(1) nN calm] by blast
  have dev: "?dev \<noteq> 0" using calm by (simp add: calm_def bio_ok_def)
  note X = commit_disks [OF w(1-3,5), where C = ?C and D = ?D]
  note rec = recovered [where boot = boot and dev = ?dev and start = ?start and nlog = nlog and C = ?C,
      OF boot(1) [rule_format] boot(2) dev w(1)]
  have same: "?C b = ?D b" if "b \<notin> set ?bs" for b
    by (rule unpinned_contents) (use calm that in \<open>simp_all add: calm_def home_pins_def\<close>)
  have len: "length ?ws = 2 * ?n + 2" by (simp add: commit_writes_def Let_def log_writes_def home_writes_def)
  have fin: "get32 (disk st' ?start) 0 = 0" "\<not> in_log ?start b \<Longrightarrow> disk st' b = ?C b" for b
    using X(3) [of "length ?ws"] header_of_get(1) [of 0] same [of b] len by (auto simp: st'(3))
  let ?goal = "\<lambda>k. \<exists>r. initlog ?dev ?start nlog (binit (boot\<lparr>disk := apply_writes (take k ?ws) ?D\<rparr>)) = Inr r
        \<and> get32 (disk r ?start) 0 = 0
        \<and> (\<forall>b. \<not> in_log ?start b \<longrightarrow> disk r b = (if k \<le> ?n then ?D b else ?C b))"
  have "?goal k" for k
  proof -
    let ?X = "apply_writes (take k ?ws) ?D"
    consider "k \<le> ?n" | "?n < k" "k < 2 * ?n + 2" | "2 * ?n + 2 \<le> k" by linarith
    then show ?thesis
    proof cases
      case 1
      then show ?thesis using X(1) [OF 1] rec [where D = ?X and n = 0 and bs = "[]"] empty
        by (simp add: NBUF_def)
    next
      case 2
      have "get32 (?X ?start) 0 = of_int (int ?n)" "i < ?n \<Longrightarrow> get32 (?X ?start) (4 + 4 * i) = ?bs ! i" for i
        using X(2) [OF 2] header_of_get(1) [of "int ?n"] header_of_get(2) [of i "int ?n"] by simp_all
      from rec [where D = ?X and n = ?n and bs = ?bs, OF this w(6) nN w(4,5)] X(2) [OF 2]
      show ?thesis using 2(1) same by auto
    next
      case 3
      have "get32 (?X ?start) 0 = of_int (int 0)" using X(3) [OF 3] header_of_get(1) [of 0] by simp
      from rec [where D = ?X and n = 0 and bs = "[]", OF this] X(3) [OF 3] 3 same
      show ?thesis by (auto simp: NBUF_def)
    qed
  qed
  with st' fin len show ?thesis by (intro exI [of _ st'] exI [of _ ?ws]) simp
qed


section \<open>Whole transactions\<close>

definition tx_run :: "(u32 \<times> block) list \<Rightarrow> 'a fslog_scheme \<Rightarrow> 'a fslog_scheme res" where
  "tx_run ws = rfold (\<lambda>(b, v). tx_write b v) ws"

definition transaction :: "(u32 \<times> block) list \<Rightarrow> 'a fslog_scheme \<Rightarrow> 'a fslog_scheme res" where
  "transaction ws st = rbind (begin_op st) (\<lambda>st1. rbind (tx_run ws st1) end_op)"

text \<open>The log between transactions: nothing logged, nothing pinned, an empty log on disk.\<close>

definition log_idle :: "'a fslog_scheme \<Rightarrow> bool" where
  "log_idle st \<longleftrightarrow> tx_inv st \<and> l_n st = 0 \<and> l_outstanding st = 0 \<and> \<not> l_committing st
     \<and> l_size st = int LOGSIZE \<and> get32 (disk st (l_start st)) 0 = 0"

lemma same_log_trans: "same_log st st1 \<Longrightarrow> same_log st1 st2 \<Longrightarrow> same_log st st2"
  by (simp add: same_log_def)

lemma tx_run_ok:
  assumes "tx_inv st" and "1 \<le> l_outstanding st" and "l_n st + int (length ws) < int NBUF"
    and "l_n st + int (length ws) < l_size st" and "\<forall>(b, v) \<in> set ws. \<not> in_log (l_start st) b"
  shows "\<exists>st'. tx_run ws st = Inr st' \<and> tx_inv st' \<and> contents (l_dev st) st' = apply_writes ws (contents (l_dev st) st)
     \<and> set (homes st') = fst ` set ws \<union> set (homes st) \<and> same_log st st' \<and> l_n st' \<le> l_n st + int (length ws)"
  using assms
proof (induction ws arbitrary: st)
  case (Cons w ws)
  obtain b v where w: "w = (b, v)" by (cases w)
  have "l_n st + 1 < int NBUF" "l_n st < l_size st - 1" "\<not> in_log (l_start st) b" using Cons.prems w by auto
  from tx_write_ok [OF Cons.prems(1,2) this, of v] obtain st1 where s1: "tx_write b v st = Inr st1" "tx_inv st1"
    "contents (l_dev st) st1 = (contents (l_dev st) st)(b := v)" "set (homes st1) = insert b (set (homes st))"
    "same_log st st1" "l_n st1 \<le> l_n st + (if b \<in> set (homes st) then 0 else 1)" by blast
  have f: "l_outstanding st1 = l_outstanding st" "l_size st1 = l_size st" "l_start st1 = l_start st" "l_dev st1 = l_dev st"
    using s1(5) by (simp_all add: same_log_def)
  have n1: "l_n st1 \<le> l_n st + 1" using s1(6) by (simp split: if_splits)
  have "\<exists>st'. tx_run ws st1 = Inr st' \<and> tx_inv st' \<and> contents (l_dev st1) st' = apply_writes ws (contents (l_dev st1) st1)
     \<and> set (homes st') = fst ` set ws \<union> set (homes st1) \<and> same_log st1 st' \<and> l_n st' \<le> l_n st1 + int (length ws)"
    by (rule Cons.IH) (use s1(2) Cons.prems n1 in \<open>simp_all add: f\<close>)
  then obtain st' where s': "tx_run ws st1 = Inr st'" "tx_inv st'"
    "contents (l_dev st1) st' = apply_writes ws (contents (l_dev st1) st1)"
    "set (homes st') = fst ` set ws \<union> set (homes st1)" "same_log st1 st'" "l_n st' \<le> l_n st1 + int (length ws)" by blast
  have "tx_run (w # ws) st = Inr st'" using s1(1) s'(1) by (simp add: tx_run_def w)
  moreover have "contents (l_dev st) st' = apply_writes (w # ws) (contents (l_dev st) st)"
    using s'(3) s1(3) by (simp add: f apply_writes_def w)
  moreover have "set (homes st') = fst ` set (w # ws) \<union> set (homes st)" using s'(4) s1(4) by (simp add: w)
  moreover have "l_n st' \<le> l_n st + int (length (w # ws))" using s'(6) n1 by simp
  ultimately show ?case using s'(2) same_log_trans [OF s1(5) s'(5)] by blast
qed (simp add: tx_run_def same_log_def)

lemma begin_op_idle:
  assumes "log_idle st"
  shows "begin_op st = Inr (st\<lparr>l_outstanding := 1\<rparr>)" and "tx_inv (st\<lparr>l_outstanding := 1\<rparr>)"
    and "contents (l_dev st) st = disk st" and "homes st = []"
proof -
  show "begin_op st = Inr (st\<lparr>l_outstanding := 1\<rparr>)" "tx_inv (st\<lparr>l_outstanding := 1\<rparr>)" "homes st = []"
    using assms by (auto simp: log_idle_def begin_op_def MAXOPBLOCKS_def LOGSIZE_def tx_inv_def log_wf_def)
  have "calm (l_dev st) (\<lambda>_. 0) st" using assms by (auto simp: log_idle_def tx_inv_def home_pins_def [abs_def])
  then show "contents (l_dev st) st = disk st"
    using unpinned_contents [of "l_dev st" st] by (auto simp: calm_def)
qed

lemma end_op_last:
  assumes "l_outstanding st = 1" and "\<not> l_committing st"
  shows "end_op st = rbind (commit (st\<lparr>l_outstanding := 0, l_committing := True\<rparr>)) (\<lambda>st2. Inr (st2\<lparr>l_committing := False\<rparr>))"
  using assms by (simp add: end_op_def Let_def)

lemma log_idle_after:
  assumes "log_wf st" and "bframe (st\<lparr>l_n := 0\<rparr>) st'" and "calm (l_dev st) (\<lambda>_. 0) st'" and "l_outstanding st = 0"
    and "l_size st = int LOGSIZE" and "get32 (disk st' (l_start st)) 0 = 0"
  shows "log_idle (st'\<lparr>l_committing := False\<rparr>)"
proof -
  note f = bframe_log [OF assms(2)]
  have "log_wf (st'\<lparr>l_committing := False\<rparr>)" using assms(1) by (auto simp: log_wf_def f)
  then show ?thesis using assms(3-6) by (simp add: log_idle_def tx_inv_def f home_pins_def [abs_def])
qed

lemma reboot_idle:
  fixes st :: "'a fslog_scheme" and boot :: "'b fslog_scheme"
  assumes "log_idle st" and "\<forall>j. blank_buf (bufs boot j)" and "length (l_block boot) = LOGSIZE"
  shows "\<exists>r. initlog (l_dev st) (l_start st) nlog (binit (boot\<lparr>disk := disk st\<rparr>)) = Inr r
     \<and> (\<forall>b. \<not> in_log (l_start st) b \<longrightarrow> disk r b = disk st b)"
proof -
  have "l_dev st \<noteq> 0" "unat (l_start st) + LOGSIZE < 2 ^ 32" "get32 (disk st (l_start st)) 0 = 0"
    using assms(1) by (auto simp: log_idle_def tx_inv_def calm_def bio_ok_def log_wf_def)
  from recovered [where bs = "[]" and n = 0 and D = "disk st" and nlog = nlog, OF assms(2) [rule_format] assms(3) this(1,2)] this(3)
  show ?thesis by (auto simp: NBUF_def)
qed

lemma tx_write_full:
  assumes inv: "tx_inv st" and n: "l_n st < int NBUF" "l_n st \<ge> l_size st - 1"
  shows "tx_write b v st = Inl (Panic ''too big a transaction'')"
proof -
  let ?dev = "l_dev st" and ?P = "home_pins (homes st)"
  have wf: "log_wf st" and calm: "calm ?dev ?P st" using inv by (simp_all add: tx_inv_def)
  have q: "bio_ok ?dev st" "held ?dev st = (\<lambda>_. False)" "pins ?dev st = ?P" using calm by (simp_all add: calm_def)
  have "length (homes st) < NBUF" using n wf by (auto simp: log_wf_def)
  then have few: "card {x. pins ?dev st x \<noteq> 0} < NBUF"
    using home_pins_card [of "homes st"] unfolding q(3) by linarith
  obtain i st1 where r1: "bread ?dev b st = Inr (i, st1)" "bframe st st1"
    by (rule bread_ok [of ?dev st b]) (use q unused_buffer [OF q(1) few] in \<open>auto simp: home_pins_def\<close>)
  then have "bframe st (upd_buf i (\<lambda>x. x\<lparr>b_data := v\<rparr>) st1)" using bframe_trans bframe_upd_buf by blast
  note f = bframe_log [OF this]
  show ?thesis using r1 n by (simp add: tx_write_def log_write_def f)
qed

section \<open>Properties\<close>

text \<open>C3. Transactions are atomic and durable. From an idle log a transaction (\<^verbatim>\<open>begin_op\<close>, at most \<^verbatim>\<open>MAXOPBLOCKS\<close>
  logged block updates outside the log region, \<^verbatim>\<open>end_op\<close>) returns with the log idle again and all the updates
  on the disk. If the machine stops after any number \<open>k\<close> of the disk writes \<open>ds\<close> of the transaction, the
  next boot (\<^verbatim>\<open>binit\<close>, \<^verbatim>\<open>initlog\<close>) recovers without failing, and there is a commit point \<open>c\<close> such that every
  block outside the log holds its old contents if \<open>k < c\<close> and its new contents otherwise.\<close>

theorem transaction_atomic:
  fixes st :: "'a fslog_scheme" and boot :: "'b fslog_scheme"
  assumes idle: "log_idle st" and ws: "length ws \<le> MAXOPBLOCKS" "\<forall>(b, v) \<in> set ws. \<not> in_log (l_start st) b"
    and boot: "\<forall>j. blank_buf (bufs boot j)" "length (l_block boot) = LOGSIZE"
  shows "\<exists>st' ds c. transaction ws st = Inr st' \<and> log_idle st' \<and> disk_log st' = disk_log st @ ds \<and> c \<le> length ds
     \<and> (\<forall>b. \<not> in_log (l_start st) b \<longrightarrow> disk st' b = apply_writes ws (disk st) b)
     \<and> (\<forall>k \<le> length ds. \<exists>r.
          initlog (l_dev st) (l_start st) nlog (binit (boot\<lparr>disk := apply_writes (take k ds) (disk st)\<rparr>)) = Inr r
          \<and> (\<forall>b. \<not> in_log (l_start st) b \<longrightarrow>
                disk r b = (if k < c then disk st b else apply_writes ws (disk st) b)))"
proof -
  let ?dev = "l_dev st" and ?start = "l_start st"
  note b = begin_op_idle [OF idle]
  let ?s0 = "st\<lparr>l_outstanding := 1\<rparr>"
  have i: "l_n st = 0" "l_size st = int LOGSIZE" "\<not> l_committing st" "get32 (disk st ?start) 0 = 0"
    using idle by (simp_all add: log_idle_def)
  have "\<exists>st'. tx_run ws ?s0 = Inr st' \<and> tx_inv st' \<and> contents (l_dev ?s0) st' = apply_writes ws (contents (l_dev ?s0) ?s0)
     \<and> set (homes st') = fst ` set ws \<union> set (homes ?s0) \<and> same_log ?s0 st' \<and> l_n st' \<le> l_n ?s0 + int (length ws)"
    by (rule tx_run_ok) (use b(2) ws i in \<open>simp_all add: NBUF_def LOGSIZE_def MAXOPBLOCKS_def\<close>)
  then obtain s1 where s1: "tx_run ws ?s0 = Inr s1" "tx_inv s1" "contents ?dev s1 = apply_writes ws (disk st)"
    "set (homes s1) = fst ` set ws" "same_log ?s0 s1" "l_n s1 \<le> int (length ws)"
    using b(3,4) i(1) by auto
  have f: "l_start s1 = ?start" "l_dev s1 = ?dev" "l_outstanding s1 = 1" "\<not> l_committing s1" "l_size s1 = int LOGSIZE"
    "disk s1 = disk st" "disk_log s1 = disk_log st"
    using s1(5) i by (simp_all add: same_log_def)
  define s2 where "s2 = s1\<lparr>l_outstanding := 0, l_committing := True\<rparr>"
  have g: "log_wf s2" "calm ?dev (home_pins (homes s2)) s2" "l_start s2 = ?start" "l_dev s2 = ?dev" "disk s2 = disk st"
    "disk_log s2 = disk_log st" "contents ?dev s2 = apply_writes ws (disk st)" "l_n s2 = l_n s1" "0 \<le> l_n s1"
    "l_outstanding s2 = 0" "l_size s2 = int LOGSIZE"
    using s1(2,3) f by (simp_all add: s2_def tx_inv_def log_wf_def)
  have run: "transaction ws st = rbind (commit s2) (\<lambda>st2. Inr (st2\<lparr>l_committing := False\<rparr>))"
    using b(1) s1(1) end_op_last [OF f(3,4)] by (simp add: transaction_def s2_def)
  show ?thesis
  proof (cases "l_n s2 = 0")
    case True
    then have "set (homes s1) = {}" using g(8) by simp
    then have "ws = []" unfolding s1(4) by simp
    have fin: "log_idle (s2\<lparr>l_committing := False\<rparr>)"
    proof (rule log_idle_after [of s2])
      have "s2\<lparr>l_n := 0\<rparr> = s2" using True by (cases s2) simp
      then show "bframe (s2\<lparr>l_n := 0\<rparr>) s2" by simp
    qed (use g True i(4) in \<open>simp_all add: home_pins_def [abs_def]\<close>)
    show ?thesis
      using reboot_idle [OF idle boot] fin run True g(5,6) \<open>ws = []\<close>
      by (intro exI [of _ "s2\<lparr>l_committing := False\<rparr>"] exI [of _ "[]"] exI [of _ 0]) (simp add: commit_def)
  next
    case False
    then have n: "0 < l_n s2" "l_n s2 < int NBUF" using g(8,9) s1(6) ws(1) by (simp_all add: NBUF_def MAXOPBLOCKS_def)
    have pre: "calm (l_dev s2) (home_pins (homes s2)) s2" "get32 (disk s2 (l_start s2)) 0 = 0" using g i(4) by simp_all
    obtain s3 ds where c: "commit s2 = Inr s3" "disk_log s3 = disk_log st @ ds" "nat (l_n s2) < length ds"
      "calm ?dev (\<lambda>_. 0) s3" "bframe (s2\<lparr>l_n := 0\<rparr>) s3" "get32 (disk s3 ?start) 0 = 0"
      "\<forall>b. \<not> in_log ?start b \<longrightarrow> disk s3 b = apply_writes ws (disk st) b"
      "\<forall>k \<le> length ds. \<exists>r. initlog ?dev ?start nlog (binit (boot\<lparr>disk := apply_writes (take k ds) (disk st)\<rparr>)) = Inr r
         \<and> get32 (disk r ?start) 0 = 0
         \<and> (\<forall>b. \<not> in_log ?start b \<longrightarrow> disk r b = (if k \<le> nat (l_n s2) then disk st b else apply_writes ws (disk st) b))"
      using commit_crash [OF g(1) n pre boot, of nlog] unfolding g(3-7) by blast
    have fin: "log_idle (s3\<lparr>l_committing := False\<rparr>)"
      using g c(4-6) by (intro log_idle_after [of s2]) simp_all
    have "(k \<le> nat (l_n s2)) = (k < Suc (nat (l_n s2)))" for k by auto
    then show ?thesis
      using fin run c(1-3,7,8)
      by (intro exI [of _ "s3\<lparr>l_committing := False\<rparr>"] exI [of _ ds] exI [of _ "Suc (nat (l_n s2))"]) auto
  qed
qed

definition zero_fslog :: fslog where
  "zero_fslog = \<lparr>memory = (\<lambda>_. 0), freelist = 0, curpid = 1,
     bufs = (\<lambda>_. \<lparr>b_valid = False, b_dev = 0, b_blockno = 0, b_lock = initsleeplock, b_refcnt = 0,
              b_prev = 0, b_next = 0, b_data = (\<lambda>_. 0)\<rparr>),
     disk = (\<lambda>_ _. 0), disk_log = [], l_start = 2, l_size = 30, l_outstanding = 0, l_committing = False,
     l_dev = 1, l_n = 0, l_block = replicate 30 0\<rparr>"

lemma zero_fslog_boot: "\<forall>j. blank_buf (bufs zero_fslog j)" "length (l_block zero_fslog) = LOGSIZE"
  by (simp_all add: zero_fslog_def blank_buf_def initsleeplock_def LOGSIZE_def)

lemma binit_zero:
  "l_start (binit zero_fslog) = 2" "l_dev (binit zero_fslog) = 1" "disk (binit zero_fslog) = (\<lambda>_ _. 0)"
  "log_idle (binit zero_fslog)"
proof -
  note f = bframe_log [OF binit_frame [of zero_fslog]]
  have z: "calm 1 (\<lambda>_. 0) (binit zero_fslog)" using boot_calm [of zero_fslog 1] zero_fslog_boot by simp
  show v: "l_start (binit zero_fslog) = 2" "l_dev (binit zero_fslog) = 1" "disk (binit zero_fslog) = (\<lambda>_ _. 0)"
    by (simp_all add: f binit_disk) (simp_all add: zero_fslog_def)
  have "l_n (binit zero_fslog) = 0" "l_outstanding (binit zero_fslog) = 0" "\<not> l_committing (binit zero_fslog)"
    "l_size (binit zero_fslog) = 30" "length (l_block (binit zero_fslog)) = 30"
    by (simp_all add: f) (simp_all add: zero_fslog_def)
  with z v show "log_idle (binit zero_fslog)"
    by (simp add: log_idle_def tx_inv_def log_wf_def LOGSIZE_def home_pins_def [abs_def] get32_def)
qed

theorem transaction_atomic_witness:
  "\<exists>st' ds r. transaction [(100, \<lambda>_. 7), (200, \<lambda>_. 9)] (binit zero_fslog) = Inr st' \<and> disk st' 200 = (\<lambda>_. 9)
     \<and> initlog 1 2 30 (binit (zero_fslog\<lparr>disk := apply_writes (take 0 ds) (\<lambda>_ _. 0)\<rparr>)) = Inr r"
proof -
  let ?ws = "[(100, \<lambda>_. 7), (200, \<lambda>_. 9)] :: (u32 \<times> block) list"
  have ws: "length ?ws \<le> MAXOPBLOCKS" "\<forall>(b, v) \<in> set ?ws. \<not> in_log (l_start (binit zero_fslog)) b" "\<not> in_log 2 200"
    by (simp_all add: MAXOPBLOCKS_def in_log_def LOGSIZE_def binit_zero)
  from transaction_atomic [OF binit_zero(4) ws(1,2) zero_fslog_boot, of 30]
  obtain st' ds c where t: "transaction ?ws (binit zero_fslog) = Inr st'"
    "\<forall>b. \<not> in_log 2 b \<longrightarrow> disk st' b = apply_writes ?ws (\<lambda>_ _. 0) b"
    "\<forall>k \<le> length ds. \<exists>r. initlog 1 2 30 (binit (zero_fslog\<lparr>disk := apply_writes (take k ds) (\<lambda>_ _. 0)\<rparr>)) = Inr r
        \<and> (\<forall>b. \<not> in_log 2 b \<longrightarrow> disk r b = (if k < c then (\<lambda>_. 0) else apply_writes ?ws (\<lambda>_ _. 0) b))"
    unfolding binit_zero by blast
  have "disk st' 200 = (\<lambda>_. 9)" using t(2) ws(3) by (simp add: apply_writes_def)
  moreover have "\<exists>r. initlog 1 2 30 (binit (zero_fslog\<lparr>disk := apply_writes (take 0 ds) (\<lambda>_ _. 0)\<rparr>)) = Inr r"
    using t(3) [rule_format, of 0] by blast
  ultimately show ?thesis using t(1) by blast
qed

text \<open>C18. The reservations of \<^verbatim>\<open>begin_op\<close> exceed the capacity that \<^verbatim>\<open>log_write\<close> accepts: with the log of \<^verbatim>\<open>LOGSIZE\<close>
  blocks that \<^verbatim>\<open>mkfs\<close> creates, three operations are admitted from an idle log, but when together they update
  \<^verbatim>\<open>LOGSIZE\<close> distinct blocks, which is what they have reserved, the last update panics.\<close>

theorem log_reservation_overrun:
  fixes st :: "'a fslog_scheme"
  assumes idle: "log_idle st" and len: "length ws = 3 * MAXOPBLOCKS" and dist: "distinct (map fst ws)"
    and out: "\<forall>(b, v) \<in> set ws. \<not> in_log (l_start st) b"
  shows "\<exists>st3. rbind (rbind (begin_op st) begin_op) begin_op = Inr st3
     \<and> tx_run ws st3 = Inl (Panic ''too big a transaction'')"
proof -
  let ?s3 = "st\<lparr>l_outstanding := 3\<rparr>"
  have i: "l_n st = 0" "l_size st = int LOGSIZE" "\<not> l_committing st" "l_outstanding st = 0"
    using idle by (simp_all add: log_idle_def)
  have adm: "rbind (rbind (begin_op st) begin_op) begin_op = Inr ?s3"
    using i by (simp add: begin_op_def MAXOPBLOCKS_def LOGSIZE_def)
  have inv: "tx_inv ?s3" "homes ?s3 = []" using idle i(1) by (simp_all add: log_idle_def tx_inv_def log_wf_def)
  obtain xs b v where ws: "ws = xs @ [(b, v)]" using len by (cases ws rule: rev_cases) (auto simp: MAXOPBLOCKS_def)
  have "\<exists>st'. tx_run xs ?s3 = Inr st' \<and> tx_inv st' \<and> contents (l_dev ?s3) st' = apply_writes xs (contents (l_dev ?s3) ?s3)
     \<and> set (homes st') = fst ` set xs \<union> set (homes ?s3) \<and> same_log ?s3 st' \<and> l_n st' \<le> l_n ?s3 + int (length xs)"
    by (rule tx_run_ok) (use inv(1) len out i ws in \<open>simp_all add: NBUF_def LOGSIZE_def MAXOPBLOCKS_def\<close>)
  then obtain s where s: "tx_run xs ?s3 = Inr s" "tx_inv s" "set (homes s) = fst ` set xs" "same_log ?s3 s"
    "l_n s \<le> int (length xs)" using inv(2) i(1) by auto
  have "card (set (homes s)) = length xs"
    using dist unfolding s(3) ws by (simp add: distinct_card [of "map fst xs", simplified])
  moreover have "card (set (homes s)) \<le> nat (l_n s)" using card_length [of "homes s"] by simp
  ultimately have n: "l_n s = 29" using s(5) len ws by (simp add: MAXOPBLOCKS_def)
  have "tx_write b v s = Inl (Panic ''too big a transaction'')"
    by (rule tx_write_full [OF s(2)]) (use n s(4) i(2) in \<open>simp_all add: same_log_def NBUF_def LOGSIZE_def\<close>)
  then have "tx_run ws ?s3 = Inl (Panic ''too big a transaction'')"
    using s(1) by (simp add: tx_run_def ws rfold_append)
  with adm show ?thesis by blast
qed

theorem log_reservation_overrun_witness:
  "\<exists>st3. rbind (rbind (begin_op (binit zero_fslog)) begin_op) begin_op = Inr st3
     \<and> tx_run (map (\<lambda>i. (of_nat (100 + i), \<lambda>_. 7)) [0..<30]) st3 = Inl (Panic ''too big a transaction'')"
  by (rule log_reservation_overrun [OF binit_zero(4)])
    (simp_all add: MAXOPBLOCKS_def binit_zero upt_rec in_log_def LOGSIZE_def)

end
