(* ===== verification/Pipe.thy ===== *)
theory Pipe
  imports Ring
begin

text \<open>
  Pipes (\<^verbatim>\<open>kernel/pipe.c\<close>). A pipe is a 512-byte ring with 32-bit free-running counters and two
  open flags. Every routine runs with \<^verbatim>\<open>pi->lock\<close> held from its start to its return or to a call
  of \<^verbatim>\<open>sleep\<close>, so such a stretch is one function of the model; a call that sleeps reports the
  channel and where it resumes. The user memory accessed by \<^verbatim>\<open>copyin\<close> and \<^verbatim>\<open>copyout\<close>, and the
  answers of \<^verbatim>\<open>killed\<close>, are arguments. The theory shows that the ring carries a byte list, that
  writers and readers in any interleaving see a FIFO, and when sleepers can be left behind.
\<close>

section \<open>State and operations\<close>

definition PIPESIZE :: nat where
  "PIPESIZE = 512"

record pipe =
  data :: "u8 list"
  nread :: u32
  nwrite :: u32
  readopen :: bool
  writeopen :: bool

text \<open>The two sleep channels, \<^verbatim>\<open>&pi->nread\<close> and \<^verbatim>\<open>&pi->nwrite\<close>.\<close>

datatype pchan = NRead | NWrite

text \<open>How a stretch under the lock ends: it returns a value, or sleeps on a channel having
  handled the given number of bytes. The list beside it holds the channels passed to
  \<^verbatim>\<open>wakeup\<close>, in order.\<close>

datatype pipe_outcome = Return int | SleepOn pchan int

definition pipe_init :: "u8 list \<Rightarrow> pipe" where
  "pipe_init junk = \<lparr>data = junk, nread = 0, nwrite = 0, readopen = True, writeopen = True\<rparr>"

definition pipeclose :: "pipe \<Rightarrow> bool \<Rightarrow> pipe \<times> pchan list \<times> bool" where
  "pipeclose pi writable =
     (let (pi1, ws) = (if writable then (pi\<lparr>writeopen := False\<rparr>, [NRead])
                       else (pi\<lparr>readopen := False\<rparr>, [NWrite]))
      in (pi1, ws, \<not> readopen pi1 \<and> \<not> writeopen pi1))"

function pipewrite_loop ::
    "(u64 \<Rightarrow> u8 option) \<Rightarrow> (int \<Rightarrow> bool) \<Rightarrow> u64 \<Rightarrow> int \<Rightarrow> pipe \<Rightarrow> int
     \<Rightarrow> pipe_outcome \<times> pipe \<times> pchan list" where
  "pipewrite_loop copyin killed addr n pi i =
     (if i < n then
        if \<not> readopen pi \<or> killed i then (Return (-1), pi, [])
        else if nwrite pi = nread pi + of_nat PIPESIZE then (SleepOn NWrite i, pi, [NRead])
        else (case copyin (addr + of_int i) of
            None \<Rightarrow> (Return i, pi, [NRead])
          | Some ch \<Rightarrow>
              pipewrite_loop copyin killed addr n
                (pi\<lparr>data := (data pi)[unat (nwrite pi) mod PIPESIZE := ch],
                    nwrite := nwrite pi + 1\<rparr>) (i + 1))
      else (Return i, pi, [NRead]))"
  by pat_completeness auto
termination
  by (relation "measure (\<lambda>(copyin, killed, addr, n, pi, i). nat (n - i))") auto

definition pipewrite ::
    "(u64 \<Rightarrow> u8 option) \<Rightarrow> (int \<Rightarrow> bool) \<Rightarrow> u64 \<Rightarrow> int \<Rightarrow> pipe
     \<Rightarrow> pipe_outcome \<times> pipe \<times> pchan list" where
  "pipewrite copyin killed addr n pi = pipewrite_loop copyin killed addr n pi 0"

text \<open>The copying loop of \<^verbatim>\<open>piperead\<close>; the last component is the bytes stored in user memory at
  \<open>addr + i\<close>, \<open>addr + i + 1\<close>, \<dots> A byte whose \<^verbatim>\<open>copyout\<close> fails has already left the ring.\<close>

function piperead_copy ::
    "(u64 \<Rightarrow> u8 \<Rightarrow> bool) \<Rightarrow> u64 \<Rightarrow> int \<Rightarrow> pipe \<Rightarrow> int \<Rightarrow> int \<times> pipe \<times> u8 list" where
  "piperead_copy copyout addr n pi i =
     (if i < n \<and> nread pi \<noteq> nwrite pi then
        let ch = data pi ! (unat (nread pi) mod PIPESIZE);
            pi1 = pi\<lparr>nread := nread pi + 1\<rparr>
        in if copyout (addr + of_int i) ch
           then (let (r, pi2, bs) = piperead_copy copyout addr n pi1 (i + 1) in (r, pi2, ch # bs))
           else (i, pi1, [])
      else (i, pi, []))"
  by pat_completeness auto
termination
  by (relation "measure (\<lambda>(copyout, addr, n, pi, i). nat (n - i))") auto

definition piperead ::
    "(u64 \<Rightarrow> u8 \<Rightarrow> bool) \<Rightarrow> bool \<Rightarrow> u64 \<Rightarrow> int \<Rightarrow> pipe
     \<Rightarrow> pipe_outcome \<times> pipe \<times> u8 list \<times> pchan list" where
  "piperead copyout killed addr n pi =
     (if nread pi = nwrite pi \<and> writeopen pi then
        if killed then (Return (-1), pi, [], []) else (SleepOn NRead 0, pi, [], [])
      else (let (i, pi1, bs) = piperead_copy copyout addr n pi 0
            in (Return i, pi1, bs, [NWrite])))"

declare pipewrite_loop.simps [simp del] piperead_copy.simps [simp del]

section \<open>The ring holds a list\<close>

interpretation pipe_ring: ring PIPESIZE "TYPE(32)"
  by unfold_locales (auto simp: PIPESIZE_def)

definition pipe_inv :: "pipe \<Rightarrow> bool" where
  "pipe_inv pi \<longleftrightarrow> length (data pi) = PIPESIZE \<and> unat (nwrite pi - nread pi) \<le> PIPESIZE"

definition pipe_contents :: "pipe \<Rightarrow> u8 list" where
  "pipe_contents pi = ring_contents (data pi) (nread pi) (nwrite pi)"

lemma pipe_init_contents:
  "length junk = PIPESIZE \<Longrightarrow> pipe_inv (pipe_init junk) \<and> pipe_contents (pipe_init junk) = []"
  by (simp add: pipe_inv_def pipe_init_def pipe_contents_def ring_contents_def)

lemma length_pipe_contents [simp]: "length (pipe_contents pi) = unat (nwrite pi - nread pi)"
  by (simp add: pipe_contents_def)

lemma pipe_empty_iff: "pipe_contents pi = [] \<longleftrightarrow> nread pi = nwrite pi"
  by (auto simp: pipe_contents_def ring_contents_empty_iff)

lemma pipe_full_iff:
  "nwrite pi = nread pi + of_nat PIPESIZE \<longleftrightarrow> length (pipe_contents pi) = PIPESIZE"
proof -
  have "nwrite pi = nread pi + of_nat PIPESIZE \<longleftrightarrow> nwrite pi - nread pi = of_nat PIPESIZE"
    by (auto simp: algebra_simps)
  also have "\<dots> \<longleftrightarrow> unat (nwrite pi - nread pi) = unat (of_nat PIPESIZE :: u32)"
    by (simp only: word_unat_eq_iff)
  finally show ?thesis by (simp add: PIPESIZE_def)
qed

text \<open>One iteration of each loop: storing a byte appends it, taking one removes the head.\<close>

lemma pipe_put:
  fixes ch :: u8
  assumes "pipe_inv pi" and "nwrite pi \<noteq> nread pi + of_nat PIPESIZE"
  defines "pi' \<equiv> pi\<lparr>data := (data pi)[unat (nwrite pi) mod PIPESIZE := ch],
                      nwrite := nwrite pi + 1\<rparr>"
  shows "pipe_inv pi'" and "pipe_contents pi' = pipe_contents pi @ [ch]"
proof -
  have room: "unat (nwrite pi - nread pi) < PIPESIZE"
    using assms(1,2) unfolding pipe_full_iff by (simp add: pipe_inv_def)
  show c: "pipe_contents pi' = pipe_contents pi @ [ch]"
    using assms(1) room unfolding pipe_contents_def pi'_def pipe_inv_def
    by (simp add: pipe_ring.put)
  have "length (pipe_contents pi') \<le> PIPESIZE"
    using room by (simp add: c del: length_pipe_contents) simp
  then show "pipe_inv pi'" using assms(1) by (simp add: pipe_inv_def pi'_def)
qed

lemma pipe_get:
  assumes "pipe_inv pi" and "nread pi \<noteq> nwrite pi"
  shows "pipe_inv (pi\<lparr>nread := nread pi + 1\<rparr>)"
    and "pipe_contents pi =
           data pi ! (unat (nread pi) mod PIPESIZE) # pipe_contents (pi\<lparr>nread := nread pi + 1\<rparr>)"
proof -
  show c: "pipe_contents pi =
           data pi ! (unat (nread pi) mod PIPESIZE) # pipe_contents (pi\<lparr>nread := nread pi + 1\<rparr>)"
    using assms pipe_ring.get [of "data pi" "nread pi" "nwrite pi"]
    by (simp add: pipe_contents_def pipe_inv_def)
  have "length (pipe_contents (pi\<lparr>nread := nread pi + 1\<rparr>)) \<le> PIPESIZE"
    using arg_cong [OF c, of length] assms(1) by (simp add: pipe_inv_def)
  then show "pipe_inv (pi\<lparr>nread := nread pi + 1\<rparr>)"
    using assms(1) by (simp add: pipe_inv_def)
qed


text \<open>The bytes a writer finds in user memory from offset \<open>i\<close> on.\<close>

definition user_bytes :: "(u64 \<Rightarrow> u8 option) \<Rightarrow> u64 \<Rightarrow> int \<Rightarrow> nat \<Rightarrow> u8 list" where
  "user_bytes copyin addr i k = map (\<lambda>j. the (copyin (addr + of_int (i + int j)))) [0..<k]"

lemma user_bytes_Suc:
  "user_bytes copyin addr i (Suc k) =
     the (copyin (addr + of_int i)) # user_bytes copyin addr (i + 1) k"
  by (simp add: user_bytes_def upt_conv_Cons map_Suc_upt [symmetric] o_def algebra_simps
      del: upt_Suc map_Suc_upt)

lemma length_user_bytes [simp]: "length (user_bytes copyin addr i k) = k"
  by (simp add: user_bytes_def)

text \<open>What a stretch of \<^verbatim>\<open>pipewrite\<close> that started with \<open>i\<close> bytes written and stopped after \<open>k\<close>
  more may report.\<close>

fun write_outcome_ok ::
    "(u64 \<Rightarrow> u8 option) \<Rightarrow> (int \<Rightarrow> bool) \<Rightarrow> u64 \<Rightarrow> int \<Rightarrow> pipe \<Rightarrow> int \<Rightarrow> pipe_outcome \<Rightarrow> pchan list
     \<Rightarrow> bool" where
  "write_outcome_ok copyin killed addr n pi' i' (SleepOn c j) ws \<longleftrightarrow>
     c = NWrite \<and> j = i' \<and> i' < n \<and> length (pipe_contents pi') = PIPESIZE \<and> ws = [NRead]
     \<and> readopen pi'"
| "write_outcome_ok copyin killed addr n pi' i' (Return r) ws \<longleftrightarrow>
     r = i' \<and> ws = [NRead] \<and> (i' \<ge> n \<or> copyin (addr + of_int i') = None)
     \<or> r = -1 \<and> ws = [] \<and> i' < n \<and> (\<not> readopen pi' \<or> killed i')"

lemma pipewrite_loop_spec:
  assumes "pipe_inv pi" and "pipewrite_loop copyin killed addr n pi i = (out, pi', ws)"
  shows "\<exists>k. pipe_contents pi' = pipe_contents pi @ user_bytes copyin addr i k
            \<and> pipe_inv pi' \<and> nread pi' = nread pi
            \<and> readopen pi' = readopen pi \<and> writeopen pi' = writeopen pi
            \<and> (0 < k \<longrightarrow> readopen pi \<and> \<not> killed i)
            \<and> write_outcome_ok copyin killed addr n pi' (i + int k) out ws"
  using assms
proof (induction copyin killed addr n pi i rule: pipewrite_loop.induct)
  case (1 copyin killed addr n pi i)
  let ?pi1 = "\<lambda>ch. pi\<lparr>data := (data pi)[unat (nwrite pi) mod PIPESIZE := ch],
                      nwrite := nwrite pi + 1\<rparr>"
  show ?case
  proof (cases "i < n \<and> readopen pi \<and> \<not> killed i \<and> nwrite pi \<noteq> nread pi + of_nat PIPESIZE
              \<and> copyin (addr + of_int i) \<noteq> None")
    case True
    then obtain ch where ch: "copyin (addr + of_int i) = Some ch" by blast
    note put = pipe_put [OF "1.prems"(1), of ch]
    have run: "pipewrite_loop copyin killed addr n (?pi1 ch) (i + 1) = (out, pi', ws)"
      using "1.prems"(2) True ch by (simp add: pipewrite_loop.simps [of copyin killed addr n pi i])
    from True ch put run obtain k where k:
      "pipe_contents pi' = pipe_contents (?pi1 ch) @ user_bytes copyin addr (i + 1) k"
      "pipe_inv pi'" "nread pi' = nread pi" "readopen pi' = readopen pi"
      "writeopen pi' = writeopen pi"
      "write_outcome_ok copyin killed addr n pi' (i + 1 + int k) out ws"
      using "1.IH" [OF _ _ _ ch] by auto
    have "pipe_contents pi' = pipe_contents pi @ user_bytes copyin addr i (Suc k)"
      using k(1) put(2) True ch by (simp add: user_bytes_Suc)
    with k True show ?thesis
      by (intro exI [of _ "Suc k"]) (simp add: algebra_simps)
  next
    case False
    have "pi' = pi \<and> write_outcome_ok copyin killed addr n pi' i out ws"
      using "1.prems"(2) False
      by (auto simp: pipewrite_loop.simps [of copyin killed addr n pi i] pipe_full_iff
          split: if_splits option.splits)
    with "1.prems"(1) show ?thesis
      by (intro exI [of _ 0]) (auto simp: user_bytes_def)
  qed
qed

lemma piperead_copy_spec:
  assumes "pipe_inv pi" and "piperead_copy copyout addr n pi i = (r, pi', bs)"
  shows "pipe_inv pi' \<and> r = i + int (length bs)
         \<and> readopen pi' = readopen pi \<and> writeopen pi' = writeopen pi \<and> nwrite pi' = nwrite pi
         \<and> (\<exists>lost. pipe_contents pi = bs @ lost @ pipe_contents pi'
              \<and> (lost = [] \<and> (r \<ge> n \<or> pipe_contents pi' = [])
                 \<or> (\<exists>ch. lost = [ch] \<and> r < n \<and> \<not> copyout (addr + of_int r) ch)))"
  using assms
proof (induction copyout addr n pi i arbitrary: r pi' bs rule: piperead_copy.induct)
  case (1 copyout addr n pi i)
  let ?ch = "data pi ! (unat (nread pi) mod PIPESIZE)" and ?pi1 = "pi\<lparr>nread := nread pi + 1\<rparr>"
  note unfold = piperead_copy.simps [of copyout addr n pi i]
  show ?case
  proof (cases "i < n \<and> nread pi \<noteq> nwrite pi")
    case run: True
    note get = pipe_get [OF "1.prems"(1), OF conjunct2 [OF run]]
    show ?thesis
    proof (cases "copyout (addr + of_int i) ?ch")
      case True
      obtain r2 pi2 bs2 where rec: "piperead_copy copyout addr n ?pi1 (i + 1) = (r2, pi2, bs2)"
        by (metis prod_cases3)
      then have "r = r2 \<and> pi' = pi2 \<and> bs = ?ch # bs2"
        using "1.prems"(2) run True by (simp add: unfold Let_def)
      with "1.IH" [OF run refl refl True get(1) rec] get(2) show ?thesis
        by auto
    next
      case False
      then have "r = i \<and> pi' = ?pi1 \<and> bs = []"
        using "1.prems"(2) run by (simp add: unfold Let_def)
      with False run get show ?thesis by auto
    qed
  next
    case False
    then have "r = i \<and> pi' = pi \<and> bs = [] \<and> (i \<ge> n \<or> pipe_contents pi' = [])"
      using "1.prems"(2) by (auto simp: unfold pipe_empty_iff)
    with "1.prems"(1) show ?thesis by auto
  qed
qed

section \<open>Writers and readers, interleaved\<close>

text \<open>
  Any number of processes use one pipe. A process is outside the pipe code, or asleep in one of
  the two loops with its arguments, or woken and about to take the lock again. Two histories are
  kept beside the state. \<open>sent\<close> is what the writers had in their user memory for each byte by
  which a call advanced \<open>nwrite\<close>. \<open>taken\<close> is what the readers were given for each byte by which a
  call advanced \<open>nread\<close>: \<open>Some\<close> of the byte stored in user memory, or \<open>None\<close> if none was.
\<close>

datatype pproc =
    Outside
  | WSleep u64 int int
  | WWoken u64 int int
  | RSleep u64 int
  | RWoken u64 int

record pipe_sys =
  pp :: pipe
  sent :: "u8 list"
  taken :: "u8 option list"
  procs :: "nat \<Rightarrow> pproc"

fun wake1 :: "pchan \<Rightarrow> pproc \<Rightarrow> pproc" where
  "wake1 NWrite (WSleep addr n i) = WWoken addr n i"
| "wake1 NRead (RSleep addr n) = RWoken addr n"
| "wake1 _ q = q"

definition wake_all :: "pchan list \<Rightarrow> (nat \<Rightarrow> pproc) \<Rightarrow> nat \<Rightarrow> pproc" where
  "wake_all ws ps = (\<lambda>p. fold wake1 ws (ps p))"

definition do_write ::
    "(u64 \<Rightarrow> u8 option) \<Rightarrow> (int \<Rightarrow> bool) \<Rightarrow> u64 \<Rightarrow> int \<Rightarrow> int \<Rightarrow> nat \<Rightarrow> pipe_sys \<Rightarrow> pipe_sys" where
  "do_write copyin killed addr n i p s =
     (let (out, pi', ws) = pipewrite_loop copyin killed addr n (pp s) i
      in s\<lparr>pp := pi',
           sent := sent s @ user_bytes copyin addr i (unat (nwrite pi' - nwrite (pp s))),
           procs := (wake_all ws (procs s))
             (p := (case out of Return _ \<Rightarrow> Outside | SleepOn _ j \<Rightarrow> WSleep addr n j))\<rparr>)"

definition do_read ::
    "(u64 \<Rightarrow> u8 \<Rightarrow> bool) \<Rightarrow> bool \<Rightarrow> u64 \<Rightarrow> int \<Rightarrow> nat \<Rightarrow> pipe_sys \<Rightarrow> pipe_sys" where
  "do_read copyout killed addr n p s =
     (let (out, pi', bs, ws) = piperead copyout killed addr n (pp s)
      in s\<lparr>pp := pi',
           taken := taken s @ map Some bs @
                      replicate (unat (nread pi' - nread (pp s)) - length bs) None,
           procs := (wake_all ws (procs s))
             (p := (case out of Return _ \<Rightarrow> Outside | SleepOn _ _ \<Rightarrow> RSleep addr n))\<rparr>)"

definition do_close :: "bool \<Rightarrow> pipe_sys \<Rightarrow> pipe_sys" where
  "do_close writable s =
     (let (pi', ws, freed) = pipeclose (pp s) writable
      in s\<lparr>pp := pi', procs := wake_all ws (procs s)\<rparr>)"

text \<open>The steps: a call of \<^verbatim>\<open>pipewrite\<close> or \<^verbatim>\<open>piperead\<close> up to its return or sleep, a woken call going
  on, a close of either end, and a sleeper woken by \<^verbatim>\<open>kill\<close>. In a stretch of \<^verbatim>\<open>pipewrite\<close> the answers of
  \<^verbatim>\<open>killed\<close>, one for each iteration, are those of a member of \<open>K\<close>; the \<^verbatim>\<open>copyout\<close> of a reader is a member
  of \<open>C\<close>.\<close>

inductive pipe_step :: "(int \<Rightarrow> bool) set \<Rightarrow> (u64 \<Rightarrow> u8 \<Rightarrow> bool) set \<Rightarrow> pipe_sys \<Rightarrow> pipe_sys \<Rightarrow> bool" for K C where
  write_call: "procs s p = Outside \<Longrightarrow> killed \<in> K \<Longrightarrow> pipe_step K C s (do_write copyin killed addr n 0 p s)"
| write_resume: "procs s p = WWoken addr n i \<Longrightarrow> killed \<in> K \<Longrightarrow> pipe_step K C s (do_write copyin killed addr n i p s)"
| read_call: "procs s p = Outside \<Longrightarrow> copyout \<in> C \<Longrightarrow> pipe_step K C s (do_read copyout killed addr n p s)"
| read_resume: "procs s p = RWoken addr n \<Longrightarrow> copyout \<in> C \<Longrightarrow> pipe_step K C s (do_read copyout killed addr n p s)"
| close_end: "pipe_step K C s (do_close writable s)"
| kill_writer: "procs s p = WSleep addr n i
    \<Longrightarrow> pipe_step K C s (s\<lparr>procs := (procs s)(p := WWoken addr n i)\<rparr>)"
| kill_reader: "procs s p = RSleep addr n
    \<Longrightarrow> pipe_step K C s (s\<lparr>procs := (procs s)(p := RWoken addr n)\<rparr>)"

definition pipe_sys_init :: "u8 list \<Rightarrow> pipe_sys" where
  "pipe_sys_init junk = \<lparr>pp = pipe_init junk, sent = [], taken = [], procs = (\<lambda>_. Outside)\<rparr>"

inductive pipe_reachable :: "(int \<Rightarrow> bool) set \<Rightarrow> (u64 \<Rightarrow> u8 \<Rightarrow> bool) set \<Rightarrow> pipe_sys \<Rightarrow> bool" for K C where
  start: "length junk = PIPESIZE \<Longrightarrow> pipe_reachable K C (pipe_sys_init junk)"
| step: "pipe_reachable K C s \<Longrightarrow> pipe_step K C s t \<Longrightarrow> pipe_reachable K C t"

text \<open>Bytes sent and bytes received agree, except where none was received.\<close>

abbreviation received :: "u8 option list \<Rightarrow> u8 list \<Rightarrow> bool" where
  "received ts bs \<equiv> list_all2 (\<lambda>t b. t = None \<or> t = Some b) ts bs"

definition fifo_inv :: "(u64 \<Rightarrow> u8 \<Rightarrow> bool) set \<Rightarrow> pipe_sys \<Rightarrow> bool" where
  "fifo_inv C s \<longleftrightarrow>
     pipe_inv (pp s)
     \<and> (\<exists>bs. sent s = bs @ pipe_contents (pp s) \<and> received (taken s) bs)
     \<and> ((\<forall>c \<in> C. \<forall>a b. c a b) \<longrightarrow> None \<notin> set (taken s))"

text \<open>A sleeping writer means a full ring and a sleeping reader an empty one.\<close>

definition sleep_inv :: "pipe_sys \<Rightarrow> bool" where
  "sleep_inv s \<longleftrightarrow>
     (\<forall>p addr n i. procs s p = WSleep addr n i
           \<longrightarrow> length (pipe_contents (pp s)) = PIPESIZE \<and> readopen (pp s))
     \<and> (\<forall>p addr n. procs s p = RSleep addr n \<longrightarrow> pipe_contents (pp s) = [] \<and> writeopen (pp s))"

lemma wake_all_simps [simp]:
  "wake_all [] ps p = ps p" "wake_all [c] ps p = wake1 c (ps p)"
  by (simp_all add: wake_all_def)

lemma wake1_asleep [simp]:
  "wake1 NWrite q \<noteq> WSleep addr n i" "wake1 NRead q \<noteq> RSleep addr n"
  "wake1 NRead q = WSleep addr n i \<longleftrightarrow> q = WSleep addr n i"
  "wake1 NWrite q = RSleep addr n \<longleftrightarrow> q = RSleep addr n"
  by (cases q; simp)+

text \<open>The counters advance by the number of bytes stored and taken.\<close>

lemma nwrite_advance:
  assumes "pipe_contents pi' = pipe_contents pi @ bs" and "nread pi' = nread pi"
  shows "unat (nwrite pi' - nwrite pi) = length bs"
proof -
  have l: "unat (nwrite pi' - nread pi) = unat (nwrite pi - nread pi) + length bs"
    using arg_cong [OF assms(1), of length] assms(2) by simp
  have "nwrite pi' - nwrite pi = (nwrite pi' - nread pi) - (nwrite pi - nread pi)" by simp
  also have "unat \<dots> = unat (nwrite pi' - nread pi) - unat (nwrite pi - nread pi)"
    using l by (intro unat_sub) (simp add: word_le_nat_alt)
  finally show ?thesis using l by simp
qed

lemma nread_advance:
  assumes "pipe_contents pi = bs @ pipe_contents pi'" and "nwrite pi' = nwrite pi"
  shows "unat (nread pi' - nread pi) = length bs"
proof -
  have l: "unat (nwrite pi - nread pi) = length bs + unat (nwrite pi - nread pi')"
    using arg_cong [OF assms(1), of length] assms(2) by simp
  have "nread pi' - nread pi = (nwrite pi - nread pi) - (nwrite pi - nread pi')" by simp
  also have "unat \<dots> = unat (nwrite pi - nread pi) - unat (nwrite pi - nread pi')"
    using l by (intro unat_sub) (simp add: word_le_nat_alt)
  finally show ?thesis using l by simp
qed

lemma do_write_fifo:
  assumes inv: "fifo_inv C s"
  shows "fifo_inv C (do_write copyin killed addr n i p s)"
proof -
  obtain out pi' ws where run: "pipewrite_loop copyin killed addr n (pp s) i = (out, pi', ws)"
    by (metis prod_cases3)
  from inv have pinv: "pipe_inv (pp s)" by (simp add: fifo_inv_def)
  from pipewrite_loop_spec [OF pinv run] obtain k where k:
    "pipe_contents pi' = pipe_contents (pp s) @ user_bytes copyin addr i k" "pipe_inv pi'"
    "nread pi' = nread (pp s)" by auto
  have "unat (nwrite pi' - nwrite (pp s)) = k" using nwrite_advance [OF k(1,3)] by simp
  then show ?thesis using inv k(1,2) by (auto simp: fifo_inv_def do_write_def run)
qed

lemma piperead_cases:
  assumes "pipe_inv pi" and "piperead copyout killed addr n pi = (out, pi', bs, ws)"
  obtains (stop) "nread pi = nwrite pi" "writeopen pi" "pi' = pi" "bs = []" "ws = []"
      "out = Return (- 1) \<or> out = SleepOn NRead 0"
    | (copied) r lost where "\<not> (nread pi = nwrite pi \<and> writeopen pi)" "out = Return r" "ws = [NWrite]"
      "pipe_contents pi = (bs @ lost) @ pipe_contents pi'" "pipe_inv pi'" "nwrite pi' = nwrite pi"
      "readopen pi' = readopen pi" "writeopen pi' = writeopen pi"
      "lost = [] \<or> (\<exists>a ch. lost = [ch] \<and> \<not> copyout a ch)"
proof (cases "nread pi = nwrite pi \<and> writeopen pi")
  case True
  then show ?thesis using assms(2) stop by (auto simp: piperead_def split: if_splits)
next
  case False
  obtain r pi1 bs1 where run: "piperead_copy copyout addr n pi 0 = (r, pi1, bs1)" by (metis prod_cases3)
  then have eq: "pi1 = pi'" "bs1 = bs" "out = Return r" "ws = [NWrite]" using assms(2) False by (auto simp: piperead_def)
  from piperead_copy_spec [OF assms(1) run [unfolded eq(1,2)]] obtain lost where
    "pipe_contents pi = bs @ lost @ pipe_contents pi'" "lost = [] \<or> (\<exists>a ch. lost = [ch] \<and> \<not> copyout a ch)"
    "pipe_inv pi'" "nwrite pi' = nwrite pi" "readopen pi' = readopen pi" "writeopen pi' = writeopen pi"
    by blast
  then show ?thesis using copied [OF False eq(3,4)] by simp
qed

lemma do_read_fifo:
  assumes inv: "fifo_inv C s" and c: "copyout \<in> C"
  shows "fifo_inv C (do_read copyout killed addr n p s)"
proof -
  obtain out pi' bs ws where run: "piperead copyout killed addr n (pp s) = (out, pi', bs, ws)"
    by (metis prod_cases4)
  from inv have pinv: "pipe_inv (pp s)" by (simp add: fifo_inv_def)
  from pinv run show ?thesis
  proof (cases rule: piperead_cases)
    case stop
    then show ?thesis using inv by (simp add: fifo_inv_def do_read_def run)
  next
    case (copied r lost)
    have k: "unat (nread pi' - nread (pp s)) = length (bs @ lost)"
      by (rule nread_advance [OF copied(4,6)])
    obtain xs where xs: "sent s = xs @ pipe_contents (pp s)" "received (taken s) xs"
      using inv by (auto simp: fifo_inv_def)
    have "received (map Some bs @ replicate (length lost) None) (bs @ lost)"
      by (intro list_all2_appendI) (auto simp: list_all2_conv_all_nth)
    then have "received (taken s @ map Some bs @ replicate (length lost) None) (xs @ bs @ lost)"
      using xs(2) by (rule list_all2_appendI [rotated])
    moreover have "sent s = (xs @ bs @ lost) @ pipe_contents pi'" using xs(1) copied(4) by simp
    moreover have "lost = []" if "\<forall>c \<in> C. \<forall>a b. c a b" using that c copied(9) by blast
    ultimately show ?thesis
      using inv copied(5) k unfolding fifo_inv_def do_read_def run by auto
  qed
qed

lemma do_close_inv:
  "fifo_inv C s \<Longrightarrow> fifo_inv C (do_close writable s)" "sleep_inv s \<Longrightarrow> sleep_inv (do_close writable s)"
  by (auto simp: fifo_inv_def sleep_inv_def do_close_def pipeclose_def pipe_inv_def pipe_contents_def
      split: if_splits)

lemma pipe_reachable_fifo: "pipe_reachable K C s \<Longrightarrow> fifo_inv C s"
proof (induction rule: pipe_reachable.induct)
  case (start junk)
  then show ?case
    using pipe_init_contents [OF start] by (simp add: fifo_inv_def pipe_sys_init_def)
next
  case (step s t)
  from step(2,3) show ?case
    by (induction rule: pipe_step.induct) (simp_all add: do_write_fifo do_read_fifo do_close_inv, simp_all add: fifo_inv_def)
qed

lemma do_write_sleep:
  assumes pinv: "pipe_inv (pp s)" and inv: "sleep_inv s" and own: "\<forall>a m. procs s p \<noteq> RSleep a m"
  shows "sleep_inv (do_write copyin (\<lambda>_. killed) addr n i p s)"
proof -
  obtain out pi' ws where run: "pipewrite_loop copyin (\<lambda>_. killed) addr n (pp s) i = (out, pi', ws)"
    by (metis prod_cases3)
  from pipewrite_loop_spec [OF pinv run] obtain k where k:
    "pipe_contents pi' = pipe_contents (pp s) @ user_bytes copyin addr i k" "pipe_inv pi'"
    "readopen pi' = readopen (pp s)" "writeopen pi' = writeopen (pp s)"
    "0 < k \<longrightarrow> readopen (pp s) \<and> \<not> killed"
    "write_outcome_ok copyin (\<lambda>_. killed) addr n pi' (i + int k) out ws"
    by auto
  have k0: "k = 0" if "length (pipe_contents (pp s)) = PIPESIZE"
    using arg_cong [OF k(1), of length] k(2) that by (simp add: pipe_inv_def)
  have ws: "ws = [NRead] \<or> ws = [] \<and> k = 0 \<and> (\<exists>r. out = Return r)"
    using k(5,6) k(3) by (cases out) auto
  show ?thesis
    using inv k(1-4) k0 ws k(6) own
    by (cases out) (auto simp: sleep_inv_def do_write_def run user_bytes_def)
qed

lemma do_read_sleep:
  assumes pinv: "pipe_inv (pp s)" and inv: "sleep_inv s"
  shows "sleep_inv (do_read copyout killed addr n p s)"
proof -
  obtain out pi' bs ws where run: "piperead copyout killed addr n (pp s) = (out, pi', bs, ws)"
    by (metis prod_cases4)
  from pinv run show ?thesis
  proof (cases rule: piperead_cases)
    case stop
    then show ?thesis using inv by (auto simp: sleep_inv_def do_read_def run pipe_empty_iff PIPESIZE_def)
  next
    case (copied r lost)
    have "\<not> (\<exists>q a m. procs s q = RSleep a m)" using copied(1) inv by (auto simp: sleep_inv_def pipe_empty_iff)
    then show ?thesis using inv copied by (auto simp: sleep_inv_def do_read_def run)
  qed
qed

lemma pipe_reachable_sleep: "pipe_reachable (range (\<lambda>b _. b)) C s \<Longrightarrow> sleep_inv s"
proof (induction rule: pipe_reachable.induct)
  case (start junk)
  then show ?case by (simp add: sleep_inv_def pipe_sys_init_def)
next
  case (step s t)
  have "pipe_inv (pp s)" using pipe_reachable_fifo [OF step(1)] by (simp add: fifo_inv_def)
  with step(2,3) show ?case
    by (induction rule: pipe_step.induct) (auto simp: do_write_sleep do_read_sleep do_close_inv, auto simp: sleep_inv_def)
qed

section \<open>Properties\<close>

text \<open>
  C12. A call of \<^verbatim>\<open>pipewrite\<close> on a well-formed pipe appends to the stored bytes exactly the first \<open>k\<close>
  bytes of the user buffer, never exceeding \<open>PIPESIZE\<close>, and reports \<open>k\<close> faithfully: it returns
  \<open>k\<close> after the whole buffer or at an unreadable address, sleeps with \<open>k\<close> bytes done only on a
  full ring after waking readers, and returns \<open>-1\<close> only with a closed read end or a kill. The
  counters may have wrapped around.
\<close>

theorem pipewrite_appends:
  assumes "pipe_inv pi" and "pipewrite copyin killed addr n pi = (out, pi', ws)"
  shows "\<exists>k. pipe_contents pi' = pipe_contents pi @ user_bytes copyin addr 0 k
             \<and> length (pipe_contents pi') \<le> PIPESIZE
             \<and> write_outcome_ok copyin killed addr n pi' (int k) out ws"
  using pipewrite_loop_spec [OF assms(1), of copyin killed addr n 0 out pi' ws] assms(2)
  by (auto simp: pipewrite_def pipe_inv_def)

theorem pipewrite_appends_witness:
  "pipewrite (\<lambda>a. if a < 12 then Some (ucast a) else None) (\<lambda>_. False) 10 5
     \<lparr>data = replicate 512 0, nread = 4294967295, nwrite = 4294967295, readopen = True, writeopen = True\<rparr>
   = (Return 2, \<lparr>data = ((replicate 512 0)[511 := 10])[0 := 11], nread = 4294967295, nwrite = 1,
                 readopen = True, writeopen = True\<rparr>, [NRead])
   \<and> (\<exists>k. pipe_contents \<lparr>data = ((replicate 512 0)[511 := 10])[0 := 11], nread = 4294967295, nwrite = 1,
                 readopen = True, writeopen = True\<rparr>
          = user_bytes (\<lambda>a. if a < 12 then Some (ucast a) else None) 10 0 k)"
proof -
  let ?pi = "\<lparr>data = replicate 512 0, nread = 4294967295, nwrite = 4294967295, readopen = True,
               writeopen = True\<rparr> :: pipe"
  let ?pi' = "\<lparr>data = ((replicate 512 0)[511 := 10])[0 := 11], nread = 4294967295, nwrite = 1,
                readopen = True, writeopen = True\<rparr> :: pipe"
  let ?cin = "\<lambda>a::u64. if a < 12 then Some (ucast a :: u8) else None"
  have inv: "pipe_inv ?pi" by (simp add: pipe_inv_def PIPESIZE_def)
  have run: "pipewrite ?cin (\<lambda>_. False) 10 5 ?pi = (Return 2, ?pi', [NRead])"
    by (simp add: pipewrite_def pipewrite_loop.simps PIPESIZE_def)
  have "pipe_contents ?pi = []" by (simp add: pipe_empty_iff)
  with run pipewrite_appends [OF inv run] show ?thesis by auto
qed

text \<open>
  C13. A pipe shared by any number of writers and readers is a FIFO, in every interleaving and whatever
  \<^verbatim>\<open>killed\<close> and \<^verbatim>\<open>copyout\<close> answer: the bytes that the writers had in their buffers for what they stored are, in order, the
  bytes that the readers were given followed by the bytes still in the ring, which are at most \<open>PIPESIZE\<close>. A position where
  a reader was given nothing is a byte dropped at a failing \<^verbatim>\<open>copyout\<close>: if \<^verbatim>\<open>copyout\<close> never fails, there is none.
\<close>

theorem pipe_fifo:
  assumes "pipe_reachable K C s"
  shows "(\<exists>bs. sent s = bs @ pipe_contents (pp s) \<and> received (taken s) bs)
    \<and> length (pipe_contents (pp s)) \<le> PIPESIZE
    \<and> ((\<forall>c \<in> C. \<forall>a b. c a b) \<longrightarrow> sent s = map the (taken s) @ pipe_contents (pp s) \<and> None \<notin> set (taken s))"
proof -
  have "map the ts = bs" if "received ts bs" "None \<notin> set ts" for ts bs
    using that by (induction rule: list_all2_induct) auto
  then show ?thesis
    using pipe_reachable_fifo [OF assms] by (auto simp: fifo_inv_def pipe_inv_def)
qed

theorem pipe_fifo_witness:
  "let s = do_read (\<lambda>_ _. True) False 0 1 8
             (do_write (\<lambda>a. Some (ucast a)) (\<lambda>_. False) 65 2 0 7 (pipe_sys_init (replicate 512 0)))
   in pipe_reachable UNIV {\<lambda>_ _. True} s \<and> sent s = [65, 66] \<and> taken s = [Some 65]
      \<and> sent s = map the (taken s) @ pipe_contents (pp s)"
proof -
  let ?s0 = "pipe_sys_init (replicate 512 0)"
  let ?s1 = "do_write (\<lambda>a. Some (ucast a)) (\<lambda>_. False) 65 2 0 7 ?s0"
  let ?s = "do_read (\<lambda>_ _. True) False 0 1 8 ?s1"
  have run: "pipewrite_loop (\<lambda>a. Some (ucast a)) (\<lambda>_. False) 65 2 (pipe_init (replicate 512 0)) 0 =
    (Return 2, \<lparr>data = ((replicate 512 0)[0 := 65])[1 := 66], nread = 0, nwrite = 2, readopen = True, writeopen = True\<rparr>, [NRead])"
    by (simp add: pipe_init_def pipewrite_loop.simps PIPESIZE_def)
  have s1: "pp ?s1 = \<lparr>data = ((replicate 512 0)[0 := 65])[1 := 66], nread = 0, nwrite = 2, readopen = True, writeopen = True\<rparr>"
    "sent ?s1 = [65, 66]" "taken ?s1 = []"
    using run by (simp_all add: do_write_def pipe_sys_init_def pipe_init_def user_bytes_def upt_rec)
  have "procs ?s1 8 = Outside" using run by (simp add: do_write_def pipe_sys_init_def)
  moreover have "pipe_reachable UNIV {\<lambda>_ _. True} ?s1"
    by (rule pipe_reachable.step [OF pipe_reachable.start pipe_step.write_call])
      (simp_all add: PIPESIZE_def pipe_sys_init_def)
  ultimately have "pipe_reachable UNIV {\<lambda>_ _. True} ?s"
    by (intro pipe_reachable.step [OF _ pipe_step.read_call]) simp_all
  moreover have "piperead (\<lambda>_ _. True) False 0 1 (pp ?s1) =
    (Return 1, (pp ?s1)\<lparr>nread := 1\<rparr>, [65], [NWrite])"
    unfolding s1(1) by (simp add: piperead_def piperead_copy.simps PIPESIZE_def)
  then have "sent ?s = [65, 66]" "taken ?s = [Some 65]"
    using s1 by (simp_all add: do_read_def)
  ultimately show ?thesis using pipe_fifo [of UNIV "{\<lambda>_ _. True}" ?s] by simp
qed

text \<open>
  C14. As long as \<^verbatim>\<open>killed\<close> does not change its answer inside one stretch, no wakeup is missed: a
  writer sleeps only while the ring is full and a reader only while it is empty, so a writer and
  a reader never wait for each other.
\<close>

theorem pipe_no_deadlock:
  assumes "pipe_reachable (range (\<lambda>b _. b)) C s" and "procs s p = WSleep addr n i"
  shows "length (pipe_contents (pp s)) = PIPESIZE \<and> procs s q \<noteq> RSleep addr' n'"
  using pipe_reachable_sleep [OF assms(1)] assms(2) by (auto simp: sleep_inv_def pipe_empty_iff PIPESIZE_def)

theorem pipe_no_deadlock_witness:
  "let s = do_write (\<lambda>_. Some 7) (\<lambda>_. False) 0 600 0 1 (pipe_sys_init (replicate 512 0))
   in \<exists>i. procs s 1 = WSleep 0 600 i \<and> length (pipe_contents (pp s)) = PIPESIZE"
proof -
  let ?s0 = "pipe_sys_init (replicate 512 0)"
  let ?s = "do_write (\<lambda>_. Some 7) (\<lambda>_. False) 0 600 0 1 ?s0"
  have len: "length (replicate 512 (0::u8)) = PIPESIZE" by (simp add: PIPESIZE_def)
  have reach: "pipe_reachable (range (\<lambda>b _. b)) UNIV ?s"
    by (rule pipe_reachable.step [OF pipe_reachable.start pipe_step.write_call])
      (simp_all add: PIPESIZE_def pipe_sys_init_def)
  obtain out pi' ws where run:
    "pipewrite_loop (\<lambda>_. Some 7) (\<lambda>_. False) 0 600 (pipe_init (replicate 512 0)) 0 = (out, pi', ws)"
    by (metis prod_cases3)
  note empty = pipe_init_contents [OF len]
  from pipewrite_loop_spec [OF _ run] empty obtain k where k:
    "pipe_contents pi' = user_bytes (\<lambda>_. Some 7) 0 0 k" "pipe_inv pi'" "readopen pi'"
    "write_outcome_ok (\<lambda>_. Some 7) (\<lambda>_. False) 0 600 pi' (int k) out ws"
    by (auto simp: pipe_init_def)
  have "k \<le> 512"
    using arg_cong [OF k(1), of length] k(2) by (simp add: pipe_inv_def PIPESIZE_def)
  then obtain i where "out = SleepOn NWrite i"
    using k(3,4) by (cases out) auto
  then have sl: "procs ?s 1 = WSleep 0 600 i"
    using run by (simp add: do_write_def pipe_sys_init_def)
  show ?thesis using sl pipe_no_deadlock [OF reach sl] by auto
qed

text \<open>
  C17. When \<^verbatim>\<open>killed\<close> turns true between two iterations, \<^verbatim>\<open>pipewrite\<close> returns \<open>-1\<close> without waking
  anybody although the pipe, empty before, now holds a byte: a reader asleep on the empty pipe
  stays asleep.
\<close>

theorem pipewrite_kill_skips_wakeup:
  assumes "pipe_inv pi" and "pipe_contents pi = []" and "readopen pi"
    and "\<not> killed 0" and "killed 1" and "1 < n" and "copyin addr = Some ch"
  shows "\<exists>pi'. pipewrite copyin killed addr n pi = (Return (-1), pi', [])
               \<and> pipe_contents pi' = [ch]"
proof -
  let ?pi' = "pi\<lparr>data := (data pi)[unat (nwrite pi) mod PIPESIZE := ch],
                 nwrite := nwrite pi + 1\<rparr>"
  have notfull: "nwrite pi \<noteq> nread pi + of_nat PIPESIZE"
    using assms(2) unfolding pipe_full_iff by (simp add: PIPESIZE_def del: length_pipe_contents)
  have "pipewrite copyin killed addr n pi = (Return (-1), ?pi', [])"
    using assms notfull
    by (simp add: pipewrite_def pipewrite_loop.simps [of copyin killed addr n pi 0]
        pipewrite_loop.simps [of copyin killed addr n ?pi' 1])
  then show ?thesis using pipe_put(2) [OF assms(1) notfull, of ch] assms(2) by simp
qed

theorem pipewrite_kill_skips_wakeup_witness:
  "\<exists>pi'. pipewrite (\<lambda>_. Some 65) (\<lambda>i. i = 1) 0 2 (pipe_init (replicate 512 0))
           = (Return (-1), pi', [])
         \<and> pipe_contents pi' = [65]"
proof -
  have len: "length (replicate 512 (0::u8)) = PIPESIZE" by (simp add: PIPESIZE_def)
  show ?thesis
    by (rule pipewrite_kill_skips_wakeup)
      (use pipe_init_contents [OF len] in \<open>simp_all add: pipe_init_def\<close>)
qed

end
