(* ===== verification/ProcTable.thy ===== *)
theory ProcTable
  imports KernCopy Fslog Pipe
begin

text \<open>
  The process table (\<^verbatim>\<open>kernel/proc.h\<close>, \<^verbatim>\<open>kernel/proc.c\<close>): the slots, allocation and release of a slot with its
  trapframe page and page table, the scheduling decisions, sleep and wakeup, kill, and the copies to and
  from the memory of the current process. The state extends that of the log by the table, the index \<open>cur\<close>
  of the process that runs on this hart and the link-time addresses of the kernel. A pointer to a process
  is its index, \<open>None\<close> the null pointer; a trapframe lives in the byte memory at the address the slot
  records. The spin locks of the source make each routine one step and do not appear.
\<close>

section \<open>State\<close>

definition NOFILE :: nat where "NOFILE = 16"
definition INT_MAX :: int where "INT_MAX = 2147483647"

datatype procstate = UNUSED | USED | SLEEPING | RUNNABLE | RUNNING | ZOMBIE

text \<open>What a process can sleep on: the address of a kernel object.\<close>

datatype chan =
    ChNull
  | ChProc nat
  | ChPipe pchan u64
  | ChTicks
  | ChUartTx
  | ChCons
  | ChLog
  | ChBuf nat
  | ChDisk

record kcontext =
  c_ra :: u64
  c_sp :: u64
  c_s :: "u64 list"

record proc =
  p_state :: procstate
  p_chan :: chan
  p_killed :: bool
  p_xstate :: int
  p_pid :: int
  p_exit_msg :: "u8 list"
  p_accumulator :: int
  p_ps_priority :: int
  p_cfs_priority :: int
  p_rtime :: int
  p_stime :: int
  p_retime :: int
  p_parent :: "nat option"
  p_kstack :: u64
  p_sz :: u64
  p_pagetable :: u64
  p_trapframe :: u64
  p_context :: kcontext
  p_ofile :: "nat option list"
  p_cwd :: "nat option"
  p_name :: "u8 list"

record ptable = fslog +
  procs :: "nat \<Rightarrow> proc"
  cur :: nat
  initproc :: "nat option"
  nextpid :: int
  ticks :: u32
  k_end :: u64
  k_trampoline :: u64
  k_forkret :: u64

definition upd_proc :: "nat \<Rightarrow> (proc \<Rightarrow> proc) \<Rightarrow> 'a ptable_scheme \<Rightarrow> 'a ptable_scheme" where
  "upd_proc i f st = st\<lparr>procs := (procs st)(i := f (procs st i))\<rparr>"

abbreviation myproc :: "'a ptable_scheme \<Rightarrow> proc" where
  "myproc st \<equiv> procs st (cur st)"

text \<open>The fields of \<^verbatim>\<open>struct trapframe\<close> and their offsets in the trapframe page.\<close>

definition TF_SIZE :: nat where "TF_SIZE = 288"

datatype trapframe_field = TF_KERNEL_SATP | TF_KERNEL_SP | TF_KERNEL_TRAP | TF_EPC | TF_KERNEL_HARTID | TF_RA
  | TF_SP | TF_GP | TF_TP | TF_T0 | TF_T1 | TF_T2 | TF_S0 | TF_S1 | TF_A0 | TF_A1 | TF_A2 | TF_A3 | TF_A4 | TF_A5
  | TF_A6 | TF_A7 | TF_S2 | TF_S3 | TF_S4 | TF_S5 | TF_S6 | TF_S7 | TF_S8 | TF_S9 | TF_S10 | TF_S11 | TF_T3 | TF_T4
  | TF_T5 | TF_T6

fun tf_off :: "trapframe_field \<Rightarrow> u64" where
  "tf_off TF_KERNEL_SATP = 0"
| "tf_off TF_KERNEL_SP = 8"
| "tf_off TF_KERNEL_TRAP = 16"
| "tf_off TF_EPC = 24"
| "tf_off TF_KERNEL_HARTID = 32"
| "tf_off TF_RA = 40"
| "tf_off TF_SP = 48"
| "tf_off TF_GP = 56"
| "tf_off TF_TP = 64"
| "tf_off TF_T0 = 72"
| "tf_off TF_T1 = 80"
| "tf_off TF_T2 = 88"
| "tf_off TF_S0 = 96"
| "tf_off TF_S1 = 104"
| "tf_off TF_A0 = 112"
| "tf_off TF_A1 = 120"
| "tf_off TF_A2 = 128"
| "tf_off TF_A3 = 136"
| "tf_off TF_A4 = 144"
| "tf_off TF_A5 = 152"
| "tf_off TF_A6 = 160"
| "tf_off TF_A7 = 168"
| "tf_off TF_S2 = 176"
| "tf_off TF_S3 = 184"
| "tf_off TF_S4 = 192"
| "tf_off TF_S5 = 200"
| "tf_off TF_S6 = 208"
| "tf_off TF_S7 = 216"
| "tf_off TF_S8 = 224"
| "tf_off TF_S9 = 232"
| "tf_off TF_S10 = 240"
| "tf_off TF_S11 = 248"
| "tf_off TF_T3 = 256"
| "tf_off TF_T4 = 264"
| "tf_off TF_T5 = 272"
| "tf_off TF_T6 = 280"

declare tf_off.simps [simp del]


definition tf_get :: "u64 \<Rightarrow> 'a ptable_scheme \<Rightarrow> u64" where
  "tf_get off st = load64 (memory st) (p_trapframe (myproc st) + off)"

definition tf_set :: "u64 \<Rightarrow> u64 \<Rightarrow> 'a ptable_scheme \<Rightarrow> 'a ptable_scheme" where
  "tf_set off v st = st\<lparr>memory := store64 (memory st) (p_trapframe (myproc st) + off) v\<rparr>"

section \<open>Allocation and release of a slot\<close>

definition procinit_one :: "nat \<Rightarrow> 'a ptable_scheme \<Rightarrow> 'a ptable_scheme" where
  "procinit_one i = upd_proc i (\<lambda>p. p\<lparr>p_state := UNUSED, p_kstack := KSTACK i, p_ps_priority := 0,
     p_accumulator := -1\<rparr>)"

definition procinit :: "'a ptable_scheme \<Rightarrow> 'a ptable_scheme" where
  "procinit st = fold procinit_one [0..<NPROC] st"

definition allocpid :: "'a ptable_scheme \<Rightarrow> int \<times> 'a ptable_scheme" where
  "allocpid st = (nextpid st, st\<lparr>nextpid := nextpid st + 1\<rparr>)"

definition proc_pagetable :: "u64 \<Rightarrow> 'a ptable_scheme \<Rightarrow> (u64 \<times> 'a ptable_scheme) res" where
  "proc_pagetable trapframe st =
     (let (pagetable, st1) = uvmcreate st
      in if pagetable = 0 then Inr (0, st1)
         else rbind (mappages pagetable TRAMPOLINE PGSIZE (k_trampoline st1) (PTE_R OR PTE_X) st1) (\<lambda>(r, st2).
           if r < 0 then rbind (uvmfree (k_end st2) pagetable 0 st2) (\<lambda>st3. Inr (0, st3))
           else rbind (mappages pagetable TRAPFRAME PGSIZE trapframe (PTE_R OR PTE_W) st2) (\<lambda>(r2, st3).
             if r2 < 0 then
               rbind (uvmunmap (k_end st3) pagetable TRAMPOLINE 1 False st3) (\<lambda>st4.
               rbind (uvmfree (k_end st4) pagetable 0 st4) (\<lambda>st5. Inr (0, st5)))
             else Inr (pagetable, st3))))"

definition proc_freepagetable :: "u64 \<Rightarrow> u64 \<Rightarrow> 'a ptable_scheme \<Rightarrow> 'a ptable_scheme res" where
  "proc_freepagetable pagetable sz st =
     rbind (uvmunmap (k_end st) pagetable TRAMPOLINE 1 False st) (\<lambda>st1.
     rbind (uvmunmap (k_end st1) pagetable TRAPFRAME 1 False st1) (\<lambda>st2.
     uvmfree (k_end st2) pagetable sz st2))"

definition freeproc :: "nat \<Rightarrow> 'a ptable_scheme \<Rightarrow> 'a ptable_scheme res" where
  "freeproc i st =
     rbind (if p_trapframe (procs st i) \<noteq> 0 then kfree (k_end st) (p_trapframe (procs st i)) st else Inr st) (\<lambda>st1.
     let st2 = upd_proc i (\<lambda>p. p\<lparr>p_trapframe := 0\<rparr>) st1 in
     rbind (if p_pagetable (procs st2 i) \<noteq> 0
            then proc_freepagetable (p_pagetable (procs st2 i)) (p_sz (procs st2 i)) st2 else Inr st2) (\<lambda>st3.
     Inr (upd_proc i (\<lambda>p. p\<lparr>p_pagetable := 0, p_sz := 0, p_pid := 0, p_parent := None,
            p_name := (p_name p)[0 := 0], p_chan := ChNull, p_killed := False, p_xstate := 0,
            p_state := UNUSED, p_accumulator := -1, p_ps_priority := 0\<rparr>) st3)))"

text \<open>The scan for an unused slot.\<close>

definition find_proc :: "(proc \<Rightarrow> bool) \<Rightarrow> 'a ptable_scheme \<Rightarrow> nat option" where
  "find_proc P st = find (\<lambda>i. P (procs st i)) [0..<NPROC]"

definition allocproc :: "'a ptable_scheme \<Rightarrow> (nat option \<times> 'a ptable_scheme) res" where
  "allocproc st =
     (case find_proc (\<lambda>p. p_state p = UNUSED) st of
        None \<Rightarrow> Inr (None, st)
      | Some i \<Rightarrow>
          let (pid, st1) = allocpid st;
              st2 = upd_proc i (\<lambda>p. p\<lparr>p_pid := pid, p_state := USED\<rparr>) st1;
              (tf, st3) = kalloc st2;
              st4 = upd_proc i (\<lambda>p. p\<lparr>p_trapframe := tf\<rparr>) st3
          in if tf = 0 then rbind (freeproc i st4) (\<lambda>st5. Inr (None, st5))
             else rbind (proc_pagetable tf st4) (\<lambda>(pt, st5).
               let st6 = upd_proc i (\<lambda>p. p\<lparr>p_pagetable := pt\<rparr>) st5
               in if pt = 0 then rbind (freeproc i st6) (\<lambda>st7. Inr (None, st7))
                  else Inr (Some i, upd_proc i (\<lambda>p. p\<lparr>p_context := \<lparr>c_ra = k_forkret st6,
                     c_sp = p_kstack p + PGSIZE, c_s = replicate 12 0\<rparr>\<rparr>) st6)))"

definition growproc :: "int \<Rightarrow> 'a ptable_scheme \<Rightarrow> (int \<times> 'a ptable_scheme) res" where
  "growproc n st =
     (let p = myproc st; sz = p_sz p
      in if n > 0 then
           rbind (uvmalloc (k_end st) (p_pagetable p) sz (sz + of_int n) PTE_W st) (\<lambda>(sz1, st1).
             if sz1 = 0 then Inr (-1, st1)
             else Inr (0, upd_proc (cur st1) (\<lambda>p. p\<lparr>p_sz := sz1\<rparr>) st1))
         else if n < 0 then
           rbind (uvmdealloc (k_end st) (p_pagetable p) sz (sz + of_int n) st) (\<lambda>(sz1, st1).
             Inr (0, upd_proc (cur st1) (\<lambda>p. p\<lparr>p_sz := sz1\<rparr>) st1))
         else Inr (0, upd_proc (cur st) (\<lambda>p. p\<lparr>p_sz := sz\<rparr>) st))"

section \<open>Scheduling\<close>

definition ready :: "proc \<Rightarrow> bool" where
  "ready p \<longleftrightarrow> p_state p = RUNNABLE \<or> p_state p = RUNNING"

text \<open>\<^verbatim>\<open>set_accumulator\<close>: the least accumulator of the ready processes, read while the field of \<open>np\<close> itself is
  being lowered.\<close>

definition set_accumulator_one :: "nat \<Rightarrow> nat \<Rightarrow> 'a ptable_scheme \<Rightarrow> 'a ptable_scheme" where
  "set_accumulator_one np j st =
     (if ready (procs st j) \<and> p_accumulator (procs st j) < p_accumulator (procs st np)
      then upd_proc np (\<lambda>p. p\<lparr>p_accumulator := p_accumulator (procs st j)\<rparr>) st else st)"

definition set_accumulator :: "nat \<Rightarrow> 'a ptable_scheme \<Rightarrow> 'a ptable_scheme" where
  "set_accumulator np st =
     (let st1 = upd_proc np (\<lambda>p. p\<lparr>p_accumulator := INT_MAX\<rparr>) st;
          st2 = fold (set_accumulator_one np) [0..<NPROC] st1
      in if p_accumulator (procs st2 np) = INT_MAX then upd_proc np (\<lambda>p. p\<lparr>p_accumulator := 0\<rparr>) st2 else st2)"

text \<open>The selection loop of \<^verbatim>\<open>scheduler\<close>; \<^verbatim>\<open>minAcc\<close> is an \<^verbatim>\<open>int\<close> and takes the low half of the \<^verbatim>\<open>long long\<close> field.\<close>

definition scheduler_pick_one :: "'a ptable_scheme \<Rightarrow> nat \<Rightarrow> int \<times> nat option \<Rightarrow> int \<times> nat option" where
  "scheduler_pick_one st i = (\<lambda>(minAcc, toRun).
     if ready (procs st i) \<and> p_accumulator (procs st i) < minAcc
     then (sint (of_int (p_accumulator (procs st i)) :: u32), Some i) else (minAcc, toRun))"

definition scheduler_pick :: "'a ptable_scheme \<Rightarrow> nat option" where
  "scheduler_pick st = snd (fold (scheduler_pick_one st) [0..<NPROC] (INT_MAX, None))"

text \<open>One round of \<^verbatim>\<open>scheduler\<close>. After the loop the pointer \<^verbatim>\<open>p\<close> is one past the end of the table, and the round
  assigns \<^verbatim>\<open>p->state\<close>; with nothing to run the round ends without effect.\<close>

definition proc_state_at :: "nat \<Rightarrow> procstate \<Rightarrow> 'a ptable_scheme \<Rightarrow> 'a ptable_scheme res" where
  "proc_state_at i s st = (if i < NPROC then Inr (upd_proc i (\<lambda>p. p\<lparr>p_state := s\<rparr>) st) else Inl (Undefined ''proc[NPROC]''))"

definition scheduler_round :: "'a ptable_scheme \<Rightarrow> 'a ptable_scheme res" where
  "scheduler_round st =
     (case scheduler_pick st of
        None \<Rightarrow> Inr st
      | Some i \<Rightarrow> let p = NPROC
                  in rbind (proc_state_at p RUNNING st) (\<lambda>st1. Inr (st1\<lparr>cur := i, curpid := p_pid (procs st1 i)\<rparr>)))"

text \<open>\<^verbatim>\<open>yield\<close> up to the switch to the scheduler.\<close>

definition yield :: "'a ptable_scheme \<Rightarrow> 'a ptable_scheme" where
  "yield st = upd_proc (cur st) (\<lambda>p. p\<lparr>p_state := RUNNABLE, p_accumulator := p_accumulator p + p_ps_priority p\<rparr>) st"

text \<open>The checks of \<^verbatim>\<open>sched\<close>, given what it reads of the hart: whether the process lock is held, the nesting
  depth and the interrupt flag.\<close>

definition sched_check :: "bool \<Rightarrow> int \<Rightarrow> bool \<Rightarrow> 'a ptable_scheme \<Rightarrow> unit res" where
  "sched_check holds_lock depth intr st =
     (if \<not> holds_lock then Inl (Panic ''sched p->lock'')
      else if depth \<noteq> 1 then Inl (Panic ''sched locks'')
      else if p_state (myproc st) = RUNNING then Inl (Panic ''sched running'')
      else if intr then Inl (Panic ''sched interruptible'')
      else Inr ())"

section \<open>Sleep, wakeup, kill\<close>

text \<open>\<^verbatim>\<open>sleep\<close> up to the switch to the scheduler, and what it does when it is resumed.\<close>

definition sleep_enter :: "chan \<Rightarrow> 'a ptable_scheme \<Rightarrow> 'a ptable_scheme" where
  "sleep_enter ch st = upd_proc (cur st) (\<lambda>p. p\<lparr>p_chan := ch, p_state := SLEEPING\<rparr>) st"

definition sleep_leave :: "'a ptable_scheme \<Rightarrow> 'a ptable_scheme" where
  "sleep_leave st = upd_proc (cur st) (\<lambda>p. p\<lparr>p_chan := ChNull\<rparr>) st"

definition wakeup_one :: "chan \<Rightarrow> nat \<Rightarrow> 'a ptable_scheme \<Rightarrow> 'a ptable_scheme" where
  "wakeup_one ch i st =
     (if i \<noteq> cur st \<and> p_state (procs st i) = SLEEPING \<and> p_chan (procs st i) = ch
      then set_accumulator i (upd_proc i (\<lambda>p. p\<lparr>p_state := RUNNABLE\<rparr>) st) else st)"

definition wakeup :: "chan \<Rightarrow> 'a ptable_scheme \<Rightarrow> 'a ptable_scheme" where
  "wakeup ch st = fold (wakeup_one ch) [0..<NPROC] st"

definition kill :: "int \<Rightarrow> 'a ptable_scheme \<Rightarrow> int \<times> 'a ptable_scheme" where
  "kill pid st =
     (case find_proc (\<lambda>p. p_pid p = pid) st of
        None \<Rightarrow> (-1, st)
      | Some i \<Rightarrow> (0, upd_proc i (\<lambda>p. let p1 = p\<lparr>p_killed := True\<rparr>
           in if p_state p1 = SLEEPING
              then p1\<lparr>p_state := RUNNABLE, p_accumulator := p_accumulator p1 + p_ps_priority p1\<rparr> else p1) st))"

definition setkilled :: "nat \<Rightarrow> 'a ptable_scheme \<Rightarrow> 'a ptable_scheme" where
  "setkilled i = upd_proc i (\<lambda>p. p\<lparr>p_killed := True\<rparr>)"

definition killed :: "nat \<Rightarrow> 'a ptable_scheme \<Rightarrow> bool" where
  "killed i st = p_killed (procs st i)"

section \<open>Copies for the current process\<close>

definition either_copyout :: "bool \<Rightarrow> u64 \<Rightarrow> u8 list \<Rightarrow> 'a ptable_scheme \<Rightarrow> (int \<times> 'a ptable_scheme) res" where
  "either_copyout user_dst dst src st =
     (if user_dst then copyout_bytes (p_pagetable (myproc st)) dst src st
      else Inr (0, st\<lparr>memory := write_list (memory st) dst src\<rparr>))"

definition either_copyin :: "bool \<Rightarrow> u64 \<Rightarrow> nat \<Rightarrow> 'a ptable_scheme \<Rightarrow> (int \<times> u8 list) res" where
  "either_copyin user_src src len st =
     (if user_src then copyin_bytes (p_pagetable (myproc st)) src len st
      else Inr (0, bytes_at (memory st) src len))"

section \<open>Listing the processes\<close>

fun state_name :: "procstate \<Rightarrow> string" where
  "state_name UNUSED = ''unused''"
| "state_name USED = ''used''"
| "state_name SLEEPING = ''sleep ''"
| "state_name RUNNABLE = ''runble''"
| "state_name RUNNING = ''run   ''"
| "state_name ZOMBIE = ''zombie''"

definition procdump_rows :: "'a ptable_scheme \<Rightarrow> (int \<times> string \<times> u8 list) list" where
  "procdump_rows st = map (\<lambda>i. (p_pid (procs st i), state_name (p_state (procs st i)), p_name (procs st i)))
     (filter (\<lambda>i. p_state (procs st i) \<noteq> UNUSED) [0..<NPROC])"

section \<open>The selection of the scheduler\<close>

lemma procs_upd_proc [simp]: "procs (upd_proc i f st) j = (if j = i then f (procs st i) else procs st j)"
  by (simp add: upd_proc_def)

lemma upd_proc_frame [simp]: "cur (upd_proc i f st) = cur st" "memory (upd_proc i f st) = memory st"
  "initproc (upd_proc i f st) = initproc st" "k_end (upd_proc i f st) = k_end st"
  by (simp_all add: upd_proc_def)

definition acc :: "'a ptable_scheme \<Rightarrow> nat \<Rightarrow> int" where
  "acc st i = p_accumulator (procs st i)"

text \<open>The process that the loop is meant to find: ready, with the least accumulator, the first such.\<close>

definition least_ready :: "'a ptable_scheme \<Rightarrow> nat \<Rightarrow> nat \<Rightarrow> bool" where
  "least_ready st n i \<longleftrightarrow> i < n \<and> ready (procs st i) \<and> acc st i < INT_MAX
     \<and> (\<forall>j<n. ready (procs st j) \<longrightarrow> acc st i < acc st j \<or> acc st i = acc st j \<and> i \<le> j)"

definition accs_int :: "'a ptable_scheme \<Rightarrow> bool" where
  "accs_int st \<longleftrightarrow> (\<forall>i<NPROC. ready (procs st i) \<longrightarrow> - (2 ^ 31) \<le> acc st i)"

lemma sint_in_range: "- (2 ^ 31) \<le> n \<Longrightarrow> n < 2 ^ 31 \<Longrightarrow> sint (of_int n :: u32) = n"
  by (simp add: signed_of_int signed_take_bit_int_eq_self)

lemma pick_one:
  "scheduler_pick_one st i (m, r) =
     (if ready (procs st i) \<and> acc st i < m then (sint (of_int (acc st i) :: u32), Some i) else (m, r))"
  by (simp add: scheduler_pick_one_def acc_def)

lemma pick_loop:
  assumes "accs_int st" and "n \<le> NPROC"
  shows "(\<exists>i. fold (scheduler_pick_one st) [0..<n] (INT_MAX, None) = (acc st i, Some i) \<and> least_ready st n i)
     \<or> fold (scheduler_pick_one st) [0..<n] (INT_MAX, None) = (INT_MAX, None)
        \<and> (\<forall>j<n. ready (procs st j) \<longrightarrow> INT_MAX \<le> acc st j)"
  using assms(2)
proof (induction n)
  case (Suc n)
  let ?f = "fold (scheduler_pick_one st) [0..<n] (INT_MAX, None)"
  have s: "sint (of_int (acc st n) :: u32) = acc st n" if "ready (procs st n)" "acc st n < INT_MAX"
    using that assms(1) Suc.prems by (intro sint_in_range) (auto simp: accs_int_def INT_MAX_def)
  consider i where "?f = (acc st i, Some i)" "least_ready st n i"
    | "?f = (INT_MAX, None)" "\<forall>j<n. ready (procs st j) \<longrightarrow> INT_MAX \<le> acc st j"
    using Suc by force
  then show ?case
  proof cases
    case (1 i)
    show ?thesis
    proof (cases "ready (procs st n) \<and> acc st n < acc st i")
      case True
      then have "least_ready st (Suc n) n" using 1(2) by (force simp: least_ready_def less_Suc_eq)
      with True 1(1) s show ?thesis
        by (intro disjI1 exI [of _ n]) (auto simp: pick_one least_ready_def)
    next
      case False
      then have "least_ready st (Suc n) i" using 1(2) by (force simp: least_ready_def less_Suc_eq)
      with False 1(1) show ?thesis
        by (intro disjI1 exI [of _ i]) (auto simp: pick_one)
    qed
  next
    case 2
    show ?thesis
    proof (cases "ready (procs st n) \<and> acc st n < INT_MAX")
      case True
      then have "least_ready st (Suc n) n" using 2(2) by (force simp: least_ready_def less_Suc_eq)
      with True 2(1) s show ?thesis
        by (intro disjI1 exI [of _ n]) (auto simp: pick_one)
    next
      case False
      with 2 show ?thesis by (intro disjI2) (auto simp: pick_one less_Suc_eq)
    qed
  qed
qed simp

lemma least_ready_unique:
  assumes "least_ready st n i" and "least_ready st n j"
  shows "i = j"
proof -
  have "acc st i < acc st j \<or> acc st i = acc st j \<and> i \<le> j" using assms unfolding least_ready_def by blast
  moreover have "acc st j < acc st i \<or> acc st j = acc st i \<and> j \<le> i" using assms unfolding least_ready_def by blast
  ultimately show ?thesis by auto
qed

lemma scheduler_pick_iff:
  assumes "accs_int st"
  shows "scheduler_pick st = Some i \<longleftrightarrow> least_ready st NPROC i"
proof -
  from pick_loop [OF assms order_refl] show ?thesis
  proof (elim disjE exE conjE)
    fix k assume "fold (scheduler_pick_one st) [0..<NPROC] (INT_MAX, None) = (acc st k, Some k)" "least_ready st NPROC k"
    then show ?thesis using least_ready_unique by (auto simp: scheduler_pick_def)
  next
    assume "fold (scheduler_pick_one st) [0..<NPROC] (INT_MAX, None) = (INT_MAX, None)"
      "\<forall>j<NPROC. ready (procs st j) \<longrightarrow> INT_MAX \<le> acc st j"
    then show ?thesis by (auto simp: scheduler_pick_def least_ready_def)
  qed
qed

lemma scheduler_pick_None:
  assumes "accs_int st"
  shows "scheduler_pick st = None \<longleftrightarrow> (\<forall>j<NPROC. ready (procs st j) \<longrightarrow> INT_MAX \<le> acc st j)"
proof -
  from pick_loop [OF assms order_refl] show ?thesis
  proof (elim disjE exE conjE)
    fix k assume "fold (scheduler_pick_one st) [0..<NPROC] (INT_MAX, None) = (acc st k, Some k)" "least_ready st NPROC k"
    then show ?thesis by (auto simp: scheduler_pick_def least_ready_def)
  qed (auto simp: scheduler_pick_def)
qed

section \<open>Wakeup\<close>

text \<open>The least accumulator of the ready processes other than \<open>np\<close>, at most \<^verbatim>\<open>INT_MAX\<close>.\<close>

definition least_acc :: "'a ptable_scheme \<Rightarrow> nat \<Rightarrow> nat \<Rightarrow> int" where
  "least_acc st np k = Min (insert INT_MAX (acc st ` {j. j < k \<and> j \<noteq> np \<and> ready (procs st j)}))"

lemma least_acc_Suc:
  "least_acc st np (Suc k) = (if k \<noteq> np \<and> ready (procs st k) then min (acc st k) (least_acc st np k) else least_acc st np k)"
proof (cases "k \<noteq> np \<and> ready (procs st k)")
  case True
  then have "{j. j < Suc k \<and> j \<noteq> np \<and> ready (procs st j)} = insert k {j. j < k \<and> j \<noteq> np \<and> ready (procs st j)}"
    by (auto simp: less_Suc_eq)
  then have "insert INT_MAX (acc st ` {j. j < Suc k \<and> j \<noteq> np \<and> ready (procs st j)})
      = insert (acc st k) (insert INT_MAX (acc st ` {j. j < k \<and> j \<noteq> np \<and> ready (procs st j)}))" by auto
  with True show ?thesis by (simp add: least_acc_def)
next
  case False
  then have "{j. j < Suc k \<and> j \<noteq> np \<and> ready (procs st j)} = {j. j < k \<and> j \<noteq> np \<and> ready (procs st j)}"
    by (auto simp: less_Suc_eq)
  with False show ?thesis by (auto simp: least_acc_def)
qed

lemma set_accumulator_loop:
  "fold (set_accumulator_one np) [0..<k] (upd_proc np (\<lambda>p. p\<lparr>p_accumulator := INT_MAX\<rparr>) st)
     = upd_proc np (\<lambda>p. p\<lparr>p_accumulator := least_acc st np k\<rparr>) st"
proof (induction k)
  case 0
  then show ?case by (simp add: least_acc_def)
next
  case (Suc k)
  have one: "set_accumulator_one np k (upd_proc np (\<lambda>p. p\<lparr>p_accumulator := m\<rparr>) st)
      = upd_proc np (\<lambda>p. p\<lparr>p_accumulator := (if k \<noteq> np \<and> ready (procs st k) then min (acc st k) m else m)\<rparr>) st" for m
    by (auto simp: set_accumulator_one_def upd_proc_def ready_def acc_def)
  show ?case by (simp add: Suc one least_acc_Suc)
qed

lemma set_accumulator_eq:
  "set_accumulator np st = upd_proc np (\<lambda>p. p\<lparr>p_accumulator :=
     (if least_acc st np NPROC = INT_MAX then 0 else least_acc st np NPROC)\<rparr>) st"
  unfolding set_accumulator_def Let_def set_accumulator_loop by (simp add: upd_proc_def)

definition sleeps_on :: "chan \<Rightarrow> 'a ptable_scheme \<Rightarrow> nat \<Rightarrow> bool" where
  "sleeps_on ch st i \<longleftrightarrow> i \<noteq> cur st \<and> p_state (procs st i) = SLEEPING \<and> p_chan (procs st i) = ch"

text \<open>The accumulator that a woken process starts with.\<close>

definition entry_acc :: "'a ptable_scheme \<Rightarrow> int" where
  "entry_acc st = (let m = Min (insert INT_MAX (acc st ` {j. j < NPROC \<and> ready (procs st j)}))
     in if m = INT_MAX then 0 else m)"

definition woken :: "chan \<Rightarrow> 'a ptable_scheme \<Rightarrow> nat \<Rightarrow> 'a ptable_scheme" where
  "woken ch st k = st\<lparr>procs := (\<lambda>i. if i < k \<and> sleeps_on ch st i
     then (procs st i)\<lparr>p_state := RUNNABLE, p_accumulator := entry_acc st\<rparr> else procs st i)\<rparr>"

lemma entry_acc_woken:
  assumes "k \<le> NPROC" and "\<not> ready (procs (woken ch st k) np)"
  shows "(let m = least_acc (woken ch st k) np NPROC in if m = INT_MAX then 0 else m) = entry_acc st"
proof -
  let ?R = "{j. j < NPROC \<and> ready (procs st j)}" and ?W = "{j. j < k \<and> sleeps_on ch st j}"
  let ?w = "woken ch st k"
  have rd: "ready (procs ?w j) \<longleftrightarrow> ready (procs st j) \<or> j \<in> ?W" for j
    by (auto simp: woken_def ready_def sleeps_on_def)
  have ac: "acc ?w j = (if j \<in> ?W then entry_acc st else acc st j)" for j
    by (simp add: woken_def acc_def)
  have set: "{j. j < NPROC \<and> j \<noteq> np \<and> ready (procs ?w j)} = ?R \<union> ?W"
    using assms by (auto simp: rd)
  have dis: "j \<notin> ?W" if "j \<in> ?R" for j using that by (auto simp: sleeps_on_def ready_def)
  have img: "acc ?w ` (?R \<union> ?W) = acc st ` ?R \<union> (if ?W = {} then {} else {entry_acc st})"
  proof -
    have "acc ?w ` ?R = acc st ` ?R" using dis by (intro image_cong) (auto simp: ac)
    moreover have "acc ?w ` ?W = (if ?W = {} then {} else {entry_acc st})" by (auto simp: ac)
    ultimately show ?thesis by (simp add: image_Un)
  qed
  define m where "m = Min (insert INT_MAX (acc st ` ?R))"
  have e: "entry_acc st = (if m = INT_MAX then 0 else m)" by (simp add: entry_acc_def m_def)
  have "m \<le> INT_MAX" by (simp add: m_def)
  have l: "least_acc ?w np NPROC = (if ?W = {} then m else min m (entry_acc st))"
  proof (cases "?W = {}")
    case False
    then have "insert INT_MAX (acc ?w ` (?R \<union> ?W)) = insert (entry_acc st) (insert INT_MAX (acc st ` ?R))"
      unfolding img by auto
    then have "least_acc ?w np NPROC = min (entry_acc st) m" unfolding least_acc_def set by (simp add: m_def)
    with False show ?thesis by (simp only: if_False min.commute)
  next
    case True
    then show ?thesis unfolding least_acc_def set img by (simp add: m_def)
  qed
  show ?thesis unfolding l e using \<open>m \<le> INT_MAX\<close> by (simp add: Let_def INT_MAX_def)
qed

lemma wakeup_loop: "k \<le> NPROC \<Longrightarrow> fold (wakeup_one ch) [0..<k] st = woken ch st k"
proof (induction k)
  case 0
  then show ?case by (simp add: woken_def)
next
  case (Suc k)
  let ?w = "woken ch st k"
  have here: "procs ?w k = procs st k" "cur ?w = cur st" by (simp_all add: woken_def)
  show ?case
  proof (cases "sleeps_on ch st k")
    case True
    let ?u = "upd_proc k (\<lambda>p. p\<lparr>p_state := RUNNABLE\<rparr>) ?w"
    have "\<not> ready (procs ?w k)" using True here by (simp add: sleeps_on_def ready_def)
    moreover have "least_acc ?u k NPROC = least_acc ?w k NPROC"
    proof -
      have "acc ?u ` {j. j < NPROC \<and> j \<noteq> k \<and> ready (procs ?u j)} = acc ?w ` {j. j < NPROC \<and> j \<noteq> k \<and> ready (procs ?w j)}"
        by (intro image_cong) (auto simp: acc_def)
      then show ?thesis by (simp add: least_acc_def)
    qed
    ultimately have "set_accumulator k ?u = upd_proc k (\<lambda>p. p\<lparr>p_accumulator := entry_acc st\<rparr>) ?u"
      using entry_acc_woken [of k ch st k] Suc.prems by (auto simp: set_accumulator_eq Let_def split: if_splits)
    also have "\<dots> = woken ch st (Suc k)"
      using True by (auto simp: upd_proc_def woken_def less_Suc_eq fun_eq_iff)
    finally have "wakeup_one ch k ?w = woken ch st (Suc k)"
      using True here by (simp add: wakeup_one_def sleeps_on_def)
    then show ?thesis using Suc by simp
  next
    case False
    then have "i < Suc k \<and> sleeps_on ch st i \<longleftrightarrow> i < k \<and> sleeps_on ch st i" for i by (auto simp: less_Suc_eq)
    then have "woken ch st (Suc k) = ?w" by (simp add: woken_def)
    moreover have "wakeup_one ch k ?w = ?w" using False here by (auto simp: wakeup_one_def sleeps_on_def)
    ultimately show ?thesis using Suc by simp
  qed
qed

section \<open>Properties\<close>

text \<open>C19. The selection loop of the scheduler finds the process that it is meant to find, although it keeps the least
  accumulator in an \<^verbatim>\<open>int\<close>: when the accumulators of the ready processes are at least \<open>-2^31\<close>, it selects the ready process with the
  least accumulator, the first such in the table. It selects none if and only if every ready process has an accumulator of
  \<^verbatim>\<open>INT_MAX\<close> or more: such a process never runs again.\<close>

theorem scheduler_picks_least:
  assumes "\<forall>i<NPROC. ready (procs st i) \<longrightarrow> - (2 ^ 31) \<le> p_accumulator (procs st i)"
  shows "case scheduler_pick st of
      None \<Rightarrow> \<forall>j<NPROC. ready (procs st j) \<longrightarrow> INT_MAX \<le> p_accumulator (procs st j)
    | Some i \<Rightarrow> i < NPROC \<and> ready (procs st i) \<and> p_accumulator (procs st i) < INT_MAX
        \<and> (\<forall>j<NPROC. ready (procs st j) \<longrightarrow> p_accumulator (procs st i) \<le> p_accumulator (procs st j)
             \<and> (p_accumulator (procs st i) = p_accumulator (procs st j) \<longrightarrow> i \<le> j))"
proof -
  have "accs_int st" using assms by (simp add: accs_int_def acc_def)
  note iff = scheduler_pick_iff [OF this] and none = scheduler_pick_None [OF this]
  show ?thesis
  proof (cases "scheduler_pick st")
    case None
    then show ?thesis using none by (simp add: acc_def)
  next
    case (Some i)
    then have l: "least_ready st NPROC i" using iff by blast
    have "acc st i \<le> acc st j \<and> (acc st i = acc st j \<longrightarrow> i \<le> j)" if j: "j < NPROC" "ready (procs st j)" for j
    proof -
      have "acc st i < acc st j \<or> acc st i = acc st j \<and> i \<le> j" using l j unfolding least_ready_def by blast
      then show ?thesis by linarith
    qed
    then show ?thesis using Some l by (simp add: least_ready_def acc_def)
  qed
qed

definition zero_proc :: proc where
  "zero_proc = \<lparr>p_state = UNUSED, p_chan = ChNull, p_killed = False, p_xstate = 0, p_pid = 0,
     p_exit_msg = replicate 32 0, p_accumulator = 0, p_ps_priority = 0, p_cfs_priority = 0, p_rtime = 0, p_stime = 0,
     p_retime = 0, p_parent = None, p_kstack = 0, p_sz = 0, p_pagetable = 0, p_trapframe = 0,
     p_context = \<lparr>c_ra = 0, c_sp = 0, c_s = replicate 12 0\<rparr>, p_ofile = replicate 16 None, p_cwd = None,
     p_name = replicate 16 0\<rparr>"

definition zero_ptable :: ptable where
  "zero_ptable = fslog.extend zero_fslog (ptable.fields (\<lambda>_. zero_proc) 0 None 1 0 0x80022000 0x80007000 0x80001000)"

lemma zero_ptable_simps [simp]:
  "procs zero_ptable = (\<lambda>_. zero_proc)" "cur zero_ptable = 0"
  by (simp_all add: zero_ptable_def fslog.defs ptable.defs)

definition two_ready :: ptable where
  "two_ready = zero_ptable\<lparr>procs := (\<lambda>_. zero_proc)
     (0 := zero_proc\<lparr>p_state := RUNNABLE, p_accumulator := 7, p_ps_priority := 1\<rparr>,
      1 := zero_proc\<lparr>p_state := RUNNABLE, p_accumulator := 0, p_ps_priority := 5\<rparr>)\<rparr>"

lemma two_ready_ok: "accs_int two_ready" "ready (procs two_ready 0)" "ready (procs two_ready 1)"
  "p_accumulator (procs two_ready 0) = 7" "p_accumulator (procs two_ready 1) = 0"
  by (auto simp: accs_int_def two_ready_def acc_def ready_def zero_proc_def)

theorem scheduler_picks_least_witness: "scheduler_pick two_ready = Some 1"
proof -
  have ready: "ready (procs two_ready i) \<longleftrightarrow> i = 0 \<or> i = 1" for i
    by (auto simp: two_ready_def ready_def zero_proc_def)
  have "\<forall>i<NPROC. ready (procs two_ready i) \<longrightarrow> - (2 ^ 31) \<le> p_accumulator (procs two_ready i)"
    using two_ready_ok by (auto simp: ready)
  note least = scheduler_picks_least [OF this]
  have n: "0 < NPROC" "1 < NPROC" by (simp_all add: NPROC_def)
  show ?thesis
  proof (cases "scheduler_pick two_ready")
    case None
    then have "INT_MAX \<le> p_accumulator (procs two_ready 0)" using least n two_ready_ok(2) by simp
    then show ?thesis using two_ready_ok(4) by (simp add: INT_MAX_def)
  next
    case (Some i)
    then have "ready (procs two_ready i)" "p_accumulator (procs two_ready i) \<le> p_accumulator (procs two_ready 1)"
      using least n two_ready_ok(3) by simp_all
    then show ?thesis using Some two_ready_ok(4,5) by (auto simp: ready)
  qed
qed

text \<open>C20. The scheduler writes outside the process table whenever it has selected a process: after the
  selection loop the pointer it stores through is one past the last slot.\<close>

theorem scheduler_out_of_bounds:
  assumes "accs_int st" and "i < NPROC" and "ready (procs st i)" and "p_accumulator (procs st i) < INT_MAX"
  shows "scheduler_round st = Inl (Undefined ''proc[NPROC]'')"
proof -
  obtain j where "scheduler_pick st = Some j"
    using scheduler_pick_None [OF assms(1)] assms(2-4) by (cases "scheduler_pick st") (auto simp: acc_def)
  then show ?thesis by (simp add: scheduler_round_def proc_state_at_def)
qed

theorem scheduler_out_of_bounds_witness: "scheduler_round two_ready = Inl (Undefined ''proc[NPROC]'')"
  by (rule scheduler_out_of_bounds [OF two_ready_ok(1), of 0]) (simp_all add: two_ready_ok NPROC_def INT_MAX_def)

text \<open>C21. \<^verbatim>\<open>wakeup\<close> makes exactly the processes runnable that sleep on the given channel, the caller excepted; each
  of them starts with the least accumulator of the processes that were ready before, or zero if there
  was none; nothing else changes.\<close>

theorem wakeup_exact:
  "wakeup ch st = st\<lparr>procs := (\<lambda>i. if i < NPROC \<and> i \<noteq> cur st \<and> p_state (procs st i) = SLEEPING \<and> p_chan (procs st i) = ch
     then (procs st i)\<lparr>p_state := RUNNABLE, p_accumulator := entry_acc st\<rparr> else procs st i)\<rparr>"
  unfolding wakeup_def wakeup_loop [OF order_refl] by (simp add: woken_def sleeps_on_def conj_assoc)

end
