(* ===== verification/Fs.thy ===== *)
theory Fs
  imports ProcTable
begin

text \<open>
  The file system (\<^verbatim>\<open>kernel/fs.c\<close>, \<^verbatim>\<open>kernel/fs.h\<close>): the block bitmap, inodes on disk and in the inode table,
  the mapping from file offsets to blocks, reading and writing of file contents, directories and paths.
  Everything goes through the buffer cache and the log. An inode pointer is an index into the inode
  table. A destination or source of a transfer is a user address, a kernel address or a local object of
  the caller, whose bytes are returned or passed as a list. File offsets within a transfer are natural
  numbers: the checks at its start exclude the wrap-around of the 32-bit sums. Output of \<^verbatim>\<open>printf\<close> is not
  part of the state.
\<close>

section \<open>Layout\<close>

definition ROOTDEV :: u32 where "ROOTDEV = 1"
definition ROOTINO :: u32 where "ROOTINO = 1"
definition FSMAGIC :: u32 where "FSMAGIC = 0x10203040"
definition NINODE :: nat where "NINODE = 50"
definition NDIRECT :: nat where "NDIRECT = 12"
definition NINDIRECT :: nat where "NINDIRECT = BSIZE div 4"
definition MAXFILE :: nat where "MAXFILE = NDIRECT + NINDIRECT"
definition DINODE_SIZE :: nat where "DINODE_SIZE = 64"
definition IPB :: nat where "IPB = BSIZE div DINODE_SIZE"
definition BPB :: nat where "BPB = BSIZE * 8"
definition DIRSIZ :: nat where "DIRSIZ = 14"
definition DIRENT_SIZE :: nat where "DIRENT_SIZE = 16"
definition T_DIR :: u16 where "T_DIR = 1"
definition T_FILE :: u16 where "T_FILE = 2"
definition T_DEVICE :: u16 where "T_DEVICE = 3"

record superblock =
  sb_magic :: u32
  sb_size :: u32
  sb_nblocks :: u32
  sb_ninodes :: u32
  sb_nlog :: u32
  sb_logstart :: u32
  sb_inodestart :: u32
  sb_bmapstart :: u32

text \<open>The reference count is an \<^verbatim>\<open>int\<close> in C and an unbounded number here: every reference is held by an open file, a working directory or a
  system call in progress, so it stays far below \<open>2^31\<close>.\<close>

record inode =
  i_dev :: u32
  i_inum :: u32
  i_ref :: int
  i_lock :: sleeplock
  i_valid :: bool
  i_type :: u16
  i_major :: u16
  i_minor :: u16
  i_nlink :: u16
  i_size :: u32
  i_addrs :: "u32 list"

record fs = ptable +
  sb :: superblock
  inodes :: "nat \<Rightarrow> inode"

definition IBLOCK :: "u32 \<Rightarrow> superblock \<Rightarrow> u32" where
  "IBLOCK i s = i div of_nat IPB + sb_inodestart s"

definition BBLOCK :: "u32 \<Rightarrow> superblock \<Rightarrow> u32" where
  "BBLOCK b s = b div of_nat BPB + sb_bmapstart s"

definition upd_inode :: "nat \<Rightarrow> (inode \<Rightarrow> inode) \<Rightarrow> 'a fs_scheme \<Rightarrow> 'a fs_scheme" where
  "upd_inode i f st = st\<lparr>inodes := (inodes st)(i := f (inodes st i))\<rparr>"

text \<open>Fields of the on-disk structures.\<close>

definition get16 :: "block \<Rightarrow> nat \<Rightarrow> u16" where
  "get16 b o1 = ucast (b o1) OR push_bit 8 (ucast (b (o1 + 1)))"

definition put16 :: "block \<Rightarrow> nat \<Rightarrow> u16 \<Rightarrow> block" where
  "put16 b o1 v = b(o1 := ucast v, o1 + 1 := ucast (drop_bit 8 v))"

definition put_bytes :: "block \<Rightarrow> nat \<Rightarrow> u8 list \<Rightarrow> block" where
  "put_bytes b o1 bs = (\<lambda>i. if o1 \<le> i \<and> i < o1 + length bs then bs ! (i - o1) else b i)"

definition get_bytes :: "block \<Rightarrow> nat \<Rightarrow> nat \<Rightarrow> u8 list" where
  "get_bytes b o1 n = map b [o1..<o1 + n]"

definition dinode_at :: "u32 \<Rightarrow> nat" where
  "dinode_at inum = (unat inum mod IPB) * DINODE_SIZE"

text \<open>\<^verbatim>\<open>iupdate\<close> stores the fields of an in-memory inode into a disk inode, \<^verbatim>\<open>ilock\<close> loads them back.\<close>

definition put_dinode :: "block \<Rightarrow> nat \<Rightarrow> inode \<Rightarrow> block" where
  "put_dinode b o1 ip =
     fold (\<lambda>k d. put32 d (o1 + 12 + 4 * k) (i_addrs ip ! k)) [0..<NDIRECT + 1]
       (put32 (put16 (put16 (put16 (put16 b o1 (i_type ip)) (o1 + 2) (i_major ip)) (o1 + 4) (i_minor ip))
          (o1 + 6) (i_nlink ip)) (o1 + 8) (i_size ip))"

definition get_dinode :: "block \<Rightarrow> nat \<Rightarrow> inode \<Rightarrow> inode" where
  "get_dinode b o1 ip = ip\<lparr>i_type := get16 b o1, i_major := get16 b (o1 + 2), i_minor := get16 b (o1 + 4),
     i_nlink := get16 b (o1 + 6), i_size := get32 b (o1 + 8),
     i_addrs := map (\<lambda>k. get32 b (o1 + 12 + 4 * k)) [0..<NDIRECT + 1]\<rparr>"

section \<open>Super block and block bitmap\<close>

definition readsb :: "u32 \<Rightarrow> 'a fs_scheme \<Rightarrow> 'a fs_scheme res" where
  "readsb dev st =
     rbind (bread dev 1 st) (\<lambda>(bp, st1).
     let d = b_data (bufs st1 bp) in
     brelse bp (st1\<lparr>sb := \<lparr>sb_magic = get32 d 0, sb_size = get32 d 4, sb_nblocks = get32 d 8, sb_ninodes = get32 d 12,
       sb_nlog = get32 d 16, sb_logstart = get32 d 20, sb_inodestart = get32 d 24, sb_bmapstart = get32 d 28\<rparr>\<rparr>))"

definition fsinit :: "u32 \<Rightarrow> 'a fs_scheme \<Rightarrow> 'a fs_scheme res" where
  "fsinit dev st =
     rbind (readsb dev st) (\<lambda>st1.
     if sb_magic (sb st1) \<noteq> FSMAGIC then Inl (Panic ''invalid file system'')
     else initlog dev (sb_logstart (sb st1)) (sb_nlog (sb st1)) st1)"

definition bzero :: "u32 \<Rightarrow> u32 \<Rightarrow> 'a fs_scheme \<Rightarrow> 'a fs_scheme res" where
  "bzero dev bno st =
     rbind (bread dev bno st) (\<lambda>(bp, st1).
     let st2 = upd_buf bp (\<lambda>x. x\<lparr>b_data := put_bytes (b_data x) 0 (replicate BSIZE 0)\<rparr>) st1 in
     rbind (log_write bp st2) (brelse bp))"

text \<open>The inner loop of \<^verbatim>\<open>balloc\<close>: the first free bit of a bitmap block, among the blocks below \<open>sz\<close>.\<close>

definition bit_free :: "block \<Rightarrow> nat \<Rightarrow> bool" where
  "bit_free d bi \<longleftrightarrow> d (bi div 8) AND push_bit (bi mod 8) 1 = 0"

definition balloc_scan :: "block \<Rightarrow> nat \<Rightarrow> nat \<Rightarrow> nat option" where
  "balloc_scan d b sz = find (bit_free d) [0..<min BPB (sz - b)]"

function balloc_from :: "u32 \<Rightarrow> nat \<Rightarrow> nat \<Rightarrow> 'a fs_scheme \<Rightarrow> (u32 \<times> 'a fs_scheme) res" where
  "balloc_from dev sz b st =
     (if b < sz then
        rbind (bread dev (BBLOCK (of_nat b) (sb st)) st) (\<lambda>(bp, st1).
        case balloc_scan (b_data (bufs st1 bp)) b sz of
          Some bi \<Rightarrow>
            let m = push_bit (bi mod 8) 1;
                st2 = upd_buf bp (\<lambda>x. x\<lparr>b_data := (b_data x)(bi div 8 := b_data x (bi div 8) OR m)\<rparr>) st1 in
            rbind (log_write bp st2) (\<lambda>st3.
            rbind (brelse bp st3) (\<lambda>st4.
            rbind (bzero dev (of_nat (b + bi)) st4) (\<lambda>st5.
            Inr (of_nat (b + bi), st5))))
        | None \<Rightarrow> rbind (brelse bp st1) (balloc_from dev sz (b + BPB)))
      else Inr (0, st))"
  by pat_completeness auto
termination
  by (relation "measure (\<lambda>(dev, sz, b, st). sz - b)") (auto simp: BPB_def BSIZE_def)

declare balloc_from.simps [simp del]

definition balloc :: "u32 \<Rightarrow> 'a fs_scheme \<Rightarrow> (u32 \<times> 'a fs_scheme) res" where
  "balloc dev st = balloc_from dev (unat (sb_size (sb st))) 0 st"

definition bfree :: "u32 \<Rightarrow> u32 \<Rightarrow> 'a fs_scheme \<Rightarrow> 'a fs_scheme res" where
  "bfree dev b st =
     rbind (bread dev (BBLOCK b (sb st)) st) (\<lambda>(bp, st1).
     let bi = unat b mod BPB; m = push_bit (bi mod 8) 1 in
     if b_data (bufs st1 bp) (bi div 8) AND m = 0 then Inl (Panic ''freeing free block'')
     else let st2 = upd_buf bp (\<lambda>x. x\<lparr>b_data := (b_data x)(bi div 8 := b_data x (bi div 8) AND NOT m)\<rparr>) st1 in
          rbind (log_write bp st2) (brelse bp))"

section \<open>Inodes\<close>

definition iinit :: "'a fs_scheme \<Rightarrow> 'a fs_scheme" where
  "iinit st = fold (\<lambda>i. upd_inode i (\<lambda>ip. ip\<lparr>i_lock := initsleeplock\<rparr>)) [0..<NINODE] st"

definition iget :: "u32 \<Rightarrow> u32 \<Rightarrow> 'a fs_scheme \<Rightarrow> (nat \<times> 'a fs_scheme) res" where
  "iget dev inum st =
     (case find (\<lambda>i. i_ref (inodes st i) > 0 \<and> i_dev (inodes st i) = dev \<and> i_inum (inodes st i) = inum) [0..<NINODE] of
        Some i \<Rightarrow> Inr (i, upd_inode i (\<lambda>ip. ip\<lparr>i_ref := i_ref ip + 1\<rparr>) st)
      | None \<Rightarrow>
          (case find (\<lambda>i. i_ref (inodes st i) = 0) [0..<NINODE] of
             None \<Rightarrow> Inl (Panic ''iget: no inodes'')
           | Some i \<Rightarrow> Inr (i, upd_inode i (\<lambda>ip. ip\<lparr>i_dev := dev, i_inum := inum, i_ref := 1, i_valid := False\<rparr>) st)))"

function ialloc_from :: "u32 \<Rightarrow> u16 \<Rightarrow> nat \<Rightarrow> nat \<Rightarrow> 'a fs_scheme \<Rightarrow> (nat option \<times> 'a fs_scheme) res" where
  "ialloc_from dev type ninodes inum st =
     (if inum < ninodes then
        rbind (bread dev (IBLOCK (of_nat inum) (sb st)) st) (\<lambda>(bp, st1).
        let o1 = dinode_at (of_nat inum) in
        if get16 (b_data (bufs st1 bp)) o1 = 0 then
          let st2 = upd_buf bp (\<lambda>x. x\<lparr>b_data := put16 (put_bytes (b_data x) o1 (replicate DINODE_SIZE 0)) o1 type\<rparr>) st1 in
          rbind (log_write bp st2) (\<lambda>st3.
          rbind (brelse bp st3) (\<lambda>st4.
          rbind (iget dev (of_nat inum) st4) (\<lambda>(i, st5). Inr (Some i, st5))))
        else rbind (brelse bp st1) (ialloc_from dev type ninodes (inum + 1)))
      else Inr (None, st))"
  by pat_completeness auto
termination
  by (relation "measure (\<lambda>(dev, type, ninodes, inum, st). ninodes - inum)") auto

declare ialloc_from.simps [simp del]

definition ialloc :: "u32 \<Rightarrow> u16 \<Rightarrow> 'a fs_scheme \<Rightarrow> (nat option \<times> 'a fs_scheme) res" where
  "ialloc dev type st = ialloc_from dev type (unat (sb_ninodes (sb st))) 1 st"

definition iupdate :: "nat \<Rightarrow> 'a fs_scheme \<Rightarrow> 'a fs_scheme res" where
  "iupdate i st =
     (let ip = inodes st i in
      rbind (bread (i_dev ip) (IBLOCK (i_inum ip) (sb st)) st) (\<lambda>(bp, st1).
      let st2 = upd_buf bp (\<lambda>x. x\<lparr>b_data := put_dinode (b_data x) (dinode_at (i_inum ip)) ip\<rparr>) st1 in
      rbind (log_write bp st2) (brelse bp)))"

definition idup :: "nat \<Rightarrow> 'a fs_scheme \<Rightarrow> nat \<times> 'a fs_scheme" where
  "idup i st = (i, upd_inode i (\<lambda>ip. ip\<lparr>i_ref := i_ref ip + 1\<rparr>) st)"

definition ilock :: "nat \<Rightarrow> 'a fs_scheme \<Rightarrow> 'a fs_scheme res" where
  "ilock i st =
     (if i_ref (inodes st i) < 1 then Inl (Panic ''ilock'')
      else rbind (acquiresleep (curpid st) (i_lock (inodes st i))) (\<lambda>lk.
        let st1 = upd_inode i (\<lambda>ip. ip\<lparr>i_lock := lk\<rparr>) st in
        if \<not> i_valid (inodes st1 i) then
          rbind (bread (i_dev (inodes st1 i)) (IBLOCK (i_inum (inodes st1 i)) (sb st1)) st1) (\<lambda>(bp, st2).
          let st3 = upd_inode i (get_dinode (b_data (bufs st2 bp)) (dinode_at (i_inum (inodes st2 i)))) st2 in
          rbind (brelse bp st3) (\<lambda>st4.
          let st5 = upd_inode i (\<lambda>ip. ip\<lparr>i_valid := True\<rparr>) st4 in
          if i_type (inodes st5 i) = 0 then Inl (Panic ''ilock: no type'') else Inr st5))
        else Inr st1))"

definition iunlock :: "nat \<Rightarrow> 'a fs_scheme \<Rightarrow> 'a fs_scheme res" where
  "iunlock i st =
     (if \<not> holdingsleep (curpid st) (i_lock (inodes st i)) \<or> i_ref (inodes st i) < 1 then Inl (Panic ''iunlock'')
      else Inr (upd_inode i (\<lambda>ip. ip\<lparr>i_lock := releasesleep (i_lock ip)\<rparr>) st))"

definition bmap :: "nat \<Rightarrow> nat \<Rightarrow> 'a fs_scheme \<Rightarrow> (u32 \<times> 'a fs_scheme) res" where
  "bmap i bn st =
     (if bn < NDIRECT then
        (let addr = i_addrs (inodes st i) ! bn in
         if addr = 0 then
           rbind (balloc (i_dev (inodes st i)) st) (\<lambda>(addr1, st1).
           if addr1 = 0 then Inr (0, st1)
           else Inr (addr1, upd_inode i (\<lambda>ip. ip\<lparr>i_addrs := (i_addrs ip)[bn := addr1]\<rparr>) st1))
         else Inr (addr, st))
      else if bn - NDIRECT < NINDIRECT then
        rbind (let addr = i_addrs (inodes st i) ! NDIRECT in
               if addr = 0 then
                 rbind (balloc (i_dev (inodes st i)) st) (\<lambda>(addr1, st1).
                 if addr1 = 0 then Inr (0, st1)
                 else Inr (addr1, upd_inode i (\<lambda>ip. ip\<lparr>i_addrs := (i_addrs ip)[NDIRECT := addr1]\<rparr>) st1))
               else Inr (addr, st)) (\<lambda>(addr, st1).
        if addr = 0 then Inr (0, st1)
        else rbind (bread (i_dev (inodes st1 i)) addr st1) (\<lambda>(bp, st2).
          let a = get32 (b_data (bufs st2 bp)) (4 * (bn - NDIRECT)) in
          if a = 0 then
            rbind (balloc (i_dev (inodes st2 i)) st2) (\<lambda>(addr2, st3).
            rbind (if addr2 \<noteq> 0
                   then log_write bp (upd_buf bp (\<lambda>x. x\<lparr>b_data := put32 (b_data x) (4 * (bn - NDIRECT)) addr2\<rparr>) st3)
                   else Inr st3) (\<lambda>st4.
            rbind (brelse bp st4) (\<lambda>st5. Inr (addr2, st5))))
          else rbind (brelse bp st2) (\<lambda>st3. Inr (a, st3))))
      else Inl (Panic ''bmap: out of range''))"

definition itrunc_direct :: "nat \<Rightarrow> nat \<Rightarrow> 'a fs_scheme \<Rightarrow> 'a fs_scheme res" where
  "itrunc_direct i k st =
     (if i_addrs (inodes st i) ! k \<noteq> 0 then
        rbind (bfree (i_dev (inodes st i)) (i_addrs (inodes st i) ! k) st) (\<lambda>st1.
        Inr (upd_inode i (\<lambda>ip. ip\<lparr>i_addrs := (i_addrs ip)[k := 0]\<rparr>) st1))
      else Inr st)"

definition itrunc_indirect :: "nat \<Rightarrow> nat \<Rightarrow> nat \<Rightarrow> 'a fs_scheme \<Rightarrow> 'a fs_scheme res" where
  "itrunc_indirect i bp j st =
     (let a = get32 (b_data (bufs st bp)) (4 * j) in
      if a \<noteq> 0 then bfree (i_dev (inodes st i)) a st else Inr st)"

definition itrunc :: "nat \<Rightarrow> 'a fs_scheme \<Rightarrow> 'a fs_scheme res" where
  "itrunc i st =
     rbind (rfold (itrunc_direct i) [0..<NDIRECT] st) (\<lambda>st1.
     rbind (if i_addrs (inodes st1 i) ! NDIRECT \<noteq> 0 then
              rbind (bread (i_dev (inodes st1 i)) (i_addrs (inodes st1 i) ! NDIRECT) st1) (\<lambda>(bp, st2).
              rbind (rfold (itrunc_indirect i bp) [0..<NINDIRECT] st2) (\<lambda>st3.
              rbind (brelse bp st3) (\<lambda>st4.
              rbind (bfree (i_dev (inodes st4 i)) (i_addrs (inodes st4 i) ! NDIRECT) st4) (\<lambda>st5.
              Inr (upd_inode i (\<lambda>ip. ip\<lparr>i_addrs := (i_addrs ip)[NDIRECT := 0]\<rparr>) st5)))))
            else Inr st1) (\<lambda>st6.
     iupdate i (upd_inode i (\<lambda>ip. ip\<lparr>i_size := 0\<rparr>) st6)))"

definition iput :: "nat \<Rightarrow> 'a fs_scheme \<Rightarrow> 'a fs_scheme res" where
  "iput i st =
     rbind (if i_ref (inodes st i) = 1 \<and> i_valid (inodes st i) \<and> i_nlink (inodes st i) = 0 then
              rbind (acquiresleep (curpid st) (i_lock (inodes st i))) (\<lambda>lk.
              rbind (itrunc i (upd_inode i (\<lambda>ip. ip\<lparr>i_lock := lk\<rparr>) st)) (\<lambda>st1.
              rbind (iupdate i (upd_inode i (\<lambda>ip. ip\<lparr>i_type := 0\<rparr>) st1)) (\<lambda>st2.
              Inr (upd_inode i (\<lambda>ip. ip\<lparr>i_valid := False, i_lock := releasesleep (i_lock ip)\<rparr>) st2))))
            else Inr st) (\<lambda>st3.
     Inr (upd_inode i (\<lambda>ip. ip\<lparr>i_ref := i_ref ip - 1\<rparr>) st3))"

definition iunlockput :: "nat \<Rightarrow> 'a fs_scheme \<Rightarrow> 'a fs_scheme res" where
  "iunlockput i st = rbind (iunlock i st) (iput i)"

end
