(* ===== verification/FsData.thy ===== *)
theory FsData
  imports Fs
begin

text \<open>
  File contents, directories and path names (\<^verbatim>\<open>kernel/fs.c\<close> from \<^verbatim>\<open>stati\<close> on). The byte loops of \<^verbatim>\<open>readi\<close> and \<^verbatim>\<open>writei\<close>
  advance by whole chunks as in the source; a directory is read entry by entry. A path is the list of its
  characters without the terminator; the array \<^verbatim>\<open>name\<close> of \<^verbatim>\<open>DIRSIZ\<close> characters is a list that keeps the
  characters a short element does not overwrite.
\<close>

section \<open>Reading and writing file contents\<close>

record kstat =
  st_dev :: u32
  st_ino :: u32
  st_type :: u16
  st_nlink :: u16
  st_size :: u64

definition stati :: "nat \<Rightarrow> 'a fs_scheme \<Rightarrow> kstat" where
  "stati i st = \<lparr>st_dev = i_dev (inodes st i), st_ino = i_inum (inodes st i), st_type = i_type (inodes st i),
     st_nlink = i_nlink (inodes st i), st_size = ucast (i_size (inodes st i))\<rparr>"

datatype iodst = UserDst u64 | KernDst u64 | LocalDst

datatype iosrc = UserSrc u64 | KernSrc u64 | LocalSrc "u8 list"

fun copy_to :: "iodst \<Rightarrow> nat \<Rightarrow> u8 list \<Rightarrow> 'a fs_scheme \<Rightarrow> (int \<times> 'a fs_scheme) res" where
  "copy_to (UserDst dst) tot bs st = either_copyout True (dst + of_nat tot) bs st"
| "copy_to (KernDst dst) tot bs st = either_copyout False (dst + of_nat tot) bs st"
| "copy_to LocalDst tot bs st = Inr (0, st)"

fun copy_from :: "iosrc \<Rightarrow> nat \<Rightarrow> nat \<Rightarrow> 'a fs_scheme \<Rightarrow> (int \<times> u8 list) res" where
  "copy_from (UserSrc src) tot m st = either_copyin True (src + of_nat tot) m st"
| "copy_from (KernSrc src) tot m st = either_copyin False (src + of_nat tot) m st"
| "copy_from (LocalSrc bs) tot m st = Inr (0, take m (drop tot bs))"

lemma io_chunk: "tot < n \<Longrightarrow> m = min (n - tot) (BSIZE - off mod BSIZE) \<Longrightarrow> 0 < m \<and> n - (tot + m) < n - tot"
proof -
  assume "tot < n" "m = min (n - tot) (BSIZE - off mod BSIZE)"
  then have "0 < m" by (simp add: BSIZE_def)
  with \<open>tot < n\<close> show ?thesis by linarith
qed

function readi_loop :: "nat \<Rightarrow> iodst \<Rightarrow> nat \<Rightarrow> nat \<Rightarrow> nat \<Rightarrow> u8 list \<Rightarrow> 'a fs_scheme \<Rightarrow> (int \<times> u8 list \<times> 'a fs_scheme) res" where
  "readi_loop i dst off n tot got st =
     (if tot < n then
        rbind (bmap i (off div BSIZE) st) (\<lambda>(addr, st1).
        if addr = 0 then Inr (int tot, got, st1)
        else rbind (bread (i_dev (inodes st1 i)) addr st1) (\<lambda>(bp, st2).
          let m = min (n - tot) (BSIZE - off mod BSIZE);
              bs = get_bytes (b_data (bufs st2 bp)) (off mod BSIZE) m in
          rbind (copy_to dst tot bs st2) (\<lambda>(r, st3).
          if r = -1 then rbind (brelse bp st3) (\<lambda>st4. Inr (-1, got, st4))
          else rbind (brelse bp st3) (readi_loop i dst (off + m) n (tot + m) (got @ bs)))))
      else Inr (int tot, got, st))"
  by pat_completeness auto
termination
  by (relation "measure (\<lambda>(i, dst, off, n, tot, got, st). n - tot)") (simp, simp only: in_measure prod.case io_chunk)

definition readi :: "nat \<Rightarrow> iodst \<Rightarrow> u32 \<Rightarrow> u32 \<Rightarrow> 'a fs_scheme \<Rightarrow> (int \<times> u8 list \<times> 'a fs_scheme) res" where
  "readi i dst off n st =
     (if off > i_size (inodes st i) \<or> off + n < off then Inr (0, [], st)
      else let n1 = (if off + n > i_size (inodes st i) then i_size (inodes st i) - off else n)
           in readi_loop i dst (unat off) (unat n1) 0 [] st)"

function writei_loop :: "nat \<Rightarrow> iosrc \<Rightarrow> nat \<Rightarrow> nat \<Rightarrow> nat \<Rightarrow> 'a fs_scheme \<Rightarrow> (nat \<times> nat \<times> 'a fs_scheme) res" where
  "writei_loop i src off n tot st =
     (if tot < n then
        rbind (bmap i (off div BSIZE) st) (\<lambda>(addr, st1).
        if addr = 0 then Inr (tot, off, st1)
        else rbind (bread (i_dev (inodes st1 i)) addr st1) (\<lambda>(bp, st2).
          let m = min (n - tot) (BSIZE - off mod BSIZE) in
          rbind (copy_from src tot m st2) (\<lambda>(r, bs).
          let st3 = upd_buf bp (\<lambda>x. x\<lparr>b_data := put_bytes (b_data x) (off mod BSIZE) bs\<rparr>) st2 in
          if r = -1 then rbind (brelse bp st3) (\<lambda>st4. Inr (tot, off, st4))
          else rbind (log_write bp st3) (\<lambda>st4.
               rbind (brelse bp st4) (writei_loop i src (off + m) n (tot + m))))))
      else Inr (tot, off, st))"
  by pat_completeness auto
termination
  by (relation "measure (\<lambda>(i, src, off, n, tot, st). n - tot)") (simp, simp only: in_measure prod.case io_chunk)

declare readi_loop.simps [simp del] writei_loop.simps [simp del]

definition writei :: "nat \<Rightarrow> iosrc \<Rightarrow> u32 \<Rightarrow> u32 \<Rightarrow> 'a fs_scheme \<Rightarrow> (int \<times> 'a fs_scheme) res" where
  "writei i src off n st =
     (if off > i_size (inodes st i) \<or> off + n < off then Inr (-1, st)
      else if unat (off + n) > MAXFILE * BSIZE then Inr (-1, st)
      else rbind (writei_loop i src (unat off) (unat n) 0 st) (\<lambda>(tot, off1, st1).
        let st2 = (if off1 > unat (i_size (inodes st1 i)) then upd_inode i (\<lambda>ip. ip\<lparr>i_size := of_nat off1\<rparr>) st1 else st1) in
        rbind (iupdate i st2) (\<lambda>st3. Inr (int tot, st3))))"

section \<open>Directories\<close>

definition namecmp :: "u8 list \<Rightarrow> u8 list \<Rightarrow> int" where
  "namecmp s t = strncmp_bytes s t DIRSIZ"

text \<open>A directory entry: 16 bytes, the inode number in the first two.\<close>

definition de_inum :: "u8 list \<Rightarrow> u16" where
  "de_inum de = ucast (char_at de 0) OR push_bit 8 (ucast (char_at de 1))"

definition de_name :: "u8 list \<Rightarrow> u8 list" where
  "de_name de = take DIRSIZ (drop 2 de)"

definition mk_dirent :: "u16 \<Rightarrow> u8 list \<Rightarrow> u8 list" where
  "mk_dirent inum name = ucast inum # ucast (drop_bit 8 inum) # name"

text \<open>The scans of \<^verbatim>\<open>dirlookup\<close> and \<^verbatim>\<open>dirlink\<close>; \<open>sz\<close> is the size of the directory, which the caller has locked.\<close>

function dirlookup_loop :: "nat \<Rightarrow> u8 list \<Rightarrow> nat \<Rightarrow> nat \<Rightarrow> 'a fs_scheme \<Rightarrow> ((nat \<times> nat) option \<times> 'a fs_scheme) res" where
  "dirlookup_loop dp name sz off st =
     (if off < sz then
        rbind (readi dp LocalDst (of_nat off) (of_nat DIRENT_SIZE) st) (\<lambda>(r, de, st1).
        if r \<noteq> int DIRENT_SIZE then Inl (Panic ''dirlookup read'')
        else if de_inum de = 0 then dirlookup_loop dp name sz (off + DIRENT_SIZE) st1
        else if namecmp name (de_name de) = 0 then
          rbind (iget (i_dev (inodes st1 dp)) (ucast (de_inum de)) st1) (\<lambda>(ip, st2). Inr (Some (ip, off), st2))
        else dirlookup_loop dp name sz (off + DIRENT_SIZE) st1)
      else Inr (None, st))"
  by pat_completeness auto
termination
  by (relation "measure (\<lambda>(dp, name, sz, off, st). sz - off)") (auto simp: DIRENT_SIZE_def)

definition dirlookup :: "nat \<Rightarrow> u8 list \<Rightarrow> 'a fs_scheme \<Rightarrow> ((nat \<times> nat) option \<times> 'a fs_scheme) res" where
  "dirlookup dp name st =
     (if i_type (inodes st dp) \<noteq> T_DIR then Inl (Panic ''dirlookup not DIR'')
      else dirlookup_loop dp name (unat (i_size (inodes st dp))) 0 st)"

function dirlink_slot :: "nat \<Rightarrow> nat \<Rightarrow> nat \<Rightarrow> 'a fs_scheme \<Rightarrow> (nat \<times> 'a fs_scheme) res" where
  "dirlink_slot dp sz off st =
     (if off < sz then
        rbind (readi dp LocalDst (of_nat off) (of_nat DIRENT_SIZE) st) (\<lambda>(r, de, st1).
        if r \<noteq> int DIRENT_SIZE then Inl (Panic ''dirlink read'')
        else if de_inum de = 0 then Inr (off, st1)
        else dirlink_slot dp sz (off + DIRENT_SIZE) st1)
      else Inr (off, st))"
  by pat_completeness auto
termination
  by (relation "measure (\<lambda>(dp, sz, off, st). sz - off)") (auto simp: DIRENT_SIZE_def)

declare dirlookup_loop.simps [simp del] dirlink_slot.simps [simp del]

definition dirlink :: "nat \<Rightarrow> u8 list \<Rightarrow> u32 \<Rightarrow> 'a fs_scheme \<Rightarrow> (int \<times> 'a fs_scheme) res" where
  "dirlink dp name inum st =
     rbind (dirlookup dp name st) (\<lambda>(found, st1).
     case found of
       Some (ip, off) \<Rightarrow> rbind (iput ip st1) (\<lambda>st2. Inr (-1, st2))
     | None \<Rightarrow>
         rbind (dirlink_slot dp (unat (i_size (inodes st1 dp))) 0 st1) (\<lambda>(off, st2).
         let de = mk_dirent (ucast inum) (strncpy_bytes name DIRSIZ) in
         rbind (writei dp (LocalSrc de) (of_nat off) (of_nat DIRENT_SIZE) st2) (\<lambda>(r, st3).
         if r \<noteq> int DIRENT_SIZE then Inr (-1, st3) else Inr (0, st3))))"

section \<open>Paths\<close>

abbreviation slash :: u8 where "slash \<equiv> 47"

definition skipelem :: "u8 list \<Rightarrow> u8 list \<Rightarrow> (u8 list \<times> u8 list) option" where
  "skipelem path name =
     (let p1 = dropWhile (\<lambda>c. c = slash) path in
      if p1 = [] then None
      else let s = takeWhile (\<lambda>c. c \<noteq> slash) p1;
               p2 = dropWhile (\<lambda>c. c \<noteq> slash) p1;
               name1 = (if length s \<ge> DIRSIZ then take DIRSIZ s @ drop DIRSIZ name
                        else s @ 0 # drop (Suc (length s)) name)
           in Some (dropWhile (\<lambda>c. c = slash) p2, name1))"

lemma skipelem_shorter: "skipelem path name = Some (path', name') \<Longrightarrow> length path' < length path"
proof -
  assume a: "skipelem path name = Some (path', name')"
  let ?p1 = "dropWhile (\<lambda>c. c = slash) path"
  have ne: "?p1 \<noteq> []" and p: "path' = dropWhile (\<lambda>c. c = slash) (dropWhile (\<lambda>c. c \<noteq> slash) ?p1)"
    using a by (auto simp: skipelem_def Let_def split: if_splits)
  then obtain c cs where c: "?p1 = c # cs" "c \<noteq> slash" using hd_dropWhile [of "\<lambda>c. c = slash" path] by (cases ?p1) auto
  have "length path' \<le> length (dropWhile (\<lambda>c. c \<noteq> slash) cs)" using c p by (simp add: length_dropWhile_le)
  also have "\<dots> < length ?p1" using c length_dropWhile_le [of "\<lambda>c. c \<noteq> slash" cs] by simp
  also have "\<dots> \<le> length path" by (rule length_dropWhile_le)
  finally show ?thesis .
qed

function namex_loop :: "bool \<Rightarrow> nat \<Rightarrow> u8 list \<Rightarrow> u8 list \<Rightarrow> 'a fs_scheme \<Rightarrow> (nat option \<times> u8 list \<times> 'a fs_scheme) res" where
  "namex_loop parent ip path name st =
     (case skipelem path name of
        None \<Rightarrow> if parent then rbind (iput ip st) (\<lambda>st1. Inr (None, name, st1)) else Inr (Some ip, name, st)
      | Some (path1, name1) \<Rightarrow>
          rbind (ilock ip st) (\<lambda>st1.
          if i_type (inodes st1 ip) \<noteq> T_DIR then rbind (iunlockput ip st1) (\<lambda>st2. Inr (None, name1, st2))
          else if parent \<and> path1 = [] then rbind (iunlock ip st1) (\<lambda>st2. Inr (Some ip, name1, st2))
          else rbind (dirlookup ip name1 st1) (\<lambda>(found, st2).
            case found of
              None \<Rightarrow> rbind (iunlockput ip st2) (\<lambda>st3. Inr (None, name1, st3))
            | Some (nxt, off) \<Rightarrow> rbind (iunlockput ip st2) (namex_loop parent nxt path1 name1))))"
  by pat_completeness auto
termination
  by (relation "measure (\<lambda>(parent, ip, path, name, st). length path)") (auto dest: skipelem_shorter)

declare namex_loop.simps [simp del]

definition namex :: "u8 list \<Rightarrow> bool \<Rightarrow> u8 list \<Rightarrow> 'a fs_scheme \<Rightarrow> (nat option \<times> u8 list \<times> 'a fs_scheme) res" where
  "namex path parent name st =
     rbind (if path \<noteq> [] \<and> hd path = slash then iget ROOTDEV ROOTINO st
            else case p_cwd (myproc st) of
                   None \<Rightarrow> Inl (Undefined ''idup(0)'')
                 | Some cwd \<Rightarrow> Inr (idup cwd st)) (\<lambda>(ip, st1).
     namex_loop parent ip path name st1)"

definition namei :: "u8 list \<Rightarrow> 'a fs_scheme \<Rightarrow> (nat option \<times> 'a fs_scheme) res" where
  "namei path st = rbind (namex path False (replicate DIRSIZ 0) st) (\<lambda>(ip, name, st1). Inr (ip, st1))"

definition nameiparent :: "u8 list \<Rightarrow> u8 list \<Rightarrow> 'a fs_scheme \<Rightarrow> (nat option \<times> u8 list \<times> 'a fs_scheme) res" where
  "nameiparent path name st = namex path True name st"

section \<open>A sample state\<close>

definition zero_inode :: inode where
  "zero_inode = \<lparr>i_dev = 0, i_inum = 0, i_ref = 0, i_lock = initsleeplock, i_valid = False, i_type = 0, i_major = 0,
     i_minor = 0, i_nlink = 0, i_size = 0, i_addrs = replicate 13 0\<rparr>"

definition sample_sb :: superblock where
  "sample_sb = \<lparr>sb_magic = FSMAGIC, sb_size = 2000, sb_nblocks = 1954, sb_ninodes = 200, sb_nlog = 30, sb_logstart = 2,
     sb_inodestart = 32, sb_bmapstart = 45\<rparr>"

definition zero_fs :: fs where
  "zero_fs = ptable.extend zero_ptable (fs.fields sample_sb (\<lambda>_. zero_inode))"

end
