(* ===== verification/Console.thy ===== *)
theory Console
  imports KPrintf FsData
begin

text \<open>
  The console (\<^verbatim>\<open>kernel/console.c\<close>) over the UART driver: the input line buffer with its three free-running
  counters, the line editing of the input interrupt, and the read and write sides of the console device. The kernel
  state is extended by the driver's and the console's state. A reader that has to sleep returns \<open>CSleep\<close> with what
  its loop still has to do.
\<close>

section \<open>State and operations\<close>

definition INPUT_BUF_SIZE :: nat where "INPUT_BUF_SIZE = 128"

definition ctrl :: "char \<Rightarrow> int" where
  "ctrl x = of_char x - of_char (CHR ''@'')"

record cons =
  cons_buf :: "u8 list"
  cons_r :: u32
  cons_w :: u32
  cons_e :: u32

record kcon = fs +
  kuart :: uart
  kcons :: cons

text \<open>\<^verbatim>\<open>uartputc\<close> in the kernel: each byte taken from the transmit ring wakes up the writers.\<close>

definition uart_wakes :: "nat \<times> uart \<Rightarrow> 'a kcon_scheme \<Rightarrow> 'a kcon_scheme" where
  "uart_wakes r st = (wakeup ChUartTx ^^ fst r) (st\<lparr>kuart := snd r\<rparr>)"

definition kuartputc :: "u8 \<Rightarrow> 'a kcon_scheme \<Rightarrow> 'a kcon_scheme res" where
  "kuartputc c st = rbind (uartputc c (kuart st)) (\<lambda>r. Inr (uart_wakes r st))"

fun consolewrite_loop :: "nat \<Rightarrow> nat \<Rightarrow> bool \<Rightarrow> u64 \<Rightarrow> 'a kcon_scheme \<Rightarrow> (int \<times> 'a kcon_scheme) res" where
  "consolewrite_loop 0 i user_src src st = Inr (int i, st)"
| "consolewrite_loop (Suc k) i user_src src st =
     rbind (either_copyin user_src (src + of_nat i) 1 st) (\<lambda>(r, bs).
       if r = -1 then Inr (int i, st)
       else rbind (kuartputc (hd bs) st) (consolewrite_loop k (Suc i) user_src src))"

definition consolewrite :: "bool \<Rightarrow> u64 \<Rightarrow> int \<Rightarrow> 'a kcon_scheme \<Rightarrow> (int \<times> 'a kcon_scheme) res" where
  "consolewrite user_src src n st = consolewrite_loop (nat n) 0 user_src src st"

datatype cons_outcome = CDone int | CSleep u64 nat

fun consoleread_loop ::
    "nat \<Rightarrow> nat \<Rightarrow> bool \<Rightarrow> u64 \<Rightarrow> 'a kcon_scheme \<Rightarrow> (cons_outcome \<times> 'a kcon_scheme) res" where
  "consoleread_loop 0 target user_dst dst st = Inr (CDone (int target), st)"
| "consoleread_loop (Suc k) target user_dst dst st =
     (let cn = kcons st
      in if cons_r cn = cons_w cn
         then Inr (if killed (cur st) st then CDone (-1) else CSleep dst (Suc k), st)
         else let c = cons_buf cn ! (unat (cons_r cn) mod INPUT_BUF_SIZE);
                  st1 = st\<lparr>kcons := cn\<lparr>cons_r := cons_r cn + 1\<rparr>\<rparr>
              in if uint c = ctrl (CHR ''D'')
                 then Inr (CDone (int target - int (Suc k)),
                           if Suc k < target then st1\<lparr>kcons := (kcons st1)\<lparr>cons_r := cons_r (kcons st1) - 1\<rparr>\<rparr> else st1)
                 else rbind (either_copyout user_dst dst [c] st1) (\<lambda>(x, st2).
                   if x = -1 then Inr (CDone (int target - int (Suc k)), st2)
                   else if c = 10 then Inr (CDone (int target - int k), st2)
                   else consoleread_loop k target user_dst (dst + 1) st2))"

definition consoleread :: "bool \<Rightarrow> u64 \<Rightarrow> int \<Rightarrow> 'a kcon_scheme \<Rightarrow> (cons_outcome \<times> 'a kcon_scheme) res" where
  "consoleread user_dst dst n st =
     (if n \<le> 0 then Inr (CDone 0, st) else consoleread_loop (nat n) (nat n) user_dst dst st)"

text \<open>\<^verbatim>\<open>procdump\<close>, which the console calls for control-P.\<close>

definition procdump :: "'a kcon_scheme \<Rightarrow> 'a kcon_scheme res" where
  "procdump st =
     rbind (printf (Some [10]) [] (kuart st)) (\<lambda>u.
     rbind (rfold (\<lambda>(pid, state, name) v.
              rbind (printf (Some (bytes_of ''%d %s %s''))
                      [ArgInt (word_of_int pid), ArgStr (Some (bytes_of state)), ArgStr (Some (takeWhile (\<lambda>b. b \<noteq> 0) name))] v)
                (printf (Some [10]) [])) (procdump_rows st) u) (\<lambda>u1.
     Inr (st\<lparr>kuart := u1\<rparr>)))"

function kill_line :: "cons \<Rightarrow> uart \<Rightarrow> (cons \<times> uart) res" where
  "kill_line cn u =
     (if cons_e cn \<noteq> cons_w cn \<and> cons_buf cn ! (unat (cons_e cn - 1) mod INPUT_BUF_SIZE) \<noteq> 10
      then rbind (consputc BACKSPACE u) (kill_line (cn\<lparr>cons_e := cons_e cn - 1\<rparr>))
      else Inr (cn, u))"
  by pat_completeness auto
termination
proof (relation "measure (\<lambda>(cn, u). unat (cons_e cn - cons_w cn))", goal_cases)
  case (2 cn u u1)
  then have "cons_e cn - cons_w cn \<noteq> 0" by simp
  then have "unat (cons_e cn - cons_w cn - 1) < unat (cons_e cn - cons_w cn)"
    by (metis Suc_pred' lessI unat_gt_0 unat_minus_one)
  then show ?case by (simp add: algebra_simps)
qed simp

declare kill_line.simps [simp del]

definition consoleintr :: "int \<Rightarrow> 'a kcon_scheme \<Rightarrow> 'a kcon_scheme res" where
  "consoleintr c st =
     (let cn = kcons st
      in if c = ctrl (CHR ''P'') then procdump st
         else if c = ctrl (CHR ''U'') then
           rbind (kill_line cn (kuart st)) (\<lambda>(cn1, u1). Inr (st\<lparr>kcons := cn1, kuart := u1\<rparr>))
         else if c = ctrl (CHR ''H'') \<or> c = 0x7f then
           (if cons_e cn \<noteq> cons_w cn
            then rbind (consputc BACKSPACE (kuart st)) (\<lambda>u1.
                   Inr (st\<lparr>kcons := cn\<lparr>cons_e := cons_e cn - 1\<rparr>, kuart := u1\<rparr>))
            else Inr st)
         else if c \<noteq> 0 \<and> cons_e cn - cons_r cn < of_nat INPUT_BUF_SIZE then
           (let c1 = (if c = 13 then 10 else c)
            in rbind (consputc c1 (kuart st)) (\<lambda>u1.
               let cn1 = cn\<lparr>cons_buf := (cons_buf cn)[unat (cons_e cn) mod INPUT_BUF_SIZE := of_int c1], cons_e := cons_e cn + 1\<rparr>
               in if c1 = 10 \<or> c1 = ctrl (CHR ''D'') \<or> cons_e cn1 - cons_r cn1 = of_nat INPUT_BUF_SIZE
                  then Inr (wakeup ChCons (st\<lparr>kcons := cn1\<lparr>cons_w := cons_e cn1\<rparr>, kuart := u1\<rparr>))
                  else Inr (st\<lparr>kcons := cn1, kuart := u1\<rparr>)))
         else Inr st)"

definition consoleinit :: "'a kcon_scheme \<Rightarrow> 'a kcon_scheme" where
  "consoleinit st = st\<lparr>kuart := uartinit (kuart st)\<rparr>"

text \<open>The interrupt handler of the UART; its loop ends when the receive register is empty.\<close>

partial_function (option) uartintr_loop :: "'a kcon_scheme \<Rightarrow> 'a kcon_scheme res option" where
  "uartintr_loop st =
     (let (c, u) = uartgetc (kuart st); st1 = st\<lparr>kuart := u\<rparr>
      in if c = -1 then Some (Inr st1)
         else case consoleintr c st1 of Inl e \<Rightarrow> Some (Inl e) | Inr st2 \<Rightarrow> uartintr_loop st2)"

definition uartintr :: "'a kcon_scheme \<Rightarrow> 'a kcon_scheme res" where
  "uartintr st =
     (case uartintr_loop st of
        None \<Rightarrow> Inl (Blocks ''uartintr'')
      | Some r \<Rightarrow> rbind r (\<lambda>st1. Inr (uart_wakes (uartstart (kuart st1)) st1)))"

section \<open>The line discipline\<close>

lemma ring_contents_split:
  fixes r w e :: "'w::len word"
  assumes "unat (w - r) + unat (e - w) < 2 ^ LENGTH('w)"
  shows "ring_contents buf r e = ring_contents buf r w @ ring_contents buf w e"
proof -
  have u: "unat (e - r) = unat (w - r) + unat (e - w)"
    using assms by (metis add_diff_cancel_left' add_diff_eq diff_add_cancel unat_plus_simple unat_add_lem)
  show ?thesis
  proof (rule nth_equalityI)
    fix i assume "i < length (ring_contents buf r e)"
    then have i: "i < unat (w - r) + unat (e - w)" using u by simp
    show "ring_contents buf r e ! i = (ring_contents buf r w @ ring_contents buf w e) ! i"
    proof (cases "i < unat (w - r)")
      case True then show ?thesis using i u by (simp add: nth_append ring_contents_nth)
    next
      case False
      then obtain j where j: "i = unat (w - r) + j" using le_Suc_ex by (metis not_le_imp_less)
      have "r + of_nat i = w + of_nat j" unfolding j by (simp add: algebra_simps)
      then show ?thesis using i j u by (simp add: nth_append ring_contents_nth)
    qed
  qed (simp add: u)
qed

lemma ring_contents_butlast:
  fixes w e :: "'w::len word"
  assumes "e \<noteq> w"
  shows "ring_contents buf w e = ring_contents buf w (e - 1) @ [buf ! (unat (e - 1) mod length buf)]"
proof -
  have n: "unat (e - w) = Suc (unat (e - 1 - w))"
    using word_diff_Suc [of w e] assms by (simp add: algebra_simps)
  have "w + of_nat (unat (e - 1 - w)) = e - 1" by simp
  then show ?thesis by (simp add: ring_contents_def n)
qed

definition cons_done :: "cons \<Rightarrow> u8 list" where
  "cons_done cn = ring_contents (cons_buf cn) (cons_r cn) (cons_w cn)"

definition cons_edit :: "cons \<Rightarrow> u8 list" where
  "cons_edit cn = ring_contents (cons_buf cn) (cons_w cn) (cons_e cn)"

definition cons_inv :: "cons \<Rightarrow> bool" where
  "cons_inv cn \<longleftrightarrow> length (cons_buf cn) = INPUT_BUF_SIZE \<and>
     length (cons_done cn) + length (cons_edit cn) \<le> INPUT_BUF_SIZE \<and> 10 \<notin> set (cons_edit cn)"

text \<open>The abstract line discipline: the bytes that readers may have, and the line that is being edited.\<close>

definition line_input :: "int \<Rightarrow> u8 list \<times> u8 list \<Rightarrow> u8 list \<times> u8 list" where
  "line_input c = (\<lambda>(ready, edit).
     if c = 16 then (ready, edit)
     else if c = 21 then (ready, [])
     else if c = 8 \<or> c = 127 then (ready, butlast edit)
     else if c = 0 \<or> length ready + length edit \<ge> INPUT_BUF_SIZE then (ready, edit)
     else let b = (if c = 13 then 10 else of_int c)
          in if b = 10 \<or> b = 4 \<or> length ready + length edit + 1 = INPUT_BUF_SIZE then (ready @ edit @ [b], [])
             else (ready, edit @ [b]))"

interpretation cons_ring: ring INPUT_BUF_SIZE "TYPE(32)"
  by unfold_locales (auto simp: INPUT_BUF_SIZE_def)

lemma ctrl_values: "ctrl (CHR ''P'') = 16" "ctrl (CHR ''U'') = 21" "ctrl (CHR ''H'') = 8" "ctrl (CHR ''D'') = 4"
  by (simp_all add: ctrl_def)

lemma cons_edit_back:
  assumes "cons_inv cn" and "cons_e cn \<noteq> cons_w cn"
  shows "cons_edit (cn\<lparr>cons_e := cons_e cn - 1\<rparr>) = butlast (cons_edit cn)"
    and "last (cons_edit cn) = cons_buf cn ! (unat (cons_e cn - 1) mod INPUT_BUF_SIZE)"
    and "cons_inv (cn\<lparr>cons_e := cons_e cn - 1\<rparr>)"
    and "cons_done (cn\<lparr>cons_e := cons_e cn - 1\<rparr>) = cons_done cn"
proof -
  have e: "cons_edit cn = cons_edit (cn\<lparr>cons_e := cons_e cn - 1\<rparr>) @ [cons_buf cn ! (unat (cons_e cn - 1) mod INPUT_BUF_SIZE)]"
    using assms ring_contents_butlast [of "cons_e cn" "cons_w cn" "cons_buf cn"] by (simp add: cons_edit_def cons_inv_def)
  show "cons_edit (cn\<lparr>cons_e := cons_e cn - 1\<rparr>) = butlast (cons_edit cn)"
    "last (cons_edit cn) = cons_buf cn ! (unat (cons_e cn - 1) mod INPUT_BUF_SIZE)" by (simp_all add: e)
  show d: "cons_done (cn\<lparr>cons_e := cons_e cn - 1\<rparr>) = cons_done cn" by (simp add: cons_done_def)
  show "cons_inv (cn\<lparr>cons_e := cons_e cn - 1\<rparr>)"
    using assms(1) e unfolding cons_inv_def d
    by (metis (no_types, lifting) UnI1 add_leD1 add.assoc append_Cons cons.ext_inject cons.surjective cons.update_convs(4)
        length_append set_append)
qed

lemma kill_line_clears:
  assumes "cons_inv cn" and "tx_live u"
  shows "\<exists>cn' u'. kill_line cn u = Inr (cn', u') \<and> tx_live u' \<and> cons_inv cn' \<and> cons_done cn' = cons_done cn \<and> cons_edit cn' = []"
  using assms
proof (induction "unat (cons_e cn - cons_w cn)" arbitrary: cn u rule: less_induct)
  case less
  let ?cn = "cn\<lparr>cons_e := cons_e cn - 1\<rparr>"
  show ?case
  proof (cases "cons_e cn = cons_w cn")
    case True
    then show ?thesis using less.prems
      by (subst kill_line.simps) (simp add: cons_edit_def ring_contents_empty_iff)
  next
    case False
    note bk = cons_edit_back [OF less.prems(1) False]
    have "cons_edit cn \<noteq> []" using False by (auto simp: cons_edit_def ring_contents_empty_iff)
    then have "last (cons_edit cn) \<noteq> 10" using less.prems(1) last_in_set unfolding cons_inv_def by metis
    then have c: "cons_buf cn ! (unat (cons_e cn - 1) mod INPUT_BUF_SIZE) \<noteq> 10" using bk(2) by simp
    obtain u1 where u1: "consputc BACKSPACE u = Inr u1" "tx_live u1" using consputc_sends [OF less.prems(2)] by blast
    have "unat (cons_e ?cn - cons_w ?cn) < unat (cons_e cn - cons_w cn)"
      using word_diff_Suc [of "cons_w cn" "cons_e cn"] False by (simp add: algebra_simps)
    from less.hyps [OF this bk(3) u1(2)] False c u1 bk(4) show ?thesis
      by (subst kill_line.simps) simp
  qed
qed

lemma upd_proc_kcon [simp]: "kcons (upd_proc i f st) = kcons st" "kuart (upd_proc i f st) = kuart st"
  by (simp_all add: upd_proc_def)

lemma wakeup_kcon [simp]: "kcons (wakeup ch st) = kcons st" "kuart (wakeup ch st) = kuart st"
proof -
  have acc: "kcons (fold (set_accumulator_one i) js s) = kcons s \<and> kuart (fold (set_accumulator_one i) js s) = kuart s" for i js and s :: "'a kcon_scheme"
    by (induction js arbitrary: s) (simp_all add: set_accumulator_one_def)
  have one: "kcons (wakeup_one ch i s) = kcons s \<and> kuart (wakeup_one ch i s) = kuart s" for i and s :: "'a kcon_scheme"
    by (simp add: wakeup_one_def set_accumulator_def acc Let_def)
  have "kcons (fold (wakeup_one ch) is s) = kcons s \<and> kuart (fold (wakeup_one ch) is s) = kuart s" for "is" and s :: "'a kcon_scheme"
    by (induction "is" arbitrary: s) (simp_all add: one)
  then show "kcons (wakeup ch st) = kcons st" "kuart (wakeup ch st) = kuart st" by (simp_all add: wakeup_def)
qed

lemma procdump_ends:
  assumes "tx_live (kuart st)"
  shows "\<exists>u'. procdump st = Inr (st\<lparr>kuart := u'\<rparr>) \<and> tx_live u'"
proof -
  have nl: "\<exists>u'. printf (Some [10]) [] u = Inr u' \<and> tx_live u'" if "tx_live u" for u
    using print_str_sends [OF that, of "[10]"] by (auto simp: printf_literal)
  let ?row = "\<lambda>(pid, state, name) v.
              rbind (printf (Some (bytes_of ''%d %s %s''))
                      [ArgInt (word_of_int pid), ArgStr (Some (bytes_of state)), ArgStr (Some (takeWhile (\<lambda>b. b \<noteq> 0) name))] v)
                (printf (Some [10]) [])"
  have rows: "\<exists>u'. rfold ?row rs u = Inr u' \<and> tx_live u'" if "tx_live u" for rs u
    using that
  proof (induction rs arbitrary: u)
    case (Cons r rs)
    obtain pid state name where r: "r = (pid, state, name)" by (rule prod_cases3)
    let ?args = "[ArgInt (word_of_int pid), ArgStr (Some (bytes_of state)), ArgStr (Some (takeWhile (\<lambda>b. b \<noteq> 0) name))]"
    have "fmt_ok (bytes_of ''%d %s %s'') ?args" by (simp add: bytes_of_def args_after_def)
    then obtain u1 where u1: "printf (Some (bytes_of ''%d %s %s'')) ?args u = Inr u1" "tx_live u1"
      using printf_ends [OF Cons.prems] by blast
    obtain u2 where u2: "printf (Some [10]) [] u1 = Inr u2" "tx_live u2" using nl [OF u1(2)] by blast
    show ?case using Cons.IH [OF u2(2)] u1 u2 r by simp
  qed simp
  obtain u1 where u1: "printf (Some [10]) [] (kuart st) = Inr u1" "tx_live u1" using nl [OF assms] by blast
  obtain u2 where u2: "rfold ?row (procdump_rows st) u1 = Inr u2" "tx_live u2" using rows [OF u1(2)] by blast
  show ?thesis unfolding procdump_def by (rule exI [of _ u2]) (simp add: u1 u2)
qed

lemma of_int_eq_u8:
  assumes "0 \<le> c" "c < 256" "0 \<le> d" "d < 256"
  shows "(of_int c :: u8) = of_int d \<longleftrightarrow> c = d"
proof
  assume "(of_int c :: u8) = of_int d"
  then have "uint (of_int c :: u8) = uint (of_int d :: u8)" by simp
  then show "c = d" using assms by (simp add: uint_word_of_int_eq take_bit_eq_mod)
qed simp

lemma cons_edit_put:
  fixes b :: u8
  assumes "cons_inv cn" and "length (cons_done cn) + length (cons_edit cn) < INPUT_BUF_SIZE"
  defines "cn1 \<equiv> cn\<lparr>cons_buf := (cons_buf cn)[unat (cons_e cn) mod INPUT_BUF_SIZE := b], cons_e := cons_e cn + 1\<rparr>"
  shows "cons_done cn1 = cons_done cn" and "cons_edit cn1 = cons_edit cn @ [b]"
    and "cons_done (cn1\<lparr>cons_w := cons_e cn1\<rparr>) = cons_done cn @ cons_edit cn @ [b]"
    and "cons_edit (cn1\<lparr>cons_w := cons_e cn1\<rparr>) = []"
    and "unat (cons_e cn1 - cons_r cn1) = Suc (length (cons_done cn) + length (cons_edit cn))"
proof -
  let ?b = "(cons_buf cn)[unat (cons_e cn) mod INPUT_BUF_SIZE := b]"
  let ?d = "unat (cons_w cn - cons_r cn)" and ?n = "unat (cons_e cn - cons_w cn)"
  have len: "length (cons_buf cn) = INPUT_BUF_SIZE" using assms(1) by (simp add: cons_inv_def)
  have room: "?d + ?n < INPUT_BUF_SIZE" using assms(2) by (simp add: cons_done_def cons_edit_def)
  then have small: "?d + ?n < 2 ^ LENGTH(32)" by (simp add: INPUT_BUF_SIZE_def)
  have split: "ring_contents buf (cons_r cn) (cons_e cn)
      = ring_contents buf (cons_r cn) (cons_w cn) @ ring_contents buf (cons_w cn) (cons_e cn)" for buf :: "u8 list"
    using small by (rule ring_contents_split)
  have er: "unat (cons_e cn - cons_r cn) = ?d + ?n"
    using arg_cong [OF split [of "[]"], of length] by simp
  have e: "ring_contents ?b (cons_w cn) (cons_e cn + 1) = cons_edit cn @ [b]"
    unfolding cons_edit_def by (rule cons_ring.put) (use len room in simp_all)
  have all: "ring_contents ?b (cons_r cn) (cons_e cn + 1) = cons_done cn @ cons_edit cn @ [b]"
    using cons_ring.put [of "cons_buf cn" "cons_e cn" "cons_r cn" b] len room er split [of "cons_buf cn"]
    by (simp add: cons_done_def cons_edit_def)
  have n1: "unat (cons_e cn + 1 - cons_r cn) = Suc (?d + ?n)"
    using arg_cong [OF all, of length] by (simp add: cons_done_def cons_edit_def)
  have n2: "unat (cons_e cn + 1 - cons_w cn) = Suc ?n" using arg_cong [OF e, of length] by (simp add: cons_edit_def)
  have "ring_contents ?b (cons_r cn) (cons_e cn + 1) = ring_contents ?b (cons_r cn) (cons_w cn) @ ring_contents ?b (cons_w cn) (cons_e cn + 1)"
    by (rule ring_contents_split) (use n2 room in \<open>simp add: INPUT_BUF_SIZE_def\<close>)
  with all e show "cons_done cn1 = cons_done cn" by (simp add: cn1_def cons_done_def)
  show "cons_edit cn1 = cons_edit cn @ [b]" using e by (simp add: cn1_def cons_edit_def)
  show "cons_done (cn1\<lparr>cons_w := cons_e cn1\<rparr>) = cons_done cn @ cons_edit cn @ [b]"
    using all by (simp add: cn1_def cons_done_def)
  show "cons_edit (cn1\<lparr>cons_w := cons_e cn1\<rparr>) = []" by (simp add: cons_edit_def ring_contents_empty_iff)
  show "unat (cons_e cn1 - cons_r cn1) = Suc (length (cons_done cn) + length (cons_edit cn))"
    using n1 by (simp add: cn1_def cons_done_def cons_edit_def)
qed

lemma cons_room:
  assumes "cons_inv cn"
  shows "cons_e cn - cons_r cn < of_nat INPUT_BUF_SIZE \<longleftrightarrow> length (cons_done cn) + length (cons_edit cn) < INPUT_BUF_SIZE"
proof -
  have "unat (cons_w cn - cons_r cn) + unat (cons_e cn - cons_w cn) < 2 ^ LENGTH(32)"
    using assms by (simp add: cons_inv_def cons_done_def cons_edit_def INPUT_BUF_SIZE_def)
  from arg_cong [OF ring_contents_split [OF this, of "cons_buf cn"], of length]
  have "unat (cons_e cn - cons_r cn) = length (cons_done cn) + length (cons_edit cn)"
    by (simp add: cons_done_def cons_edit_def)
  then show ?thesis by (simp add: word_less_nat_alt INPUT_BUF_SIZE_def)
qed

lemma consoleintr_erase:
  assumes inv: "cons_inv (kcons st)" and live: "tx_live (kuart st)" and c: "c = 8 \<or> c = 127"
  shows "\<exists>st'. consoleintr c st = Inr st' \<and> tx_live (kuart st') \<and> cons_inv (kcons st') \<and>
     (cons_done (kcons st'), cons_edit (kcons st')) = line_input c (cons_done (kcons st), cons_edit (kcons st))"
proof (cases "cons_e (kcons st) = cons_w (kcons st)")
  case True
  then have "cons_edit (kcons st) = []" by (simp add: cons_edit_def ring_contents_empty_iff)
  then show ?thesis using True c inv live by (auto simp: consoleintr_def ctrl_values line_input_def)
next
  case False
  obtain u1 where u1: "consputc BACKSPACE (kuart st) = Inr u1" "tx_live u1" using consputc_sends [OF live] by blast
  show ?thesis
    by (intro exI [of _ "st\<lparr>kcons := (kcons st)\<lparr>cons_e := cons_e (kcons st) - 1\<rparr>, kuart := u1\<rparr>"])
      (use False c u1 cons_edit_back [OF inv False] in \<open>auto simp: consoleintr_def ctrl_values line_input_def Let_def\<close>)
qed

lemma consoleintr_char:
  assumes inv: "cons_inv (kcons st)" and live: "tx_live (kuart st)" and c: "0 \<le> c" "c \<le> 255"
    and nc: "c \<notin> {16, 21, 8, 127}" "c \<noteq> 0"
    and room: "length (cons_done (kcons st)) + length (cons_edit (kcons st)) < INPUT_BUF_SIZE"
  shows "\<exists>st'. consoleintr c st = Inr st' \<and> tx_live (kuart st') \<and> cons_inv (kcons st') \<and>
     (cons_done (kcons st'), cons_edit (kcons st')) = line_input c (cons_done (kcons st), cons_edit (kcons st))"
proof -
  let ?cn = "kcons st"
  define c1 where "c1 = (if c = 13 then 10 else c)"
  define b :: u8 where "b = of_int c1"
  define cn1 where "cn1 = ?cn\<lparr>cons_buf := (cons_buf ?cn)[unat (cons_e ?cn) mod INPUT_BUF_SIZE := b], cons_e := cons_e ?cn + 1\<rparr>"
  note put = cons_edit_put [OF inv room, of b, folded cn1_def]
  obtain u1 where u1: "consputc c1 (kuart st) = Inr u1" "tx_live u1" using consputc_sends [OF live] by blast
  have bc: "b = 10 \<longleftrightarrow> c1 = 10" "b = 4 \<longleftrightarrow> c1 = 4"
    using of_int_eq_u8 [of c1 10] of_int_eq_u8 [of c1 4] c by (auto simp: b_def c1_def)
  have full: "cons_e cn1 - cons_r cn1 = of_nat INPUT_BUF_SIZE
      \<longleftrightarrow> length (cons_done ?cn) + length (cons_edit ?cn) + 1 = INPUT_BUF_SIZE"
    using put(5) by (auto simp: word_unat_eq_iff INPUT_BUF_SIZE_def)
  have b': "(if c = 13 then 10 else of_int c) = b" by (simp add: b_def c1_def)
  have li: "line_input c (cons_done ?cn, cons_edit ?cn) =
      (if c1 = 10 \<or> c1 = 4 \<or> cons_e cn1 - cons_r cn1 = of_nat INPUT_BUF_SIZE
       then (cons_done ?cn @ cons_edit ?cn @ [b], []) else (cons_done ?cn, cons_edit ?cn @ [b]))"
    using nc room by (simp add: line_input_def b' Let_def full bc)
  have ci: "consoleintr c st = (if c1 = 10 \<or> c1 = 4 \<or> cons_e cn1 - cons_r cn1 = of_nat INPUT_BUF_SIZE
       then Inr (wakeup ChCons (st\<lparr>kcons := cn1\<lparr>cons_w := cons_e cn1\<rparr>, kuart := u1\<rparr>))
       else Inr (st\<lparr>kcons := cn1, kuart := u1\<rparr>))"
    using nc cons_room [OF inv] room u1(1) by (simp add: consoleintr_def ctrl_values Let_def c1_def [symmetric] b_def [symmetric] cn1_def)
  have len: "length (cons_buf cn1) = INPUT_BUF_SIZE" using inv by (simp add: cn1_def cons_inv_def)
  have "cons_inv cn1" if "c1 \<noteq> 10" using inv put(1,2) room len that bc by (simp add: cons_inv_def)
  moreover have "cons_inv (cn1\<lparr>cons_w := cons_e cn1\<rparr>)" using put(3,4) room len by (simp add: cons_inv_def)
  ultimately show ?thesis using ci li put u1(2) by auto
qed

text \<open>C27. The input interrupt implements the line discipline: for every character, on a device that keeps becoming ready,
  \<^verbatim>\<open>consoleintr\<close> returns, keeps the buffer's invariant, and the ring's two segments (the bytes readers may have and the
  line being edited) change as the abstract discipline says: erase and kill affect only the unfinished line, a carriage
  return becomes a newline, a newline, end-of-file or a full buffer hands the line over, and input beyond the buffer is
  dropped.\<close>

theorem console_line_discipline:
  assumes inv: "cons_inv (kcons st)" and live: "tx_live (kuart st)" and c: "0 \<le> c" "c \<le> 255"
  shows "\<exists>st'. consoleintr c st = Inr st' \<and> tx_live (kuart st') \<and> cons_inv (kcons st') \<and>
     (cons_done (kcons st'), cons_edit (kcons st')) = line_input c (cons_done (kcons st), cons_edit (kcons st))"
proof -
  let ?cn = "kcons st"
  let ?len = "length (cons_done ?cn) + length (cons_edit ?cn)"
  consider "c = 16" | "c = 21" | "c = 8 \<or> c = 127" | "c \<notin> {16, 21, 8, 127}" "c = 0 \<or> ?len \<ge> INPUT_BUF_SIZE"
    | "c \<notin> {16, 21, 8, 127}" "c \<noteq> 0" "?len < INPUT_BUF_SIZE" by force
  then show ?thesis
  proof cases
    case 1
    then show ?thesis using procdump_ends [OF live] inv by (auto simp: consoleintr_def ctrl_values line_input_def)
  next
    case 2
    obtain cn' u' where k: "kill_line ?cn (kuart st) = Inr (cn', u')" "tx_live u'" "cons_inv cn'"
      "cons_done cn' = cons_done ?cn" "cons_edit cn' = []" using kill_line_clears [OF inv live] by blast
    then show ?thesis using 2 by (simp add: consoleintr_def ctrl_values line_input_def)
  next
    case 3 show ?thesis by (rule consoleintr_erase [OF inv live 3])
  next
    case 4
    then have "c = 0 \<or> \<not> cons_e ?cn - cons_r ?cn < of_nat INPUT_BUF_SIZE"
      using cons_room [OF inv] by auto
    then have "consoleintr c st = Inr st"
      by (rule disjE) (use 4(1) in \<open>simp_all add: consoleintr_def ctrl_values Let_def\<close>)
    then show ?thesis using 4 inv live by (auto simp: line_input_def)
  next
    case 5 show ?thesis by (rule consoleintr_char [OF inv live c 5])
  qed
qed

text \<open>One byte, the letter a, is being edited, and the counters are about to wrap around.\<close>

definition sample_kcon :: kcon where
  "sample_kcon = fs.extend zero_fs (kcon.fields sample_uart
     \<lparr>cons_buf = (replicate 128 0)[126 := 97], cons_r = - 2, cons_w = - 2, cons_e = - 1\<rparr>)"

theorem console_line_discipline_witness:
  "\<exists>st'. consoleintr 13 sample_kcon = Inr st' \<and> cons_done (kcons st') = [97, 10] \<and> cons_edit (kcons st') = []"
proof -
  have k: "kcons sample_kcon = \<lparr>cons_buf = (replicate 128 0)[126 := 97], cons_r = - 2, cons_w = - 2, cons_e = - 1\<rparr>"
    "kuart sample_kcon = sample_uart"
    by (simp_all add: sample_kcon_def kcon.defs fs.defs ptable.defs fslog.defs zero_fs_def zero_ptable_def)
  have d: "cons_done (kcons sample_kcon) = []" "cons_edit (kcons sample_kcon) = [97]"
    by (simp_all add: k cons_done_def cons_edit_def ring_contents_def)
  then have "cons_inv (kcons sample_kcon)" by (simp add: cons_inv_def INPUT_BUF_SIZE_def) (simp add: k)
  from console_line_discipline [OF this, of 13] d sample_live show ?thesis
    by (auto simp: k(2) line_input_def INPUT_BUF_SIZE_def)
qed

end
