(* ===== verification/File.thy ===== *)
theory File
  imports Console
begin

text \<open>
  Open files (\<^verbatim>\<open>kernel/file.c\<close>) and the part of \<^verbatim>\<open>kernel/pipe.c\<close> that works on them. The state \<open>kern\<close> is that of the
  whole kernel: it adds the table of open files, the pipes by the address of their page, and the bytes an
  uninitialised stack slot holds. A call that would sleep, on a pipe or on the console, is \<open>Blocks\<close>.
\<close>

section \<open>State\<close>

definition NFILE :: nat where "NFILE = 100"
abbreviation NDEV :: int where "NDEV \<equiv> 10"
abbreviation CONSOLE :: int where "CONSOLE \<equiv> 1"

datatype ftype = FD_NONE | FD_PIPE | FD_INODE | FD_DEVICE

record kfile =
  f_type :: ftype
  f_ref :: int
  f_readable :: bool
  f_writable :: bool
  f_pipe :: u64
  f_ip :: "nat option"
  f_off :: u32
  f_major :: u16

record kern = kcon +
  files :: "nat \<Rightarrow> kfile"
  kpipes :: "u64 \<Rightarrow> pipe"
  k_junk :: "nat \<Rightarrow> u8"

definition upd_file :: "nat \<Rightarrow> (kfile \<Rightarrow> kfile) \<Rightarrow> 'a kern_scheme \<Rightarrow> 'a kern_scheme" where
  "upd_file f g st = st\<lparr>files := (files st)(f := g (files st f))\<rparr>"

section \<open>The file table\<close>

definition filealloc :: "'a kern_scheme \<Rightarrow> nat option \<times> 'a kern_scheme" where
  "filealloc st =
     (case find (\<lambda>f. f_ref (files st f) = 0) [0..<NFILE] of
        None \<Rightarrow> (None, st)
      | Some f \<Rightarrow> (Some f, upd_file f (\<lambda>x. x\<lparr>f_ref := 1\<rparr>) st))"

definition filedup :: "nat \<Rightarrow> 'a kern_scheme \<Rightarrow> 'a kern_scheme res" where
  "filedup f st =
     (if f_ref (files st f) < 1 then Inl (Panic ''filedup'')
      else Inr (upd_file f (\<lambda>x. x\<lparr>f_ref := f_ref x + 1\<rparr>) st))"

text \<open>\<^verbatim>\<open>pipeclose\<close> on the kernel state: the wakeups, and the page given back when both ends are closed.\<close>

definition pipe_wakes :: "u64 \<Rightarrow> pchan list \<Rightarrow> 'a kern_scheme \<Rightarrow> 'a kern_scheme" where
  "pipe_wakes pi ws st = fold (\<lambda>c. wakeup (ChPipe c pi)) ws st"

definition kpipeclose :: "u64 \<Rightarrow> bool \<Rightarrow> 'a kern_scheme \<Rightarrow> 'a kern_scheme res" where
  "kpipeclose pi writable st =
     (let (p1, ws, free) = pipeclose (kpipes st pi) writable;
          st1 = pipe_wakes pi ws (st\<lparr>kpipes := (kpipes st)(pi := p1)\<rparr>)
      in if free then kfree (k_end st1) pi st1 else Inr st1)"

definition fileclose :: "nat \<Rightarrow> 'a kern_scheme \<Rightarrow> 'a kern_scheme res" where
  "fileclose f st =
     (if f_ref (files st f) < 1 then Inl (Panic ''fileclose'')
      else let st1 = upd_file f (\<lambda>x. x\<lparr>f_ref := f_ref x - 1\<rparr>) st
           in if f_ref (files st1 f) > 0 then Inr st1
              else let ff = files st1 f;
                       st2 = upd_file f (\<lambda>x. x\<lparr>f_ref := 0, f_type := FD_NONE\<rparr>) st1
                   in case f_type ff of
                        FD_PIPE \<Rightarrow> kpipeclose (f_pipe ff) (f_writable ff) st2
                      | FD_NONE \<Rightarrow> Inr st2
                      | _ \<Rightarrow> rbind (begin_op st2) (\<lambda>st3.
                             case f_ip ff of
                               None \<Rightarrow> Inl (Undefined ''fileclose: ip'')
                             | Some ip \<Rightarrow> rbind (iput ip st3) end_op))"

text \<open>\<^verbatim>\<open>pipealloc\<close>; the two results are the read end and the write end.\<close>

definition close_opt :: "nat option \<Rightarrow> 'a kern_scheme \<Rightarrow> 'a kern_scheme res" where
  "close_opt f st = (case f of None \<Rightarrow> Inr st | Some i \<Rightarrow> fileclose i st)"

definition pipealloc :: "'a kern_scheme \<Rightarrow> ((nat \<times> nat) option \<times> 'a kern_scheme) res" where
  "pipealloc st =
     (let (f0, st1) = filealloc st;
          (f1, st2) = (if f0 = None then (None, st1) else filealloc st1);
          (pi, st3) = (if f1 = None then (0, st2) else kalloc st2)
      in if pi = 0 then rbind (close_opt f0 st3) (\<lambda>st4. rbind (close_opt f1 st4) (\<lambda>st5. Inr (None, st5)))
         else let st4 = st3\<lparr>kpipes := (kpipes st3)(pi := pipe_init (bytes_at (memory st3) pi PIPESIZE))\<rparr>;
                  st5 = upd_file (the f0) (\<lambda>x. x\<lparr>f_type := FD_PIPE, f_readable := True, f_writable := False, f_pipe := pi\<rparr>) st4;
                  st6 = upd_file (the f1) (\<lambda>x. x\<lparr>f_type := FD_PIPE, f_readable := False, f_writable := True, f_pipe := pi\<rparr>) st5
              in Inr (Some (the f0, the f1), st6))"

section \<open>Status, read and write\<close>

text \<open>\<^verbatim>\<open>struct stat\<close> as it lies in memory; four bytes of it are padding.\<close>

definition le_bytes :: "nat \<Rightarrow> u64 \<Rightarrow> u8 list" where
  "le_bytes n w = map (\<lambda>i. ucast (drop_bit (8 * i) w)) [0..<n]"

definition stat_bytes :: "(nat \<Rightarrow> u8) \<Rightarrow> kstat \<Rightarrow> u8 list" where
  "stat_bytes junk s = le_bytes 4 (ucast (st_dev s)) @ le_bytes 4 (ucast (st_ino s)) @ le_bytes 2 (ucast (st_type s))
     @ le_bytes 2 (ucast (st_nlink s)) @ map junk [0..<4] @ le_bytes 8 (st_size s)"

definition with_ip :: "kfile \<Rightarrow> (nat \<Rightarrow> 'b res) \<Rightarrow> 'b res" where
  "with_ip f k = (case f_ip f of None \<Rightarrow> Inl (Undefined ''ip'') | Some ip \<Rightarrow> k ip)"

definition filestat :: "nat \<Rightarrow> u64 \<Rightarrow> 'a kern_scheme \<Rightarrow> (int \<times> 'a kern_scheme) res" where
  "filestat f addr st =
     (if f_type (files st f) = FD_INODE \<or> f_type (files st f) = FD_DEVICE
      then with_ip (files st f) (\<lambda>ip.
             rbind (ilock ip st) (\<lambda>st1.
             let s = stati ip st1 in
             rbind (iunlock ip st1) (\<lambda>st2.
             rbind (copyout_bytes (p_pagetable (myproc st2)) addr (stat_bytes (k_junk st2) s) st2) (\<lambda>(r, st3).
             Inr (if r < 0 then -1 else 0, st3)))))
      else Inr (-1, st))"

text \<open>\<^verbatim>\<open>pipewrite\<close> and \<^verbatim>\<open>piperead\<close> in the kernel: the user memory is that of the current process.\<close>

definition user_get :: "'a kern_scheme \<Rightarrow> u64 \<Rightarrow> u8 option" where
  "user_get st a = (case copyin_bytes (p_pagetable (myproc st)) a 1 st of
     Inr (r, bs) \<Rightarrow> if r = -1 then None else Some (hd bs) | Inl _ \<Rightarrow> None)"

definition user_put :: "'a kern_scheme \<Rightarrow> u64 \<Rightarrow> u8 \<Rightarrow> bool" where
  "user_put st a c = (case copyout_bytes (p_pagetable (myproc st)) a [c] st of
     Inr (r, _) \<Rightarrow> r \<noteq> -1 | Inl _ \<Rightarrow> False)"

definition pipe_result :: "pipe_outcome \<Rightarrow> 'a kern_scheme \<Rightarrow> (int \<times> 'a kern_scheme) res" where
  "pipe_result out st = (case out of Return r \<Rightarrow> Inr (r, st) | SleepOn _ _ \<Rightarrow> Inl (Blocks ''pipe''))"

definition kpipewrite :: "u64 \<Rightarrow> u64 \<Rightarrow> int \<Rightarrow> 'a kern_scheme \<Rightarrow> (int \<times> 'a kern_scheme) res" where
  "kpipewrite pi addr n st =
     (let (out, p1, ws) = pipewrite (user_get st) (\<lambda>_. killed (cur st) st) addr n (kpipes st pi)
      in pipe_result out (pipe_wakes pi ws (st\<lparr>kpipes := (kpipes st)(pi := p1)\<rparr>)))"

definition kpiperead :: "u64 \<Rightarrow> u64 \<Rightarrow> int \<Rightarrow> 'a kern_scheme \<Rightarrow> (int \<times> 'a kern_scheme) res" where
  "kpiperead pi addr n st =
     (let (out, p1, bs, ws) = piperead (user_put st) (killed (cur st) st) addr n (kpipes st pi)
      in rbind (rfold (\<lambda>(i, c) s. rbind (copyout_bytes (p_pagetable (myproc st)) (addr + of_nat i) [c] s) (\<lambda>(_, s1). Inr s1))
                 (enumerate 0 bs) st) (\<lambda>st1.
         pipe_result out (pipe_wakes pi ws (st1\<lparr>kpipes := (kpipes st1)(pi := p1)\<rparr>))))"

text \<open>The device switch has one entry, the console.\<close>

definition no_device :: "u16 \<Rightarrow> bool" where
  "no_device m \<longleftrightarrow> sint m < 0 \<or> sint m \<ge> NDEV \<or> sint m \<noteq> CONSOLE"

definition fileread :: "nat \<Rightarrow> u64 \<Rightarrow> int \<Rightarrow> 'a kern_scheme \<Rightarrow> (int \<times> 'a kern_scheme) res" where
  "fileread f addr n st =
     (let ff = files st f
      in if \<not> f_readable ff then Inr (-1, st)
         else case f_type ff of
           FD_PIPE \<Rightarrow> kpiperead (f_pipe ff) addr n st
         | FD_DEVICE \<Rightarrow>
             if no_device (f_major ff) then Inr (-1, st)
             else rbind (consoleread True addr n st) (\<lambda>(out, st1).
               case out of CDone r \<Rightarrow> Inr (r, st1) | CSleep _ _ \<Rightarrow> Inl (Blocks ''consoleread''))
         | FD_INODE \<Rightarrow> with_ip ff (\<lambda>ip.
             rbind (ilock ip st) (\<lambda>st1.
             rbind (readi ip (UserDst addr) (f_off (files st1 f)) (of_int n) st1) (\<lambda>(r, _, st2).
             let st3 = (if r > 0 then upd_file f (\<lambda>x. x\<lparr>f_off := f_off x + of_int r\<rparr>) st2 else st2) in
             rbind (iunlock ip st3) (\<lambda>st4. Inr (r, st4)))))
         | FD_NONE \<Rightarrow> Inl (Panic ''fileread''))"

definition write_max :: int where
  "write_max = int ((MAXOPBLOCKS - 1 - 1 - 2) div 2) * int BSIZE"

function filewrite_loop :: "nat \<Rightarrow> nat \<Rightarrow> u64 \<Rightarrow> int \<Rightarrow> int \<Rightarrow> 'a kern_scheme \<Rightarrow> (int \<times> 'a kern_scheme) res" where
  "filewrite_loop f ip addr n i st =
     (if i < n then
        let n1 = min (n - i) write_max in
        rbind (begin_op st) (\<lambda>st1.
        rbind (ilock ip st1) (\<lambda>st2.
        rbind (writei ip (UserSrc (addr + of_int i)) (f_off (files st2 f)) (of_int n1) st2) (\<lambda>(r, st3).
        let st4 = (if r > 0 then upd_file f (\<lambda>x. x\<lparr>f_off := f_off x + of_int r\<rparr>) st3 else st3) in
        rbind (iunlock ip st4) (\<lambda>st5.
        rbind (end_op st5) (\<lambda>st6.
        if r \<noteq> n1 then Inr (i, st6) else filewrite_loop f ip addr n (i + r) st6)))))
      else Inr (i, st))"
  by pat_completeness auto
termination
  by (relation "measure (\<lambda>(f, ip, addr, n, i, st). nat (n - i))") (auto simp: write_max_def MAXOPBLOCKS_def BSIZE_def)

declare filewrite_loop.simps [simp del]

definition filewrite :: "nat \<Rightarrow> u64 \<Rightarrow> int \<Rightarrow> 'a kern_scheme \<Rightarrow> (int \<times> 'a kern_scheme) res" where
  "filewrite f addr n st =
     (let ff = files st f
      in if \<not> f_writable ff then Inr (-1, st)
         else case f_type ff of
           FD_PIPE \<Rightarrow> kpipewrite (f_pipe ff) addr n st
         | FD_DEVICE \<Rightarrow> if no_device (f_major ff) then Inr (-1, st) else consolewrite True addr n st
         | FD_INODE \<Rightarrow> with_ip ff (\<lambda>ip.
             rbind (filewrite_loop f ip addr n 0 st) (\<lambda>(i, st1). Inr (if i = n then n else -1, st1)))
         | FD_NONE \<Rightarrow> Inl (Panic ''filewrite''))"

section \<open>A sample state\<close>

definition zero_file :: kfile where
  "zero_file = \<lparr>f_type = FD_NONE, f_ref = 0, f_readable = False, f_writable = False, f_pipe = 0, f_ip = None, f_off = 0, f_major = 0\<rparr>"

definition zero_kern :: kern where
  "zero_kern = kcon.extend sample_kcon (kern.fields (\<lambda>_. zero_file) (\<lambda>_. pipe_init (replicate 512 0)) (\<lambda>_. 0))"

lemmas zero_kern_simps = zero_kern_def kcon.defs kern.defs sample_kcon_def zero_fs_def fs.defs zero_ptable_def ptable.defs
  fslog.defs

lemma zero_kern_procs [simp]: "procs zero_kern = (\<lambda>_. zero_proc)" "cur zero_kern = 0" "files zero_kern = (\<lambda>_. zero_file)"
  by (simp_all add: zero_kern_simps)

end
