(* ===== verification/ProcLife.thy ===== *)
theory ProcLife
  imports File
begin

text \<open>
  The life of a process (\<^verbatim>\<open>kernel/proc.c\<close>: \<^verbatim>\<open>userinit\<close>, \<^verbatim>\<open>fork\<close>, \<^verbatim>\<open>reparent\<close>, \<^verbatim>\<open>exit\<close>, \<^verbatim>\<open>wait\<close>). \<^verbatim>\<open>exit\<close> ends in the
  scheduler; its result is the state there. \<^verbatim>\<open>wait\<close> is its scan of the table, which either returns a
  value or goes to sleep, and is entered again after a wakeup. The message of \<^verbatim>\<open>exit\<close> is \<open>None\<close> for a null pointer.
\<close>

section \<open>Creation\<close>

definition initcode :: "u8 list" where
  "initcode = [0x17, 0x05, 0x00, 0x00, 0x13, 0x05, 0x45, 0x02,
     0x97, 0x05, 0x00, 0x00, 0x93, 0x85, 0x35, 0x02,
     0x93, 0x08, 0x70, 0x00, 0x73, 0x00, 0x00, 0x00,
     0x93, 0x08, 0x20, 0x00, 0x73, 0x00, 0x00, 0x00,
     0xef, 0xf0, 0x9f, 0xff, 0x2f, 0x69, 0x6e, 0x69,
     0x74, 0x00, 0x00, 0x24, 0x00, 0x00, 0x00, 0x00,
     0x00, 0x00, 0x00, 0x00]"

text \<open>\<open>src\<close> is the address at which the linker has put the array \<^verbatim>\<open>initcode\<close>.\<close>

definition userinit :: "u64 \<Rightarrow> 'a kern_scheme \<Rightarrow> 'a kern_scheme res" where
  "userinit src st =
     rbind (allocproc st) (\<lambda>(p, st1).
     case p of
       None \<Rightarrow> Inl (Undefined ''userinit: p'')
     | Some i \<Rightarrow>
         let st2 = st1\<lparr>initproc := Some i\<rparr> in
         rbind (uvmfirst (p_pagetable (procs st2 i)) src (of_nat (length initcode)) st2) (\<lambda>st3.
         let st4 = upd_proc i (\<lambda>x. x\<lparr>p_sz := PGSIZE\<rparr>) st3;
             tf = p_trapframe (procs st4 i);
             st5 = st4\<lparr>memory := store64 (store64 (memory st4) (tf + tf_off TF_EPC) 0) (tf + tf_off TF_SP) PGSIZE\<rparr>;
             st6 = upd_proc i (\<lambda>x. x\<lparr>p_name := safestrcpy_bytes (p_name x) (bytes_of ''initcode'') 16\<rparr>) st5 in
         rbind (namei (bytes_of ''/'') st6) (\<lambda>(ip, st7).
         Inr (upd_proc i (\<lambda>x. x\<lparr>p_cwd := ip, p_state := RUNNABLE\<rparr>) st7))))"

definition dup_one :: "nat \<Rightarrow> nat \<Rightarrow> 'a kern_scheme \<Rightarrow> 'a kern_scheme res" where
  "dup_one np i st =
     (case p_ofile (myproc st) ! i of
        None \<Rightarrow> Inr st
      | Some f \<Rightarrow> rbind (filedup f st) (\<lambda>st1.
          Inr (upd_proc np (\<lambda>x. x\<lparr>p_ofile := (p_ofile x)[i := Some f]\<rparr>) st1)))"

definition fork :: "'a kern_scheme \<Rightarrow> (int \<times> 'a kern_scheme) res" where
  "fork st =
     rbind (allocproc st) (\<lambda>(a, st1).
     case a of
       None \<Rightarrow> Inr (-1, st1)
     | Some np \<Rightarrow>
         rbind (uvmcopy (k_end st1) (p_pagetable (myproc st1)) (p_pagetable (procs st1 np)) (p_sz (myproc st1)) st1) (\<lambda>(r, st2).
         if r < 0 then rbind (freeproc np st2) (\<lambda>st3. Inr (-1, st3))
         else
           let st3 = upd_proc np (\<lambda>x. x\<lparr>p_sz := p_sz (myproc st2)\<rparr>) st2;
               ntf = p_trapframe (procs st3 np);
               m1 = write_list (memory st3) ntf (bytes_at (memory st3) (p_trapframe (myproc st3)) TF_SIZE);
               st4 = st3\<lparr>memory := store64 m1 (ntf + tf_off TF_A0) 0\<rparr> in
           rbind (rfold (dup_one np) [0..<NOFILE] st4) (\<lambda>st5.
           case p_cwd (myproc st5) of
             None \<Rightarrow> Inl (Undefined ''fork: cwd'')
           | Some ip \<Rightarrow>
               let (c, st6) = idup ip st5;
                   st7 = upd_proc np (\<lambda>x. x\<lparr>p_cwd := Some c,
                           p_name := safestrcpy_bytes (p_name x) (p_name (myproc st6)) 16\<rparr>) st6;
                   pid = p_pid (procs st7 np);
                   st8 = upd_proc np (\<lambda>x. x\<lparr>p_parent := Some (cur st7)\<rparr>) st7;
                   st9 = upd_proc np (\<lambda>x. x\<lparr>p_ps_priority := 5\<rparr>) st8;
                   st10 = set_accumulator np st9;
                   st11 = upd_proc np (\<lambda>x. x\<lparr>p_retime := 0, p_rtime := 0, p_stime := 0,
                            p_cfs_priority := p_cfs_priority (myproc st10)\<rparr>) st10
               in Inr (pid, upd_proc np (\<lambda>x. x\<lparr>p_state := RUNNABLE\<rparr>) st11))))"

section \<open>Termination\<close>

definition chan_of :: "nat option \<Rightarrow> chan" where
  "chan_of p = (case p of None \<Rightarrow> ChNull | Some i \<Rightarrow> ChProc i)"

definition reparent_one :: "nat \<Rightarrow> nat \<Rightarrow> 'a ptable_scheme \<Rightarrow> 'a ptable_scheme" where
  "reparent_one p i st =
     (if p_parent (procs st i) = Some p
      then wakeup (chan_of (initproc st)) (upd_proc i (\<lambda>x. x\<lparr>p_parent := initproc st\<rparr>) st) else st)"

definition reparent :: "nat \<Rightarrow> 'a ptable_scheme \<Rightarrow> 'a ptable_scheme" where
  "reparent p st = fold (reparent_one p) [0..<NPROC] st"

definition exit_close :: "nat \<Rightarrow> 'a kern_scheme \<Rightarrow> 'a kern_scheme res" where
  "exit_close fd st =
     (case p_ofile (myproc st) ! fd of
        None \<Rightarrow> Inr st
      | Some f \<Rightarrow> rbind (fileclose f st) (\<lambda>st1.
          Inr (upd_proc (cur st1) (\<lambda>x. x\<lparr>p_ofile := (p_ofile x)[fd := None]\<rparr>) st1)))"

definition exit :: "int \<Rightarrow> u8 list option \<Rightarrow> 'a kern_scheme \<Rightarrow> 'a kern_scheme res" where
  "exit status msg st =
     (if initproc st = Some (cur st) then Inl (Panic ''init exiting'')
      else rbind (rfold exit_close [0..<NOFILE] st) (\<lambda>st1.
        rbind (begin_op st1) (\<lambda>st2.
        case p_cwd (myproc st2) of
          None \<Rightarrow> Inl (Undefined ''exit: cwd'')
        | Some ip \<Rightarrow>
            rbind (iput ip st2) (\<lambda>st3.
            rbind (end_op st3) (\<lambda>st4.
            let st5 = upd_proc (cur st4) (\<lambda>x. x\<lparr>p_cwd := None\<rparr>) st4;
                st6 = reparent (cur st5) st5;
                st7 = wakeup (chan_of (p_parent (myproc st6))) st6
            in case msg of
                 None \<Rightarrow> Inl (Undefined ''exit: msg'')
               | Some m \<Rightarrow> Inr (upd_proc (cur st7) (\<lambda>x. x\<lparr>p_exit_msg := strncpy_bytes m 32, p_xstate := status,
                             p_state := ZOMBIE\<rparr>) st7))))))"

section \<open>Waiting\<close>

datatype wait_scan = Found int | Fault | Rest bool

text \<open>The scan of the table from slot \<open>i\<close> on. The message of every child is copied to the address that the first byte of the
  buffer \<open>msg\<close> gives.\<close>

function wait_from :: "nat \<Rightarrow> u64 \<Rightarrow> u8 list \<Rightarrow> bool \<Rightarrow> 'a kern_scheme \<Rightarrow> (wait_scan \<times> 'a kern_scheme) res" where
  "wait_from i addr msg havekids st =
     (if i \<ge> NPROC then Inr (Rest havekids, st)
      else let pp = procs st i; pt = p_pagetable (myproc st)
           in if p_parent pp \<noteq> Some (cur st) then wait_from (Suc i) addr msg havekids st
              else if 0 \<notin> set (p_exit_msg pp) then Inl (Undefined ''wait: strlen'')
              else rbind (copyout_bytes pt (ucast (char_at msg 0)) (take (strlen_bytes (p_exit_msg pp)) (p_exit_msg pp)) st) (\<lambda>(r, st1).
                rbind (if r < 0 then rbind (printf (Some (bytes_of ''error'' @ [10])) [] (kuart st1)) (\<lambda>u. Inr (st1\<lparr>kuart := u\<rparr>))
                       else Inr st1) (\<lambda>st2.
                if p_state (procs st2 i) = ZOMBIE then
                  let pid = p_pid (procs st2 i) in
                  if addr \<noteq> 0 then
                    rbind (copyout_bytes pt addr (le_bytes 4 (of_int (p_xstate (procs st2 i)))) st2) (\<lambda>(r2, st3).
                      if r2 < 0 then Inr (Fault, st3) else Inr (Found pid, st3))
                  else Inr (Found pid, st2)
                else wait_from (Suc i) addr msg True st2)))"
  by pat_completeness auto
termination
  by (relation "measure (\<lambda>(i, addr, msg, havekids, st). NPROC - i)") auto

declare wait_from.simps [simp del]

text \<open>One pass of the endless loop; \<open>None\<close> if the process has gone to sleep on its own slot.\<close>

definition wait_pass :: "u64 \<Rightarrow> u8 list \<Rightarrow> 'a kern_scheme \<Rightarrow> (int option \<times> 'a kern_scheme) res" where
  "wait_pass addr msg st =
     rbind (wait_from 0 addr msg False st) (\<lambda>(out, st1).
       case out of
         Found pid \<Rightarrow> Inr (Some pid, st1)
       | Fault \<Rightarrow> Inr (Some (-1), st1)
       | Rest havekids \<Rightarrow>
           if \<not> havekids \<or> killed (cur st1) st1 then Inr (Some (-1), st1)
           else Inr (None, sleep_enter (ChProc (cur st1)) st1))"

definition wait :: "u64 \<Rightarrow> u8 list \<Rightarrow> 'a kern_scheme \<Rightarrow> (int \<times> 'a kern_scheme) res" where
  "wait addr msg st =
     rbind (wait_pass addr msg st) (\<lambda>(r, st1).
       case r of None \<Rightarrow> Inl (Blocks ''wait'') | Some v \<Rightarrow> Inr (v, st1))"

section \<open>Waiting reclaims nothing\<close>

lemma copyout_bytes_frame:
  "copyout_bytes pt va bs st = Inr (r, st') \<Longrightarrow> \<exists>m. st' = st\<lparr>memory := m\<rparr>"
proof (induction "length bs" arbitrary: va bs st rule: less_induct)
  case less
  show ?case
  proof (cases "bs = []")
    case True
    then have "st' = st\<lparr>memory := memory st\<rparr>" using less.prems by (simp add: copyout_bytes.simps)
    then show ?thesis by blast
  next
    case False
    obtain pa where pa: "walkaddr pt (PGROUNDDOWN va) st = Inr pa" using walkaddr_Inr by blast
    define n0 n where "n0 = unat (PGSIZE - (va - PGROUNDDOWN va))" and "n = (if n0 > length bs then length bs else n0)"
    have n: "0 < n" using chunk_facts_nat(1) [OF _ n0_def n_def] False by simp
    let ?st1 = "st\<lparr>memory := write_list (memory st) (pa + (va - PGROUNDDOWN va)) (take n bs)\<rparr>"
    show ?thesis
    proof (cases "pa = 0")
      case True
      then have "st' = st\<lparr>memory := memory st\<rparr>" using less.prems pa False by (simp add: copyout_bytes.simps [of pt va bs] Let_def)
      then show ?thesis by blast
    next
      case ne: False
      have "copyout_bytes pt (PGROUNDDOWN va + PGSIZE) (drop n bs) ?st1 = Inr (r, st')"
        using less.prems pa False ne by (simp add: copyout_bytes.simps [of pt va bs] Let_def n0_def [symmetric] n_def [symmetric])
      moreover have "length (drop n bs) < length bs" using n False by simp
      ultimately obtain m where "st' = ?st1\<lparr>memory := m\<rparr>" using less.hyps by blast
      then have "st' = st\<lparr>memory := m\<rparr>" by simp
      then show ?thesis by blast
    qed
  qed
qed

lemma copyout_bytes_procs:
  fixes st :: "'a ptable_scheme"
  assumes "copyout_bytes pt va bs st = Inr (r, st')"
  shows "procs st' = procs st" and "cur st' = cur st"
  using copyout_bytes_frame [OF assms] by auto

lemma wait_from_procs:
  fixes st :: "'a kern_scheme"
  shows
  "wait_from i addr msg k st = Inr (out, st') \<Longrightarrow> procs st' = procs st \<and> cur st' = cur st"
proof (induction "NPROC - i" arbitrary: i k st rule: less_induct)
  case less
  have shorter: "i < NPROC \<Longrightarrow> NPROC - Suc i < NPROC - i" by simp
  let ?pt = "p_pagetable (myproc st)" and ?pp = "procs st i"
  show ?case
  proof (cases "i \<ge> NPROC \<or> p_parent ?pp \<noteq> Some (cur st)")
    case True
    then show ?thesis using less.prems less.hyps [OF shorter, of k st]
      by (cases "i \<ge> NPROC") (auto simp: wait_from.simps [of i])
  next
    case False
    define pr where "pr = (\<lambda>(r :: int) (st1 :: 'a kern_scheme). if r < 0
        then rbind (printf (Some (bytes_of ''error'' @ [10])) [] (kuart st1)) (\<lambda>u. Inr (st1\<lparr>kuart := u\<rparr>)) else Inr st1)"
    define K where "K = (\<lambda>st2 :: 'a kern_scheme. if p_state (procs st2 i) = ZOMBIE then
                  let pid = p_pid (procs st2 i) in
                  if addr \<noteq> 0 then
                    rbind (copyout_bytes ?pt addr (le_bytes 4 (of_int (p_xstate (procs st2 i)))) st2) (\<lambda>(r2, st3).
                      if r2 < 0 then Inr (Fault, st3) else Inr (Found pid, st3))
                  else Inr (Found pid, st2)
                else wait_from (Suc i) addr msg True st2)"
    define c where "c = copyout_bytes ?pt (ucast (char_at msg 0)) (take (strlen_bytes (p_exit_msg ?pp)) (p_exit_msg ?pp)) st"
    have "wait_from i addr msg k st = (if 0 \<notin> set (p_exit_msg ?pp) then Inl (Undefined ''wait: strlen'')
        else rbind c (\<lambda>(r, st1). rbind (pr r st1) K))"
      using False by (simp add: wait_from.simps [of i] Let_def pr_def K_def c_def)
    with less.prems have "rbind c (\<lambda>(r, st1). rbind (pr r st1) K) = Inr (out, st')" by (simp split: if_splits)
    then obtain r1 st1 st2 where c1: "c = Inr (r1, st1)" and p2: "pr r1 st1 = Inr st2" and rest: "K st2 = Inr (out, st')"
      by (auto simp: rbind_eq_Inr)
    have f1: "procs st1 = procs st" "cur st1 = cur st" using copyout_bytes_procs c1 unfolding c_def by blast+
    have s2: "procs st2 = procs st1" "cur st2 = cur st1" using p2 by (auto simp: pr_def rbind_eq_Inr split: if_splits)
    show ?thesis
    proof (cases "p_state (procs st2 i) = ZOMBIE")
      case z: True
      have "procs st' = procs st2 \<and> cur st' = cur st2"
      proof (cases "addr = 0")
        case True then show ?thesis using rest z by (simp add: K_def Let_def)
      next
        case ne: False
        let ?c = "copyout_bytes ?pt addr (le_bytes 4 (of_int (p_xstate (procs st2 i)))) st2"
        obtain r2 st3 where c2: "?c = Inr (r2, st3)"
          and o: "(if r2 < 0 then Inr (Fault, st3) else Inr (Found (p_pid (procs st2 i)), st3)) = (Inr (out, st') :: (wait_scan \<times> 'a kern_scheme) res)"
        proof -
          have "rbind ?c (\<lambda>(r2, st3). if r2 < 0 then Inr (Fault, st3) else Inr (Found (p_pid (procs st2 i)), st3)) = Inr (out, st')"
            using rest z ne by (simp add: K_def Let_def)
          then show ?thesis using that by (rule rbind_pairE)
        qed
        have "st' = st3" using o by (auto split: if_splits)
        then show ?thesis using copyout_bytes_procs [OF c2] by simp
      qed
      then show ?thesis using s2 f1 by simp
    next
      case z: False
      then have "wait_from (Suc i) addr msg True st2 = Inr (out, st')" using rest by (simp add: K_def)
      then show ?thesis using s2 f1 less.hyps [OF shorter, of True st2] False by simp
    qed
  qed
qed

lemma wait_zombie:
  assumes "i < NPROC" and "p_parent (procs st i) = Some (cur st)" and "\<forall>j<i. p_parent (procs st j) \<noteq> Some (cur st)"
    and "p_state (procs st i) = ZOMBIE" and "p_exit_msg (procs st i) = 0 # rest"
  shows "wait 0 msg st = Inr (p_pid (procs st i), st)"
proof -
  have "wait_from (i - k) 0 msg False st = Inr (Found (p_pid (procs st i)), st)" if "k \<le> i" for k
    using that
  proof (induction k)
    case 0
    then show ?case using assms
      by (simp add: wait_from.simps [of i] Let_def strlen_bytes_def copyout_bytes.simps)
  next
    case (Suc k)
    have "Suc (i - Suc k) = i - k" "i - Suc k < NPROC" "p_parent (procs st (i - Suc k)) \<noteq> Some (cur st)"
      using Suc.prems assms(1,3) by simp_all
    then show ?case using Suc by (simp add: wait_from.simps [of "i - Suc k"] Let_def)
  qed
  from this [of i] show ?thesis by (simp add: wait_def wait_pass_def)
qed

text \<open>Process 1 is a zombie child of the current process 0.\<close>

definition zombie_kern :: kern where
  "zombie_kern = zero_kern\<lparr>procs := (procs zero_kern)(1 := zero_proc\<lparr>p_state := ZOMBIE, p_parent := Some 0, p_pid := 7\<rparr>)\<rparr>"

lemma zombie_kern_facts:
  "p_parent (procs zombie_kern 1) = Some (cur zombie_kern)" "\<forall>j<1. p_parent (procs zombie_kern j) \<noteq> Some (cur zombie_kern)"
  "p_state (procs zombie_kern 1) = ZOMBIE" "p_exit_msg (procs zombie_kern 1) = 0 # replicate 31 0" "p_pid (procs zombie_kern 1) = 7"
  by (simp_all add: zombie_kern_def zero_proc_def numeral_eq_Suc)

text \<open>C28. \<^verbatim>\<open>wait\<close> reclaims nothing: whenever it returns, every slot of the process table is as it was before the call. The
  slot, the page table and the pid of a child that has been waited for stay in use.\<close>

theorem wait_reclaims_nothing:
  fixes st :: "'a kern_scheme"
  assumes "wait addr msg st = Inr (r, st')"
  shows "procs st' = procs st"
proof -
  obtain r1 st1 where p: "wait_pass addr msg st = Inr (r1, st1)"
    and q: "(case r1 of None \<Rightarrow> Inl (Blocks ''wait'') | Some v \<Rightarrow> Inr (v, st1)) = Inr (r, st')"
    using assms unfolding wait_def by (rule rbind_pairE)
  have st': "st' = st1" "r1 \<noteq> None" using q by (auto split: option.splits)
  obtain out st2 where w: "wait_from 0 addr msg False st = Inr (out, st2)"
    and o: "(case out of
         Found pid \<Rightarrow> Inr (Some pid, st2)
       | Fault \<Rightarrow> Inr (Some (-1), st2)
       | Rest havekids \<Rightarrow>
           if \<not> havekids \<or> killed (cur st2) st2 then Inr (Some (-1), st2)
           else Inr (None, sleep_enter (ChProc (cur st2)) st2)) = (Inr (r1, st1) :: (int option \<times> 'a kern_scheme) res)"
    using p unfolding wait_pass_def by (rule rbind_pairE)
  have "st1 = st2" using o st'(2) by (auto split: wait_scan.splits if_splits)
  then show ?thesis using wait_from_procs [OF w] st'(1) by simp
qed

theorem wait_reclaims_nothing_witness:
  "\<exists>st'. wait 0 [0] zombie_kern = Inr (7, st') \<and> procs st' = procs zombie_kern \<and> p_state (procs st' 1) = ZOMBIE"
proof -
  have w: "wait 0 [0] zombie_kern = Inr (7, zombie_kern)"
    using wait_zombie [of 1 zombie_kern "replicate 31 0" "[0]"] zombie_kern_facts by (simp add: NPROC_def)
  show ?thesis using wait_reclaims_nothing [OF w] w zombie_kern_facts(3) by blast
qed

text \<open>A zombie is reported over and over: if the first child in the table has exited with an empty message, \<^verbatim>\<open>wait(0, msg)\<close>
  returns its pid and leaves the whole kernel state as it was, so the next call returns the same pid again.\<close>

theorem wait_repeats_pid:
  assumes "i < NPROC" and "p_parent (procs st i) = Some (cur st)" and "\<forall>j<i. p_parent (procs st j) \<noteq> Some (cur st)"
    and "p_state (procs st i) = ZOMBIE" and "p_exit_msg (procs st i) = 0 # rest"
  shows "wait 0 msg st = Inr (p_pid (procs st i), st)"
  using assms by (rule wait_zombie)

theorem wait_repeats_pid_witness: "wait 0 [0] zombie_kern = Inr (7, zombie_kern)"
  using wait_repeats_pid [of 1 zombie_kern "replicate 31 0" "[0]"] zombie_kern_facts by (simp add: NPROC_def)

section \<open>The message of exit\<close>

text \<open>With a null message \<^verbatim>\<open>exit\<close> does everything up to the copy of the message, and fails there.\<close>

lemma exit_null_msg: "exit status (Some msg) st = Inr st' \<Longrightarrow> exit status None st = Inl (Undefined ''exit: msg'')"
  by (auto simp: exit_def rbind_eq_Inr Let_def split: if_splits option.splits)

end
