(* ===== verification/SysArgs.thy ===== *)
theory SysArgs
  imports ProcLife
begin

text \<open>
  System call arguments (\<^verbatim>\<open>kernel/syscall.c\<close>): the saved registers in the trapframe of the current process, integers,
  addresses and strings fetched from its memory. A string argument is the status and the bytes without the terminator;
  on failure they are the bytes copied before it.
\<close>

abbreviation MAXARG :: nat where "MAXARG \<equiv> 32"
abbreviation MAXPATH :: nat where "MAXPATH \<equiv> 128"

definition fetchaddr :: "u64 \<Rightarrow> 'a kern_scheme \<Rightarrow> (int \<times> u64) res" where
  "fetchaddr addr st =
     (let p = myproc st
      in if addr \<ge> p_sz p \<or> addr + 8 > p_sz p then Inr (-1, 0)
         else rbind (copyin_bytes (p_pagetable p) addr 8 st) (\<lambda>(r, bs).
           if r \<noteq> 0 then Inr (-1, 0)
           else Inr (0, foldr (\<lambda>b w. push_bit 8 w OR ucast b) bs 0)))"

definition fetchstr :: "u64 \<Rightarrow> nat \<Rightarrow> 'a kern_scheme \<Rightarrow> (int \<times> u8 list) res" where
  "fetchstr addr mx st =
     rbind (copyinstr_bytes (p_pagetable (myproc st)) addr mx st) (\<lambda>(r, bs).
     if r < 0 then Inr (-1, bs) else Inr (int (strlen_bytes bs), bs))"

definition argraw :: "nat \<Rightarrow> 'a ptable_scheme \<Rightarrow> u64 res" where
  "argraw n st =
     (if n = 0 then Inr (tf_get (tf_off TF_A0) st)
      else if n = 1 then Inr (tf_get (tf_off TF_A1) st)
      else if n = 2 then Inr (tf_get (tf_off TF_A2) st)
      else if n = 3 then Inr (tf_get (tf_off TF_A3) st)
      else if n = 4 then Inr (tf_get (tf_off TF_A4) st)
      else if n = 5 then Inr (tf_get (tf_off TF_A5) st)
      else Inl (Panic ''argraw''))"

definition argint :: "nat \<Rightarrow> 'a ptable_scheme \<Rightarrow> int res" where
  "argint n st = rbind (argraw n st) (\<lambda>w. Inr (sint (ucast w :: u32)))"

definition argaddr :: "nat \<Rightarrow> 'a ptable_scheme \<Rightarrow> u64 res" where
  "argaddr n st = argraw n st"

definition argstr :: "nat \<Rightarrow> nat \<Rightarrow> 'a kern_scheme \<Rightarrow> (int \<times> u8 list) res" where
  "argstr n mx st = rbind (argaddr n st) (\<lambda>addr. fetchstr addr mx st)"

text \<open>An array of \<open>mx\<close> characters on the stack after \<^verbatim>\<open>argstr\<close> has filled it, for the callers that do not look at the status.\<close>

definition argbuf :: "nat \<Rightarrow> int \<times> u8 list \<Rightarrow> 'a kern_scheme \<Rightarrow> u8 list" where
  "argbuf mx r st =
     (let bs = (if fst r < 0 then snd r else snd r @ [0]) in take mx (bs @ map (k_junk st) [length bs..<mx]))"

definition ret :: "int \<Rightarrow> 'a kern_scheme \<Rightarrow> (u64 \<times> 'a kern_scheme) res" where
  "ret v st = Inr (of_int v, st)"

end
