(* ===== verification/Fcntl.thy ===== *)
theory Fcntl
  imports Main
begin

text \<open>The modes of \<^verbatim>\<open>open\<close> (\<^verbatim>\<open>kernel/fcntl.h\<close>), shared by the kernel and the user programs.\<close>

definition O_RDONLY :: int where "O_RDONLY = 0x000"
definition O_WRONLY :: int where "O_WRONLY = 0x001"
definition O_RDWR :: int where "O_RDWR = 0x002"
definition O_CREATE :: int where "O_CREATE = 0x200"
definition O_TRUNC :: int where "O_TRUNC = 0x400"

end
