(* ===== verification/Sysfile.thy ===== *)
theory Sysfile
  imports SysArgs Fcntl
begin

text \<open>
  The file system calls (\<^verbatim>\<open>kernel/sysfile.c\<close>) except \<^verbatim>\<open>sys_exec\<close>. Each is a function of the kernel state that returns the
  register value; the \<^verbatim>\<open>goto bad\<close> of the source are calls of the definition that holds the code at the label.
\<close>

section \<open>Descriptors\<close>

definition argfd :: "nat \<Rightarrow> 'a kern_scheme \<Rightarrow> (nat \<times> nat) option res" where
  "argfd n st =
     rbind (argint n st) (\<lambda>fd.
       if fd < 0 \<or> fd \<ge> int NOFILE then Inr None
       else case p_ofile (myproc st) ! nat fd of
              None \<Rightarrow> Inr None
            | Some f \<Rightarrow> Inr (Some (nat fd, f)))"

definition set_fd :: "nat \<Rightarrow> nat option \<Rightarrow> 'a kern_scheme \<Rightarrow> 'a kern_scheme" where
  "set_fd fd f st = upd_proc (cur st) (\<lambda>p. p\<lparr>p_ofile := (p_ofile p)[fd := f]\<rparr>) st"

definition fdalloc :: "nat \<Rightarrow> 'a kern_scheme \<Rightarrow> int \<times> 'a kern_scheme" where
  "fdalloc f st =
     (case find (\<lambda>fd. p_ofile (myproc st) ! fd = None) [0..<NOFILE] of
        None \<Rightarrow> (-1, st)
      | Some fd \<Rightarrow> (int fd, set_fd fd (Some f) st))"

definition sys_dup :: "'a kern_scheme \<Rightarrow> (u64 \<times> 'a kern_scheme) res" where
  "sys_dup st =
     rbind (argfd 0 st) (\<lambda>a.
     case a of None \<Rightarrow> ret (-1) st
     | Some (_, f) \<Rightarrow>
         let (fd, st1) = fdalloc f st
         in if fd < 0 then ret (-1) st1 else rbind (filedup f st1) (ret fd))"

definition sys_read :: "'a kern_scheme \<Rightarrow> (u64 \<times> 'a kern_scheme) res" where
  "sys_read st =
     rbind (argaddr 1 st) (\<lambda>p.
     rbind (argint 2 st) (\<lambda>n.
     rbind (argfd 0 st) (\<lambda>a.
     case a of None \<Rightarrow> ret (-1) st
     | Some (_, f) \<Rightarrow> rbind (fileread f p n st) (\<lambda>(r, st1). ret r st1))))"

definition sys_write :: "'a kern_scheme \<Rightarrow> (u64 \<times> 'a kern_scheme) res" where
  "sys_write st =
     rbind (argaddr 1 st) (\<lambda>p.
     rbind (argint 2 st) (\<lambda>n.
     rbind (argfd 0 st) (\<lambda>a.
     case a of None \<Rightarrow> ret (-1) st
     | Some (_, f) \<Rightarrow> rbind (filewrite f p n st) (\<lambda>(r, st1). ret r st1))))"

definition sys_close :: "'a kern_scheme \<Rightarrow> (u64 \<times> 'a kern_scheme) res" where
  "sys_close st =
     rbind (argfd 0 st) (\<lambda>a.
     case a of None \<Rightarrow> ret (-1) st
     | Some (fd, f) \<Rightarrow> rbind (fileclose f (set_fd fd None st)) (ret 0))"

definition sys_fstat :: "'a kern_scheme \<Rightarrow> (u64 \<times> 'a kern_scheme) res" where
  "sys_fstat st =
     rbind (argaddr 1 st) (\<lambda>addr.
     rbind (argfd 0 st) (\<lambda>a.
     case a of None \<Rightarrow> ret (-1) st
     | Some (_, f) \<Rightarrow> rbind (filestat f addr st) (\<lambda>(r, st1). ret r st1)))"

section \<open>Links\<close>

definition fail_op :: "'a kern_scheme \<Rightarrow> (u64 \<times> 'a kern_scheme) res" where
  "fail_op st = rbind (end_op st) (ret (-1))"

definition stack_name :: "'a kern_scheme \<Rightarrow> u8 list" where
  "stack_name st = map (k_junk st) [0..<DIRSIZ]"

definition add_nlink :: "u16 \<Rightarrow> nat \<Rightarrow> 'a kern_scheme \<Rightarrow> 'a kern_scheme res" where
  "add_nlink d ip st = iupdate ip (upd_inode ip (\<lambda>x. x\<lparr>i_nlink := i_nlink x + d\<rparr>) st)"

definition sys_link_bad :: "nat \<Rightarrow> 'a kern_scheme \<Rightarrow> (u64 \<times> 'a kern_scheme) res" where
  "sys_link_bad ip st =
     rbind (ilock ip st) (\<lambda>st1. rbind (add_nlink (-1) ip st1) (\<lambda>st2. rbind (iunlockput ip st2) fail_op))"

definition sys_link :: "'a kern_scheme \<Rightarrow> (u64 \<times> 'a kern_scheme) res" where
  "sys_link st =
     rbind (argstr 0 MAXPATH st) (\<lambda>(n0, old).
     if n0 < 0 then ret (-1) st else
     rbind (argstr 1 MAXPATH st) (\<lambda>(n1, new).
     if n1 < 0 then ret (-1) st else
     rbind (begin_op st) (\<lambda>st1.
     rbind (namei old st1) (\<lambda>(ipo, st2).
     case ipo of None \<Rightarrow> fail_op st2
     | Some ip \<Rightarrow>
         rbind (ilock ip st2) (\<lambda>st3.
         if i_type (inodes st3 ip) = T_DIR then rbind (iunlockput ip st3) fail_op
         else
           rbind (add_nlink 1 ip st3) (\<lambda>st4.
           rbind (iunlock ip st4) (\<lambda>st5.
           rbind (nameiparent new (stack_name st5) st5) (\<lambda>(dpo, name, st6).
           case dpo of None \<Rightarrow> sys_link_bad ip st6
           | Some dp \<Rightarrow>
               rbind (ilock dp st6) (\<lambda>st7.
               rbind (if i_dev (inodes st7 dp) \<noteq> i_dev (inodes st7 ip) then Inr (-1, st7)
                      else dirlink dp name (i_inum (inodes st7 ip)) st7) (\<lambda>(r, st8).
               if r < 0 then rbind (iunlockput dp st8) (sys_link_bad ip)
               else rbind (iunlockput dp st8) (\<lambda>st9. rbind (iput ip st9) (\<lambda>st10. rbind (end_op st10) (ret 0)))))))))))))"

function isdirempty_from :: "nat \<Rightarrow> nat \<Rightarrow> nat \<Rightarrow> 'a kern_scheme \<Rightarrow> (bool \<times> 'a kern_scheme) res" where
  "isdirempty_from dp sz off st =
     (if off < sz then
        rbind (readi dp LocalDst (of_nat off) (of_nat DIRENT_SIZE) st) (\<lambda>(r, de, st1).
        if r \<noteq> int DIRENT_SIZE then Inl (Panic ''isdirempty: readi'')
        else if de_inum de \<noteq> 0 then Inr (False, st1)
        else isdirempty_from dp sz (off + DIRENT_SIZE) st1)
      else Inr (True, st))"
  by pat_completeness auto
termination
  by (relation "measure (\<lambda>(dp, sz, off, st). sz - off)") (auto simp: DIRENT_SIZE_def)

declare isdirempty_from.simps [simp del]

definition isdirempty :: "nat \<Rightarrow> 'a kern_scheme \<Rightarrow> (bool \<times> 'a kern_scheme) res" where
  "isdirempty dp st = isdirempty_from dp (unat (i_size (inodes st dp))) (2 * DIRENT_SIZE) st"

definition sys_unlink_bad :: "nat \<Rightarrow> 'a kern_scheme \<Rightarrow> (u64 \<times> 'a kern_scheme) res" where
  "sys_unlink_bad dp st = rbind (iunlockput dp st) fail_op"

definition unlink_entry :: "nat \<Rightarrow> nat \<Rightarrow> nat \<Rightarrow> 'a kern_scheme \<Rightarrow> (u64 \<times> 'a kern_scheme) res" where
  "unlink_entry dp ip off st =
     rbind (writei dp (LocalSrc (replicate DIRENT_SIZE 0)) (of_nat off) (of_nat DIRENT_SIZE) st) (\<lambda>(r, st1).
     if r \<noteq> int DIRENT_SIZE then Inl (Panic ''unlink: writei'')
     else
       rbind (if i_type (inodes st1 ip) = T_DIR then add_nlink (-1) dp st1 else Inr st1) (\<lambda>st2.
       rbind (iunlockput dp st2) (\<lambda>st3.
       rbind (add_nlink (-1) ip st3) (\<lambda>st4.
       rbind (iunlockput ip st4) (\<lambda>st5.
       rbind (end_op st5) (ret 0))))))"

definition sys_unlink :: "'a kern_scheme \<Rightarrow> (u64 \<times> 'a kern_scheme) res" where
  "sys_unlink st =
     rbind (argstr 0 MAXPATH st) (\<lambda>(n, path).
     if n < 0 then ret (-1) st else
     rbind (begin_op st) (\<lambda>st1.
     rbind (nameiparent path (stack_name st1) st1) (\<lambda>(dpo, name, st2).
     case dpo of None \<Rightarrow> fail_op st2
     | Some dp \<Rightarrow>
         rbind (ilock dp st2) (\<lambda>st3.
         if namecmp name (bytes_of ''.'') = 0 \<or> namecmp name (bytes_of ''..'') = 0 then sys_unlink_bad dp st3
         else rbind (dirlookup dp name st3) (\<lambda>(found, st4).
           case found of None \<Rightarrow> sys_unlink_bad dp st4
           | Some (ip, off) \<Rightarrow>
               rbind (ilock ip st4) (\<lambda>st5.
               if sint (i_nlink (inodes st5 ip)) < 1 then Inl (Panic ''unlink: nlink < 1'')
               else rbind (if i_type (inodes st5 ip) = T_DIR then isdirempty ip st5 else Inr (True, st5)) (\<lambda>(e, st6).
                 if \<not> e then rbind (iunlockput ip st6) (sys_unlink_bad dp)
                 else unlink_entry dp ip off st6)))))))"

section \<open>Creation\<close>

definition create_fail :: "nat \<Rightarrow> nat \<Rightarrow> 'a kern_scheme \<Rightarrow> (nat option \<times> 'a kern_scheme) res" where
  "create_fail dp ip st =
     rbind (iupdate ip (upd_inode ip (\<lambda>x. x\<lparr>i_nlink := 0\<rparr>) st)) (\<lambda>st1.
     rbind (iunlockput ip st1) (\<lambda>st2. rbind (iunlockput dp st2) (\<lambda>st3. Inr (None, st3))))"

definition create_dots :: "nat \<Rightarrow> nat \<Rightarrow> 'a kern_scheme \<Rightarrow> (int \<times> 'a kern_scheme) res" where
  "create_dots dp ip st =
     rbind (dirlink ip (bytes_of ''.'') (i_inum (inodes st ip)) st) (\<lambda>(r, st1).
     if r < 0 then Inr (-1, st1) else dirlink ip (bytes_of ''..'') (i_inum (inodes st1 dp)) st1)"

definition create_new :: "nat \<Rightarrow> u8 list \<Rightarrow> u16 \<Rightarrow> u16 \<Rightarrow> u16 \<Rightarrow> nat \<Rightarrow> 'a kern_scheme \<Rightarrow> (nat option \<times> 'a kern_scheme) res" where
  "create_new dp name type major minor ip st =
     rbind (ilock ip st) (\<lambda>st1.
     rbind (iupdate ip (upd_inode ip (\<lambda>x. x\<lparr>i_major := major, i_minor := minor, i_nlink := 1\<rparr>) st1)) (\<lambda>st2.
     rbind (if type = T_DIR then create_dots dp ip st2 else Inr (0, st2)) (\<lambda>(r, st3).
     if r < 0 then create_fail dp ip st3
     else rbind (dirlink dp name (i_inum (inodes st3 ip)) st3) (\<lambda>(r2, st4).
       if r2 < 0 then create_fail dp ip st4
       else rbind (if type = T_DIR then add_nlink 1 dp st4 else Inr st4) (\<lambda>st5.
         rbind (iunlockput dp st5) (\<lambda>st6. Inr (Some ip, st6)))))))"

definition create :: "u8 list \<Rightarrow> u16 \<Rightarrow> u16 \<Rightarrow> u16 \<Rightarrow> 'a kern_scheme \<Rightarrow> (nat option \<times> 'a kern_scheme) res" where
  "create path type major minor st =
     rbind (nameiparent path (stack_name st) st) (\<lambda>(dpo, name, st1).
     case dpo of None \<Rightarrow> Inr (None, st1)
     | Some dp \<Rightarrow>
         rbind (ilock dp st1) (\<lambda>st2.
         rbind (dirlookup dp name st2) (\<lambda>(found, st3).
         case found of
           Some (ip, _) \<Rightarrow>
             rbind (iunlockput dp st3) (\<lambda>st4.
             rbind (ilock ip st4) (\<lambda>st5.
             if type = T_FILE \<and> (i_type (inodes st5 ip) = T_FILE \<or> i_type (inodes st5 ip) = T_DEVICE)
             then Inr (Some ip, st5)
             else rbind (iunlockput ip st5) (\<lambda>st6. Inr (None, st6))))
         | None \<Rightarrow>
             rbind (ialloc (i_dev (inodes st3 dp)) type st3) (\<lambda>(a, st4).
             case a of
               None \<Rightarrow> rbind (iunlockput dp st4) (\<lambda>st5. Inr (None, st5))
             | Some ip \<Rightarrow> create_new dp name type major minor ip st4))))"

definition open_inode :: "u8 list \<Rightarrow> int \<Rightarrow> 'a kern_scheme \<Rightarrow> (nat option \<times> 'a kern_scheme) res" where
  "open_inode path omode st =
     (if omode AND O_CREATE \<noteq> 0 then create path T_FILE 0 0 st
      else rbind (namei path st) (\<lambda>(ipo, st1).
        case ipo of None \<Rightarrow> Inr (None, st1)
        | Some ip \<Rightarrow>
            rbind (ilock ip st1) (\<lambda>st2.
            if i_type (inodes st2 ip) = T_DIR \<and> omode \<noteq> O_RDONLY
            then rbind (iunlockput ip st2) (\<lambda>st3. Inr (None, st3))
            else Inr (Some ip, st2))))"

definition open_file :: "nat \<Rightarrow> int \<Rightarrow> nat \<Rightarrow> 'a kern_scheme \<Rightarrow> 'a kern_scheme" where
  "open_file ip omode f st =
     (let x = inodes st ip;
          st1 = (if i_type x = T_DEVICE then upd_file f (\<lambda>y. y\<lparr>f_type := FD_DEVICE, f_major := i_major x\<rparr>) st
                 else upd_file f (\<lambda>y. y\<lparr>f_type := FD_INODE, f_off := 0\<rparr>) st)
      in upd_file f (\<lambda>y. y\<lparr>f_ip := Some ip, f_readable := (omode AND O_WRONLY = 0),
           f_writable := (omode AND O_WRONLY \<noteq> 0 \<or> omode AND O_RDWR \<noteq> 0)\<rparr>) st1)"

definition sys_open :: "'a kern_scheme \<Rightarrow> (u64 \<times> 'a kern_scheme) res" where
  "sys_open st =
     rbind (argint 1 st) (\<lambda>omode.
     rbind (argstr 0 MAXPATH st) (\<lambda>(n, path).
     if n < 0 then ret (-1) st else
     rbind (begin_op st) (\<lambda>st1.
     rbind (open_inode path omode st1) (\<lambda>(ipo, st2).
     case ipo of None \<Rightarrow> fail_op st2
     | Some ip \<Rightarrow>
         let x = inodes st2 ip in
         if i_type x = T_DEVICE \<and> (sint (i_major x) < 0 \<or> sint (i_major x) \<ge> NDEV)
         then rbind (iunlockput ip st2) fail_op
         else
           let (fo, st3) = filealloc st2;
               (fd, st4) = (case fo of None \<Rightarrow> (-1, st3) | Some f \<Rightarrow> fdalloc f st3) in
           case fo of
             None \<Rightarrow> rbind (iunlockput ip st4) fail_op
           | Some f \<Rightarrow>
               if fd < 0 then rbind (fileclose f st4) (\<lambda>st5. rbind (iunlockput ip st5) fail_op)
               else
                 let st5 = open_file ip omode f st4 in
                 rbind (if omode AND O_TRUNC \<noteq> 0 \<and> i_type (inodes st5 ip) = T_FILE then itrunc ip st5 else Inr st5) (\<lambda>st6.
                 rbind (iunlock ip st6) (\<lambda>st7. rbind (end_op st7) (ret fd)))))))"

definition mk_inode :: "u16 \<Rightarrow> u16 \<Rightarrow> u16 \<Rightarrow> 'a kern_scheme \<Rightarrow> (u64 \<times> 'a kern_scheme) res" where
  "mk_inode type major minor st =
     rbind (argstr 0 MAXPATH st) (\<lambda>(n, path).
     if n < 0 then fail_op st
     else rbind (create path type major minor st) (\<lambda>(ipo, st1).
       case ipo of None \<Rightarrow> fail_op st1
       | Some ip \<Rightarrow> rbind (iunlockput ip st1) (\<lambda>st2. rbind (end_op st2) (ret 0))))"

definition sys_mkdir :: "'a kern_scheme \<Rightarrow> (u64 \<times> 'a kern_scheme) res" where
  "sys_mkdir st = rbind (begin_op st) (mk_inode T_DIR 0 0)"

definition sys_mknod :: "'a kern_scheme \<Rightarrow> (u64 \<times> 'a kern_scheme) res" where
  "sys_mknod st =
     rbind (begin_op st) (\<lambda>st1.
     rbind (argint 1 st1) (\<lambda>major.
     rbind (argint 2 st1) (\<lambda>minor.
     mk_inode T_DEVICE (of_int major) (of_int minor) st1)))"

definition sys_chdir :: "'a kern_scheme \<Rightarrow> (u64 \<times> 'a kern_scheme) res" where
  "sys_chdir st =
     rbind (begin_op st) (\<lambda>st1.
     rbind (argstr 0 MAXPATH st1) (\<lambda>(n, path).
     if n < 0 then fail_op st1
     else rbind (namei path st1) (\<lambda>(ipo, st2).
       case ipo of None \<Rightarrow> fail_op st2
       | Some ip \<Rightarrow>
           rbind (ilock ip st2) (\<lambda>st3.
           if i_type (inodes st3 ip) \<noteq> T_DIR then rbind (iunlockput ip st3) fail_op
           else rbind (iunlock ip st3) (\<lambda>st4.
             case p_cwd (myproc st4) of
               None \<Rightarrow> Inl (Undefined ''iput(0)'')
             | Some cwd \<Rightarrow>
                 rbind (iput cwd st4) (\<lambda>st5.
                 rbind (end_op st5) (\<lambda>st6.
                 ret 0 (upd_proc (cur st6) (\<lambda>p. p\<lparr>p_cwd := Some ip\<rparr>) st6))))))))"

section \<open>Pipes and priorities\<close>

definition close_both :: "nat \<Rightarrow> nat \<Rightarrow> 'a kern_scheme \<Rightarrow> (u64 \<times> 'a kern_scheme) res" where
  "close_both rf wf1 st = rbind (fileclose rf st) (\<lambda>st1. rbind (fileclose wf1 st1) (ret (-1)))"

definition sys_pipe :: "'a kern_scheme \<Rightarrow> (u64 \<times> 'a kern_scheme) res" where
  "sys_pipe st =
     rbind (argaddr 0 st) (\<lambda>fdarray.
     rbind (pipealloc st) (\<lambda>(a, st1).
     case a of None \<Rightarrow> ret (-1) st1
     | Some (rf, wf1) \<Rightarrow>
         let (fd0, st2) = fdalloc rf st1;
             (fd1, st3) = (if fd0 < 0 then (-1, st2) else fdalloc wf1 st2) in
         if fd0 < 0 \<or> fd1 < 0
         then close_both rf wf1 (if fd0 \<ge> 0 then set_fd (nat fd0) None st3 else st3)
         else
           let pt = p_pagetable (myproc st3);
               undo = (\<lambda>s. close_both rf wf1 (set_fd (nat fd1) None (set_fd (nat fd0) None s))) in
           rbind (copyout_bytes pt fdarray (le_bytes 4 (of_int fd0)) st3) (\<lambda>(r0, st4).
           if r0 < 0 then undo st4
           else rbind (copyout_bytes pt (fdarray + 4) (le_bytes 4 (of_int fd1)) st4) (\<lambda>(r1, st5).
             if r1 < 0 then undo st5 else ret 0 st5))))"

definition sys_set_ps_priority :: "int \<Rightarrow> 'a kern_scheme \<Rightarrow> (u64 \<times> 'a kern_scheme) res" where
  "sys_set_ps_priority n st =
     (if n \<ge> 1 \<and> n \<le> 10 then ret 0 (upd_proc (cur st) (\<lambda>p. p\<lparr>p_ps_priority := n\<rparr>) st) else ret (-1) st)"

definition sys_set_cfs_priority :: "int \<Rightarrow> 'a kern_scheme \<Rightarrow> (u64 \<times> 'a kern_scheme) res" where
  "sys_set_cfs_priority n st =
     (if n \<ge> 0 \<and> n \<le> 2 then ret 0 (upd_proc (cur st) (\<lambda>p. p\<lparr>p_cfs_priority := n\<rparr>) st) else ret (-1) st)"

end
