(* ===== verification/Exec.thy ===== *)
theory Exec
  imports Sysfile
begin

text \<open>
  Program loading (\<^verbatim>\<open>kernel/exec.c\<close>, \<^verbatim>\<open>kernel/elf.h\<close>) and \<^verbatim>\<open>sys_exec\<close>. The headers are read into byte lists and taken apart
  at the offsets of the C structures. The argument vector is the list of the addresses of its strings, which \<^verbatim>\<open>sys_exec\<close>
  keeps in pages of their own.
\<close>

section \<open>Headers\<close>

abbreviation ELF_MAGIC :: u32 where "ELF_MAGIC \<equiv> 0x464C457F"
abbreviation ELF_PROG_LOAD :: u32 where "ELF_PROG_LOAD \<equiv> 1"
definition ELFHDR_SIZE :: nat where "ELFHDR_SIZE = 64"
definition PROGHDR_SIZE :: nat where "PROGHDR_SIZE = 56"

definition le_get :: "u8 list \<Rightarrow> nat \<Rightarrow> nat \<Rightarrow> u64" where
  "le_get bs off n = foldr (\<lambda>b w. push_bit 8 w OR ucast b) (take n (drop off bs)) 0"

record elfhdr =
  e_magic :: u32
  e_entry :: u64
  e_phoff :: u64
  e_phnum :: u16

definition get_elfhdr :: "u8 list \<Rightarrow> elfhdr" where
  "get_elfhdr bs = \<lparr>e_magic = ucast (le_get bs 0 4), e_entry = le_get bs 24 8, e_phoff = le_get bs 32 8,
     e_phnum = ucast (le_get bs 56 2)\<rparr>"

record proghdr =
  ph_type :: u32
  ph_flags :: u32
  ph_off :: u64
  ph_vaddr :: u64
  ph_filesz :: u64
  ph_memsz :: u64

definition get_proghdr :: "u8 list \<Rightarrow> proghdr" where
  "get_proghdr bs = \<lparr>ph_type = ucast (le_get bs 0 4), ph_flags = ucast (le_get bs 4 4), ph_off = le_get bs 8 8,
     ph_vaddr = le_get bs 16 8, ph_filesz = le_get bs 32 8, ph_memsz = le_get bs 40 8\<rparr>"

definition flags2perm :: "u32 \<Rightarrow> u64" where
  "flags2perm flags =
     (let perm = (if flags AND 1 \<noteq> 0 then PTE_X else 0)
      in if flags AND 2 \<noteq> 0 then perm OR PTE_W else perm)"

section \<open>Loading\<close>

text \<open>The loop of \<^verbatim>\<open>loadseg\<close>; \<open>i\<close> and \<open>sz\<close> are the unsigned values. In C the 32-bit index starts again at \<open>0\<close> after \<open>2^20\<close> rounds if
  \<open>sz\<close> exceeds \<open>2^32 - 4096\<close>; before that, \<^verbatim>\<open>readi\<close> has met the end of any file of at most \<open>MAXFILE\<close> blocks and the loop has returned
  \<open>-1\<close>, so the index is a natural number here.\<close>

function loadseg_loop :: "u64 \<Rightarrow> u64 \<Rightarrow> nat \<Rightarrow> u32 \<Rightarrow> nat \<Rightarrow> nat \<Rightarrow> 'a kern_scheme \<Rightarrow> (int \<times> 'a kern_scheme) res" where
  "loadseg_loop pagetable va ip offset sz i st =
     (if i < sz then
        rbind (walkaddr pagetable (va + of_nat i) st) (\<lambda>pa.
        if pa = 0 then Inl (Panic ''loadseg: address should exist'')
        else
          let n = (if sz - i < unat PGSIZE then sz - i else unat PGSIZE) in
          rbind (readi ip (KernDst pa) (offset + of_nat i) (of_nat n) st) (\<lambda>(r, _, st1).
          if r \<noteq> int n then Inr (-1, st1)
          else loadseg_loop pagetable va ip offset sz (i + unat PGSIZE) st1))
      else Inr (0, st))"
  by pat_completeness auto
termination
  by (relation "measure (\<lambda>(pagetable, va, ip, offset, sz, i, st). sz - i)") (auto simp: PGSIZE_def)

declare loadseg_loop.simps [simp del]

definition loadseg :: "u64 \<Rightarrow> u64 \<Rightarrow> nat \<Rightarrow> u32 \<Rightarrow> u32 \<Rightarrow> 'a kern_scheme \<Rightarrow> (int \<times> 'a kern_scheme) res" where
  "loadseg pagetable va ip offset sz st = loadseg_loop pagetable va ip offset (unat sz) 0 st"

text \<open>One program header: the new size, or \<open>None\<close> for the jump to \<^verbatim>\<open>bad\<close> with the size reached so far.\<close>

definition load_ph :: "u64 \<Rightarrow> nat \<Rightarrow> proghdr \<Rightarrow> u64 \<Rightarrow> 'a kern_scheme \<Rightarrow> (bool \<times> u64 \<times> 'a kern_scheme) res" where
  "load_ph pagetable ip ph sz st =
     (if ph_type ph \<noteq> ELF_PROG_LOAD then Inr (True, sz, st)
      else if ph_memsz ph < ph_filesz ph then Inr (False, sz, st)
      else if ph_vaddr ph + ph_memsz ph < ph_vaddr ph then Inr (False, sz, st)
      else if ph_vaddr ph mod PGSIZE \<noteq> 0 then Inr (False, sz, st)
      else rbind (uvmalloc (k_end st) pagetable sz (ph_vaddr ph + ph_memsz ph) (flags2perm (ph_flags ph)) st) (\<lambda>(sz1, st1).
        if sz1 = 0 then Inr (False, sz, st1)
        else rbind (loadseg pagetable (ph_vaddr ph) ip (ucast (ph_off ph)) (ucast (ph_filesz ph)) st1) (\<lambda>(r, st2).
          Inr (r \<ge> 0, sz1, st2))))"

fun load_phs :: "nat \<Rightarrow> u32 \<Rightarrow> u64 \<Rightarrow> nat \<Rightarrow> u64 \<Rightarrow> 'a kern_scheme \<Rightarrow> (bool \<times> u64 \<times> 'a kern_scheme) res" where
  "load_phs 0 off pagetable ip sz st = Inr (True, sz, st)"
| "load_phs (Suc k) off pagetable ip sz st =
     rbind (readi ip LocalDst off (of_nat PROGHDR_SIZE) st) (\<lambda>(r, bs, st1).
     if r \<noteq> int PROGHDR_SIZE then Inr (False, sz, st1)
     else rbind (load_ph pagetable ip (get_proghdr bs) sz st1) (\<lambda>(ok, sz1, st2).
       if ok then load_phs k (off + of_nat PROGHDR_SIZE) pagetable ip sz1 st2 else Inr (False, sz1, st2)))"

section \<open>The stack of the new program\<close>

fun push_args :: "u64 \<Rightarrow> u64 \<Rightarrow> u64 list \<Rightarrow> u64 \<Rightarrow> u64 list \<Rightarrow> 'a kern_scheme \<Rightarrow> ((u64 \<times> u64 list) option \<times> 'a kern_scheme) res" where
  "push_args pagetable stackbase [] sp ustack st = Inr (Some (sp, ustack), st)"
| "push_args pagetable stackbase (a # argv) sp ustack st =
     (if length ustack \<ge> MAXARG then Inr (None, st)
      else case strlen (memory st) a of
        None \<Rightarrow> Inl (Blocks ''strlen'')
      | Some n \<Rightarrow>
          let sp1 = sp - of_nat (n + 1);
              sp2 = sp1 - sp1 mod 16
          in if sp2 < stackbase then Inr (None, st)
             else rbind (copyout_bytes pagetable sp2 (bytes_at (memory st) a (n + 1)) st) (\<lambda>(r, st1).
               if r < 0 then Inr (None, st1)
               else push_args pagetable stackbase argv sp2 (ustack @ [sp2]) st1))"

definition push_argv :: "u64 \<Rightarrow> u64 \<Rightarrow> u64 \<Rightarrow> u64 list \<Rightarrow> 'a kern_scheme \<Rightarrow> (u64 option \<times> 'a kern_scheme) res" where
  "push_argv pagetable stackbase sp ustack st =
     (if length ustack \<ge> MAXARG then Inl (Undefined ''exec: ustack'')
      else let sp1 = sp - of_nat ((length ustack + 1) * 8);
               sp2 = sp1 - sp1 mod 16
           in if sp2 < stackbase then Inr (None, st)
              else rbind (copyout_bytes pagetable sp2 (concat (map (le_bytes 8) (ustack @ [0]))) st) (\<lambda>(r, st1).
                Inr (if r < 0 then None else Some sp2, st1)))"

section \<open>exec\<close>

definition exec_bad :: "u64 \<Rightarrow> u64 \<Rightarrow> nat option \<Rightarrow> 'a kern_scheme \<Rightarrow> (int \<times> 'a kern_scheme) res" where
  "exec_bad pagetable sz ipo st =
     rbind (if pagetable \<noteq> 0 then proc_freepagetable pagetable sz st else Inr st) (\<lambda>st1.
     case ipo of
       None \<Rightarrow> Inr (-1, st1)
     | Some ip \<Rightarrow> rbind (iunlockput ip st1) (\<lambda>st2. rbind (end_op st2) (\<lambda>st3. Inr (-1, st3))))"

definition exec_commit :: "u8 list \<Rightarrow> elfhdr \<Rightarrow> u64 \<Rightarrow> u64 \<Rightarrow> u64 \<Rightarrow> u64 \<Rightarrow> nat \<Rightarrow> 'a kern_scheme \<Rightarrow> (int \<times> 'a kern_scheme) res" where
  "exec_commit path elf pagetable oldsz sz sp argc st =
     (let st1 = tf_set (tf_off TF_A1) sp st;
          lst = rev (takeWhile (\<lambda>c. c \<noteq> slash) (rev path));
          oldpagetable = p_pagetable (myproc st1);
          st2 = upd_proc (cur st1) (\<lambda>p. p\<lparr>p_name := safestrcpy_bytes (p_name p) lst 16, p_pagetable := pagetable, p_sz := sz\<rparr>) st1;
          st3 = tf_set (tf_off TF_SP) sp (tf_set (tf_off TF_EPC) (e_entry elf) st2)
      in rbind (proc_freepagetable oldpagetable oldsz st3) (\<lambda>st4. Inr (int argc, st4)))"

text \<open>The second half of \<^verbatim>\<open>exec\<close>, when the segments are loaded and the inode is released.\<close>

definition exec_stack :: "u8 list \<Rightarrow> u64 list \<Rightarrow> elfhdr \<Rightarrow> u64 \<Rightarrow> u64 \<Rightarrow> 'a kern_scheme \<Rightarrow> (int \<times> 'a kern_scheme) res" where
  "exec_stack path argv elf pagetable sz0 st =
     (let oldsz = p_sz (myproc st);
          sz = PGROUNDUP sz0
      in rbind (uvmalloc (k_end st) pagetable sz (sz + 2 * PGSIZE) PTE_W st) (\<lambda>(sz1, st1).
         if sz1 = 0 then exec_bad pagetable sz None st1
         else rbind (uvmclear pagetable (sz1 - 2 * PGSIZE) st1) (\<lambda>st2.
           let stackbase = sz1 - PGSIZE in
           rbind (push_args pagetable stackbase argv sz1 [] st2) (\<lambda>(a, st3).
           case a of
             None \<Rightarrow> exec_bad pagetable sz1 None st3
           | Some (sp, ustack) \<Rightarrow>
               rbind (push_argv pagetable stackbase sp ustack st3) (\<lambda>(b, st4).
               case b of
                 None \<Rightarrow> exec_bad pagetable sz1 None st4
               | Some sp1 \<Rightarrow> exec_commit path elf pagetable oldsz sz1 sp1 (length ustack) st4)))))"

definition exec :: "u8 list \<Rightarrow> u64 list \<Rightarrow> 'a kern_scheme \<Rightarrow> (int \<times> 'a kern_scheme) res" where
  "exec path argv st =
     rbind (begin_op st) (\<lambda>st1.
     rbind (namei path st1) (\<lambda>(ipo, st2).
     case ipo of
       None \<Rightarrow> rbind (end_op st2) (\<lambda>st3. Inr (-1, st3))
     | Some ip \<Rightarrow>
         rbind (ilock ip st2) (\<lambda>st3.
         rbind (readi ip LocalDst 0 (of_nat ELFHDR_SIZE) st3) (\<lambda>(r, bs, st4).
         let elf = get_elfhdr bs in
         if r \<noteq> int ELFHDR_SIZE \<or> e_magic elf \<noteq> ELF_MAGIC then exec_bad 0 0 (Some ip) st4
         else rbind (proc_pagetable (p_trapframe (myproc st4)) st4) (\<lambda>(pagetable, st5).
           if pagetable = 0 then exec_bad 0 0 (Some ip) st5
           else rbind (load_phs (unat (e_phnum elf)) (ucast (e_phoff elf)) pagetable ip 0 st5) (\<lambda>(ok, sz, st6).
             if \<not> ok then exec_bad pagetable sz (Some ip) st6
             else rbind (iunlockput ip st6) (\<lambda>st7.
               rbind (end_op st7) (exec_stack path argv elf pagetable sz))))))))"

section \<open>sys_exec\<close>

definition free_argv :: "u64 list \<Rightarrow> 'a kern_scheme \<Rightarrow> 'a kern_scheme res" where
  "free_argv argv = rfold (\<lambda>a s. kfree (k_end s) a s) argv"

text \<open>The argument strings from index \<open>i\<close> on, with \<open>k\<close> array elements left; \<open>argv\<close> are the pages allocated so far.\<close>

fun fetch_argv :: "nat \<Rightarrow> u64 \<Rightarrow> nat \<Rightarrow> u64 list \<Rightarrow> 'a kern_scheme \<Rightarrow> (bool \<times> u64 list \<times> 'a kern_scheme) res" where
  "fetch_argv 0 uargv i argv st = Inr (False, argv, st)"
| "fetch_argv (Suc k) uargv i argv st =
     rbind (fetchaddr (uargv + 8 * of_nat i) st) (\<lambda>(r, uarg).
     if r < 0 then Inr (False, argv, st)
     else if uarg = 0 then Inr (True, argv, st)
     else let (a, st1) = kalloc st in
       if a = 0 then Inr (False, argv, st1)
       else rbind (copyinstr (p_pagetable (myproc st1)) a uarg PGSIZE st1) (\<lambda>(r2, st2).
         if r2 < 0 then Inr (False, argv @ [a], st2)
         else fetch_argv k uargv (Suc i) (argv @ [a]) st2))"

definition sys_exec :: "'a kern_scheme \<Rightarrow> (u64 \<times> 'a kern_scheme) res" where
  "sys_exec st =
     rbind (argaddr 1 st) (\<lambda>uargv.
     rbind (argstr 0 MAXPATH st) (\<lambda>(n, path).
     if n < 0 then ret (-1) st
     else rbind (fetch_argv MAXARG uargv 0 [] st) (\<lambda>(ok, argv, st1).
       if \<not> ok then rbind (free_argv argv st1) (ret (-1))
       else rbind (exec path argv st1) (\<lambda>(r, st2). rbind (free_argv argv st2) (ret r)))))"

end
