(* ===== verification/Syscall.thy ===== *)
theory Syscall
  imports Exec
begin

text \<open>
  The process system calls (\<^verbatim>\<open>kernel/sysproc.c\<close>) and the dispatch (\<^verbatim>\<open>kernel/syscall.c\<close>, \<^verbatim>\<open>kernel/syscall.h\<close>). A call returns
  the register value, or \<open>None\<close> if the process has exited; a call that goes to sleep is \<open>Blocks\<close>.
\<close>

section \<open>Process system calls\<close>

definition sys_exit :: "'a kern_scheme \<Rightarrow> 'a kern_scheme res" where
  "sys_exit st =
     rbind (argint 0 st) (\<lambda>n.
     rbind (argstr 1 32 st) (\<lambda>r.
     exit n (Some (argbuf 32 r st)) st))"

definition sys_getpid :: "'a kern_scheme \<Rightarrow> (u64 \<times> 'a kern_scheme) res" where
  "sys_getpid st = ret (p_pid (myproc st)) st"

definition sys_fork :: "'a kern_scheme \<Rightarrow> (u64 \<times> 'a kern_scheme) res" where
  "sys_fork st = rbind (fork st) (\<lambda>(r, st1). ret r st1)"

definition sys_wait :: "'a kern_scheme \<Rightarrow> (u64 \<times> 'a kern_scheme) res" where
  "sys_wait st =
     rbind (argaddr 0 st) (\<lambda>p.
     rbind (argstr 1 32 st) (\<lambda>r.
     rbind (wait p (argbuf 32 r st) st) (\<lambda>(v, st1). ret v st1)))"

definition sys_sbrk :: "'a kern_scheme \<Rightarrow> (u64 \<times> 'a kern_scheme) res" where
  "sys_sbrk st =
     rbind (argint 0 st) (\<lambda>n.
     let addr = p_sz (myproc st) in
     rbind (growproc n st) (\<lambda>(r, st1). if r < 0 then ret (-1) st1 else Inr (addr, st1)))"

text \<open>One pass of the loop of \<^verbatim>\<open>sys_sleep\<close>; \<open>None\<close> if the process has gone to sleep. The comparison is unsigned.\<close>

definition sleep_pass :: "u32 \<Rightarrow> int \<Rightarrow> 'a kern_scheme \<Rightarrow> int option \<times> 'a kern_scheme" where
  "sleep_pass ticks0 n st =
     (if ticks st - ticks0 < of_int n
      then if killed (cur st) st then (Some (-1), st) else (None, sleep_enter ChTicks st)
      else (Some 0, st))"

definition sys_sleep :: "'a kern_scheme \<Rightarrow> (u64 \<times> 'a kern_scheme) res" where
  "sys_sleep st =
     rbind (argint 0 st) (\<lambda>n.
     case sleep_pass (ticks st) n st of
       (None, _) \<Rightarrow> Inl (Blocks ''sleep'')
     | (Some r, st1) \<Rightarrow> ret r st1)"

definition sys_kill :: "'a kern_scheme \<Rightarrow> (u64 \<times> 'a kern_scheme) res" where
  "sys_kill st = rbind (argint 0 st) (\<lambda>pid. let (r, st1) = kill pid st in ret r st1)"

definition sys_uptime :: "'a kern_scheme \<Rightarrow> (u64 \<times> 'a kern_scheme) res" where
  "sys_uptime st = Inr (ucast (ticks st), st)"

definition sys_memsize :: "'a kern_scheme \<Rightarrow> (u64 \<times> 'a kern_scheme) res" where
  "sys_memsize st = Inr (p_sz (myproc st), st)"

section \<open>Dispatch\<close>

datatype sysname =
    SYS_fork
  | SYS_exit
  | SYS_wait
  | SYS_pipe
  | SYS_read
  | SYS_kill
  | SYS_exec
  | SYS_fstat
  | SYS_chdir
  | SYS_dup
  | SYS_getpid
  | SYS_sbrk
  | SYS_sleep
  | SYS_uptime
  | SYS_open
  | SYS_write
  | SYS_mknod
  | SYS_unlink
  | SYS_link
  | SYS_mkdir
  | SYS_close
  | SYS_memsize
  | SYS_set_ps_priority
  | SYS_set_cfs_priority

fun sysno :: "sysname \<Rightarrow> nat" where
  "sysno SYS_fork = 1"
| "sysno SYS_exit = 2"
| "sysno SYS_wait = 3"
| "sysno SYS_pipe = 4"
| "sysno SYS_read = 5"
| "sysno SYS_kill = 6"
| "sysno SYS_exec = 7"
| "sysno SYS_fstat = 8"
| "sysno SYS_chdir = 9"
| "sysno SYS_dup = 10"
| "sysno SYS_getpid = 11"
| "sysno SYS_sbrk = 12"
| "sysno SYS_sleep = 13"
| "sysno SYS_uptime = 14"
| "sysno SYS_open = 15"
| "sysno SYS_write = 16"
| "sysno SYS_mknod = 17"
| "sysno SYS_unlink = 18"
| "sysno SYS_link = 19"
| "sysno SYS_mkdir = 20"
| "sysno SYS_close = 21"
| "sysno SYS_memsize = 22"
| "sysno SYS_set_ps_priority = 23"
| "sysno SYS_set_cfs_priority = 24"

text \<open>The table \<^verbatim>\<open>syscalls\<close> of 23 elements; its element 0 is null.\<close>

definition returns :: "('a kern_scheme \<Rightarrow> (u64 \<times> 'a kern_scheme) res) \<Rightarrow> 'a kern_scheme \<Rightarrow> (u64 option \<times> 'a kern_scheme) res" where
  "returns f st = rbind (f st) (\<lambda>(v, st1). Inr (Some v, st1))"

definition syscalls :: "nat \<Rightarrow> ('a kern_scheme \<Rightarrow> (u64 option \<times> 'a kern_scheme) res) option" where
  "syscalls num =
     map_of [(sysno SYS_fork, returns sys_fork), (sysno SYS_exit, \<lambda>st. rbind (sys_exit st) (\<lambda>st1. Inr (None, st1))),
       (sysno SYS_wait, returns sys_wait), (sysno SYS_pipe, returns sys_pipe), (sysno SYS_read, returns sys_read),
       (sysno SYS_kill, returns sys_kill), (sysno SYS_exec, returns sys_exec), (sysno SYS_fstat, returns sys_fstat),
       (sysno SYS_chdir, returns sys_chdir), (sysno SYS_dup, returns sys_dup), (sysno SYS_getpid, returns sys_getpid),
       (sysno SYS_sbrk, returns sys_sbrk), (sysno SYS_sleep, returns sys_sleep), (sysno SYS_uptime, returns sys_uptime),
       (sysno SYS_open, returns sys_open), (sysno SYS_write, returns sys_write), (sysno SYS_mknod, returns sys_mknod),
       (sysno SYS_unlink, returns sys_unlink), (sysno SYS_link, returns sys_link), (sysno SYS_mkdir, returns sys_mkdir),
       (sysno SYS_close, returns sys_close), (sysno SYS_memsize, returns sys_memsize)] num"

definition kprintf :: "string \<Rightarrow> parg list \<Rightarrow> 'a kcon_scheme \<Rightarrow> 'a kcon_scheme res" where
  "kprintf fmt args st = rbind (printf (Some (bytes_of fmt)) args (kuart st)) (\<lambda>u. Inr (st\<lparr>kuart := u\<rparr>))"

text \<open>The flag tells whether the process still exists.\<close>

definition syscall :: "'a kern_scheme \<Rightarrow> (bool \<times> 'a kern_scheme) res" where
  "syscall st =
     (let num = sint (ucast (tf_get (tf_off TF_A7) st) :: u32)
      in case (if num > 0 then syscalls (nat num) else None) of
           Some f \<Rightarrow> rbind (f st) (\<lambda>(v, st1).
             case v of None \<Rightarrow> Inr (False, st1) | Some r \<Rightarrow> Inr (True, tf_set (tf_off TF_A0) r st1))
         | None \<Rightarrow>
             rbind (kprintf (''%d %s: unknown sys call %d'' @ [CHR 0x0A])
                     [ArgInt (of_int (p_pid (myproc st))), ArgStr (Some (takeWhile (\<lambda>b. b \<noteq> 0) (p_name (myproc st)))),
                      ArgInt (of_int num)] st) (\<lambda>st1.
             Inr (True, tf_set (tf_off TF_A0) (-1) st1)))"

section \<open>The trapframe\<close>

definition tf_field :: "u64 \<Rightarrow> bool" where
  "tf_field off \<longleftrightarrow> unat off < TF_SIZE \<and> unat off mod 8 = 0"

lemma tf_fields [simp]: "tf_field (tf_off f)"
  by (cases f) (simp_all add: tf_field_def TF_SIZE_def tf_off.simps)

lemma unat_sum_small: "unat x + unat y < 2 ^ 64 \<Longrightarrow> unat (x + y :: u64) = unat x + unat y"
  by (simp add: unat_word_ariths)

lemma tf_apart:
  assumes "tf_field a" and "tf_field b" and "a \<noteq> b" and "in_range x (t + a) 8"
  shows "\<not> in_range x (t + b) 8"
proof
  assume r: "in_range x (t + b) 8"
  define c d where "c = x - (t + a)" and "d = x - (t + b)"
  have "a + c = b + d" by (simp add: c_def d_def)
  then have "unat a + unat c = unat b + unat d"
    using assms r unat_sum_small [of a c] unat_sum_small [of b d]
    by (simp add: tf_field_def TF_SIZE_def in_range_def c_def [symmetric] d_def [symmetric])
  moreover have "unat c < 8" "unat d < 8" using assms r by (simp_all add: in_range_def c_def d_def)
  moreover have "unat a mod 8 = 0" "unat b mod 8 = 0" using assms by (simp_all add: tf_field_def)
  ultimately have "unat a = unat b" by presburger
  then show False using assms(3) by (simp add: word_unat_eq_iff)
qed

lemma tf_get_set:
  assumes "tf_field a" and "tf_field b"
  shows "tf_get a (tf_set b v k) = (if a = b then v else tf_get a k)"
proof (cases "a = b")
  case False
  then have "load64 (store64 m (t + b) v) (t + a) = load64 m (t + a)" for m t
    by (intro load64_cong store64_frame) (use assms tf_apart in blast)
  then show ?thesis using False by (simp add: tf_get_def tf_set_def)
qed (simp add: tf_get_def tf_set_def)

lemma tf_set_frame [simp]: "procs (tf_set a v k) = procs k" "cur (tf_set a v k) = cur k"
  by (simp_all add: tf_set_def)

section \<open>The priority calls\<close>

text \<open>C30. The system calls that set the scheduling priorities cannot be reached: for the numbers \<^verbatim>\<open>SYS_set_ps_priority\<close> and
  \<^verbatim>\<open>SYS_set_cfs_priority\<close> the dispatch reports an unknown call and returns \<open>-1\<close>, and no process's priorities change.\<close>

theorem priority_calls_unreachable:
  fixes st :: "'a kern_scheme"
  assumes "tx_live (kuart st)" and "num = sysno SYS_set_ps_priority \<or> num = sysno SYS_set_cfs_priority" and "tf_get (tf_off TF_A7) st = of_nat num"
  shows "\<exists>st'. syscall st = Inr (True, st') \<and> tf_get (tf_off TF_A0) st' = - 1 \<and> procs st' = procs st"
proof -
  let ?name = "takeWhile (\<lambda>b. b \<noteq> 0) (p_name (myproc st))"
  let ?fmt = "bytes_of (''%d %s: unknown sys call %d'' @ [CHR 0x0A])"
  let ?args = "[ArgInt (of_int (p_pid (myproc st))), ArgStr (Some ?name), ArgInt (of_int (int num))]"
  have n: "sint (ucast (tf_get (tf_off TF_A7) st) :: u32) = int num" using assms(2,3)
    by auto
  have pos: "0 < num" using assms(2) by auto
  have none: "(syscalls num :: ('a kern_scheme \<Rightarrow> (u64 option \<times> 'a kern_scheme) res) option) = None" using assms(2)
    by (auto simp: syscalls_def)
  have "fmt_ok ?fmt ?args" by (simp add: bytes_of_def args_after_def)
  then obtain u where "printf (Some ?fmt) ?args (kuart st) = Inr u" using printf_ends [OF assms(1)] by blast
  then have "syscall st = Inr (True, tf_set (tf_off TF_A0) (- 1) (st\<lparr>kuart := u\<rparr>))"
    using n none pos by (simp add: syscall_def kprintf_def Let_def)
  then show ?thesis by (simp add: tf_get_set)
qed

theorem priority_calls_unreachable_witness:
  "\<exists>st'. syscall (tf_set (tf_off TF_A7) 23 zero_kern) = Inr (True, st') \<and> tf_get (tf_off TF_A0) st' = - 1 \<and> procs st' = procs zero_kern"
proof -
  have "kuart (tf_set (tf_off TF_A7) 23 zero_kern) = sample_uart" by (simp add: tf_set_def zero_kern_simps)
  then show ?thesis
    using priority_calls_unreachable [of "tf_set (tf_off TF_A7) 23 zero_kern" 23] sample_live
    by (simp add: tf_get_set)
qed

end
