(* ===== verification/Virtio.thy ===== *)
theory Virtio
  imports Kalloc
begin

text \<open>
  The disk driver (\<^verbatim>\<open>kernel/virtio_disk.c\<close>, \<^verbatim>\<open>kernel/virtio.h\<close>): the descriptor table, the available and used rings and the
  driver's book-keeping. Addresses put into descriptors are symbolic: the command header or the status byte of a chain,
  or the data of a buffer. The device answers register reads as the function \<open>regs\<close> says, and register writes are
  recorded. \<^verbatim>\<open>virtio_disk_rw\<close> sleeps twice, so it is three stretches: getting three descriptors and submitting the request,
  waiting, and giving the descriptors back. The used ring and the status bytes are written by the device.
\<close>

section \<open>State\<close>

text \<open>The device registers, at their offsets.\<close>

datatype virtio_reg =
    VIRTIO_MMIO_MAGIC_VALUE
  | VIRTIO_MMIO_VERSION
  | VIRTIO_MMIO_DEVICE_ID
  | VIRTIO_MMIO_VENDOR_ID
  | VIRTIO_MMIO_DEVICE_FEATURES
  | VIRTIO_MMIO_DRIVER_FEATURES
  | VIRTIO_MMIO_QUEUE_SEL
  | VIRTIO_MMIO_QUEUE_NUM_MAX
  | VIRTIO_MMIO_QUEUE_NUM
  | VIRTIO_MMIO_QUEUE_READY
  | VIRTIO_MMIO_QUEUE_NOTIFY
  | VIRTIO_MMIO_INTERRUPT_STATUS
  | VIRTIO_MMIO_INTERRUPT_ACK
  | VIRTIO_MMIO_STATUS
  | VIRTIO_MMIO_QUEUE_DESC_LOW
  | VIRTIO_MMIO_QUEUE_DESC_HIGH
  | VIRTIO_MMIO_DRIVER_DESC_LOW
  | VIRTIO_MMIO_DRIVER_DESC_HIGH
  | VIRTIO_MMIO_DEVICE_DESC_LOW
  | VIRTIO_MMIO_DEVICE_DESC_HIGH

fun mmio_offset :: "virtio_reg \<Rightarrow> nat" where
  "mmio_offset VIRTIO_MMIO_MAGIC_VALUE = 0x000"
| "mmio_offset VIRTIO_MMIO_VERSION = 0x004"
| "mmio_offset VIRTIO_MMIO_DEVICE_ID = 0x008"
| "mmio_offset VIRTIO_MMIO_VENDOR_ID = 0x00c"
| "mmio_offset VIRTIO_MMIO_DEVICE_FEATURES = 0x010"
| "mmio_offset VIRTIO_MMIO_DRIVER_FEATURES = 0x020"
| "mmio_offset VIRTIO_MMIO_QUEUE_SEL = 0x030"
| "mmio_offset VIRTIO_MMIO_QUEUE_NUM_MAX = 0x034"
| "mmio_offset VIRTIO_MMIO_QUEUE_NUM = 0x038"
| "mmio_offset VIRTIO_MMIO_QUEUE_READY = 0x044"
| "mmio_offset VIRTIO_MMIO_QUEUE_NOTIFY = 0x050"
| "mmio_offset VIRTIO_MMIO_INTERRUPT_STATUS = 0x060"
| "mmio_offset VIRTIO_MMIO_INTERRUPT_ACK = 0x064"
| "mmio_offset VIRTIO_MMIO_STATUS = 0x070"
| "mmio_offset VIRTIO_MMIO_QUEUE_DESC_LOW = 0x080"
| "mmio_offset VIRTIO_MMIO_QUEUE_DESC_HIGH = 0x084"
| "mmio_offset VIRTIO_MMIO_DRIVER_DESC_LOW = 0x090"
| "mmio_offset VIRTIO_MMIO_DRIVER_DESC_HIGH = 0x094"
| "mmio_offset VIRTIO_MMIO_DEVICE_DESC_LOW = 0x0a0"
| "mmio_offset VIRTIO_MMIO_DEVICE_DESC_HIGH = 0x0a4"

datatype virtio_status = VIRTIO_CONFIG_S_ACKNOWLEDGE | VIRTIO_CONFIG_S_DRIVER | VIRTIO_CONFIG_S_DRIVER_OK | VIRTIO_CONFIG_S_FEATURES_OK

fun status_bit :: "virtio_status \<Rightarrow> u32" where
  "status_bit VIRTIO_CONFIG_S_ACKNOWLEDGE = 1"
| "status_bit VIRTIO_CONFIG_S_DRIVER = 2"
| "status_bit VIRTIO_CONFIG_S_DRIVER_OK = 4"
| "status_bit VIRTIO_CONFIG_S_FEATURES_OK = 8"

declare status_bit.simps [simp del]

datatype virtio_feature = VIRTIO_BLK_F_RO | VIRTIO_BLK_F_SCSI | VIRTIO_BLK_F_CONFIG_WCE | VIRTIO_BLK_F_MQ
  | VIRTIO_F_ANY_LAYOUT | VIRTIO_RING_F_INDIRECT_DESC | VIRTIO_RING_F_EVENT_IDX

fun feature_bit :: "virtio_feature \<Rightarrow> nat" where
  "feature_bit VIRTIO_BLK_F_RO = 5"
| "feature_bit VIRTIO_BLK_F_SCSI = 7"
| "feature_bit VIRTIO_BLK_F_CONFIG_WCE = 11"
| "feature_bit VIRTIO_BLK_F_MQ = 12"
| "feature_bit VIRTIO_F_ANY_LAYOUT = 27"
| "feature_bit VIRTIO_RING_F_INDIRECT_DESC = 28"
| "feature_bit VIRTIO_RING_F_EVENT_IDX = 29"

declare feature_bit.simps [simp del]

definition NUM :: nat where "NUM = 8"
definition VRING_DESC_F_NEXT :: u16 where "VRING_DESC_F_NEXT = 1"
definition VRING_DESC_F_WRITE :: u16 where "VRING_DESC_F_WRITE = 2"
abbreviation VIRTIO_BLK_T_IN :: u32 where "VIRTIO_BLK_T_IN \<equiv> 0"
abbreviation VIRTIO_BLK_T_OUT :: u32 where "VIRTIO_BLK_T_OUT \<equiv> 1"

text \<open>The sleep channels of the driver: \<^verbatim>\<open>&disk.free[0]\<close> and a buffer. The calls of \<^verbatim>\<open>wakeup\<close> are recorded in \<open>v_wakes\<close>.\<close>

datatype vchan = FreeChan | BufChan nat

datatype vaddr = NoAddr | OpsAddr nat | DataAddr nat | StatusAddr nat

record virtq_desc =
  d_addr :: vaddr
  d_len :: u32
  d_flags :: u16
  d_next :: u16

record virtio_blk_req =
  r_type :: u32
  r_reserved :: u32
  r_sector :: u64

record vdisk =
  v_desc :: "nat \<Rightarrow> virtq_desc"
  v_avail_idx :: u16
  v_avail_ring :: "nat \<Rightarrow> u16"
  v_dev_idx :: u16
  v_used_ring :: "nat \<Rightarrow> u32"
  v_free :: "nat \<Rightarrow> bool"
  v_used_idx :: u16
  v_info_b :: "nat \<Rightarrow> nat option"
  v_info_status :: "nat \<Rightarrow> u8"
  v_ops :: "nat \<Rightarrow> virtio_blk_req"
  v_busy :: "nat \<Rightarrow> bool"
  v_writes :: "(virtio_reg \<times> u32) list"
  v_wakes :: "vchan list"

text \<open>The register \<^verbatim>\<open>*R(r)\<close> as the target of an assignment.\<close>

definition wreg :: "virtio_reg \<Rightarrow> u32 \<Rightarrow> vdisk \<Rightarrow> vdisk" where
  "wreg r x v = v\<lparr>v_writes := v_writes v @ [(r, x)]\<rparr>"

section \<open>Initialisation\<close>

definition no_desc :: virtq_desc where
  "no_desc = \<lparr>d_addr = NoAddr, d_len = 0, d_flags = 0, d_next = 0\<rparr>"

text \<open>Feature bits that the driver does not accept.\<close>

definition mask_features :: "u64 \<Rightarrow> u64" where
  "mask_features f0 =
     (let f1 = f0 AND NOT (push_bit (feature_bit VIRTIO_BLK_F_RO) 1);
          f2 = f1 AND NOT (push_bit (feature_bit VIRTIO_BLK_F_SCSI) 1);
          f3 = f2 AND NOT (push_bit (feature_bit VIRTIO_BLK_F_CONFIG_WCE) 1);
          f4 = f3 AND NOT (push_bit (feature_bit VIRTIO_BLK_F_MQ) 1);
          f5 = f4 AND NOT (push_bit (feature_bit VIRTIO_F_ANY_LAYOUT) 1);
          f6 = f5 AND NOT (push_bit (feature_bit VIRTIO_RING_F_EVENT_IDX) 1)
      in f6 AND NOT (push_bit (feature_bit VIRTIO_RING_F_INDIRECT_DESC) 1))"

definition virtio_disk_init :: "(virtio_reg \<Rightarrow> u32) \<Rightarrow> vdisk \<Rightarrow> 'a kmem_scheme \<Rightarrow> (vdisk \<times> 'a kmem_scheme) res" where
  "virtio_disk_init regs v st =
     (if regs VIRTIO_MMIO_MAGIC_VALUE \<noteq> 0x74726976 \<or> regs VIRTIO_MMIO_VERSION \<noteq> 2 \<or>
         regs VIRTIO_MMIO_DEVICE_ID \<noteq> 2 \<or> regs VIRTIO_MMIO_VENDOR_ID \<noteq> 0x554d4551
      then Inl (Panic ''could not find virtio disk'')
      else
        let v1 = wreg VIRTIO_MMIO_STATUS 0 v;
            s1 = status_bit VIRTIO_CONFIG_S_ACKNOWLEDGE; v2 = wreg VIRTIO_MMIO_STATUS s1 v1;
            s2 = s1 OR status_bit VIRTIO_CONFIG_S_DRIVER; v3 = wreg VIRTIO_MMIO_STATUS s2 v2;
            features = mask_features (ucast (regs VIRTIO_MMIO_DEVICE_FEATURES));
            v4 = wreg VIRTIO_MMIO_DRIVER_FEATURES (ucast features) v3;
            v5 = wreg VIRTIO_MMIO_STATUS (s2 OR status_bit VIRTIO_CONFIG_S_FEATURES_OK) v4;
            s3 = regs VIRTIO_MMIO_STATUS
        in if s3 AND status_bit VIRTIO_CONFIG_S_FEATURES_OK = 0 then Inl (Panic ''virtio disk FEATURES_OK unset'')
           else
             let v6 = wreg VIRTIO_MMIO_QUEUE_SEL 0 v5
             in if regs VIRTIO_MMIO_QUEUE_READY \<noteq> 0 then Inl (Panic ''virtio disk should not be ready'')
                else if regs VIRTIO_MMIO_QUEUE_NUM_MAX = 0 then Inl (Panic ''virtio disk has no queue 0'')
                else if regs VIRTIO_MMIO_QUEUE_NUM_MAX < of_nat NUM then Inl (Panic ''virtio disk max queue too short'')
                else
                  let (dsc, st1) = kalloc st; (avl, st2) = kalloc st1; (usd, st3) = kalloc st2
                  in if dsc = 0 \<or> avl = 0 \<or> usd = 0 then Inl (Panic ''virtio disk kalloc'')
                     else
                       let m1 = memset (memory st3) dsc 0 (unat PGSIZE);
                           m2 = memset m1 avl 0 (unat PGSIZE);
                           m3 = memset m2 usd 0 (unat PGSIZE);
                           v7 = v6\<lparr>v_desc := (\<lambda>_. no_desc), v_avail_idx := 0, v_avail_ring := (\<lambda>_. 0), v_dev_idx := 0,
                                   v_used_ring := (\<lambda>_. 0)\<rparr>;
                           v8 = wreg VIRTIO_MMIO_QUEUE_NUM (of_nat NUM) v7;
                           v9 = wreg VIRTIO_MMIO_QUEUE_DESC_LOW (ucast dsc) v8;
                           v10 = wreg VIRTIO_MMIO_QUEUE_DESC_HIGH (ucast (drop_bit 32 dsc)) v9;
                           v11 = wreg VIRTIO_MMIO_DRIVER_DESC_LOW (ucast avl) v10;
                           v12 = wreg VIRTIO_MMIO_DRIVER_DESC_HIGH (ucast (drop_bit 32 avl)) v11;
                           v13 = wreg VIRTIO_MMIO_DEVICE_DESC_LOW (ucast usd) v12;
                           v14 = wreg VIRTIO_MMIO_DEVICE_DESC_HIGH (ucast (drop_bit 32 usd)) v13;
                           v15 = wreg VIRTIO_MMIO_QUEUE_READY 1 v14;
                           v16 = v15\<lparr>v_free := (\<lambda>i. i < NUM)\<rparr>;
                           v17 = wreg VIRTIO_MMIO_STATUS (s3 OR status_bit VIRTIO_CONFIG_S_DRIVER_OK) v16
                       in Inr (v17, st3\<lparr>memory := m3\<rparr>))"

section \<open>Descriptors\<close>

definition alloc_desc :: "vdisk \<Rightarrow> nat option \<times> vdisk" where
  "alloc_desc v =
     (case find (v_free v) [0..<NUM] of
        None \<Rightarrow> (None, v)
      | Some i \<Rightarrow> (Some i, v\<lparr>v_free := (v_free v)(i := False)\<rparr>))"

definition free_desc :: "nat \<Rightarrow> vdisk \<Rightarrow> vdisk res" where
  "free_desc i v =
     (if i \<ge> NUM then Inl (Panic ''free_desc 1'')
      else if v_free v i then Inl (Panic ''free_desc 2'')
      else Inr (v\<lparr>v_desc := (v_desc v)(i := no_desc), v_free := (v_free v)(i := True),
                  v_wakes := v_wakes v @ [FreeChan]\<rparr>))"

text \<open>The loop of \<^verbatim>\<open>free_chain\<close> frees one descriptor per turn, so it ends or panics within \<open>NUM\<close> turns and one more.\<close>

fun free_chain_loop :: "nat \<Rightarrow> nat \<Rightarrow> vdisk \<Rightarrow> vdisk res" where
  "free_chain_loop 0 i v = Inl (Blocks ''free_chain'')"
| "free_chain_loop (Suc k) i v =
     (let flag = d_flags (v_desc v i);
          nxt = d_next (v_desc v i)
      in rbind (free_desc i v) (\<lambda>v1.
         if flag AND VRING_DESC_F_NEXT \<noteq> 0 then free_chain_loop k (unat nxt) v1 else Inr v1))"

definition free_chain_v :: "nat \<Rightarrow> vdisk \<Rightarrow> vdisk res" where
  "free_chain_v i v = free_chain_loop (NUM + 1) i v"

fun alloc3_loop :: "nat \<Rightarrow> nat list \<Rightarrow> vdisk \<Rightarrow> (nat list option \<times> vdisk) res" where
  "alloc3_loop 0 idx v = Inr (Some idx, v)"
| "alloc3_loop (Suc k) idx v =
     (let (d, v1) = alloc_desc v
      in case d of
           None \<Rightarrow> rbind (rfold free_desc idx v1) (\<lambda>v2. Inr (None, v2))
         | Some i \<Rightarrow> alloc3_loop k (idx @ [i]) v1)"

definition alloc3_desc :: "vdisk \<Rightarrow> (nat list option \<times> vdisk) res" where
  "alloc3_desc v = alloc3_loop 3 [] v"

section \<open>Requests\<close>

definition set_desc :: "nat \<Rightarrow> virtq_desc \<Rightarrow> vdisk \<Rightarrow> vdisk" where
  "set_desc i d v = v\<lparr>v_desc := (v_desc v)(i := d)\<rparr>"

definition format_req :: "nat \<Rightarrow> u32 \<Rightarrow> bool \<Rightarrow> nat list \<Rightarrow> vdisk \<Rightarrow> vdisk" where
  "format_req b blockno write_dir idx v =
     (let i0 = idx ! 0; i1 = idx ! 1; i2 = idx ! 2;
          sector = (ucast (blockno * 2) :: u64);
          v1 = v\<lparr>v_ops := (v_ops v)(i0 := \<lparr>r_type = (if write_dir then VIRTIO_BLK_T_OUT else VIRTIO_BLK_T_IN),
                                         r_reserved = 0, r_sector = sector\<rparr>)\<rparr>;
          v2 = set_desc i0 \<lparr>d_addr = OpsAddr i0, d_len = 16, d_flags = VRING_DESC_F_NEXT, d_next = of_nat i1\<rparr> v1;
          v3 = set_desc i1 \<lparr>d_addr = DataAddr b, d_len = 1024,
                 d_flags = (if write_dir then 0 else VRING_DESC_F_WRITE) OR VRING_DESC_F_NEXT, d_next = of_nat i2\<rparr> v2;
          v4 = v3\<lparr>v_info_status := (v_info_status v3)(i0 := 0xff)\<rparr>;
          v5 = set_desc i2 \<lparr>d_addr = StatusAddr i0, d_len = 1, d_flags = VRING_DESC_F_WRITE, d_next = 0\<rparr> v4
      in v5\<lparr>v_busy := (v_busy v5)(b := True), v_info_b := (v_info_b v5)(i0 := Some b)\<rparr>)"

text \<open>The first stretch of \<^verbatim>\<open>virtio_disk_rw\<close>: the index of the chain's head, or \<open>None\<close> if the caller sleeps for descriptors.\<close>

definition rw_submit :: "nat \<Rightarrow> u32 \<Rightarrow> bool \<Rightarrow> vdisk \<Rightarrow> (nat option \<times> vdisk) res" where
  "rw_submit b blockno write_dir v =
     rbind (alloc3_desc v) (\<lambda>(a, v1).
     case a of
       None \<Rightarrow> Inr (None, v1)
     | Some idx \<Rightarrow>
         let v2 = format_req b blockno write_dir idx v1;
             v3 = v2\<lparr>v_avail_ring := (v_avail_ring v2)(unat (v_avail_idx v2) mod NUM := of_nat (idx ! 0))\<rparr>;
             v4 = v3\<lparr>v_avail_idx := v_avail_idx v3 + 1\<rparr>
         in Inr (Some (idx ! 0), wreg VIRTIO_MMIO_QUEUE_NOTIFY 0 v4))"

text \<open>The last stretch, when \<^verbatim>\<open>b->disk\<close> has become \<open>0\<close>.\<close>

definition rw_finish :: "nat \<Rightarrow> vdisk \<Rightarrow> vdisk res" where
  "rw_finish i0 v = free_chain_v i0 (v\<lparr>v_info_b := (v_info_b v)(i0 := None)\<rparr>)"

function virtio_intr_loop :: "vdisk \<Rightarrow> vdisk res" where
  "virtio_intr_loop v =
     (if v_used_idx v = v_dev_idx v then Inr v
      else
        let i = unat (v_used_ring v (unat (v_used_idx v) mod NUM))
        in if i \<ge> NUM then Inl (Undefined ''disk.info'')
           else if v_info_status v i \<noteq> 0 then Inl (Panic ''virtio_disk_intr status'')
           else case v_info_b v i of
                  None \<Rightarrow> Inl (Undefined ''b->disk'')
                | Some b \<Rightarrow>
                    virtio_intr_loop (v\<lparr>v_busy := (v_busy v)(b := False), v_wakes := v_wakes v @ [BufChan b],
                                        v_used_idx := v_used_idx v + 1\<rparr>))"
  by pat_completeness auto
termination
proof (relation "measure (\<lambda>v. unat (v_dev_idx v - v_used_idx v))", goal_cases)
  case (2 v i b)
  then show ?case using word_diff_Suc [of "v_used_idx v" "v_dev_idx v"] by simp
qed simp

declare virtio_intr_loop.simps [simp del]

definition virtio_disk_intr :: "u32 \<Rightarrow> vdisk \<Rightarrow> vdisk res" where
  "virtio_disk_intr status v = virtio_intr_loop (wreg VIRTIO_MMIO_INTERRUPT_ACK (status AND 3) v)"

end
