(* ===== verification/Trap.thy ===== *)
theory Trap
  imports Syscall Virtio Hart
begin

text \<open>
  Traps (\<^verbatim>\<open>kernel/trap.c\<close>), the interrupt controller (\<^verbatim>\<open>kernel/plic.c\<close>) and \<^verbatim>\<open>forkret\<close>. The state of a hart's execution is the
  kernel state, its registers, the disk driver and the interrupt controller, whose answers to claims are a parameter of
  the state. The addresses of assembly routines are link-time constants. \<^verbatim>\<open>usertrap\<close> and \<^verbatim>\<open>usertrapret\<close> end in the jump
  to the trampoline, and their result is the state at that jump.
\<close>

section \<open>State\<close>

record ksyms =
  a_kernelvec :: u64
  a_trampoline :: u64
  a_uservec :: u64
  a_userret :: u64
  a_usertrap :: u64
  a_main :: u64
  a_timervec :: u64
  a_timer_scratch :: u64

record machine =
  mk :: kern
  mh :: hart
  md :: vdisk
  m_vstatus :: u32
  m_claims :: "nat \<Rightarrow> u32"
  m_nclaims :: nat
  m_plic :: "(u64 \<times> u32) list"
  m_first :: bool
  m_kpt :: u64

definition on_kern :: "(kern \<Rightarrow> kern res) \<Rightarrow> machine \<Rightarrow> machine res" where
  "on_kern f m = rbind (f (mk m)) (\<lambda>k. Inr (m\<lparr>mk := k\<rparr>))"

definition upd_mk :: "(kern \<Rightarrow> kern) \<Rightarrow> machine \<Rightarrow> machine" where
  "upd_mk f m = m\<lparr>mk := f (mk m)\<rparr>"

definition upd_mh :: "(hart \<Rightarrow> hart) \<Rightarrow> machine \<Rightarrow> machine" where
  "upd_mh f m = m\<lparr>mh := f (mh m)\<rparr>"

definition cpuid :: "machine \<Rightarrow> u64" where
  "cpuid m = r_tp (mh m)"

section \<open>The interrupt controller\<close>

abbreviation UART0_IRQ :: u32 where "UART0_IRQ \<equiv> 10"
abbreviation VIRTIO0_IRQ :: u32 where "VIRTIO0_IRQ \<equiv> 1"
abbreviation PLIC_SENABLE :: "u64 \<Rightarrow> u64" where "PLIC_SENABLE h \<equiv> PLIC + 0x2080 + h * 0x100"
abbreviation PLIC_SPRIORITY :: "u64 \<Rightarrow> u64" where "PLIC_SPRIORITY h \<equiv> PLIC + 0x201000 + h * 0x2000"
abbreviation PLIC_SCLAIM :: "u64 \<Rightarrow> u64" where "PLIC_SCLAIM h \<equiv> PLIC + 0x201004 + h * 0x2000"

definition plic_store :: "u64 \<Rightarrow> u32 \<Rightarrow> machine \<Rightarrow> machine" where
  "plic_store a x m = m\<lparr>m_plic := m_plic m @ [(a, x)]\<rparr>"

definition plicinit :: "machine \<Rightarrow> machine" where
  "plicinit m = plic_store (PLIC + ucast VIRTIO0_IRQ * 4) 1 (plic_store (PLIC + ucast UART0_IRQ * 4) 1 m)"

definition plicinithart :: "machine \<Rightarrow> machine" where
  "plicinithart m =
     plic_store (PLIC_SPRIORITY (cpuid m)) 0
       (plic_store (PLIC_SENABLE (cpuid m)) (push_bit (unat UART0_IRQ) 1 OR push_bit (unat VIRTIO0_IRQ) 1) m)"

definition plic_claim :: "machine \<Rightarrow> u32 \<times> machine" where
  "plic_claim m = (m_claims m (m_nclaims m), m\<lparr>m_nclaims := m_nclaims m + 1\<rparr>)"

definition plic_complete :: "u32 \<Rightarrow> machine \<Rightarrow> machine" where
  "plic_complete irq m = plic_store (PLIC_SCLAIM (cpuid m)) irq m"

section \<open>Interrupts\<close>

definition clockintr :: "'a ptable_scheme \<Rightarrow> 'a ptable_scheme" where
  "clockintr st = wakeup ChTicks (st\<lparr>ticks := ticks st + 1\<rparr>)"

fun disk_chan :: "vchan \<Rightarrow> chan" where
  "disk_chan FreeChan = ChDisk"
| "disk_chan (BufChan b) = ChBuf b"

definition disk_interrupt :: "machine \<Rightarrow> machine res" where
  "disk_interrupt m =
     rbind (virtio_disk_intr (m_vstatus m) ((md m)\<lparr>v_wakes := []\<rparr>)) (\<lambda>d.
     Inr (upd_mk (fold (\<lambda>c. wakeup (disk_chan c)) (v_wakes d)) (m\<lparr>md := d\<rparr>)))"

text \<open>The result is 2 for a timer interrupt, 1 for another device and 0 for anything else.\<close>

definition devintr :: "machine \<Rightarrow> (nat \<times> machine) res" where
  "devintr m =
     (let scause = r_scause (mh m)
      in if scause AND 0x8000000000000000 \<noteq> 0 \<and> scause AND 0xff = 9 then
           let (irq, m1) = plic_claim m
           in rbind (if irq = UART0_IRQ then on_kern uartintr m1
                     else if irq = VIRTIO0_IRQ then disk_interrupt m1
                     else if irq \<noteq> 0 then on_kern (kprintf (''unexpected interrupt irq=%d'' @ [CHR 0x0A]) [ArgInt irq]) m1
                     else Inr m1) (\<lambda>m2.
              Inr (1, if irq \<noteq> 0 then plic_complete irq m2 else m2))
         else if scause = 0x8000000000000001 then
           let m1 = (if cpuid m = 0 then upd_mk clockintr m else m)
           in Inr (2, upd_mh (w_sip (r_sip (mh m1) AND NOT 2)) m1)
         else Inr (0, m))"

section \<open>Traps from user space\<close>

definition trapinithart :: "ksyms \<Rightarrow> machine \<Rightarrow> machine" where
  "trapinithart sy m = upd_mh (w_stvec (a_kernelvec sy)) m"

text \<open>The second component is the argument of the routine \<^verbatim>\<open>userret\<close> in the trampoline.\<close>

definition usertrapret :: "ksyms \<Rightarrow> machine \<Rightarrow> machine \<times> u64" where
  "usertrapret sy m =
     (let m1 = upd_mh intr_off m;
          m2 = upd_mh (w_stvec (TRAMPOLINE + (a_uservec sy - a_trampoline sy))) m1;
          m3 = upd_mk (tf_set (tf_off TF_KERNEL_SATP) (r_satp (mh m2))) m2;
          m4 = upd_mk (\<lambda>k. tf_set (tf_off TF_KERNEL_SP) (p_kstack (myproc k) + PGSIZE) k) m3;
          m5 = upd_mk (tf_set (tf_off TF_KERNEL_TRAP) (a_usertrap sy)) m4;
          m6 = upd_mk (tf_set (tf_off TF_KERNEL_HARTID) (r_tp (mh m5))) m5;
          x = r_sstatus (mh m6);
          m7 = upd_mh (w_sstatus ((x AND NOT SSTATUS_SPP) OR SSTATUS_SPIE)) m6;
          m8 = upd_mh (w_sepc (tf_get (tf_off TF_EPC) (mk m7))) m7
      in (m8, MAKE_SATP (p_pagetable (myproc (mk m8)))))"

datatype trap_end = ToUser u64 | Exited

definition trap_exit :: "machine \<Rightarrow> (trap_end \<times> machine) res" where
  "trap_exit m = rbind (on_kern (exit (-1) None) m) (\<lambda>m1. Inr (Exited, m1))"

text \<open>The end of \<^verbatim>\<open>usertrap\<close>. A \<^verbatim>\<open>yield\<close> returns when the scheduler has chosen the process again; what other processes do to
  the state in between is not part of this function.\<close>

definition usertrap_end :: "ksyms \<Rightarrow> nat \<Rightarrow> machine \<Rightarrow> (trap_end \<times> machine) res" where
  "usertrap_end sy which_dev m =
     (if killed (cur (mk m)) (mk m) then trap_exit m
      else let m1 = (if which_dev = 2 then upd_mk yield m else m);
               (m2, satp) = usertrapret sy m1
           in Inr (ToUser satp, m2))"

definition usertrap :: "ksyms \<Rightarrow> machine \<Rightarrow> (trap_end \<times> machine) res" where
  "usertrap sy m =
     (if r_sstatus (mh m) AND SSTATUS_SPP \<noteq> 0 then Inl (Panic ''usertrap: not from user mode'')
      else
        let m1 = trapinithart sy m;
            m2 = upd_mk (tf_set (tf_off TF_EPC) (r_sepc (mh m1))) m1
        in if r_scause (mh m2) = 8 then
             (if killed (cur (mk m2)) (mk m2) then trap_exit m2
              else
                let m3 = upd_mk (\<lambda>k. tf_set (tf_off TF_EPC) (tf_get (tf_off TF_EPC) k + 4) k) m2;
                    m4 = upd_mh intr_on m3
                in rbind (syscall (mk m4)) (\<lambda>(alive, k).
                   if alive then usertrap_end sy 0 (m4\<lparr>mk := k\<rparr>) else Inr (Exited, m4\<lparr>mk := k\<rparr>)))
           else
             rbind (devintr m2) (\<lambda>(which_dev, m3).
             if which_dev \<noteq> 0 then usertrap_end sy which_dev m3
             else
               rbind (on_kern (kprintf (''usertrap(): unexpected scause %p pid=%d'' @ [CHR 0x0A])
                        [ArgPtr (r_scause (mh m3)), ArgInt (of_int (p_pid (myproc (mk m3))))]) m3) (\<lambda>m4.
               rbind (on_kern (kprintf (''            sepc=%p stval=%p'' @ [CHR 0x0A])
                        [ArgPtr (r_sepc (mh m4)), ArgPtr (r_stval (mh m4))]) m4) (\<lambda>m5.
               usertrap_end sy 0 (upd_mk (setkilled (cur (mk m5))) m5)))))"

definition forkret :: "ksyms \<Rightarrow> machine \<Rightarrow> (machine \<times> u64) res" where
  "forkret sy m =
     rbind (if m_first m then on_kern (fsinit ROOTDEV) (m\<lparr>m_first := False\<rparr>) else Inr m) (\<lambda>m1.
     Inr (usertrapret sy m1))"

section \<open>Traps from the kernel\<close>

text \<open>\<open>running\<close> tells whether this hart has a current process.\<close>

definition kerneltrap :: "bool \<Rightarrow> machine \<Rightarrow> machine res" where
  "kerneltrap running m =
     (let epc = r_sepc (mh m);
          sst = r_sstatus (mh m);
          cause = r_scause (mh m)
      in if sst AND SSTATUS_SPP = 0 then Inl (Panic ''kerneltrap: not from supervisor mode'')
         else if intr_get (mh m) then Inl (Panic ''kerneltrap: interrupts enabled'')
         else rbind (devintr m) (\<lambda>(which_dev, m1).
           if which_dev = 0 then
             rbind (on_kern (kprintf (''scause %p'' @ [CHR 0x0A]) [ArgPtr cause]) m1) (\<lambda>m2.
             rbind (on_kern (kprintf (''sepc=%p stval=%p'' @ [CHR 0x0A]) [ArgPtr (r_sepc (mh m2)), ArgPtr (r_stval (mh m2))]) m2) (\<lambda>m3.
             Inl (Panic ''kerneltrap'')))
           else
             let m2 = (if which_dev = 2 \<and> running \<and> p_state (myproc (mk m1)) = RUNNING then upd_mk yield m1 else m1)
             in Inr (upd_mh (\<lambda>h. w_sstatus sst (w_sepc epc h)) m2)))"

section \<open>Return to user space\<close>

text \<open>C31. \<^verbatim>\<open>usertrapret\<close> prepares the return to user mode: the previous privilege is user, interrupts are off now and will be on
  after the return, traps will go to the trampoline's \<^verbatim>\<open>uservec\<close>, the program counter is the saved one, the page table is the
  process's, the kernel's own fields of the trapframe are those of this hart and process, and every saved user register
  is as it was.\<close>

theorem usertrapret_enters_user:
  assumes "usertrapret sy m = (m', pt)" and "tf_field off" and "40 \<le> unat off"
  shows "\<not> bit (r_sstatus (mh m')) 8 \<and> bit (r_sstatus (mh m')) 5 \<and> \<not> intr_get (mh m') \<and>
     r_sepc (mh m') = tf_get (tf_off TF_EPC) (mk m) \<and> stvec (mh m') = TRAMPOLINE + (a_uservec sy - a_trampoline sy) \<and>
     pt = MAKE_SATP (p_pagetable (myproc (mk m))) \<and>
     tf_get (tf_off TF_KERNEL_SATP) (mk m') = r_satp (mh m) \<and> tf_get (tf_off TF_KERNEL_SP) (mk m') = p_kstack (myproc (mk m)) + PGSIZE \<and>
     tf_get (tf_off TF_KERNEL_TRAP) (mk m') = a_usertrap sy \<and> tf_get (tf_off TF_KERNEL_HARTID) (mk m') = r_tp (mh m) \<and>
     tf_get off (mk m') = tf_get off (mk m)"
proof -
  have ne: "off \<noteq> tf_off TF_KERNEL_SATP" "off \<noteq> tf_off TF_KERNEL_SP" "off \<noteq> tf_off TF_KERNEL_TRAP" "off \<noteq> tf_off TF_KERNEL_HARTID"
    using assms(3) by (auto simp: tf_off.simps)
  have k: "mk m' = tf_set (tf_off TF_KERNEL_HARTID) (r_tp (mh m)) (tf_set (tf_off TF_KERNEL_TRAP) (a_usertrap sy)
      (tf_set (tf_off TF_KERNEL_SP) (p_kstack (myproc (mk m)) + PGSIZE) (tf_set (tf_off TF_KERNEL_SATP) (r_satp (mh m)) (mk m))))"
    using assms(1) by (auto simp: usertrapret_def Let_def upd_mk_def upd_mh_def intr_off_def w_stvec_def w_sstatus_def w_sepc_def
        r_tp_def r_satp_def)
  have h: "sstatus (mh m') = ((sstatus (mh m) AND NOT SSTATUS_SIE) AND NOT SSTATUS_SPP) OR SSTATUS_SPIE"
    "sepc (mh m') = tf_get (tf_off TF_EPC) (mk m')" "stvec (mh m') = TRAMPOLINE + (a_uservec sy - a_trampoline sy)"
    "pt = MAKE_SATP (p_pagetable (myproc (mk m')))"
    using assms(1) by (auto simp: usertrapret_def Let_def upd_mk_def upd_mh_def intr_off_def w_stvec_def w_sstatus_def w_sepc_def
        r_tp_def r_satp_def r_sstatus_def)
  have d: "tf_off TF_EPC \<noteq> tf_off TF_KERNEL_SATP" "tf_off TF_EPC \<noteq> tf_off TF_KERNEL_SP" "tf_off TF_EPC \<noteq> tf_off TF_KERNEL_TRAP" "tf_off TF_EPC \<noteq> tf_off TF_KERNEL_HARTID"
    "tf_off TF_KERNEL_SATP \<noteq> tf_off TF_KERNEL_SP" "tf_off TF_KERNEL_SATP \<noteq> tf_off TF_KERNEL_TRAP" "tf_off TF_KERNEL_SATP \<noteq> tf_off TF_KERNEL_HARTID"
    "tf_off TF_KERNEL_SP \<noteq> tf_off TF_KERNEL_TRAP" "tf_off TF_KERNEL_SP \<noteq> tf_off TF_KERNEL_HARTID" "tf_off TF_KERNEL_TRAP \<noteq> tf_off TF_KERNEL_HARTID"
    by (simp_all add: tf_off.simps)
  have b: "\<not> bit (sstatus (mh m')) 8" "bit (sstatus (mh m')) 5" "\<not> bit (sstatus (mh m')) 1"
    by (simp_all add: h(1) SSTATUS_SIE_def SSTATUS_SPP_def SSTATUS_SPIE_def bit_simps)
  show ?thesis
    using b h(2-4) d ne assms(2) by (simp add: k tf_get_set r_sstatus_def r_sepc_def intr_get_bit)
qed

definition sample_hart :: hart where
  "sample_hart = \<lparr>mhartid = 0, mstatus = 0, mepc = 0, sstatus = 2, sip = 0, sie = 0, mie = 0, sepc = 0x1000, medeleg = 0,
     mideleg = 0, stvec = 0, mtvec = 0, pmpcfg0 = 0, pmpaddr0 = 0, satp = 0, mscratch = 0, scause = 8, stval = 0, tp = 0\<rparr>"

definition sample_syms :: ksyms where
  "sample_syms = \<lparr>a_kernelvec = 0x80005000, a_trampoline = 0x80007000, a_uservec = 0x80007000, a_userret = 0x80007090,
     a_usertrap = 0x80002000, a_main = 0x80000e00, a_timervec = 0x80005080, a_timer_scratch = 0x80009000\<rparr>"

definition sample_disk :: vdisk where
  "sample_disk = \<lparr>v_desc = (\<lambda>_. no_desc), v_avail_idx = 0, v_avail_ring = (\<lambda>_. 0), v_dev_idx = 0, v_used_ring = (\<lambda>_. 0),
     v_free = (\<lambda>i. i < NUM), v_used_idx = 0, v_info_b = (\<lambda>_. None), v_info_status = (\<lambda>_. 0),
     v_ops = (\<lambda>_. \<lparr>r_type = 0, r_reserved = 0, r_sector = 0\<rparr>), v_busy = (\<lambda>_. False), v_writes = [], v_wakes = []\<rparr>"

definition sample_machine :: machine where
  "sample_machine = \<lparr>mk = zero_kern, mh = sample_hart, md = sample_disk, m_vstatus = 0, m_claims = (\<lambda>_. 0), m_nclaims = 0,
     m_plic = [], m_first = False, m_kpt = 0\<rparr>"

theorem usertrapret_enters_user_witness:
  "\<exists>m' pt. usertrapret sample_syms sample_machine = (m', pt) \<and> \<not> bit (r_sstatus (mh m')) 8 \<and> \<not> intr_get (mh m') \<and>
     tf_get (tf_off TF_A0) (mk m') = tf_get (tf_off TF_A0) zero_kern"
proof -
  obtain m' pt where u: "usertrapret sample_syms sample_machine = (m', pt)" by fastforce
  have "40 \<le> unat (tf_off TF_A0)" by (simp add: tf_off.simps)
  moreover have "mk sample_machine = zero_kern" by (simp add: sample_machine_def)
  ultimately show ?thesis using usertrapret_enters_user [OF u, of "tf_off TF_A0"] u by auto
qed

section \<open>A killed process\<close>

text \<open>C32. A killed process cannot leave. When it makes a system call, or is interrupted by the timer on a hart other than the first,
  \<^verbatim>\<open>usertrap\<close> calls \<^verbatim>\<open>exit(-1, 0)\<close>; and if \<^verbatim>\<open>exit\<close> would succeed with some message in place of the null pointer, then the trap ends where
  \<^verbatim>\<open>exit\<close> copies its message from address zero, with the files closed and the process not a zombie.\<close>

theorem killed_process_faults:
  assumes "r_sstatus (mh m) AND SSTATUS_SPP = 0"
    and "r_scause (mh m) = 8 \<or> r_scause (mh m) = 0x8000000000000001 \<and> cpuid m \<noteq> 0"
    and "killed (cur (mk m)) (mk m)"
    and "exit (- 1) (Some msg) (tf_set (tf_off TF_EPC) (r_sepc (mh m)) (mk m)) = Inr k"
  shows "usertrap sy m = Inl (Undefined ''exit: msg'')"
proof -
  define m2 where "m2 = upd_mk (tf_set (tf_off TF_EPC) (r_sepc (mh (trapinithart sy m)))) (trapinithart sy m)"
  have m2: "r_scause (mh m2) = r_scause (mh m)" "mk m2 = tf_set (tf_off TF_EPC) (r_sepc (mh m)) (mk m)" "cpuid m2 = cpuid m"
    by (simp_all add: m2_def upd_mk_def trapinithart_def upd_mh_def w_stvec_def r_scause_def r_sepc_def cpuid_def r_tp_def)
  have killed: "killed (cur (mk m2)) (mk m2)" using assms(3) by (simp add: m2(2) killed_def tf_set_def)
  have stop: "trap_exit m' = Inl (Undefined ''exit: msg'')" if "mk m' = mk m2" for m'
    using exit_null_msg [OF assms(4)] that by (simp add: trap_exit_def on_kern_def m2(2))
  from assms(2) show ?thesis
  proof
    assume "r_scause (mh m) = 8"
    then show ?thesis using assms(1) killed m2(1) stop by (simp add: usertrap_def m2_def [symmetric] Let_def)
  next
    assume c: "r_scause (mh m) = 0x8000000000000001 \<and> cpuid m \<noteq> 0"
    define m3 where "m3 = upd_mh (w_sip (r_sip (mh m2) AND NOT 2)) m2"
    have "devintr m2 = Inr (2, m3)" using c m2(1,3) by (simp add: devintr_def m3_def Let_def)
    moreover have "mk m3 = mk m2" by (simp add: m3_def upd_mh_def)
    ultimately show ?thesis
      using assms(1) c killed m2(1) stop [of m3] by (simp add: usertrap_def m2_def [symmetric] Let_def usertrap_end_def)
  qed
qed

definition killed_machine :: machine where
  "killed_machine = sample_machine\<lparr>mk := setkilled 0 (upd_proc 0 (\<lambda>p. p\<lparr>p_cwd := Some 0\<rparr>) zero_kern)\<rparr>"

lemma killed_machine_kern:
  fixes v :: u64
  defines "k \<equiv> tf_set (tf_off TF_EPC) v (mk killed_machine)"
  shows "initproc k = None" "cur k = 0" "p_ofile (procs k 0) = replicate NOFILE None" "p_cwd (procs k 0) = Some 0"
    "l_committing k = False" "l_n k = 0" "l_outstanding k = 0" "i_ref (inodes k 0) = 0"
  by (simp_all add: k_def killed_machine_def setkilled_def upd_proc_def tf_set_def zero_proc_def zero_kern_simps
      zero_fslog_def zero_inode_def NOFILE_def)

theorem killed_process_faults_witness:
  "usertrap sample_syms killed_machine = Inl (Undefined ''exit: msg'')"
proof -
  define K where "K = tf_set (tf_off TF_EPC) (r_sepc (mh killed_machine)) (mk killed_machine)"
  note k = killed_machine_kern [of "r_sepc (mh killed_machine)", folded K_def]
  have "rfold exit_close [0..<n] K = Inr K" if "n \<le> NOFILE" for n
    using that by (induction n) (simp_all add: rfold_append exit_close_def k)
  then have "\<exists>k'. exit (- 1) (Some []) K = Inr k'"
    by (simp add: exit_def k begin_op_def MAXOPBLOCKS_def LOGSIZE_def iput_def end_op_def commit_def Let_def upd_inode_def)
  then obtain k' where "exit (- 1) (Some []) K = Inr k'" by blast
  then show ?thesis
    by (intro killed_process_faults [of killed_machine "[]" k'])
      (simp_all add: K_def killed_machine_def sample_machine_def sample_hart_def r_sstatus_def r_scause_def SSTATUS_SPP_def killed_def
        setkilled_def upd_proc_def)
qed

end
