(* ===== verification/Boot.thy ===== *)
theory Boot
  imports Trap
begin

text \<open>
  Start of the machine (\<^verbatim>\<open>kernel/start.c\<close>, \<^verbatim>\<open>kernel/main.c\<close>, \<^verbatim>\<open>kvminit\<close> and \<^verbatim>\<open>kvminithart\<close> of \<^verbatim>\<open>kernel/vm.c\<close>). In machine mode
  a hart has its registers, the timer registers and its scratch area for timer interrupts; the time it reads is an
  argument. \<^verbatim>\<open>main\<close> is given for the hart that initialises the kernel and for the others, up to the call of the scheduler.
\<close>

section \<open>Machine mode\<close>

record mmode =
  bh :: hart
  clint :: "(u64 \<times> u64) list"
  timer_scratch :: "u64 \<Rightarrow> nat \<Rightarrow> u64"

abbreviation CLINT :: u64 where "CLINT \<equiv> 0x2000000"
abbreviation CLINT_MTIMECMP :: "u64 \<Rightarrow> u64" where "CLINT_MTIMECMP hartid \<equiv> CLINT + 0x4000 + 8 * hartid"

definition upd_bh :: "(hart \<Rightarrow> hart) \<Rightarrow> mmode \<Rightarrow> mmode" where
  "upd_bh f b = b\<lparr>bh := f (bh b)\<rparr>"

definition timerinit :: "ksyms \<Rightarrow> u64 \<Rightarrow> mmode \<Rightarrow> mmode" where
  "timerinit sy mtime b =
     (let hid = r_mhartid (bh b);
          interval = 1000000;
          b1 = b\<lparr>clint := clint b @ [(CLINT_MTIMECMP hid, mtime + interval)]\<rparr>;
          scratch = a_timer_scratch sy + 40 * hid;
          b2 = b1\<lparr>timer_scratch := (timer_scratch b1)(hid := (timer_scratch b1 hid)(3 := CLINT_MTIMECMP hid, 4 := interval))\<rparr>;
          b3 = upd_bh (w_mscratch scratch) b2;
          b4 = upd_bh (w_mtvec (a_timervec sy)) b3;
          b5 = upd_bh (\<lambda>h. w_mstatus (r_mstatus h OR MSTATUS_MIE) h) b4
      in upd_bh (\<lambda>h. w_mie (r_mie h OR MIE_MTIE) h) b5)"

definition start :: "ksyms \<Rightarrow> u64 \<Rightarrow> mmode \<Rightarrow> mmode" where
  "start sy mtime b =
     (let x = (r_mstatus (bh b) AND NOT MSTATUS_MPP_MASK) OR MSTATUS_MPP_S;
          b1 = upd_bh (w_mstatus x) b;
          b2 = upd_bh (w_mepc (a_main sy)) b1;
          b3 = upd_bh (w_satp 0) b2;
          b4 = upd_bh (w_medeleg 0xffff) b3;
          b5 = upd_bh (w_mideleg 0xffff) b4;
          b6 = upd_bh (\<lambda>h. w_sie (r_sie h OR SIE_SEIE OR SIE_STIE OR SIE_SSIE) h) b5;
          b7 = upd_bh (w_pmpaddr0 0x3fffffffffffff) b6;
          b8 = upd_bh (w_pmpcfg0 0xf) b7;
          b9 = timerinit sy mtime b8
      in upd_bh (\<lambda>h. w_tp (r_mhartid h) h) b9)"

section \<open>Supervisor mode\<close>

definition kvminithart :: "machine \<Rightarrow> machine" where
  "kvminithart m = upd_mh (w_satp (MAKE_SATP (m_kpt m))) m"

definition kvminit :: "u64 \<Rightarrow> machine \<Rightarrow> machine res" where
  "kvminit etext m = rbind (kvmmake etext (k_trampoline (mk m)) (mk m)) (\<lambda>(pt, k). Inr (m\<lparr>mk := k, m_kpt := pt\<rparr>))"

definition console_start :: "'a kcon_scheme \<Rightarrow> 'a kcon_scheme" where
  "console_start st = (consoleinit st)\<lparr>kuart := printfinit (kuart (consoleinit st))\<rparr>"

definition disk_start :: "(virtio_reg \<Rightarrow> u32) \<Rightarrow> machine \<Rightarrow> machine res" where
  "disk_start regs m = rbind (virtio_disk_init regs (md m) (mk m)) (\<lambda>(d, k). Inr (m\<lparr>md := d, mk := k\<rparr>))"

text \<open>\<open>etext\<close> is the end of the kernel text, \<open>regs\<close> the disk's registers and \<open>src\<close> the address of \<^verbatim>\<open>initcode\<close>.\<close>

definition main_first :: "ksyms \<Rightarrow> u64 \<Rightarrow> (virtio_reg \<Rightarrow> u32) \<Rightarrow> u64 \<Rightarrow> machine \<Rightarrow> machine res" where
  "main_first sy etext regs src m =
     rbind (on_kern (kprintf [CHR 0x0A] []) (upd_mk console_start m)) (\<lambda>m1.
     rbind (on_kern (kprintf (''xv6 kernel is booting'' @ [CHR 0x0A]) []) m1) (\<lambda>m2.
     rbind (on_kern (kprintf [CHR 0x0A] []) m2) (\<lambda>m3.
     rbind (on_kern (kinit (k_end (mk m3))) m3) (\<lambda>m4.
     rbind (kvminit etext m4) (\<lambda>m5.
     let m6 = kvminithart m5;
         m7 = upd_mk procinit m6;
         m8 = trapinithart sy m7;
         m9 = plicinithart (plicinit m8);
         m10 = upd_mk binit m9;
         m11 = upd_mk iinit m10 in
     rbind (disk_start regs m11) (\<lambda>m12.
     on_kern (userinit src) m12))))))"

definition main_other :: "ksyms \<Rightarrow> machine \<Rightarrow> machine res" where
  "main_other sy m =
     rbind (on_kern (kprintf (''hart %d starting'' @ [CHR 0x0A]) [ArgInt (ucast (cpuid m))]) m) (\<lambda>m1.
     Inr (plicinithart (trapinithart sy (kvminithart m1))))"

definition main :: "ksyms \<Rightarrow> u64 \<Rightarrow> (virtio_reg \<Rightarrow> u32) \<Rightarrow> u64 \<Rightarrow> machine \<Rightarrow> machine res" where
  "main sy etext regs src m = (if cpuid m = 0 then main_first sy etext regs src m else main_other sy m)"

end
