(* ===== verification/VirtioInv.thy ===== *)
theory VirtioInv
  imports Virtio Ring
begin

text \<open>
  The disk driver together with its device. Callers submit requests for buffers they hold, the device completes pending
  requests in any order, the interrupt handler collects the completions, and callers give the descriptors back. In every
  interleaving the descriptor chains of the requests in flight are disjoint, and no operation of the driver panics.
\<close>

section \<open>The system\<close>

text \<open>Ghost state: for the head of each chain in flight its buffer and the other two descriptors, and the heads that the device
  has not yet completed.\<close>

record vsys =
  drv :: vdisk
  inflight :: "nat \<Rightarrow> (nat \<times> nat \<times> nat) option"
  pending :: "nat set"

text \<open>What the driver relies on of the device: it completes a request that it has been given once, writing status \<open>0\<close> and
  the head of the chain into the used ring. A device that reports a failure, with another status, is outside of this system: the
  interrupt handler panics on it.\<close>

definition device_done :: "nat \<Rightarrow> vdisk \<Rightarrow> vdisk" where
  "device_done h v = v\<lparr>v_info_status := (v_info_status v)(h := 0),
     v_used_ring := (v_used_ring v)(unat (v_dev_idx v) mod NUM := of_nat h), v_dev_idx := v_dev_idx v + 1\<rparr>"

definition nxt :: "vdisk \<Rightarrow> nat \<Rightarrow> nat" where
  "nxt v i = unat (d_next (v_desc v i))"

inductive vstep :: "vsys \<Rightarrow> vsys \<Rightarrow> bool" where
  submit: "\<lbrakk>\<forall>h c. inflight s h = Some c \<longrightarrow> fst c \<noteq> b; rw_submit b blockno dir (drv s) = Inr (Some h, v)\<rbrakk>
    \<Longrightarrow> vstep s \<lparr>drv = v, inflight = (inflight s)(h \<mapsto> (b, nxt v h, nxt v (nxt v h))), pending = insert h (pending s)\<rparr>"
| wait: "rw_submit b blockno dir (drv s) = Inr (None, v) \<Longrightarrow> vstep s (s\<lparr>drv := v\<rparr>)"
| device: "h \<in> pending s \<Longrightarrow> vstep s (s\<lparr>drv := device_done h (drv s), pending := pending s - {h}\<rparr>)"
| interrupt: "virtio_disk_intr st (drv s) = Inr v \<Longrightarrow> vstep s (s\<lparr>drv := v\<rparr>)"
| finish: "\<lbrakk>inflight s h = Some (b, i, j); \<not> v_busy (drv s) b; rw_finish h (drv s) = Inr v\<rbrakk>
    \<Longrightarrow> vstep s (s\<lparr>drv := v, inflight := (inflight s)(h := None)\<rparr>)"

definition vinit :: "vsys \<Rightarrow> bool" where
  "vinit s \<longleftrightarrow> inflight s = (\<lambda>_. None) \<and> pending s = {} \<and> (\<forall>i<NUM. v_free (drv s) i) \<and> v_used_idx (drv s) = v_dev_idx (drv s)"

inductive vreach :: "vsys \<Rightarrow> bool" where
  start: "vinit s \<Longrightarrow> vreach s"
| more: "vreach s \<Longrightarrow> vstep s t \<Longrightarrow> vreach t"

section \<open>The invariant\<close>

interpretation used_ring: ring NUM "TYPE(16)"
  by unfold_locales (auto simp: NUM_def)

definition unread :: "vdisk \<Rightarrow> u32 list" where
  "unread v = ring_contents (map (v_used_ring v) [0..<NUM]) (v_used_idx v) (v_dev_idx v)"

definition chain_ok :: "vdisk \<Rightarrow> nat \<Rightarrow> nat \<times> nat \<times> nat \<Rightarrow> bool" where
  "chain_ok v h c \<longleftrightarrow> (case c of (b, i, j) \<Rightarrow>
     distinct [h, i, j] \<and> h < NUM \<and> i < NUM \<and> j < NUM \<and> \<not> v_free v h \<and> \<not> v_free v i \<and> \<not> v_free v j \<and>
     d_flags (v_desc v h) AND VRING_DESC_F_NEXT \<noteq> 0 \<and> nxt v h = i \<and>
     d_flags (v_desc v i) AND VRING_DESC_F_NEXT \<noteq> 0 \<and> nxt v i = j \<and>
     d_flags (v_desc v j) AND VRING_DESC_F_NEXT = 0 \<and> v_info_b v h = Some b)"

definition descs :: "nat \<Rightarrow> nat \<times> nat \<times> nat \<Rightarrow> nat set" where
  "descs h c = {h, fst (snd c), snd (snd c)}"

definition vinv :: "vsys \<Rightarrow> bool" where
  "vinv s \<longleftrightarrow>
     (\<forall>h c. inflight s h = Some c \<longrightarrow> chain_ok (drv s) h c) \<and>
     (\<forall>h c h' c'. inflight s h = Some c \<longrightarrow> inflight s h' = Some c' \<longrightarrow> h \<noteq> h' \<longrightarrow>
        descs h c \<inter> descs h' c' = {} \<and> fst c \<noteq> fst c') \<and>
     (\<forall>i<NUM. \<not> v_free (drv s) i \<longrightarrow> (\<exists>h c. inflight s h = Some c \<and> i \<in> descs h c)) \<and>
     (\<forall>h\<in>pending s. \<exists>c. inflight s h = Some c \<and> v_busy (drv s) (fst c)) \<and>
     distinct (unread (drv s)) \<and>
     (\<forall>x\<in>set (unread (drv s)). unat x \<notin> pending s \<and> v_info_status (drv s) (unat x) = 0 \<and>
        (\<exists>c. inflight s (unat x) = Some c \<and> v_busy (drv s) (fst c))) \<and>
     (\<forall>h c. inflight s h = Some c \<longrightarrow> v_busy (drv s) (fst c) \<longrightarrow> h \<in> pending s \<or> of_nat h \<in> set (unread (drv s)))"

section \<open>The operations on chains\<close>

lemma alloc_desc_cases:
  obtains (none) "\<forall>i<NUM. \<not> v_free v i" "alloc_desc v = (None, v)"
  | (some) i where "i < NUM" "v_free v i" "alloc_desc v = (Some i, v\<lparr>v_free := (v_free v)(i := False)\<rparr>)"
proof (cases "find (v_free v) [0..<NUM]")
  case None
  have "alloc_desc v = (None, v)" using None by (simp add: alloc_desc_def)
  moreover have "\<forall>i<NUM. \<not> v_free v i" using None by (auto simp: find_None_iff)
  ultimately show ?thesis using none by blast
next
  case (Some i)
  have "alloc_desc v = (Some i, v\<lparr>v_free := (v_free v)(i := False)\<rparr>)" using Some by (simp add: alloc_desc_def)
  moreover have "i < NUM" "v_free v i" using Some by (auto simp: find_Some_iff)
  ultimately show ?thesis using some by blast
qed

definition same_req :: "vdisk \<Rightarrow> vdisk \<Rightarrow> bool" where
  "same_req v v' \<longleftrightarrow> v_used_ring v' = v_used_ring v \<and> v_dev_idx v' = v_dev_idx v \<and> v_used_idx v' = v_used_idx v \<and>
     v_info_b v' = v_info_b v \<and> v_info_status v' = v_info_status v \<and> v_busy v' = v_busy v"

text \<open>\<^verbatim>\<open>alloc3_desc\<close> takes three free descriptors, or leaves the free ones as they were.\<close>

lemma alloc3_desc_cases:
  obtains (none) v' where "alloc3_desc v = Inr (None, v')" "v_free v' = v_free v"
      "\<And>i. \<not> v_free v i \<Longrightarrow> v_desc v' i = v_desc v i"
      "same_req v v'"
  | (some) i j k where "i < NUM" "j < NUM" "k < NUM" "distinct [i, j, k]" "v_free v i" "v_free v j" "v_free v k"
      "alloc3_desc v = Inr (Some [i, j, k], v\<lparr>v_free := (v_free v)(i := False, j := False, k := False)\<rparr>)"
proof (cases v rule: alloc_desc_cases)
  case none1: none
  then show ?thesis by (intro none [of v]) (simp_all add: alloc3_desc_def eval_nat_numeral same_req_def)
next
  case i: (some i)
  let ?v = "v\<lparr>v_free := (v_free v)(i := False)\<rparr>"
  show ?thesis
  proof (cases ?v rule: alloc_desc_cases)
    case none2: none
    let ?w = "v\<lparr>v_desc := (v_desc v)(i := no_desc), v_wakes := v_wakes v @ [FreeChan]\<rparr>"
    have "alloc3_desc v = Inr (None, ?w)"
      using i none2 by (simp add: alloc3_desc_def eval_nat_numeral free_desc_def fun_upd_idem)
    then show ?thesis by (rule none) (use i in \<open>auto simp: same_req_def\<close>)
  next
    case j: (some j)
    let ?v2 = "v\<lparr>v_free := (v_free v)(i := False, j := False)\<rparr>"
    have ij: "j \<noteq> i" "v_free v j" using j(2) by (auto split: if_splits)
    show ?thesis
    proof (cases ?v2 rule: alloc_desc_cases)
      case none3: none
      let ?w = "v\<lparr>v_desc := (v_desc v)(i := no_desc, j := no_desc), v_wakes := v_wakes v @ [FreeChan, FreeChan]\<rparr>"
      have "alloc3_desc v = Inr (None, ?w)"
        using i j ij none3 by (simp add: alloc3_desc_def eval_nat_numeral free_desc_def fun_upd_idem fun_upd_twist)
      then show ?thesis by (rule none) (use i ij in \<open>auto simp: same_req_def\<close>)
    next
      case k: (some k)
      have "k \<noteq> i" "k \<noteq> j" "v_free v k" using k(2) by (auto split: if_splits)
      moreover have "alloc3_desc v = Inr (Some [i, j, k], v\<lparr>v_free := (v_free v)(i := False, j := False, k := False)\<rparr>)"
        using i j k by (simp add: alloc3_desc_def eval_nat_numeral)
      ultimately show ?thesis using some [of i j k] i j k ij by auto
    qed
  qed
qed

lemma chain_frame:
  assumes "chain_ok v h c" and "\<And>i. i \<in> descs h c \<Longrightarrow> v_free v' i = v_free v i \<and> v_desc v' i = v_desc v i"
    and "v_info_b v' h = v_info_b v h"
  shows "chain_ok v' h c"
  using assms by (auto simp: chain_ok_def descs_def nxt_def split: prod.splits)

lemma chain_descs: "chain_ok v h c \<Longrightarrow> i \<in> descs h c \<Longrightarrow> i < NUM \<and> \<not> v_free v i"
  by (auto simp: chain_ok_def descs_def split: prod.splits)

lemma head_in_descs [simp]: "h \<in> descs h c"
  by (simp add: descs_def)

lemma rw_submit_some:
  assumes "rw_submit b blockno dir v = Inr (Some h, v')"
  obtains i j where "h < NUM" "i < NUM" "j < NUM" "distinct [h, i, j]" "v_free v h" "v_free v i" "v_free v j"
    "chain_ok v' h (b, i, j)" "nxt v' h = i" "nxt v' i = j"
    "v_free v' = (v_free v)(h := False, i := False, j := False)"
    "\<And>k. k \<notin> {h, i, j} \<Longrightarrow> v_desc v' k = v_desc v k" "v_info_b v' = (v_info_b v)(h := Some b)"
    "v_info_status v' = (v_info_status v)(h := 0xff)" "v_busy v' = (v_busy v)(b := True)" "unread v' = unread v"
proof (cases v rule: alloc3_desc_cases)
  case (none w)
  then show ?thesis using assms by (simp add: rw_submit_def)
next
  case (some i0 i j)
  note d = rw_submit_def format_req_def Let_def set_desc_def wreg_def nth_Cons'
  have eq: "h = i0"
    "v_free v' = (v_free v)(i0 := False, i := False, j := False)"
    "v_desc v' = (v_desc v)(i0 := \<lparr>d_addr = OpsAddr i0, d_len = 16, d_flags = VRING_DESC_F_NEXT, d_next = of_nat i\<rparr>,
       i := \<lparr>d_addr = DataAddr b, d_len = 1024, d_flags = (if dir then 0 else VRING_DESC_F_WRITE) OR VRING_DESC_F_NEXT,
             d_next = of_nat j\<rparr>,
       j := \<lparr>d_addr = StatusAddr i0, d_len = 1, d_flags = VRING_DESC_F_WRITE, d_next = 0\<rparr>)"
    "v_info_b v' = (v_info_b v)(i0 := Some b)" "v_info_status v' = (v_info_status v)(i0 := 0xff)"
    "v_busy v' = (v_busy v)(b := True)" "unread v' = unread v"
    using assms some(8) by (auto simp: d unread_def)
  have "unat (of_nat i :: u16) = i" "unat (of_nat j :: u16) = j"
    using some by (simp_all add: NUM_def unat_of_nat)
  then have n: "nxt v' i0 = i" "nxt v' i = j" using some(4) by (simp_all add: nxt_def eq)
  then have "chain_ok v' i0 (b, i, j)"
    using some(1-7) by (simp add: chain_ok_def eq VRING_DESC_F_NEXT_def VRING_DESC_F_WRITE_def)
  with some n show ?thesis by (intro that [of i j]) (simp_all add: eq)
qed

lemma rw_submit_none:
  assumes "rw_submit b blockno dir v = Inr (None, v')"
  shows "v_free v' = v_free v \<and> (\<forall>i. \<not> v_free v i \<longrightarrow> v_desc v' i = v_desc v i) \<and> same_req v v'"
  by (cases v rule: alloc3_desc_cases) (use assms in \<open>auto simp: rw_submit_def Let_def\<close>)

lemma rw_submit_total: "\<exists>r. rw_submit b blockno dir v = Inr r"
  by (cases v rule: alloc3_desc_cases) (simp_all add: rw_submit_def Let_def)

lemma rw_finish_frees:
  assumes "chain_ok v h (b, i, j)"
  obtains v' where "rw_finish h v = Inr v'" "v_free v' = (v_free v)(h := True, i := True, j := True)"
    "\<And>k. k \<notin> {h, i, j} \<Longrightarrow> v_desc v' k = v_desc v k" "v_info_b v' = (v_info_b v)(h := None)"
    "v_info_status v' = v_info_status v" "v_busy v' = v_busy v" "unread v' = unread v"
proof -
  let ?v = "v\<lparr>v_info_b := (v_info_b v)(h := None), v_desc := (v_desc v)(h := no_desc, i := no_desc, j := no_desc),
     v_free := (v_free v)(h := True, i := True, j := True), v_wakes := v_wakes v @ [FreeChan, FreeChan, FreeChan]\<rparr>"
  have "rw_finish h v = Inr ?v"
    using assms by (auto simp: chain_ok_def rw_finish_def free_chain_v_def NUM_def eval_nat_numeral free_desc_def nxt_def)
  then show ?thesis by (rule that) (simp_all add: unread_def)
qed

lemma unread_cases:
  obtains (empty) "v_used_idx v = v_dev_idx v" "unread v = []"
  | (next_used) "v_used_idx v \<noteq> v_dev_idx v"
      "unread v = v_used_ring v (unat (v_used_idx v) mod NUM) # unread (v\<lparr>v_used_idx := v_used_idx v + 1\<rparr>)"
proof (cases "v_used_idx v = v_dev_idx v")
  case True
  then show ?thesis by (intro empty) (simp_all add: unread_def ring_contents_empty_iff)
next
  case False
  then show ?thesis
    by (intro next_used) (simp_all add: unread_def used_ring.get NUM_def)
qed

lemma unread_Cons:
  assumes "x # xs = unread v"
  shows "v_used_idx v \<noteq> v_dev_idx v" "x = v_used_ring v (unat (v_used_idx v) mod NUM)"
    "xs = unread (v\<lparr>v_used_idx := v_used_idx v + 1\<rparr>)"
  by (rule unread_cases [of v]; use assms in auto)+

text \<open>The interrupt handler collects everything that is in the used ring.\<close>

lemma intr_loop_collects:
  assumes "\<And>x. x \<in> set (unread v) \<Longrightarrow> unat x < NUM \<and> v_info_status v (unat x) = 0 \<and> v_info_b v (unat x) = Some (f x)"
  obtains v' where "virtio_intr_loop v = Inr v'" "unread v' = []"
    "v_busy v' = (\<lambda>b. v_busy v b \<and> b \<notin> f ` set (unread v))" "v_free v' = v_free v" "v_desc v' = v_desc v"
    "v_info_b v' = v_info_b v" "v_info_status v' = v_info_status v"
  using assms
proof (induction "unread v" arbitrary: v thesis)
  case Nil
  then have "v_used_idx v = v_dev_idx v" by (metis list.distinct(1) unread_cases)
  then have "virtio_intr_loop v = Inr v" by (simp add: virtio_intr_loop.simps)
  then show ?case by (rule Nil(2)) (simp_all add: Nil(1) [symmetric])
next
  case (Cons x xs)
  let ?w = "v\<lparr>v_busy := (v_busy v)(f x := False), v_wakes := v_wakes v @ [BufChan (f x)], v_used_idx := v_used_idx v + 1\<rparr>"
  have u: "v_used_idx v \<noteq> v_dev_idx v" "x = v_used_ring v (unat (v_used_idx v) mod NUM)"
    "xs = unread (v\<lparr>v_used_idx := v_used_idx v + 1\<rparr>)"
    using Cons.hyps(2) unread_Cons by blast+
  have xs: "xs = unread ?w" using u(3) by (simp add: unread_def)
  have mem: "set (unread v) = insert x (set (unread ?w))" by (metis Cons.hyps(2) list.simps(15) xs)
  have x: "unat x < NUM" "v_info_status v (unat x) = 0" "v_info_b v (unat x) = Some (f x)"
    using Cons.prems(2) [of x] mem by blast+
  have step: "virtio_intr_loop v = virtio_intr_loop ?w"
    using u(1) x by (subst virtio_intr_loop.simps) (simp add: u(2) [symmetric] Let_def)
  obtain v' where "virtio_intr_loop ?w = Inr v'" "unread v' = []"
    "v_busy v' = (\<lambda>b. v_busy ?w b \<and> b \<notin> f ` set (unread ?w))" "v_free v' = v_free ?w" "v_desc v' = v_desc ?w"
    "v_info_b v' = v_info_b ?w" "v_info_status v' = v_info_status ?w"
    by (rule Cons.hyps(1) [OF xs]) (use Cons.prems(2) mem in auto)
  then show ?case by (intro Cons.prems(1) [of v']) (auto simp: step mem)
qed

section \<open>Every step keeps the invariant\<close>

lemma vinvD:
  assumes "vinv s"
  shows vinv_chain: "inflight s h = Some c \<Longrightarrow> chain_ok (drv s) h c"
    and vinv_apart: "inflight s h = Some c \<Longrightarrow> inflight s h' = Some c' \<Longrightarrow> h \<noteq> h' \<Longrightarrow>
        descs h c \<inter> descs h' c' = {} \<and> fst c \<noteq> fst c'"
    and vinv_used: "i < NUM \<Longrightarrow> \<not> v_free (drv s) i \<Longrightarrow> \<exists>h c. inflight s h = Some c \<and> i \<in> descs h c"
    and vinv_pending: "h \<in> pending s \<Longrightarrow> \<exists>c. inflight s h = Some c \<and> v_busy (drv s) (fst c)"
    and vinv_distinct: "distinct (unread (drv s))"
    and vinv_unread: "x \<in> set (unread (drv s)) \<Longrightarrow> unat x \<notin> pending s \<and> v_info_status (drv s) (unat x) = 0 \<and>
        (\<exists>c. inflight s (unat x) = Some c \<and> v_busy (drv s) (fst c))"
    and vinv_busy: "inflight s h = Some c \<Longrightarrow> v_busy (drv s) (fst c) \<Longrightarrow> h \<in> pending s \<or> of_nat h \<in> set (unread (drv s))"
  using assms unfolding vinv_def by blast+

lemma vinvI:
  assumes "drv s = v" and "inflight s = C" and "pending s = P" and "unread v = U"
    and "\<And>h c. C h = Some c \<Longrightarrow> chain_ok v h c"
    and "\<And>h c h' c'. C h = Some c \<Longrightarrow> C h' = Some c' \<Longrightarrow> h \<noteq> h' \<Longrightarrow> descs h c \<inter> descs h' c' = {} \<and> fst c \<noteq> fst c'"
    and "\<And>i. i < NUM \<Longrightarrow> \<not> v_free v i \<Longrightarrow> \<exists>h c. C h = Some c \<and> i \<in> descs h c"
    and "\<And>h. h \<in> P \<Longrightarrow> \<exists>c. C h = Some c \<and> v_busy v (fst c)" and "distinct U"
    and "\<And>x. x \<in> set U \<Longrightarrow> unat x \<notin> P \<and> v_info_status v (unat x) = 0 \<and> (\<exists>c. C (unat x) = Some c \<and> v_busy v (fst c))"
    and "\<And>h c. C h = Some c \<Longrightarrow> v_busy v (fst c) \<Longrightarrow> h \<in> P \<or> of_nat h \<in> set U"
  shows "vinv s"
  unfolding vinv_def assms(1-4) using assms(5-11) by blast

lemma vinv_not_free:
  assumes "vinv s" and "v_free (drv s) i"
  shows "inflight s h = Some c \<Longrightarrow> i \<notin> descs h c" and "inflight s i = None"
  using assms chain_descs vinv_chain head_in_descs by (blast, metis chain_descs head_in_descs not_Some_eq vinv_chain)

lemma chain_info: "chain_ok v h c \<Longrightarrow> v_info_b v h = Some (fst c) \<and> h < NUM"
  by (auto simp: chain_ok_def split: prod.splits)

lemma vinv_init: "vinit s \<Longrightarrow> vinv s"
  by (auto simp: vinit_def vinv_def unread_def ring_contents_def)

lemma vinv_wait:
  assumes inv: "vinv s" and r: "rw_submit b blockno dir (drv s) = Inr (None, v)"
  shows "vinv (s\<lparr>drv := v\<rparr>)"
proof -
  from rw_submit_none [OF r] have same: "v_free v = v_free (drv s)" "v_info_b v = v_info_b (drv s)"
    "v_info_status v = v_info_status (drv s)" "v_busy v = v_busy (drv s)" "unread v = unread (drv s)"
    and d: "\<And>i. \<not> v_free (drv s) i \<Longrightarrow> v_desc v i = v_desc (drv s) i"
    by (simp_all add: same_req_def unread_def)
  have "chain_ok v h c" if "inflight s h = Some c" for h c
    by (rule chain_frame [OF vinv_chain [OF inv that]])
      (use d same chain_descs [OF vinv_chain [OF inv that]] in auto)
  then show ?thesis using inv by (simp add: vinv_def same)
qed

lemma vinv_submit:
  assumes inv: "vinv s" and fresh: "\<forall>h c. inflight s h = Some c \<longrightarrow> fst c \<noteq> b"
    and r: "rw_submit b blockno dir (drv s) = Inr (Some h, v)"
  shows "vinv \<lparr>drv = v, inflight = (inflight s)(h \<mapsto> (b, nxt v h, nxt v (nxt v h))), pending = insert h (pending s)\<rparr>"
proof -
  from r obtain i j where new: "h < NUM" "i < NUM" "j < NUM" "distinct [h, i, j]"
    "v_free (drv s) h" "v_free (drv s) i" "v_free (drv s) j" "chain_ok v h (b, i, j)" "nxt v h = i" "nxt v i = j"
    and eq: "v_free v = (v_free (drv s))(h := False, i := False, j := False)"
    "v_info_b v = (v_info_b (drv s))(h := Some b)" "v_info_status v = (v_info_status (drv s))(h := 0xff)"
    "v_busy v = (v_busy (drv s))(b := True)" "unread v = unread (drv s)"
    and d: "\<And>k. k \<notin> {h, i, j} \<Longrightarrow> v_desc v k = v_desc (drv s) k"
    by (rule rw_submit_some) blast
  let ?C = "(inflight s)(h \<mapsto> (b, i, j))"
  have off: "descs h' c \<inter> {h, i, j} = {}" if "inflight s h' = Some c" for h' c
    using vinv_not_free(1) [OF inv _ that] new(5-7) by auto
  have h: "inflight s h = None" using vinv_not_free(2) [OF inv new(5)] .
  have ch: "chain_ok v h' c" if "?C h' = Some c" for h' c
  proof (cases "h' = h")
    case False
    then have c: "inflight s h' = Some c" using that by simp
    show ?thesis
      by (rule chain_frame [OF vinv_chain [OF inv c]]) (use off [OF c] d eq(1,2) False in auto)
  qed (use that new(8) in auto)
  have un: "unat x \<notin> insert h (pending s) \<and> v_info_status v (unat x) = 0 \<and> (\<exists>c. ?C (unat x) = Some c \<and> v_busy v (fst c))"
    if "x \<in> set (unread (drv s))" for x
  proof -
    from vinv_unread [OF inv that] obtain c where "unat x \<notin> pending s" "v_info_status (drv s) (unat x) = 0"
      "inflight s (unat x) = Some c" "v_busy (drv s) (fst c)" by blast
    moreover from this(3) h have "unat x \<noteq> h" by auto
    ultimately show ?thesis by (intro conjI exI [of _ c]) (simp_all add: eq)
  qed
  have ap: "descs h1 c1 \<inter> descs h2 c2 = {} \<and> fst c1 \<noteq> fst c2"
    if "?C h1 = Some c1" "?C h2 = Some c2" "h1 \<noteq> h2" for h1 h2 c1 c2
  proof -
    have new: "descs h (b, i, j) \<inter> descs k c = {} \<and> b \<noteq> fst c" if "inflight s k = Some c" for k c
      using off [OF that] fresh [rule_format, OF that] by (auto simp: descs_def [of h])
    consider "h1 = h" | "h2 = h" | "h1 \<noteq> h" "h2 \<noteq> h" by blast
    then show ?thesis
    proof cases
      case 1
      then show ?thesis using that new [of h2 c2] by auto
    next
      case 2
      then show ?thesis using that new [of h1 c1] by auto
    next
      case 3
      then show ?thesis using that vinv_apart [OF inv, of h1 c1 h2 c2] by simp
    qed
  qed
  have us: "\<exists>h c. ?C h = Some c \<and> k \<in> descs h c" if "k < NUM" "\<not> v_free v k" for k
  proof (cases "k \<in> {h, i, j}")
    case True
    then show ?thesis by (intro exI [of _ h] exI [of _ "(b, i, j)"]) (simp add: descs_def)
  next
    case False
    with that have "\<not> v_free (drv s) k" by (simp add: eq)
    from vinv_used [OF inv that(1) this] h show ?thesis by (metis fun_upd_other option.distinct(1))
  qed
  have pe: "\<exists>c. ?C k = Some c \<and> v_busy v (fst c)" if "k \<in> insert h (pending s)" for k
  proof (cases "k = h")
    case False
    with that vinv_pending [OF inv, of k] obtain c where "inflight s k = Some c" "v_busy (drv s) (fst c)" by blast
    with False show ?thesis by (intro exI [of _ c]) (simp add: eq)
  qed (simp add: eq)
  have bu: "k \<in> insert h (pending s) \<or> of_nat k \<in> set (unread (drv s))" if "?C k = Some c" "v_busy v (fst c)" for k c
    using that vinv_busy [OF inv, of k c] fresh [rule_format, of k c] by (auto simp: eq split: if_splits)
  show ?thesis
    by (rule vinvI [of _ v ?C "insert h (pending s)", OF _ _ _ eq(5) ch ap us pe vinv_distinct [OF inv] un bu])
      (simp_all add: new(9,10))
qed

lemma vinv_device:
  assumes inv: "vinv s" and h: "h \<in> pending s"
  shows "vinv (s\<lparr>drv := device_done h (drv s), pending := pending s - {h}\<rparr>)"
proof -
  let ?v = "drv s" and ?w = "device_done h (drv s)"
  obtain c where c: "inflight s h = Some c" "v_busy ?v (fst c)" using vinv_pending [OF inv h] by blast
  then have "h < NUM" using chain_info vinv_chain [OF inv] by blast
  then have un: "unat (of_nat h :: u32) = h" by (simp add: NUM_def unat_of_nat)
  have new: "of_nat h \<notin> set (unread ?v)" using vinv_unread [OF inv, of "of_nat h"] h un by auto
  have heads: "unat ` set (of_nat h # unread ?v) \<subseteq> {..<NUM}"
    using vinv_unread [OF inv] chain_info vinv_chain [OF inv] \<open>h < NUM\<close> un by fastforce
  have "length (of_nat h # unread ?v) = card (set (of_nat h # unread ?v))"
    using new vinv_distinct [OF inv] by (simp add: distinct_card)
  also have "\<dots> = card (unat ` set (of_nat h # unread ?v))" by (rule card_image [symmetric]) (rule inj_onI, erule unsigned_word_eqI)
  also have "\<dots> \<le> NUM" using card_mono [OF _ heads] by simp
  finally have room: "unat (v_dev_idx ?v - v_used_idx ?v) < NUM" by (simp add: unread_def)
  have upd: "map ((v_used_ring ?v)(k := x)) [0..<NUM] = (map (v_used_ring ?v) [0..<NUM])[k := x]" for k x
    by (intro nth_equalityI) (auto simp: nth_list_update)
  have ur: "unread ?w = unread ?v @ [of_nat h]"
    using used_ring.put [OF _ room, where x = "of_nat h" and buf = "map (v_used_ring ?v) [0..<NUM]"]
    by (simp add: unread_def device_done_def upd)
  have eq: "v_free ?w = v_free ?v" "v_desc ?w = v_desc ?v" "v_info_b ?w = v_info_b ?v" "v_busy ?w = v_busy ?v"
    "v_info_status ?w = (v_info_status ?v)(h := 0)" by (simp_all add: device_done_def)
  have "chain_ok ?w h' c' = chain_ok ?v h' c'" for h' c' by (simp add: chain_ok_def nxt_def eq)
  then have ch: "chain_ok ?w h' c'" if "inflight s h' = Some c'" for h' c' using vinv_chain [OF inv that] by simp
  have us: "\<exists>h c. inflight s h = Some c \<and> i \<in> descs h c" if "i < NUM" "\<not> v_free ?w i" for i
    using vinv_used [OF inv that(1)] that(2) by (simp add: eq)
  have pe: "\<exists>c. inflight s k = Some c \<and> v_busy ?w (fst c)" if "k \<in> pending s - {h}" for k
    using vinv_pending [OF inv] that unfolding eq by blast
  have u: "unat x \<notin> pending s - {h} \<and> v_info_status ?w (unat x) = 0 \<and> (\<exists>c. inflight s (unat x) = Some c \<and> v_busy ?w (fst c))"
    if "x \<in> set (unread ?v @ [of_nat h])" for x
    using vinv_unread [OF inv, of x] that c un unfolding eq by (cases "x = of_nat h") auto
  have bu: "k \<in> pending s - {h} \<or> of_nat k \<in> set (unread ?v @ [of_nat h])" if "inflight s k = Some c'" "v_busy ?w (fst c')" for k c'
    using vinv_busy [OF inv that(1)] that(2) unfolding eq by auto
  have di: "distinct (unread ?v @ [of_nat h])" using vinv_distinct [OF inv] new by simp
  show ?thesis
    by (rule vinvI [of _ ?w "inflight s" "pending s - {h}", OF _ _ _ ur ch vinv_apart [OF inv] us pe di u bu]) simp_all
qed

definition unread_bufs :: "vsys \<Rightarrow> nat set" where
  "unread_bufs s = (\<lambda>x. fst (the (inflight s (unat x)))) ` set (unread (drv s))"

lemma virtio_disk_intr_collects:
  assumes inv: "vinv s"
  shows "\<exists>v. virtio_disk_intr st (drv s) = Inr v \<and> unread v = [] \<and> v_busy v = (\<lambda>b. v_busy (drv s) b \<and> b \<notin> unread_bufs s) \<and>
    v_free v = v_free (drv s) \<and> v_desc v = v_desc (drv s) \<and> v_info_b v = v_info_b (drv s) \<and>
    v_info_status v = v_info_status (drv s)"
proof -
  let ?v = "wreg VIRTIO_MMIO_INTERRUPT_ACK (st AND 3) (drv s)" and ?f = "\<lambda>x. fst (the (inflight s (unat x)))"
  have same: "unread ?v = unread (drv s)" by (simp add: unread_def wreg_def)
  have ok: "unat x < NUM \<and> v_info_status ?v (unat x) = 0 \<and> v_info_b ?v (unat x) = Some (?f x)"
    if "x \<in> set (unread ?v)" for x
  proof -
    from vinv_unread [OF inv, of x] that obtain c where c: "v_info_status (drv s) (unat x) = 0" "inflight s (unat x) = Some c"
      by (auto simp: same)
    with chain_info [OF vinv_chain [OF inv c(2)]] show ?thesis by (simp add: wreg_def)
  qed
  from ok obtain v where "virtio_intr_loop ?v = Inr v" "unread v = []" "v_busy v = (\<lambda>b. v_busy ?v b \<and> b \<notin> ?f ` set (unread ?v))"
    "v_free v = v_free ?v" "v_desc v = v_desc ?v" "v_info_b v = v_info_b ?v" "v_info_status v = v_info_status ?v"
    by (rule intr_loop_collects)
  then show ?thesis by (intro exI [of _ v]) (simp add: virtio_disk_intr_def unread_bufs_def same, simp add: wreg_def)
qed

lemma vinv_interrupt:
  assumes inv: "vinv s" and r: "virtio_disk_intr st (drv s) = Inr v"
  shows "vinv (s\<lparr>drv := v\<rparr>)"
proof -
  from virtio_disk_intr_collects [OF inv, of st] r
  have eq: "v_free v = v_free (drv s)" "v_desc v = v_desc (drv s)" "v_info_b v = v_info_b (drv s)"
    "v_info_status v = v_info_status (drv s)" "unread v = []" and
    busy: "v_busy v = (\<lambda>b. v_busy (drv s) b \<and> b \<notin> unread_bufs s)" by simp_all
  have ch: "chain_ok v h c = chain_ok (drv s) h c" for h c by (simp add: chain_ok_def nxt_def eq)
  have keep: "v_busy v (fst c)" if h: "h \<in> pending s" and c: "inflight s h = Some c" for h c
  proof -
    have "fst c \<notin> unread_bufs s"
    proof
      assume "fst c \<in> unread_bufs s"
      then obtain x where x: "x \<in> set (unread (drv s))" "fst c = fst (the (inflight s (unat x)))"
        by (auto simp: unread_bufs_def)
      from vinv_unread [OF inv x(1)] obtain c' where "unat x \<notin> pending s" "inflight s (unat x) = Some c'" by blast
      then show False using vinv_apart [OF inv c, of "unat x" c'] x(2) h by auto
    qed
    then show ?thesis using vinv_pending [OF inv h] c by (simp add: busy)
  qed
  have done_: "h \<in> pending s" if c: "inflight s h = Some c" and "v_busy v (fst c)" for h c
  proof (rule ccontr)
    assume "h \<notin> pending s"
    then have "of_nat h \<in> set (unread (drv s))" using vinv_busy [OF inv c] that(2) by (simp add: busy)
    moreover have "unat (of_nat h :: u32) = h"
      using chain_info [OF vinv_chain [OF inv c]] by (simp add: NUM_def unat_of_nat)
    ultimately have "fst c \<in> unread_bufs s" using c by (force simp: unread_bufs_def)
    then show False using that(2) by (simp add: busy)
  qed
  have us: "\<exists>h c. inflight s h = Some c \<and> i \<in> descs h c" if "i < NUM" "\<not> v_free v i" for i
    using vinv_used [OF inv that(1)] that(2) by (simp add: eq)
  have ch': "chain_ok v h c" if "inflight s h = Some c" for h c using vinv_chain [OF inv that] ch by simp
  have pe: "\<exists>c. inflight s h = Some c \<and> v_busy v (fst c)" if "h \<in> pending s" for h
    using vinv_pending [OF inv that] keep [OF that] by blast
  show ?thesis
    by (rule vinvI [of _ v "inflight s" "pending s", OF _ _ _ eq(5) ch' vinv_apart [OF inv] us pe])
      (use done_ in \<open>simp_all\<close>)
qed

lemma vinv_finish:
  assumes inv: "vinv s" and c: "inflight s h = Some (b, i, j)" and idle: "\<not> v_busy (drv s) b"
    and r: "rw_finish h (drv s) = Inr v"
  shows "vinv (s\<lparr>drv := v, inflight := (inflight s)(h := None)\<rparr>)"
proof -
  have ok: "chain_ok (drv s) h (b, i, j)" by (rule vinv_chain [OF inv c])
  from rw_finish_frees [OF ok] r have eq: "v_free v = (v_free (drv s))(h := True, i := True, j := True)"
    "v_info_b v = (v_info_b (drv s))(h := None)" "v_info_status v = v_info_status (drv s)"
    "v_busy v = v_busy (drv s)" "unread v = unread (drv s)"
    and d: "\<And>k. k \<notin> {h, i, j} \<Longrightarrow> v_desc v k = v_desc (drv s) k" by (metis Inr_inject)+
  have off: "descs h' c' \<inter> {h, i, j} = {}" if "inflight s h' = Some c'" "h' \<noteq> h" for h' c'
    using vinv_apart [OF inv that(1) c that(2)] by (simp add: descs_def [of h])
  have ch: "chain_ok v h' c'" if "inflight s h' = Some c'" "h' \<noteq> h" for h' c'
    by (rule chain_frame [OF vinv_chain [OF inv that(1)]]) (use off [OF that] d eq that(2) in auto)
  have us: "\<exists>h' c'. h' \<noteq> h \<and> inflight s h' = Some c' \<and> k \<in> descs h' c'" if "k < NUM" "\<not> v_free v k" for k
  proof -
    from that eq(1) have k: "k \<notin> descs h (b, i, j)" and "\<not> v_free (drv s) k" by (auto simp: descs_def split: if_splits)
    from vinv_used [OF inv that(1) this(2)] obtain h' c' where "inflight s h' = Some c'" "k \<in> descs h' c'" by blast
    with k c show ?thesis by (metis option.inject)
  qed
  have pe: "k \<noteq> h" if "k \<in> pending s" for k
    using vinv_pending [OF inv that] c idle by auto
  have un: "unat x \<noteq> h" if "x \<in> set (unread (drv s))" for x
    using vinv_unread [OF inv that] c idle by auto
  let ?C = "(inflight s)(h := None)"
  have old: "inflight s k = Some c' \<and> k \<noteq> h" if "?C k = Some c'" for k c' using that by (simp split: if_splits)
  show ?thesis
  proof (rule vinvI [of _ v ?C "pending s", OF _ _ _ eq(5)])
    show "\<exists>c. ?C k = Some c \<and> v_busy v (fst c)" if "k \<in> pending s" for k
      using vinv_pending [OF inv that] pe [OF that] by (simp add: eq)
    show "unat x \<notin> pending s \<and> v_info_status v (unat x) = 0 \<and> (\<exists>c. ?C (unat x) = Some c \<and> v_busy v (fst c))"
      if "x \<in> set (unread (drv s))" for x using vinv_unread [OF inv that] un [OF that] by (simp add: eq)
    show "\<exists>h c. ?C h = Some c \<and> k \<in> descs h c" if "k < NUM" "\<not> v_free v k" for k
      using us [OF that] by (metis fun_upd_other)
    show "k \<in> pending s \<or> of_nat k \<in> set (unread (drv s))" if "?C k = Some c'" "v_busy v (fst c')" for k c'
      using vinv_busy [OF inv, of k c'] old [OF that(1)] that(2) by (simp add: eq)
    show "descs h1 c1 \<inter> descs h2 c2 = {} \<and> fst c1 \<noteq> fst c2" if "?C h1 = Some c1" "?C h2 = Some c2" "h1 \<noteq> h2" for h1 c1 h2 c2
      using vinv_apart [OF inv, of h1 c1 h2 c2] old [OF that(1)] old [OF that(2)] that(3) by simp
    show "chain_ok v k c'" if "?C k = Some c'" for k c' using ch old [OF that] by blast
  qed (simp_all add: vinv_distinct [OF inv])
qed

lemma vreach_inv: "vreach s \<Longrightarrow> vinv s"
proof (induction rule: vreach.induct)
  case (more s t)
  from more.hyps(2) more.IH show ?case
    by (cases rule: vstep.cases)
      (simp_all only: vinv_submit vinv_wait vinv_device vinv_interrupt, rule vinv_finish)
qed (rule vinv_init)

lemma virtio_disk_init_vinit:
  assumes "virtio_disk_init regs v st = Inr (v', st')" and "v_used_idx v = 0"
  shows "vinit \<lparr>drv = v', inflight = \<lambda>_. None, pending = {}\<rparr>"
  using assms by (auto simp: virtio_disk_init_def vinit_def Let_def wreg_def split: if_splits prod.splits)

lemma intr_clears:
  assumes "vinv s" and "virtio_disk_intr st (drv s) = Inr v" and "inflight s h = Some c"
  shows "v_busy v (fst c) \<longleftrightarrow> h \<in> pending s"
proof -
  have "unread v = []" using virtio_disk_intr_collects [OF assms(1), of st] assms(2) by auto
  then show ?thesis
    using vinv_busy [OF vinv_interrupt [OF assms(1,2)]] vinv_pending [OF vinv_interrupt [OF assms(1,2)]] assms(3) by fastforce
qed

text \<open>C33. The disk driver never panics: whatever the interleaving of requests, completions by the device and interrupts, a new
  request is either accepted or waits for descriptors, the interrupt handler processes the whole used ring and leaves exactly the
  buffers whose requests are still at the device marked as busy, and the descriptors of a completed request can be given back.\<close>

theorem virtio_driver_safe:
  assumes "vreach s"
  shows "(\<exists>r. rw_submit b blockno dir (drv s) = Inr r) \<and>
    (\<exists>v. virtio_disk_intr st (drv s) = Inr v \<and>
         (\<forall>h c. inflight s h = Some c \<longrightarrow> (v_busy v (fst c) \<longleftrightarrow> h \<in> pending s))) \<and>
    (inflight s h = Some c \<longrightarrow> (\<exists>v. rw_finish h (drv s) = Inr v))"
proof (intro conjI impI)
  have inv: "vinv s" by (rule vreach_inv [OF assms])
  show "\<exists>r. rw_submit b blockno dir (drv s) = Inr r" by (rule rw_submit_total)
  show "\<exists>v. virtio_disk_intr st (drv s) = Inr v \<and> (\<forall>h c. inflight s h = Some c \<longrightarrow> (v_busy v (fst c) \<longleftrightarrow> h \<in> pending s))"
    using virtio_disk_intr_collects [OF inv, of st] intr_clears [OF inv] by blast
  show "\<exists>v. rw_finish h (drv s) = Inr v" if "inflight s h = Some c"
    using rw_finish_frees vinv_chain [OF inv that] by (metis prod_cases3)
qed

text \<open>C34. Descriptors are neither lost nor shared: in every interleaving the chains of two requests in flight have no descriptor and
  no buffer in common, and a descriptor is on the free list exactly if it belongs to no request in flight.\<close>

theorem virtio_descriptors_conserved:
  assumes "vreach s"
  shows "(\<forall>i<NUM. v_free (drv s) i \<longleftrightarrow> (\<forall>h c. inflight s h = Some c \<longrightarrow> i \<notin> descs h c)) \<and>
    (\<forall>h c h' c'. inflight s h = Some c \<longrightarrow> inflight s h' = Some c' \<longrightarrow> h \<noteq> h' \<longrightarrow>
       descs h c \<inter> descs h' c' = {} \<and> fst c \<noteq> fst c')"
proof -
  have inv: "vinv s" by (rule vreach_inv [OF assms])
  show ?thesis using vinv_used [OF inv] vinv_not_free(1) [OF inv] vinv_apart [OF inv] by blast
qed

definition idle_disk :: vdisk where
  "idle_disk = \<lparr>v_desc = \<lambda>_. no_desc, v_avail_idx = 0, v_avail_ring = \<lambda>_. 0, v_dev_idx = 0, v_used_ring = \<lambda>_. 0, v_free = \<lambda>i. i < NUM,
     v_used_idx = 0, v_info_b = \<lambda>_. None, v_info_status = \<lambda>_. 0, v_ops = \<lambda>_. \<lparr>r_type = 0, r_reserved = 0, r_sector = 0\<rparr>,
     v_busy = \<lambda>_. False, v_writes = [], v_wakes = []\<rparr>"

lemma find_upt: "k < n \<Longrightarrow> P k \<Longrightarrow> (\<And>j. j < k \<Longrightarrow> \<not> P j) \<Longrightarrow> find P [0..<n] = Some k"
  by (auto simp: find_Some_iff)

lemma alloc_desc_least:
  "k < NUM \<Longrightarrow> v_free v k \<Longrightarrow> (\<And>j. j < k \<Longrightarrow> \<not> v_free v j) \<Longrightarrow>
     alloc_desc v = (Some k, v\<lparr>v_free := (v_free v)(k := False)\<rparr>)"
  using find_upt [of k NUM "v_free v"] by (simp add: alloc_desc_def)

lemma alloc3_idle:
  "alloc3_desc idle_disk = Inr (Some [0, 1, 2], idle_disk\<lparr>v_free := (v_free idle_disk)(0 := False, 1 := False, 2 := False)\<rparr>)"
proof -
  have "alloc_desc idle_disk = (Some 0, idle_disk\<lparr>v_free := (v_free idle_disk)(0 := False)\<rparr>)"
    by (rule alloc_desc_least) (simp_all add: idle_disk_def NUM_def)
  moreover have "alloc_desc (idle_disk\<lparr>v_free := (v_free idle_disk)(0 := False)\<rparr>) =
     (Some 1, idle_disk\<lparr>v_free := (v_free idle_disk)(0 := False, 1 := False)\<rparr>)"
    by (subst alloc_desc_least [of 1]) (simp_all add: idle_disk_def NUM_def)
  moreover have "alloc_desc (idle_disk\<lparr>v_free := (v_free idle_disk)(0 := False, 1 := False)\<rparr>) =
     (Some 2, idle_disk\<lparr>v_free := (v_free idle_disk)(0 := False, 1 := False, 2 := False)\<rparr>)"
    by (subst alloc_desc_least [of 2]) (auto simp: idle_disk_def NUM_def less_2_cases_iff)
  ultimately show ?thesis by (simp add: alloc3_desc_def numeral_3_eq_3)
qed

lemma one_request:
  "\<exists>s. vreach s \<and> inflight s 0 = Some (7, 1, 2) \<and> v_free (drv s) 3"
proof -
  let ?s = "\<lparr>drv = idle_disk, inflight = \<lambda>_. None, pending = {}\<rparr>"
  define v where "v = snd (projr (rw_submit 7 5 True idle_disk))"
  have "rw_submit 7 5 True idle_disk = Inr (Some 0, v)" "nxt v 0 = 1" "nxt v 1 = 2" "v_free v 3"
    by (simp_all add: v_def rw_submit_def alloc3_idle Let_def, simp_all add: format_req_def set_desc_def wreg_def nxt_def Let_def)
      (simp add: idle_disk_def NUM_def)
  note v = this
  have "vreach ?s" by (rule vreach.start) (simp add: vinit_def idle_disk_def)
  then have "vreach \<lparr>drv = v, inflight = (inflight ?s)(0 \<mapsto> (7, nxt v 0, nxt v (nxt v 0))), pending = insert 0 (pending ?s)\<rparr>"
    by (rule vreach.more) (rule vstep.submit, use v(1) in auto)
  then show ?thesis by (rule exI [where P = "\<lambda>s. vreach s \<and> Q s" for Q, OF conjI]) (use v in simp)
qed

theorem virtio_driver_safe_witness:
  "\<exists>s v w. vreach s \<and> inflight s 0 = Some (7, 1, 2) \<and> virtio_disk_intr 1 (drv s) = Inr v \<and> rw_finish 0 (drv s) = Inr w"
proof -
  obtain s where "vreach s" "inflight s 0 = Some (7, 1, 2)" using one_request by blast
  then show ?thesis using virtio_driver_safe [of s 7 5 True 1 0 "(7, 1, 2)"] by blast
qed

theorem virtio_descriptors_conserved_witness:
  "\<exists>s. vreach s \<and> inflight s 0 = Some (7, 1, 2) \<and> \<not> v_free (drv s) 1 \<and> v_free (drv s) 3"
proof -
  obtain s where s: "vreach s" "inflight s 0 = Some (7, 1, 2)" "v_free (drv s) 3" using one_request by blast
  have "1 \<in> descs 0 (7, 1, 2)" and "(1::nat) < NUM" by (simp_all add: descs_def NUM_def)
  then have "\<not> v_free (drv s) 1" using virtio_descriptors_conserved [OF s(1)] s(2) by blast
  with s show ?thesis by blast
qed

end
