(* ===== verification/Usys.thy ===== *)
theory Usys
  imports Xv6_Prelude
begin

text \<open>
  User programs and the kernel as they see it. A program is a function of its state; it ends with a value, by leaving the
  process (\<^verbatim>\<open>exit\<close> or a successful \<^verbatim>\<open>exec\<close>), or by a fault, and it may run for ever. The kernel is a parameter
  \<open>os\<close>: for each call the value in \<^verbatim>\<open>a0\<close> and the bytes that it stores at the pointer argument of the call. Every call is
  recorded. Both sides of a \<^verbatim>\<open>fork\<close> are runs of the same program with different answers.
\<close>

section \<open>System calls\<close>

text \<open>The calls of \<^verbatim>\<open>user/user.h\<close>. A string argument is the list of its bytes without the terminator.\<close>

datatype ucall =
    CFork
  | CExit int "u8 list option"
  | CWait bool bool
  | CPipe
  | CWrite int "u8 list"
  | CRead int nat
  | CClose int
  | CKill int
  | CExec "u8 list" "u8 list list"
  | COpen "u8 list" int
  | CMknod "u8 list" int int
  | CUnlink "u8 list"
  | CFstat int
  | CLink "u8 list" "u8 list"
  | CMkdir "u8 list"
  | CChdir "u8 list"
  | CDup int
  | CGetpid
  | CSbrk int
  | CSleep int
  | CUptime
  | CMemsize
  | CSetPsPriority int
  | CSetCfsPriority int

type_synonym 'k os = "ucall \<Rightarrow> 'k \<Rightarrow> (int \<times> u8 list) \<times> 'k"

record 'k ust =
  kst :: 'k
  calls :: "ucall list"

datatype 'a uout = Ret 'a | Gone | Fault string

type_synonym ('k, 'a) prog = "'k ust \<Rightarrow> ('a uout \<times> 'k ust) option"

definition uret :: "'a \<Rightarrow> ('k, 'a) prog" where
  "uret x s = Some (Ret x, s)"

definition ubind :: "('k, 'a) prog \<Rightarrow> ('a \<Rightarrow> ('k, 'b) prog) \<Rightarrow> ('k, 'b) prog" where
  "ubind m f s =
     (case m s of
        None \<Rightarrow> None
      | Some (r, s1) \<Rightarrow> (case r of Ret x \<Rightarrow> f x s1 | Gone \<Rightarrow> Some (Gone, s1) | Fault e \<Rightarrow> Some (Fault e, s1)))"

definition ufault :: "string \<Rightarrow> ('k, 'a) prog" where
  "ufault e s = Some (Fault e, s)"

definition usys :: "'k os \<Rightarrow> ucall \<Rightarrow> ('k, int \<times> u8 list) prog" where
  "usys os c s = (let (r, k) = os c (kst s) in Some (Ret r, s\<lparr>kst := k, calls := calls s @ [c]\<rparr>))"

text \<open>A call of which only the return value matters.\<close>

definition ucall1 :: "'k os \<Rightarrow> ucall \<Rightarrow> ('k, int) prog" where
  "ucall1 os c = ubind (usys os c) (\<lambda>(r, d). uret r)"

text \<open>\<^verbatim>\<open>exit\<close> does not return; \<^verbatim>\<open>exec\<close> returns only if it fails.\<close>

definition uexit :: "'k os \<Rightarrow> int \<Rightarrow> u8 list option \<Rightarrow> ('k, 'a) prog" where
  "uexit os st msg = ubind (usys os (CExit st msg)) (\<lambda>_ s. Some (Gone, s))"

definition uexec :: "'k os \<Rightarrow> u8 list \<Rightarrow> u8 list list \<Rightarrow> ('k, int) prog" where
  "uexec os path argv = ubind (ucall1 os (CExec path argv)) (\<lambda>r s. if r < 0 then Some (Ret r, s) else Some (Gone, s))"

text \<open>A loop over a list, such as the arguments of a program.\<close>

fun ufor :: "'b list \<Rightarrow> ('b \<Rightarrow> ('k, unit) prog) \<Rightarrow> ('k, unit) prog" where
  "ufor [] f = uret ()"
| "ufor (x # xs) f = ubind (f x) (\<lambda>_. ufor xs f)"

section \<open>Laws\<close>

lemma ubind_uret [simp]: "ubind (uret x) f = f x"
  by (rule ext) (simp add: ubind_def uret_def)

lemma ubind_ufault [simp]: "ubind (ufault e) f = ufault e"
  by (rule ext) (simp add: ubind_def ufault_def)

lemma ubind_assoc: "ubind (ubind m f) g = ubind m (\<lambda>x. ubind (f x) g)"
  by (rule ext) (auto simp: ubind_def split: option.splits uout.splits)

lemma ubind_Ret: "m s = Some (Ret x, s1) \<Longrightarrow> ubind m f s = f x s1"
  by (simp add: ubind_def)

lemma ubind_Gone: "m s = Some (Gone, s1) \<Longrightarrow> ubind m f s = Some (Gone, s1)"
  by (simp add: ubind_def)

lemma usys_eq [simp]: "usys os c s = Some (Ret (fst (os c (kst s))), \<lparr>kst = snd (os c (kst s)), calls = calls s @ [c]\<rparr>)"
  by (cases s) (simp add: usys_def split: prod.split)

lemma ucall1_eq [simp]:
  "ucall1 os c s = Some (Ret (fst (fst (os c (kst s)))), \<lparr>kst = snd (os c (kst s)), calls = calls s @ [c]\<rparr>)"
  by (simp add: ucall1_def ubind_def uret_def split: prod.split)

lemma uexit_eq [simp]: "uexit os st msg s = Some (Gone, \<lparr>kst = snd (os (CExit st msg) (kst s)), calls = calls s @ [CExit st msg]\<rparr>)"
  by (simp add: uexit_def ubind_def)

lemma ubind_mono [partial_function_mono]:
  assumes "\<And>s. mono_option (\<lambda>f. M f s)" and "\<And>x s. mono_option (\<lambda>f. C x f s)"
  shows "mono_option (\<lambda>f. ubind (M f) (\<lambda>x. C x f) s)"
proof (rule monotoneI, goal_cases)
  case (1 f g)
  have M: "option_ord (M f s) (M g s)" using 1 assms(1) unfolding monotone_def by blast
  have C: "\<And>x s. option_ord (C x f s) (C x g s)" using 1 assms(2) unfolding monotone_def by blast
  show ?case
  proof (cases "M f s")
    case None
    then show ?thesis by (simp add: ubind_def flat_ord_def)
  next
    case (Some a)
    then have "M g s = Some a" using M by (simp add: flat_ord_def)
    with Some C show ?thesis by (auto simp: ubind_def flat_ord_def split: uout.splits prod.splits)
  qed
qed

lemma if_state_mono [partial_function_mono]:
  "mono_option (\<lambda>f. M f s) \<Longrightarrow> mono_option (\<lambda>f. N f s) \<Longrightarrow> mono_option (\<lambda>f. (if b then M f else N f) s)"
  by (cases b) simp_all

section \<open>What has been written\<close>

fun written_call :: "int \<Rightarrow> ucall \<Rightarrow> u8 list" where
  "written_call fd (CWrite fd' bs) = (if fd' = fd then bs else [])"
| "written_call fd _ = []"

definition written :: "int \<Rightarrow> 'k ust \<Rightarrow> u8 list" where
  "written fd s = concat (map (written_call fd) (calls s))"

lemma written_append [simp]: "written fd \<lparr>kst = k, calls = calls s @ [c]\<rparr> = written fd s @ written_call fd c"
  by (simp add: written_def)

end
