(* ===== verification/Ulib.thy ===== *)
theory Ulib
  imports Usys KString
begin

text \<open>
  The C library of the user programs (\<^verbatim>\<open>user/ulib.c\<close>), over the memory of the process. A routine that searches for the end of a
  string does not return on a memory without a zero byte: then the result is \<open>None\<close>.
\<close>

section \<open>Strings\<close>

text \<open>The memory at \<open>p\<close> holds the string \<open>cs\<close> with its terminator.\<close>

definition cstring :: "mem \<Rightarrow> u64 \<Rightarrow> u8 list \<Rightarrow> bool" where
  "cstring m p cs \<longleftrightarrow> 0 \<notin> set cs \<and> bytes_at m p (length cs) = cs \<and> m (p + of_nat (length cs)) = 0"

partial_function (option) ustrcpy_loop :: "mem \<Rightarrow> u64 \<Rightarrow> u64 \<Rightarrow> mem option" where
  "ustrcpy_loop m s t =
     (let c = m t; m1 = m(s := c) in if c \<noteq> 0 then ustrcpy_loop m1 (s + 1) (t + 1) else Some m1)"

definition strcpy :: "mem \<Rightarrow> u64 \<Rightarrow> u64 \<Rightarrow> mem option" where
  "strcpy m s t = ustrcpy_loop m s t"

partial_function (option) strcmp :: "mem \<Rightarrow> u64 \<Rightarrow> u64 \<Rightarrow> int option" where
  "strcmp m p q =
     (if m p \<noteq> 0 \<and> m p = m q then strcmp m (p + 1) (q + 1) else Some (uint (m p) - uint (m q)))"

partial_function (option) ustrlen_loop :: "mem \<Rightarrow> u64 \<Rightarrow> u32 \<Rightarrow> u32 option" where
  "ustrlen_loop m s n = (if m (s + scast n) \<noteq> 0 then ustrlen_loop m s (n + 1) else Some n)"

definition ustrlen :: "mem \<Rightarrow> u64 \<Rightarrow> u32 option" where
  "ustrlen m s = ustrlen_loop m s 0"

text \<open>In \<^verbatim>\<open>for(i = 0; i < n; i++)\<close> the comparison is unsigned because \<open>n\<close> is a \<^verbatim>\<open>uint\<close>.\<close>

partial_function (option) umemset_loop :: "mem \<Rightarrow> u64 \<Rightarrow> u8 \<Rightarrow> u32 \<Rightarrow> u32 \<Rightarrow> mem option" where
  "umemset_loop m dst c n i =
     (if i < n then umemset_loop (m(dst + scast i := c)) dst c n (i + 1) else Some m)"

definition umemset :: "mem \<Rightarrow> u64 \<Rightarrow> u32 \<Rightarrow> u32 \<Rightarrow> mem option" where
  "umemset m dst c n = umemset_loop m dst (ucast c) n 0"

text \<open>\<^verbatim>\<open>strchr\<close> returns the address, \<open>0\<close> if the character does not occur.\<close>

partial_function (option) strchr :: "mem \<Rightarrow> u64 \<Rightarrow> u8 \<Rightarrow> u64 option" where
  "strchr m s c = (if m s = 0 then Some 0 else if m s = c then Some s else strchr m (s + 1) c)"

partial_function (option) atoi_loop :: "mem \<Rightarrow> u64 \<Rightarrow> u32 \<Rightarrow> u32 option" where
  "atoi_loop m s n =
     (if 48 \<le> m s \<and> m s \<le> 57 then atoi_loop m (s + 1) (n * 10 + ucast (m s) - 48) else Some n)"

definition atoi :: "mem \<Rightarrow> u64 \<Rightarrow> u32 option" where
  "atoi m s = atoi_loop m s 0"

section \<open>Memory\<close>

text \<open>The counter is a signed \<^verbatim>\<open>int\<close>: nothing is copied for a negative one. The pointers are compared, not the overlap.\<close>

definition umemmove :: "mem \<Rightarrow> u64 \<Rightarrow> u64 \<Rightarrow> u32 \<Rightarrow> mem" where
  "umemmove m dst src n =
     (if src > dst then copy_forward m dst src (nat (sint n))
      else copy_backward m (dst + scast n) (src + scast n) (nat (sint n)))"

definition umemcmp :: "mem \<Rightarrow> u64 \<Rightarrow> u64 \<Rightarrow> u32 \<Rightarrow> int" where
  "umemcmp m s1 s2 n = memcmp m s1 s2 (unat n)"

definition umemcpy :: "mem \<Rightarrow> u64 \<Rightarrow> u64 \<Rightarrow> u32 \<Rightarrow> mem" where
  "umemcpy m dst src n = umemmove m dst src n"

section \<open>Calls\<close>

text \<open>\<^verbatim>\<open>_main\<close>, from which every program starts.\<close>

definition main_wrapper :: "'k os \<Rightarrow> ('k, 'a) prog \<Rightarrow> ('k, unit) prog" where
  "main_wrapper os main = ubind main (\<lambda>_. uexit os 0 None)"

text \<open>\<^verbatim>\<open>gets\<close> into a buffer of \<open>n\<close> bytes: the bytes stored before the terminator. The recursion is over the room left.\<close>

fun gets_loop :: "'k os \<Rightarrow> nat \<Rightarrow> u8 list \<Rightarrow> ('k, u8 list) prog" where
  "gets_loop os 0 buf = uret buf"
| "gets_loop os (Suc room) buf =
     ubind (usys os (CRead 0 1)) (\<lambda>(cc, d).
     if cc < 1 then uret buf
     else case d of
            [] \<Rightarrow> ufault ''read''
          | c # _ \<Rightarrow> if c = 10 \<or> c = 13 then uret (buf @ [c]) else gets_loop os room (buf @ [c]))"

definition gets :: "'k os \<Rightarrow> nat \<Rightarrow> ('k, u8 list) prog" where
  "gets os n = (if n = 0 then ufault ''gets: buf'' else gets_loop os (n - 1) [])"

definition ustat :: "'k os \<Rightarrow> u8 list \<Rightarrow> ('k, int \<times> u8 list) prog" where
  "ustat os n =
     ubind (ucall1 os (COpen n 0)) (\<lambda>fd.
     if fd < 0 then uret (- 1, [])
     else ubind (usys os (CFstat fd)) (\<lambda>(r, st).
          ubind (ucall1 os (CClose fd)) (\<lambda>_. uret (r, st))))"

end
