(* ===== verification/Uprintf.thy ===== *)
theory Uprintf
  imports Ulib
begin

text \<open>
  Formatted output of the user programs (\<^verbatim>\<open>user/printf.c\<close>), one \<^verbatim>\<open>write\<close> per character. A variable argument is the 64-bit value
  of its register or a string; an argument that is missing or of the other kind is a fault.
\<close>

section \<open>Operations\<close>

definition udigits :: "u8 list" where
  "udigits = map of_char ''0123456789ABCDEF''"

definition putc :: "'k os \<Rightarrow> int \<Rightarrow> u8 \<Rightarrow> ('k, unit) prog" where
  "putc os fd c = ubind (ucall1 os (CWrite fd [c])) (\<lambda>_. uret ())"

text \<open>The digits in the order in which \<^verbatim>\<open>printint\<close> stores them, least significant first.\<close>

function udigit_loop :: "u32 \<Rightarrow> u32 \<Rightarrow> u8 list" where
  "udigit_loop x base =
     udigits ! unat (x mod base) # (if x div base \<noteq> 0 \<and> base > 1 then udigit_loop (x div base) base else [])"
  by pat_completeness auto
termination
proof (relation "measure (\<lambda>(x, base). unat x)", goal_cases)
  case (2 x base)
  then have "1 < unat base" by (simp add: word_less_nat_alt)
  moreover have "0 < unat x" using 2 by (metis div_0 neq0_conv unat_eq_0)
  ultimately show ?case by (simp add: unat_div)
qed simp

declare udigit_loop.simps [simp del]

definition uprintint :: "'k os \<Rightarrow> int \<Rightarrow> u32 \<Rightarrow> u32 \<Rightarrow> bool \<Rightarrow> ('k, unit) prog" where
  "uprintint os fd xx base sg =
     (let neg = (sg \<and> sint xx < 0);
          x = (if neg then - xx else xx);
          buf = udigit_loop x base @ (if neg then [45] else [])
      in if length buf \<le> 16 then ufor (rev buf) (putc os fd) else ufault ''printint: buf'')"

fun uprintptr_digits :: "'k os \<Rightarrow> int \<Rightarrow> nat \<Rightarrow> u64 \<Rightarrow> ('k, unit) prog" where
  "uprintptr_digits os fd 0 x = uret ()"
| "uprintptr_digits os fd (Suc k) x =
     ubind (putc os fd (udigits ! unat (drop_bit 60 x))) (\<lambda>_. uprintptr_digits os fd k (push_bit 4 x))"

definition uprintptr :: "'k os \<Rightarrow> int \<Rightarrow> u64 \<Rightarrow> ('k, unit) prog" where
  "uprintptr os fd x = ubind (putc os fd 48) (\<lambda>_. ubind (putc os fd 120) (\<lambda>_. uprintptr_digits os fd 16 x))"

datatype uarg = ANum u64 | AStr "u8 list option"

definition uchars :: "string \<Rightarrow> u8 list" where
  "uchars s = map of_char s"

text \<open>One conversion after a percent sign: the arguments that are left.\<close>

definition vprintf_conv :: "'k os \<Rightarrow> int \<Rightarrow> u8 \<Rightarrow> uarg list \<Rightarrow> ('k, uarg list) prog" where
  "vprintf_conv os fd c ap =
     (let num = (\<lambda>f. case ap of ANum n # r \<Rightarrow> ubind (f n) (\<lambda>_. uret r) | _ \<Rightarrow> ufault ''va_arg'')
      in if c = of_char (CHR ''d'') then num (\<lambda>n. uprintint os fd (ucast n) 10 True)
         else if c = of_char (CHR ''l'') then num (\<lambda>n. uprintint os fd (ucast n) 10 False)
         else if c = of_char (CHR ''x'') then num (\<lambda>n. uprintint os fd (ucast n) 16 False)
         else if c = of_char (CHR ''p'') then num (\<lambda>n. uprintptr os fd n)
         else if c = of_char (CHR ''s'') then
           (case ap of
              AStr s # r \<Rightarrow> ubind (ufor (case s of None \<Rightarrow> uchars ''(null)'' | Some t \<Rightarrow> t) (putc os fd)) (\<lambda>_. uret r)
            | _ \<Rightarrow> ufault ''va_arg'')
         else if c = of_char (CHR ''c'') then num (\<lambda>n. putc os fd (ucast n))
         else if c = 37 then ubind (putc os fd c) (\<lambda>_. uret ap)
         else ubind (putc os fd 37) (\<lambda>_. ubind (putc os fd c) (\<lambda>_. uret ap)))"

text \<open>The loop with the variable \<^verbatim>\<open>state\<close>: whether a percent sign has been read.\<close>

fun vprintf_loop :: "'k os \<Rightarrow> int \<Rightarrow> bool \<Rightarrow> u8 list \<Rightarrow> uarg list \<Rightarrow> ('k, unit) prog" where
  "vprintf_loop os fd state [] ap = uret ()"
| "vprintf_loop os fd state (c # fmt) ap =
     (if c = 0 then uret ()
      else if \<not> state then
        if c = 37 then vprintf_loop os fd True fmt ap
        else ubind (putc os fd c) (\<lambda>_. vprintf_loop os fd False fmt ap)
      else ubind (vprintf_conv os fd c ap) (\<lambda>ap1. vprintf_loop os fd False fmt ap1))"

definition vprintf :: "'k os \<Rightarrow> int \<Rightarrow> u8 list \<Rightarrow> uarg list \<Rightarrow> ('k, unit) prog" where
  "vprintf os fd fmt ap = vprintf_loop os fd False fmt ap"

definition fprintf :: "'k os \<Rightarrow> int \<Rightarrow> string \<Rightarrow> uarg list \<Rightarrow> ('k, unit) prog" where
  "fprintf os fd fmt ap = vprintf os fd (uchars fmt) ap"

definition uprintf :: "'k os \<Rightarrow> string \<Rightarrow> uarg list \<Rightarrow> ('k, unit) prog" where
  "uprintf os fmt ap = vprintf os 1 (uchars fmt) ap"

section \<open>What is written\<close>

text \<open>The program does nothing but write the bytes one by one.\<close>

definition outputs :: "('k, 'a) prog \<Rightarrow> 'a \<Rightarrow> int \<Rightarrow> u8 list \<Rightarrow> bool" where
  "outputs p x fd bs \<longleftrightarrow> (\<forall>s. \<exists>k. p s = Some (Ret x, \<lparr>kst = k, calls = calls s @ map (\<lambda>c. CWrite fd [c]) bs\<rparr>))"

lemma outputs_uret [simp]: "outputs (uret x) x fd []"
proof -
  have "s = \<lparr>kst = kst s, calls = calls s\<rparr>" for s :: "'k ust" by (cases s) simp
  then show ?thesis unfolding outputs_def uret_def by (metis append_Nil2 list.map_disc_iff)
qed

lemma outputs_putc [simp]: "outputs (putc os fd c) () fd [c]"
  by (simp add: outputs_def putc_def ubind_def uret_def)

lemma outputs_ubind:
  assumes "outputs p x fd as" and "outputs (f x) y fd bs"
  shows "outputs (ubind p f) y fd (as @ bs)"
  unfolding outputs_def
proof
  fix s
  obtain k where k: "p s = Some (Ret x, \<lparr>kst = k, calls = calls s @ map (\<lambda>c. CWrite fd [c]) as\<rparr>)"
    using assms(1) by (auto simp: outputs_def)
  let ?s = "\<lparr>kst = k, calls = calls s @ map (\<lambda>c. CWrite fd [c]) as\<rparr>"
  obtain k' where "f x ?s = Some (Ret y, \<lparr>kst = k', calls = calls ?s @ map (\<lambda>c. CWrite fd [c]) bs\<rparr>)"
    using assms(2) unfolding outputs_def by blast
  with k show "\<exists>k. ubind p f s = Some (Ret y, \<lparr>kst = k, calls = calls s @ map (\<lambda>c. CWrite fd [c]) (as @ bs)\<rparr>)"
    by (simp add: ubind_def)
qed

lemma outputs_ufor: "outputs (ufor bs (putc os fd)) () fd bs"
proof (induction bs)
  case (Cons c bs)
  show ?case using outputs_ubind [OF outputs_putc Cons.IH] by simp
qed simp

lemma outputs_written: "outputs p x fd bs \<Longrightarrow> \<exists>s'. p s = Some (Ret x, s') \<and> written fd s' = written fd s @ bs"
  by (fastforce simp: outputs_def written_def comp_def)

definition int_bytes :: "u32 \<Rightarrow> u32 \<Rightarrow> bool \<Rightarrow> u8 list" where
  "int_bytes xx base sg =
     (if sg \<and> sint xx < 0 then 45 # rev (udigit_loop (- xx) base) else rev (udigit_loop xx base))"

lemma udigit_loop_length:
  assumes "base \<ge> 10" and "unat x < 10 ^ k" and "0 < k"
  shows "length (udigit_loop x base) \<le> k"
  using assms(2,3)
proof (induction k arbitrary: x)
  case (Suc k)
  have b: "10 \<le> unat base" using assms(1) by (simp add: word_le_nat_alt)
  show ?case
  proof (cases "x div base \<noteq> 0 \<and> base > 1")
    case True
    have "unat (x div base) \<le> unat x div 10" by (simp add: unat_div div_le_mono2 b)
    also have "\<dots> < 10 ^ k" using Suc.prems(1) by (simp add: less_mult_imp_div_less mult.commute)
    finally have lt: "unat (x div base) < 10 ^ k" .
    then have "0 < k" using True by (cases k) (auto simp: unat_eq_0)
    from Suc.IH [OF lt this] True show ?thesis by (subst udigit_loop.simps) simp
  qed (subst udigit_loop.simps, auto)
qed simp

lemma outputs_uprintint:
  assumes "base = 10 \<or> base = 16"
  shows "outputs (uprintint os fd xx base sg) () fd (int_bytes xx base sg)"
proof -
  have "unat x < 10 ^ 10" for x :: u32 using unsigned_less [of x] by (rule less_trans) simp
  then have "length (udigit_loop x base) \<le> 10" for x
    by (rule udigit_loop_length [rotated]) (use assms in auto)
  then have len: "length (udigit_loop x base @ (if b then [45] else [])) \<le> 16" for x b
    using order_trans [of "length (udigit_loop x base)" 10 15] order_trans [of "length (udigit_loop x base)" 10 16] by simp
  show ?thesis
    using len by (simp add: uprintint_def Let_def int_bytes_def outputs_ufor del: ufor.simps)
qed

text \<open>The bytes that a format stands for; \<open>None\<close> if an argument is missing or of the wrong kind.\<close>

definition conv_bytes :: "u8 \<Rightarrow> uarg list \<Rightarrow> (u8 list \<times> uarg list) option" where
  "conv_bytes c ap =
     (let num = (\<lambda>f. case ap of ANum n # r \<Rightarrow> Some (f n, r) | _ \<Rightarrow> None)
      in if c = of_char (CHR ''d'') then num (\<lambda>n. int_bytes (ucast n) 10 True)
         else if c = of_char (CHR ''l'') then num (\<lambda>n. int_bytes (ucast n) 10 False)
         else if c = of_char (CHR ''x'') then num (\<lambda>n. int_bytes (ucast n) 16 False)
         else if c = of_char (CHR ''p'') then None
         else if c = of_char (CHR ''s'') then
           (case ap of AStr s # r \<Rightarrow> Some (case s of None \<Rightarrow> uchars ''(null)'' | Some t \<Rightarrow> t, r) | _ \<Rightarrow> None)
         else if c = of_char (CHR ''c'') then num (\<lambda>n. [ucast n])
         else Some (if c = 37 then [37] else [37, c], ap))"

fun fmt_bytes :: "bool \<Rightarrow> u8 list \<Rightarrow> uarg list \<Rightarrow> u8 list option" where
  "fmt_bytes state [] ap = Some []"
| "fmt_bytes state (c # fmt) ap =
     (if c = 0 then Some []
      else if \<not> state then
        if c = 37 then fmt_bytes True fmt ap else map_option ((#) c) (fmt_bytes False fmt ap)
      else case conv_bytes c ap of None \<Rightarrow> None | Some (bs, ap1) \<Rightarrow> map_option ((@) bs) (fmt_bytes False fmt ap1))"

lemma outputs_ret: "outputs p x fd bs \<Longrightarrow> outputs (ubind p (\<lambda>_. uret y)) y fd bs"
  using outputs_ubind [of p x fd bs "\<lambda>_. uret y" y "[]"] by simp

lemma outputs_conv:
  assumes "conv_bytes c ap = Some (bs, ap1)"
  shows "outputs (vprintf_conv os fd c ap) ap1 fd bs"
proof -
  have two: "outputs (ubind (putc os fd a) (\<lambda>_. ubind (putc os fd b) (\<lambda>_. uret ap1))) ap1 fd [a, b]" for a b
    using outputs_ubind [OF outputs_putc outputs_ret [OF outputs_putc]] by fastforce
  show ?thesis
    using assms two [of 37 c]
    by (auto simp: conv_bytes_def vprintf_conv_def Let_def split: if_splits list.splits uarg.splits option.splits
        intro!: outputs_ret outputs_uprintint outputs_ufor)
qed

lemma outputs_vprintf_loop: "fmt_bytes st fmt ap = Some bs \<Longrightarrow> outputs (vprintf_loop os fd st fmt ap) () fd bs"
proof (induction st fmt ap arbitrary: bs rule: fmt_bytes.induct)
  case (2 st c fmt ap)
  show ?case
  proof (cases "c \<noteq> 0 \<and> st")
    case True
    then obtain as ap1 cs where c: "conv_bytes c ap = Some (as, ap1)" "fmt_bytes False fmt ap1 = Some cs" "bs = as @ cs"
      using 2(4) by (auto split: option.splits)
    then have "outputs (vprintf_loop os fd False fmt ap1) () fd cs" using 2(3) True by auto
    then have "outputs (ubind (vprintf_conv os fd c ap) (\<lambda>ap1. vprintf_loop os fd False fmt ap1)) () fd (as @ cs)"
      by (rule outputs_ubind [OF outputs_conv [OF c(1)]])
    with True c(3) show ?thesis by simp
  next
    case False
    show ?thesis
    proof (cases "c = 0 \<or> c = 37")
      case True
      then show ?thesis using 2 False by auto
    next
      case no: False
      then obtain cs where cs: "fmt_bytes False fmt ap = Some cs" "bs = c # cs" using 2(4) False by auto
      then have "outputs (vprintf_loop os fd False fmt ap) () fd cs" using 2(2) no False by simp
      then have "outputs (ubind (putc os fd c) (\<lambda>_. vprintf_loop os fd False fmt ap)) () fd ([c] @ cs)"
        by (rule outputs_ubind [OF outputs_putc])
      with no False cs(2) show ?thesis by simp
    qed
  qed
qed simp

lemma outputs_fprintf: "fmt_bytes False (uchars fmt) ap = Some bs \<Longrightarrow> outputs (fprintf os fd fmt ap) () fd bs"
  by (simp add: fprintf_def vprintf_def outputs_vprintf_loop)

lemma outputs_uprintf: "fmt_bytes False (uchars fmt) ap = Some bs \<Longrightarrow> outputs (uprintf os fmt ap) () 1 bs"
  by (simp add: uprintf_def vprintf_def outputs_vprintf_loop)

section \<open>Numbers\<close>

text \<open>The decimal digits and the number they stand for.\<close>

lemma udigits_nth:
  assumes "d < 10"
  shows "udigits ! d = 48 + of_nat d"
proof -
  have "\<forall>d\<in>set [0..<10]. udigits ! d = 48 + of_nat d" by code_simp
  then show ?thesis using assms by simp
qed

lemma atoi_loop_digits:
  assumes "bytes_at m p (length ds) = map (\<lambda>d. 48 + of_nat d) ds" and "\<forall>d\<in>set ds. d < 10" and "m (p + of_nat (length ds)) = 0"
  shows "atoi_loop m p n = Some (foldl (\<lambda>n d. n * 10 + of_nat d) n ds)"
  using assms
proof (induction ds arbitrary: p n)
  case Nil
  then show ?case by (subst atoi_loop.simps) simp
next
  case (Cons d ds)
  have d: "m p = 48 + of_nat d" "d < 10" using Cons.prems by (simp_all add: bytes_at_Suc)
  then have u: "unat (m p) = 48 + d" by (simp add: unat_word_ariths unat_of_nat)
  have "atoi_loop m p n = atoi_loop m (p + 1) (n * 10 + ucast (m p) - 48)"
    using u d(2) by (subst atoi_loop.simps) (simp add: word_le_nat_alt)
  also have "ucast (m p) = (48 + of_nat d :: u32)"
    by (metis of_nat_add of_nat_numeral of_nat_unat u)
  also have "n * 10 + (48 + of_nat d) - 48 = n * 10 + of_nat d" by simp
  finally show ?case using Cons.IH [of "p + 1" "n * 10 + of_nat d"] Cons.prems by (simp add: bytes_at_Suc ac_simps)
qed

lemma udigit_loop_value:
  "\<exists>ds. udigit_loop x 10 = map (\<lambda>d. 48 + of_nat d) ds \<and> (\<forall>d\<in>set ds. d < 10) \<and> foldr (\<lambda>d n. n * 10 + of_nat d) ds 0 = x"
proof (induction x "10 :: u32" rule: udigit_loop.induct)
  case (1 x)
  let ?d = "unat (x mod 10)"
  have d: "?d < 10" by (simp add: unat_mod)
  have x: "x = x div 10 * 10 + of_nat ?d" by (metis of_nat_unat ucast_id word_mod_div_equality)
  show ?case
  proof (cases "x div 10 \<noteq> 0")
    case True
    with 1 obtain ds where "udigit_loop (x div 10) 10 = map (\<lambda>d. 48 + of_nat d) ds" "\<forall>d\<in>set ds. d < 10"
      "foldr (\<lambda>d n. n * 10 + of_nat d) ds 0 = x div 10" by auto
    with True d x show ?thesis by (intro exI [of _ "?d # ds"]) (simp add: udigit_loop.simps [of x] udigits_nth)
  next
    case False
    with d x show ?thesis by (intro exI [of _ "[?d]"]) (simp add: udigit_loop.simps [of x] udigits_nth)
  qed
qed

lemma atoi_int_bytes:
  assumes "0 \<le> sint x" and "cstring m p (int_bytes x 10 True)"
  shows "atoi m p = Some x"
proof -
  obtain ds where ds: "udigit_loop x 10 = map (\<lambda>d. 48 + of_nat d) ds" "\<forall>d\<in>set ds. d < 10"
    "foldr (\<lambda>d n. n * 10 + of_nat d) ds 0 = x" using udigit_loop_value by blast
  have b: "int_bytes x 10 True = map (\<lambda>d. 48 + of_nat d) (rev ds)"
    using assms(1) ds(1) by (simp add: int_bytes_def rev_map)
  have "atoi_loop m p 0 = Some (foldl (\<lambda>n d. n * 10 + of_nat d) 0 (rev ds))"
    using assms(2) ds(2) unfolding cstring_def b by (intro atoi_loop_digits) simp_all
  then show ?thesis using ds(3) by (simp add: atoi_def foldl_conv_foldr)
qed

lemma ucast_up_down: "(ucast (ucast (x :: u32) :: u64) :: u32) = x"
  by (rule bit_word_eqI) (auto simp: bit_ucast_iff)

text \<open>C39. The number that \<^verbatim>\<open>printf(\"%d\", x)\<close> writes is the one that \<^verbatim>\<open>atoi\<close> reads: for every kernel, the call writes the bytes
  of the number one by one to descriptor 1 and returns, and for \<open>x \<ge> 0\<close> and wherever these bytes lie in memory as a string,
  \<^verbatim>\<open>atoi\<close> of it is \<open>x\<close>.\<close>

theorem printf_atoi_roundtrip:
  assumes "0 \<le> sint x" and "cstring m p (int_bytes x 10 True)"
  shows "(\<exists>k. uprintf os ''%d'' [ANum (ucast x)] s =
      Some (Ret (), \<lparr>kst = k, calls = calls s @ map (\<lambda>c. CWrite 1 [c]) (int_bytes x 10 True)\<rparr>)) \<and> atoi m p = Some x"
proof
  have "fmt_bytes False (uchars ''%d'') [ANum (ucast x)] = Some (int_bytes x 10 True)"
    using ucast_up_down [of x] by (simp add: uchars_def conv_bytes_def Let_def)
  from outputs_uprintf [OF this, of os] show "\<exists>k. uprintf os ''%d'' [ANum (ucast x)] s =
      Some (Ret (), \<lparr>kst = k, calls = calls s @ map (\<lambda>c. CWrite 1 [c]) (int_bytes x 10 True)\<rparr>)"
    unfolding outputs_def by blast
qed (rule atoi_int_bytes [OF assms])

theorem printf_atoi_roundtrip_witness:
  "(\<exists>k. uprintf (\<lambda>c k. ((0, []), k + (1::nat))) ''%d'' [ANum 305] \<lparr>kst = 0, calls = []\<rparr> =
      Some (Ret (), \<lparr>kst = k, calls = [CWrite 1 [51], CWrite 1 [48], CWrite 1 [53]]\<rparr>)) \<and>
   atoi ((\<lambda>_. 0)(0 := 51, 1 := 48, 2 := 53)) 0 = Some 305"
proof -
  have b: "int_bytes 305 10 True = [51, 48, 53]" by code_simp
  have "cstring ((\<lambda>_. 0)(0 := 51, 1 := 48, 2 := 53)) 0 (int_bytes 305 10 True)"
    unfolding b by code_simp
  from printf_atoi_roundtrip [of 305, OF _ this, of "\<lambda>c k. ((0, []), k + (1::nat))" "\<lparr>kst = 0, calls = []\<rparr>"]
  show ?thesis by (simp add: b)
qed

end
