(* ===== verification/Ustream.thy ===== *)
theory Ustream
  imports Uprintf Pipe
begin

text \<open>
  Standard input as a stream of bytes: what a filter such as \<^verbatim>\<open>cat\<close>, \<^verbatim>\<open>wc\<close> or \<^verbatim>\<open>grep\<close> relies on of \<^verbatim>\<open>read\<close>, as a locale, and the
  proof that the read end of a pipe of the kernel whose writers have closed it keeps this contract.
\<close>

section \<open>The contract of read\<close>

locale input_stream =
  fixes os :: "'k os" and fd :: int and inp :: "'k \<Rightarrow> u8 list" and ok :: "'k \<Rightarrow> bool"
  assumes read: "ok k \<Longrightarrow> os (CRead fd n) k = ((r, d), k') \<Longrightarrow>
      r = int (length d) \<and> length d \<le> n \<and> inp k = d @ inp k' \<and> (0 < n \<and> inp k \<noteq> [] \<longrightarrow> d \<noteq> []) \<and> ok k'"
    and write_keeps: "ok k \<Longrightarrow> os (CWrite 1 bs) k = (a, k') \<Longrightarrow> inp k' = inp k \<and> ok k'"
begin

text \<open>A read from a state: the bytes it gives and the state after it.\<close>

lemma read_step:
  assumes "ok (kst s)"
  obtains d k where "usys os (CRead fd n) s = Some (Ret (int (length d), d), \<lparr>kst = k, calls = calls s @ [CRead fd n]\<rparr>)"
    "length d \<le> n" "inp (kst s) = d @ inp k" "0 < n \<Longrightarrow> inp (kst s) \<noteq> [] \<Longrightarrow> d \<noteq> []" "ok k"
proof -
  obtain r d k where e: "os (CRead fd n) (kst s) = ((r, d), k)" by (metis surj_pair)
  from read [OF assms this] show ?thesis by (intro that [of d k]) (auto simp: e)
qed

lemma write_step:
  assumes "ok (kst s)"
  obtains r k where "ucall1 os (CWrite 1 bs) s = Some (Ret r, \<lparr>kst = k, calls = calls s @ [CWrite 1 bs]\<rparr>)"
    "inp k = inp (kst s)" "ok k"
proof -
  obtain a k where e: "os (CWrite 1 bs) (kst s) = (a, k)" by (metis surj_pair)
  from write_keeps [OF assms this] show ?thesis by (intro that [of "fst a" k]) (auto simp: e)
qed

lemma writes_step:
  assumes "ok (kst s)"
  shows "\<exists>k. ufor ws (\<lambda>w. ubind (ucall1 os (CWrite 1 w)) (\<lambda>_. uret ())) s =
     Some (Ret (), \<lparr>kst = k, calls = calls s @ map (CWrite 1) ws\<rparr>) \<and> inp k = inp (kst s) \<and> ok k"
  using assms
proof (induction ws arbitrary: s)
  case Nil
  then show ?case by (intro exI [of _ "kst s"]) (simp add: uret_def)
next
  case (Cons w ws)
  obtain r k where w: "ucall1 os (CWrite 1 w) s = Some (Ret r, \<lparr>kst = k, calls = calls s @ [CWrite 1 w]\<rparr>)"
    "inp k = inp (kst s)" "ok k" using write_step [OF Cons.prems] by blast
  from Cons.IH [of "\<lparr>kst = k, calls = calls s @ [CWrite 1 w]\<rparr>"] w show ?case by (auto simp: ubind_def uret_def)
qed

end

section \<open>A pipe as standard input\<close>

text \<open>A process whose standard input is the read end of a pipe and whose other calls do not concern the pipe.\<close>

definition pipe_os :: "pipe os" where
  "pipe_os c pi =
     (case c of
        CRead fd n \<Rightarrow>
          if fd = 0 then
            (case piperead (\<lambda>_ _. True) False 0 (int n) pi of
               (Return r, pi1, bs, _) \<Rightarrow> ((r, bs), pi1)
             | (SleepOn _ _, pi1, bs, _) \<Rightarrow> ((- 1, bs), pi1))
          else ((- 1, []), pi)
      | CWrite fd bs \<Rightarrow> ((int (length bs), []), pi)
      | _ \<Rightarrow> ((- 1, []), pi))"

lemma piperead_copy_bound:
  "piperead_copy copyout addr n pi i = (r, pi', bs) \<Longrightarrow> int (length bs) \<le> max 0 (n - i)"
proof (induction copyout addr n pi i arbitrary: r pi' bs rule: piperead_copy.induct)
  case (1 copyout addr n pi i)
  from 1(2) 1(1) show ?case
    by (subst (asm) piperead_copy.simps) (fastforce simp: Let_def split: if_splits prod.splits)
qed

lemma piperead_closed:
  assumes "pipe_inv pi" and "\<not> writeopen pi" and "piperead (\<lambda>_ _. True) False addr (int n) pi = (o', pi', bs, ws)"
  shows "o' = Return (int (length bs)) \<and> length bs \<le> n \<and> pipe_contents pi = bs @ pipe_contents pi' \<and>
     (0 < n \<and> pipe_contents pi \<noteq> [] \<longrightarrow> bs \<noteq> []) \<and> pipe_inv pi' \<and> \<not> writeopen pi'"
proof -
  obtain r where r: "piperead_copy (\<lambda>_ _. True) addr (int n) pi 0 = (r, pi', bs)" "o' = Return r"
    using assms(2,3) by (auto simp: piperead_def split: prod.splits)
  have "length bs \<le> n" using piperead_copy_bound [OF r(1)] by simp
  with piperead_copy_spec [OF assms(1) r(1)] r(2) assms(2) show ?thesis by auto
qed

interpretation pipe_in: input_stream pipe_os 0 pipe_contents "\<lambda>pi. pipe_inv pi \<and> \<not> writeopen pi"
proof
  fix k n r d k'
  assume ok: "pipe_inv k \<and> \<not> writeopen k" and c: "pipe_os (CRead 0 n) k = ((r, d), k')"
  obtain o' pi' bs ws where p: "piperead (\<lambda>_ _. True) False 0 (int n) k = (o', pi', bs, ws)" by (metis surj_pair)
  from piperead_closed [OF _ _ p] ok have l: "o' = Return (int (length bs)) \<and> length bs \<le> n \<and>
     pipe_contents k = bs @ pipe_contents pi' \<and> (0 < n \<and> pipe_contents k \<noteq> [] \<longrightarrow> bs \<noteq> []) \<and> pipe_inv pi' \<and> \<not> writeopen pi'"
    by blast
  then have "r = int (length bs)" "d = bs" "k' = pi'" using c p by (auto simp: pipe_os_def)
  with l show "r = int (length d) \<and> length d \<le> n \<and> pipe_contents k = d @ pipe_contents k' \<and>
      (0 < n \<and> pipe_contents k \<noteq> [] \<longrightarrow> d \<noteq> []) \<and> pipe_inv k' \<and> \<not> writeopen k'"
    by blast
qed (simp_all add: pipe_os_def)

text \<open>A pipe that holds the lines \<^verbatim>\<open>ab\<close> and \<^verbatim>\<open>cd\<close>.\<close>

definition two_lines :: pipe where
  "two_lines = \<lparr>data = [97, 98, 10, 99, 100, 10] @ replicate 506 0, nread = 0, nwrite = 6, readopen = True, writeopen = False\<rparr>"

lemma two_lines_contents: "pipe_contents two_lines = [97, 98, 10, 99, 100, 10]"
  by code_simp

lemma two_lines_ok: "pipe_inv two_lines \<and> \<not> writeopen two_lines"
  by (simp add: pipe_inv_def two_lines_def PIPESIZE_def)

end
