(* ===== verification/Grep.thy ===== *)
theory Grep
  imports Ustream
begin

text \<open>
  The program \<^verbatim>\<open>user/grep.c\<close>: the pattern matcher and the loop that reads lines through a buffer of 1024 bytes. Strings are the
  lists of their bytes without the terminator. The matcher is shown to decide a declarative meaning of patterns, and the
  program to print exactly the lines that match.
\<close>

section \<open>The matcher\<close>

definition DOT :: u8 where "DOT = 46"
definition STAR :: u8 where "STAR = 42"
definition DOLLAR :: u8 where "DOLLAR = 36"
definition CARET :: u8 where "CARET = 94"

function matchhere :: "u8 list \<Rightarrow> u8 list \<Rightarrow> bool" and matchstar :: "u8 \<Rightarrow> u8 list \<Rightarrow> u8 list \<Rightarrow> bool" where
  "matchhere re str =
     (if re = [] then True
      else if length re > 1 \<and> re ! 1 = STAR then matchstar (hd re) (drop 2 re) str
      else if hd re = DOLLAR \<and> length re = 1 then str = []
      else if str \<noteq> [] \<and> (hd re = DOT \<or> hd re = hd str) then matchhere (tl re) (tl str)
      else False)"
| "matchstar c re str =
     (if matchhere re str then True
      else if str \<noteq> [] \<and> (hd str = c \<or> c = DOT) then matchstar c re (tl str)
      else False)"
  by pat_completeness auto
termination
  by (relation "measures [\<lambda>x. case x of Inl (re, str) \<Rightarrow> length re | Inr (c, re, str) \<Rightarrow> length re,
       \<lambda>x. case x of Inl (re, str) \<Rightarrow> 0 | Inr (c, re, str) \<Rightarrow> 1,
       \<lambda>x. case x of Inl (re, str) \<Rightarrow> length str | Inr (c, re, str) \<Rightarrow> length str]")
    (auto simp: neq_Nil_conv)

declare matchhere.simps [simp del] matchstar.simps [simp del]

fun match_loop :: "u8 list \<Rightarrow> u8 list \<Rightarrow> bool" where
  "match_loop re str =
     (if matchhere re str then True else case str of [] \<Rightarrow> False | _ # rest \<Rightarrow> match_loop re rest)"

definition match :: "u8 list \<Rightarrow> u8 list \<Rightarrow> bool" where
  "match re str =
     (if re \<noteq> [] \<and> hd re = CARET then matchhere (tl re) str else match_loop re str)"

section \<open>The program\<close>

text \<open>\<^verbatim>\<open>strchr(p, '\n')\<close> on the buffer from \<open>p\<close> on: the line before the newline and what follows it.\<close>

definition next_line :: "u8 list \<Rightarrow> (u8 list \<times> u8 list) option" where
  "next_line d =
     (let cs = takeWhile (\<lambda>c. c \<noteq> 0) d; line = takeWhile (\<lambda>c. c \<noteq> 10) cs
      in if length line < length cs then Some (line, drop (Suc (length line)) d) else None)"

lemma next_line_shorter [termination_simp]: "next_line d = Some (line, rest) \<Longrightarrow> length rest < length d"
  by (cases d) (auto simp: next_line_def Let_def split: if_splits)

text \<open>The inner loop: the lines that are written, and the bytes that stay in the buffer.\<close>

function grep_lines :: "u8 list \<Rightarrow> u8 list \<Rightarrow> u8 list list \<times> u8 list" where
  "grep_lines pattern d =
     (case next_line d of
        None \<Rightarrow> ([], d)
      | Some (line, rest) \<Rightarrow>
          let (ws, left) = grep_lines pattern rest
          in (if match pattern line then (line @ [10]) # ws else ws, left))"
  by pat_completeness auto
termination
  by (relation "measure (\<lambda>(pattern, d). length d)") (auto dest: next_line_shorter)

declare grep_lines.simps [simp del]

definition write_line :: "'k os \<Rightarrow> u8 list \<Rightarrow> ('k, unit) prog" where
  "write_line os w = ubind (ucall1 os (CWrite 1 w)) (\<lambda>_. uret ())"

partial_function (option) grep_loop :: "'k os \<Rightarrow> u8 list \<Rightarrow> int \<Rightarrow> u8 list \<Rightarrow> 'k ust \<Rightarrow> (unit uout \<times> 'k ust) option" where
  "grep_loop os pattern fd buf s =
     ubind (usys os (CRead fd (1024 - length buf - 1))) (\<lambda>(n, d).
       if n \<le> 0 then uret ()
       else if n \<noteq> int (length d) \<or> length buf + length d > 1023 then ufault ''read''
       else ubind (ufor (fst (grep_lines pattern (buf @ d))) (write_line os))
              (\<lambda>_. grep_loop os pattern fd (snd (grep_lines pattern (buf @ d))))) s"

definition grep :: "'k os \<Rightarrow> u8 list \<Rightarrow> int \<Rightarrow> ('k, unit) prog" where
  "grep os pattern fd = grep_loop os pattern fd []"

definition grep_main :: "'k os \<Rightarrow> u8 list list \<Rightarrow> ('k, unit) prog" where
  "grep_main os argv =
     (case argv of
        _ # pattern # files \<Rightarrow>
          if files = [] then ubind (grep os pattern 0) (\<lambda>_. uexit os 0 None)
          else ubind (ufor files (\<lambda>f.
                 ubind (ucall1 os (COpen f 0)) (\<lambda>fd.
                 if fd < 0 then
                   ubind (uprintf os ''grep: cannot open %s\<newline>'' [AStr (Some f)]) (\<lambda>_. uexit os 1 None)
                 else ubind (grep os pattern fd) (\<lambda>_. ubind (ucall1 os (CClose fd)) (\<lambda>_. uret ())))))
               (\<lambda>_. uexit os 0 None)
      | _ \<Rightarrow> ubind (fprintf os 2 ''usage: grep pattern [file ...]\<newline>'' []) (\<lambda>_. uexit os 1 None))"

section \<open>What a pattern means\<close>

text \<open>A pattern is a sequence of characters, where \<open>.\<close> stands for any, each possibly starred; a \<open>$\<close> at its end asks for the end of
  the text.\<close>

datatype atom = One u8 | Star u8

fun atoms :: "u8 list \<Rightarrow> atom list \<times> bool" where
  "atoms [] = ([], False)"
| "atoms [c] = (if c = DOLLAR then ([], True) else ([One c], False))"
| "atoms (c # d # re) = (if d = STAR then apfst ((#) (Star c)) (atoms re) else apfst ((#) (One c)) (atoms (d # re)))"

definition accepts :: "u8 \<Rightarrow> u8 \<Rightarrow> bool" where
  "accepts c x \<longleftrightarrow> c = DOT \<or> c = x"

fun lang :: "atom list \<Rightarrow> u8 list set" where
  "lang [] = {[]}"
| "lang (One c # as) = {x # w | x w. accepts c x \<and> w \<in> lang as}"
| "lang (Star c # as) = {u @ w | u w. (\<forall>x\<in>set u. accepts c x) \<and> w \<in> lang as}"

text \<open>The pattern matches at the start of the text.\<close>

definition matches_at :: "u8 list \<Rightarrow> u8 list \<Rightarrow> bool" where
  "matches_at re str \<longleftrightarrow> (\<exists>mid post. str = mid @ post \<and> mid \<in> lang (fst (atoms re)) \<and> (snd (atoms re) \<longrightarrow> post = []))"

definition pattern_matches :: "u8 list \<Rightarrow> u8 list \<Rightarrow> bool" where
  "pattern_matches re str \<longleftrightarrow>
     (if re \<noteq> [] \<and> hd re = CARET then matches_at (tl re) str
      else \<exists>pre suf. str = pre @ suf \<and> matches_at re suf)"

lemma ex_append_Cons:
  "(\<exists>u v. x # xs = u @ v \<and> P u v) \<longleftrightarrow> P [] (x # xs) \<or> (\<exists>u v. xs = u @ v \<and> P (x # u) v)"
proof
  assume "\<exists>u v. x # xs = u @ v \<and> P u v"
  then obtain u v where "x # xs = u @ v" "P u v" by blast
  then show "P [] (x # xs) \<or> (\<exists>u v. xs = u @ v \<and> P (x # u) v)" by (cases u) auto
next
  assume "P [] (x # xs) \<or> (\<exists>u v. xs = u @ v \<and> P (x # u) v)"
  then show "\<exists>u v. x # xs = u @ v \<and> P u v" by (metis append_Cons append_Nil)
qed

lemma matchstar_iff:
  "matchstar c re str \<longleftrightarrow> (\<exists>u rest. str = u @ rest \<and> (\<forall>x\<in>set u. accepts c x) \<and> matchhere re rest)"
proof (induction str)
  case Nil
  then show ?case by (subst matchstar.simps) simp
next
  case (Cons x str)
  have "(\<exists>u rest. x # str = u @ rest \<and> (\<forall>y\<in>set u. accepts c y) \<and> matchhere re rest) \<longleftrightarrow>
      matchhere re (x # str) \<or> accepts c x \<and> (\<exists>u rest. str = u @ rest \<and> (\<forall>y\<in>set u. accepts c y) \<and> matchhere re rest)"
    by (subst ex_append_Cons) auto
  with Cons.IH show ?case by (subst matchstar.simps) (auto simp: accepts_def)
qed

lemma matches_at_star:
  assumes "fst (atoms re) = Star c # fst (atoms r)" and "snd (atoms re) = snd (atoms r)"
  shows "matches_at re str \<longleftrightarrow> (\<exists>u rest. str = u @ rest \<and> (\<forall>x\<in>set u. accepts c x) \<and> matches_at r rest)"
proof
  assume "matches_at re str"
  then obtain mid post where "str = mid @ post" "mid \<in> lang (Star c # fst (atoms r))" and e: "snd (atoms r) \<longrightarrow> post = []"
    unfolding matches_at_def assms by blast
  then obtain u w where "str = u @ w @ post" "\<forall>x\<in>set u. accepts c x" "w \<in> lang (fst (atoms r))" by auto
  with e show "\<exists>u rest. str = u @ rest \<and> (\<forall>x\<in>set u. accepts c x) \<and> matches_at r rest" unfolding matches_at_def by blast
next
  assume "\<exists>u rest. str = u @ rest \<and> (\<forall>x\<in>set u. accepts c x) \<and> matches_at r rest"
  then obtain u w post where "str = (u @ w) @ post" "\<forall>x\<in>set u. accepts c x" "w \<in> lang (fst (atoms r))" "snd (atoms r) \<longrightarrow> post = []"
    by (auto simp: matches_at_def)
  moreover from this have "u @ w \<in> lang (fst (atoms re))" by (auto simp: assms)
  ultimately show "matches_at re str" unfolding matches_at_def assms(2) by blast
qed

lemma matches_at_one:
  assumes "fst (atoms re) = One c # fst (atoms r)" and "snd (atoms re) = snd (atoms r)"
  shows "matches_at re str \<longleftrightarrow> str \<noteq> [] \<and> accepts c (hd str) \<and> matches_at r (tl str)"
  unfolding matches_at_def assms by (cases str) (auto simp: Cons_eq_append_conv)

lemma matchhere_iff: "matchhere re str \<longleftrightarrow> matches_at re str"
proof (induction re arbitrary: str rule: atoms.induct)
  case 1
  then show ?case by (subst matchhere.simps) (simp add: matches_at_def)
next
  case (2 c)
  show ?case
  proof (cases "c = DOLLAR")
    case True
    then show ?thesis by (subst matchhere.simps) (auto simp: matches_at_def)
  next
    case False
    then have "matches_at [c] str \<longleftrightarrow> str \<noteq> [] \<and> accepts c (hd str) \<and> matches_at [] (tl str)"
      by (intro matches_at_one) simp_all
    with False show ?thesis
      by (subst matchhere.simps, subst matchhere.simps) (auto simp: accepts_def matches_at_def)
  qed
next
  case (3 c d re)
  show ?case
  proof (cases "d = STAR")
    case True
    then have "matches_at (c # d # re) str \<longleftrightarrow> (\<exists>u rest. str = u @ rest \<and> (\<forall>x\<in>set u. accepts c x) \<and> matches_at re rest)"
      by (intro matches_at_star) simp_all
    with True 3(1) show ?thesis by (subst matchhere.simps) (simp add: matchstar_iff)
  next
    case False
    then have "matches_at (c # d # re) str \<longleftrightarrow> str \<noteq> [] \<and> accepts c (hd str) \<and> matches_at (d # re) (tl str)"
      by (intro matches_at_one) simp_all
    with False 3(2) show ?thesis by (subst matchhere.simps) (auto simp: accepts_def)
  qed
qed

lemma match_loop_iff: "match_loop re str \<longleftrightarrow> (\<exists>pre suf. str = pre @ suf \<and> matches_at re suf)"
proof (induction str)
  case Nil
  then show ?case by (simp add: matchhere_iff)
next
  case (Cons x str)
  have "(\<exists>pre suf. x # str = pre @ suf \<and> matches_at re suf) \<longleftrightarrow>
      matches_at re (x # str) \<or> (\<exists>pre suf. str = pre @ suf \<and> matches_at re suf)"
    by (subst ex_append_Cons) auto
  with Cons.IH show ?case by (simp add: matchhere_iff)
qed

lemma match_iff: "match re str = pattern_matches re str"
  by (simp add: match_def pattern_matches_def matchhere_iff match_loop_iff del: match_loop.simps)

text \<open>C37. \<^verbatim>\<open>match\<close> of grep decides the declarative meaning of patterns: it returns true exactly if some part of the text is in the
  language of the pattern, at its start if the pattern begins with \<open>^\<close> and at its end if it ends with \<open>$\<close>. Looking at the
  shortest repetition first loses no match.\<close>

theorem grep_match_correct: "match re str = pattern_matches re str"
  by (rule match_iff)

section \<open>What the program prints\<close>

text \<open>The complete lines of an input, without their newlines; an unterminated rest is not one of them.\<close>

fun lines_of :: "u8 list \<Rightarrow> u8 list \<Rightarrow> u8 list list" where
  "lines_of cur [] = []"
| "lines_of cur (c # d) = (if c = 10 then cur # lines_of [] d else lines_of (cur @ [c]) d)"

definition print_lines :: "u8 list list \<Rightarrow> u8 list list" where
  "print_lines ls = map (\<lambda>l. l @ [10]) ls"

lemma lines_of_no_newline: "10 \<notin> set xs \<Longrightarrow> lines_of cur (xs @ d) = lines_of (cur @ xs) d"
  by (induction xs arbitrary: cur) auto

lemma lines_of_first:
  assumes "10 \<notin> set line"
  shows "lines_of [] (line @ 10 # d) = line # lines_of [] d"
  using lines_of_no_newline [OF assms, of "[]" "10 # d"] by simp

lemma lines_of_prefix: "lines_of cur d \<noteq> [] \<Longrightarrow> \<exists>l\<in>set (lines_of cur d). length cur \<le> length l"
proof (induction d arbitrary: cur)
  case (Cons c d)
  show ?case
  proof (cases "c = 10")
    case False
    then obtain l where "l \<in> set (lines_of (cur @ [c]) d)" "Suc (length cur) \<le> length l"
      using Cons.IH [of "cur @ [c]"] Cons.prems by auto
    with False show ?thesis by (intro bexI [of _ l]) simp_all
  qed simp
qed simp

lemma next_line_Some:
  assumes "next_line d = Some (line, rest)"
  shows "d = line @ 10 # rest" and "10 \<notin> set line"
proof -
  let ?cs = "takeWhile (\<lambda>c. c \<noteq> 0) d"
  from assms have l: "line = takeWhile (\<lambda>c. c \<noteq> 10) ?cs" "length line < length ?cs" "rest = drop (Suc (length line)) d"
    by (auto simp: next_line_def Let_def split: if_splits)
  show "10 \<notin> set line" using l(1) by (auto dest: set_takeWhileD)
  have cs: "?cs = line @ dropWhile (\<lambda>c. c \<noteq> 10) ?cs" using l(1) by simp
  with l(2) have "dropWhile (\<lambda>c. c \<noteq> 10) ?cs \<noteq> []" by (metis append_Nil2 less_irrefl)
  with hd_dropWhile [OF this] obtain cs where "dropWhile (\<lambda>c. c \<noteq> 10) ?cs = 10 # cs"
    by (cases "dropWhile (\<lambda>c. c \<noteq> 10) ?cs") simp_all
  with cs have "?cs = line @ 10 # cs" by simp
  then obtain r where "d = line @ 10 # cs @ r"
    using takeWhile_dropWhile_id [of "\<lambda>c. c \<noteq> 0" d] by (metis append_Cons append_assoc)
  with l(3) show "d = line @ 10 # rest" by simp
qed

lemma next_line_None:
  assumes "next_line d = None" and "0 \<notin> set d"
  shows "10 \<notin> set d"
proof -
  have e: "takeWhile (\<lambda>c. c \<noteq> 0) d = d" using assms(2) by (auto simp: takeWhile_eq_all_conv)
  have "\<not> length (takeWhile (\<lambda>c. c \<noteq> 10) d) < length d"
    using assms(1) unfolding next_line_def Let_def e by (simp split: if_splits)
  then have "length (takeWhile (\<lambda>c. c \<noteq> 10) d) = length d" by (meson length_takeWhile_le order_le_imp_less_or_eq)
  then have "takeWhile (\<lambda>c. c \<noteq> 10) d = d" by (metis takeWhile_eq_take take_all order_refl)
  then show ?thesis by (auto simp: takeWhile_eq_all_conv)
qed

lemma grep_lines_spec:
  assumes "0 \<notin> set d"
  obtains left pre where "grep_lines pattern d = (print_lines (filter (match pattern) (lines_of [] d)), left)"
    "10 \<notin> set left" "d = pre @ left" "\<And>e. lines_of [] (d @ e) = lines_of [] d @ lines_of [] (left @ e)"
  using assms
proof (induction pattern d arbitrary: thesis rule: grep_lines.induct)
  case (1 pattern d)
  show ?case
  proof (cases "next_line d")
    case None
    then have n: "10 \<notin> set d" using 1(3) next_line_None by blast
    have "lines_of [] d = []" using lines_of_no_newline [OF n, of "[]" "[]"] by simp
    with None n show ?thesis by (intro 1(2) [of d "[]"]) (simp_all add: grep_lines.simps print_lines_def)
  next
    case (Some a)
    then obtain line rest where a: "next_line d = Some (line, rest)" by (cases a) auto
    note d = next_line_Some [OF a]
    obtain left pre where r: "grep_lines pattern rest = (print_lines (filter (match pattern) (lines_of [] rest)), left)"
      "10 \<notin> set left" "rest = pre @ left" "\<And>e. lines_of [] (rest @ e) = lines_of [] rest @ lines_of [] (left @ e)"
      using 1(1) [OF a refl] 1(3) d(1) by auto
    have l: "lines_of [] d = line # lines_of [] rest" using d lines_of_first by simp
    then have "grep_lines pattern d = (print_lines (filter (match pattern) (lines_of [] d)), left)"
      using a r(1) by (subst grep_lines.simps) (simp add: print_lines_def)
    moreover have "lines_of [] (d @ e) = lines_of [] d @ lines_of [] (left @ e)" for e
      using r(4) [of e] lines_of_first [OF d(2), of "rest @ e"] l by (simp add: d(1))
    ultimately show ?thesis using r(2,3) d(1) by (intro 1(2) [of left "line @ 10 # pre"]) simp_all
  qed
qed

context input_stream
begin

lemma writes_print:
  assumes "ok (kst s)"
  obtains k where "ufor ws (write_line os) s = Some (Ret (), \<lparr>kst = k, calls = calls s @ map (CWrite 1) ws\<rparr>)"
    "inp k = inp (kst s)" "ok k"
  using writes_step [OF assms, of ws] unfolding write_line_def by blast

lemma grep_loop_prints:
  assumes "ok (kst s)" and "10 \<notin> set buf" and "0 \<notin> set (buf @ inp (kst s))" and "length buf \<le> 1023"
    and "\<forall>l\<in>set (lines_of [] (buf @ inp (kst s))). length l < 1023"
  shows "\<exists>s'. grep_loop os pattern fd buf s = Some (Ret (), s') \<and>
     written 1 s' = written 1 s @ concat (print_lines (filter (match pattern) (lines_of [] (buf @ inp (kst s)))))"
  using assms
proof (induction "length (inp (kst s))" arbitrary: s buf rule: less_induct)
  case less
  let ?n = "1024 - length buf - 1"
  obtain d k where d: "usys os (CRead fd ?n) s = Some (Ret (int (length d), d), \<lparr>kst = k, calls = calls s @ [CRead fd ?n]\<rparr>)"
    "length d \<le> ?n" "inp (kst s) = d @ inp k" "0 < ?n \<Longrightarrow> inp (kst s) \<noteq> [] \<Longrightarrow> d \<noteq> []" "ok k"
    using read_step [OF less.prems(1)] by metis
  let ?s = "\<lparr>kst = k, calls = calls s @ [CRead fd ?n]\<rparr>"
  show ?case
  proof (cases "d = []")
    case True
    have "lines_of [] (buf @ inp (kst s)) = []"
    proof (cases "inp (kst s) = []")
      case True
      then show ?thesis using lines_of_no_newline [OF less.prems(2), of "[]" "[]"] by simp
    next
      case False
      with True d(4) less.prems(4) have "length buf = 1023" by fastforce
      then show ?thesis
        using less.prems(5) lines_of_no_newline [OF less.prems(2), of "[]"] lines_of_prefix [of buf "inp (kst s)"] by force
    qed
    with True d(1) show ?thesis
      by (subst grep_loop.simps) (simp add: ubind_def uret_def print_lines_def)
  next
    case False
    have z: "0 \<notin> set (buf @ d)" using less.prems(3) d(3) by auto
    obtain left pre where l: "grep_lines pattern (buf @ d) = (print_lines (filter (match pattern) (lines_of [] (buf @ d))), left)"
      "10 \<notin> set left" "buf @ d = pre @ left" "\<And>e. lines_of [] ((buf @ d) @ e) = lines_of [] (buf @ d) @ lines_of [] (left @ e)"
      using grep_lines_spec [OF z] by metis
    let ?ws = "fst (grep_lines pattern (buf @ d))"
    obtain k2 where w: "ufor ?ws (write_line os) ?s = Some (Ret (), \<lparr>kst = k2, calls = calls ?s @ map (CWrite 1) ?ws\<rparr>)"
      "inp k2 = inp k" "ok k2" using writes_print [of ?s ?ws] d(5) by auto
    let ?s2 = "\<lparr>kst = k2, calls = calls ?s @ map (CWrite 1) ?ws\<rparr>"
    have fits: "\<not> 1023 < length buf + length d" using d(2) less.prems(4) by simp
    have step: "grep_loop os pattern fd buf s = grep_loop os pattern fd left ?s2"
      using False d(1) w(1) fits by (subst grep_loop.simps) (simp add: ubind_def l(1))
    have all: "lines_of [] (buf @ inp (kst s)) = lines_of [] (buf @ d) @ lines_of [] (left @ inp k)"
      using l(4) [of "inp k"] d(3) by simp
    obtain s' where s': "grep_loop os pattern fd left ?s2 = Some (Ret (), s')" "written 1 s' = written 1 ?s2 @
        concat (print_lines (filter (match pattern) (lines_of [] (left @ inp (kst ?s2)))))"
    proof (atomize_elim, rule less.hyps)
      show "length (inp (kst ?s2)) < length (inp (kst s))" using False d(3) w(2) by simp
      have "set left \<subseteq> set (buf @ d)" using l(3) by simp
      then show "0 \<notin> set (left @ inp (kst ?s2))" using less.prems(3) z d(3) w(2) by auto
      have "length left \<le> length (buf @ d)" using l(3) by simp
      then show "length left \<le> 1023" using d(2) less.prems(4) by simp
      show "\<forall>l\<in>set (lines_of [] (left @ inp (kst ?s2))). length l < 1023" using less.prems(5) all w(2) by simp
    qed (simp_all add: w(3) l(2))
    have "written 1 ?s2 = written 1 s @ concat ?ws" by (simp add: written_def comp_def)
    with s' step show ?thesis by (simp add: all l(1) print_lines_def w(2))
  qed
qed

end

text \<open>C38. \<^verbatim>\<open>grep\<close> of a stream without zero bytes whose lines fit into the buffer ends and prints exactly the lines that match
  the pattern, complete and in order, however the kernel cuts the stream into reads. Input that the kernel's pipe delivers
  is such a stream.\<close>

theorem grep_prints_matching_lines:
  assumes "input_stream os fd inp ok" and "ok (kst s)" and "0 \<notin> set (inp (kst s))"
    and "\<forall>l\<in>set (lines_of [] (inp (kst s))). length l < 1023"
  shows "\<exists>s'. grep os pattern fd s = Some (Ret (), s') \<and>
     written 1 s' = written 1 s @ concat (print_lines (filter (pattern_matches pattern) (lines_of [] (inp (kst s)))))"
proof -
  have "match pattern = pattern_matches pattern"
    by (rule ext) (rule match_iff)
  then show ?thesis
    using input_stream.grep_loop_prints [OF assms(1,2), of "[]" pattern] assms(3,4) by (simp add: grep_def)
qed

theorem grep_prints_matching_lines_witness:
  "\<exists>s'. grep pipe_os [97, 42, 99] 0 \<lparr>kst = two_lines, calls = []\<rparr> = Some (Ret (), s') \<and> written 1 s' = [99, 100, 10]"
proof -
  note c = two_lines_contents and ok = two_lines_ok
  have l: "lines_of [] (pipe_contents two_lines) = [[97, 98], [99, 100]]" by (simp add: c)
  have m: "filter (match [97, 42, 99]) [[97, 98], [99, 100]] = [[99, 100]]" by code_simp
  have "match [97, 42, 99] = pattern_matches [97, 42, 99]"
    by (rule ext) (rule match_iff)
  with grep_prints_matching_lines [OF pipe_in.input_stream_axioms, of "\<lparr>kst = two_lines, calls = []\<rparr>" "[97, 42, 99]"] m
  show ?thesis by (simp add: ok l c written_def print_lines_def)
qed

end
