(* ===== verification/Uprogs.thy ===== *)
theory Uprogs
  imports Ustream
begin

text \<open>
  The small user programs: \<^verbatim>\<open>cat\<close>, \<^verbatim>\<open>wc\<close>, \<^verbatim>\<open>echo\<close>, \<^verbatim>\<open>kill\<close>, \<^verbatim>\<open>ln\<close>, \<^verbatim>\<open>mkdir\<close>, \<^verbatim>\<open>rm\<close>, \<^verbatim>\<open>ls\<close>, \<^verbatim>\<open>init\<close>, \<^verbatim>\<open>zombie\<close>,
  \<^verbatim>\<open>goodbye\<close> and \<^verbatim>\<open>helloworld\<close>. Each is the function \<^verbatim>\<open>main\<close> of its file over the system calls of \<open>os\<close>; the argument vector is a
  list of strings whose head is the name of the program.
\<close>

section \<open>cat\<close>

partial_function (option) cat :: "'k os \<Rightarrow> int \<Rightarrow> 'k ust \<Rightarrow> (unit uout \<times> 'k ust) option" where
  "cat os fd s =
     ubind (usys os (CRead fd 512)) (\<lambda>(n, d).
       if n > 0 then
         if n \<noteq> int (length d) then ufault ''read''
         else ubind (ucall1 os (CWrite 1 d)) (\<lambda>r.
              if r \<noteq> n then ubind (fprintf os 2 ''cat: write error\<newline>'' []) (\<lambda>_. uexit os 1 None)
              else cat os fd)
       else if n < 0 then ubind (fprintf os 2 ''cat: read error\<newline>'' []) (\<lambda>_. uexit os 1 None)
       else uret ()) s"

definition cat_main :: "'k os \<Rightarrow> u8 list list \<Rightarrow> ('k, unit) prog" where
  "cat_main os argv =
     (if length argv \<le> 1 then ubind (cat os 0) (\<lambda>_. uexit os 0 None)
      else ubind (ufor (tl argv) (\<lambda>f.
             ubind (ucall1 os (COpen f 0)) (\<lambda>fd.
             if fd < 0 then ubind (fprintf os 2 ''cat: cannot open %s\<newline>'' [AStr (Some f)]) (\<lambda>_. uexit os 1 None)
             else ubind (cat os fd) (\<lambda>_. ubind (ucall1 os (CClose fd)) (\<lambda>_. uret ())))))
           (\<lambda>_. uexit os 0 None))"

section \<open>wc\<close>

text \<open>Lines, words and characters so far, and whether the last character was inside a word.\<close>

record wcount =
  wc_l :: u32
  wc_w :: u32
  wc_c :: u32
  inword :: bool

definition wc_space :: "u8 \<Rightarrow> bool" where
  "wc_space c \<longleftrightarrow> c \<in> set [32, 13, 9, 10, 11]"

definition wc_char :: "u8 \<Rightarrow> wcount \<Rightarrow> wcount" where
  "wc_char ch st =
     (let st1 = st\<lparr>wc_c := wc_c st + 1\<rparr>;
          st2 = (if ch = 10 then st1\<lparr>wc_l := wc_l st1 + 1\<rparr> else st1)
      in if wc_space ch then st2\<lparr>inword := False\<rparr>
         else if \<not> inword st2 then st2\<lparr>wc_w := wc_w st2 + 1, inword := True\<rparr>
         else st2)"

partial_function (option) wc_loop :: "'k os \<Rightarrow> int \<Rightarrow> wcount \<Rightarrow> 'k ust \<Rightarrow> ((int \<times> wcount) uout \<times> 'k ust) option" where
  "wc_loop os fd st s =
     ubind (usys os (CRead fd 512)) (\<lambda>(n, d).
       if n > 0 then if n \<noteq> int (length d) then ufault ''read'' else wc_loop os fd (fold wc_char d st)
       else uret (n, st)) s"

definition wc :: "'k os \<Rightarrow> int \<Rightarrow> u8 list \<Rightarrow> ('k, unit) prog" where
  "wc os fd name =
     ubind (wc_loop os fd \<lparr>wc_l = 0, wc_w = 0, wc_c = 0, inword = False\<rparr>) (\<lambda>(n, st).
     if n < 0 then ubind (uprintf os ''wc: read error\<newline>'' []) (\<lambda>_. uexit os 1 None)
     else uprintf os ''%d %d %d %s\<newline>''
            [ANum (scast (wc_l st)), ANum (scast (wc_w st)), ANum (scast (wc_c st)), AStr (Some name)])"

definition wc_main :: "'k os \<Rightarrow> u8 list list \<Rightarrow> ('k, unit) prog" where
  "wc_main os argv =
     (if length argv \<le> 1 then ubind (wc os 0 []) (\<lambda>_. uexit os 0 None)
      else ubind (ufor (tl argv) (\<lambda>f.
             ubind (ucall1 os (COpen f 0)) (\<lambda>fd.
             if fd < 0 then ubind (uprintf os ''wc: cannot open %s\<newline>'' [AStr (Some f)]) (\<lambda>_. uexit os 1 None)
             else ubind (wc os fd f) (\<lambda>_. ubind (ucall1 os (CClose fd)) (\<lambda>_. uret ())))))
           (\<lambda>_. uexit os 0 None))"

section \<open>echo, kill, ln, mkdir, rm\<close>

fun echo_args :: "'k os \<Rightarrow> u8 list list \<Rightarrow> ('k, unit) prog" where
  "echo_args os [] = uret ()"
| "echo_args os (a # as) =
     ubind (ucall1 os (CWrite 1 a)) (\<lambda>_.
     ubind (ucall1 os (CWrite 1 (if as \<noteq> [] then [32] else [10]))) (\<lambda>_. echo_args os as))"

definition echo_main :: "'k os \<Rightarrow> u8 list list \<Rightarrow> ('k, unit) prog" where
  "echo_main os argv = ubind (echo_args os (tl argv)) (\<lambda>_. uexit os 0 None)"

text \<open>\<^verbatim>\<open>atoi\<close> of a string given as a list of bytes.\<close>

fun atoi_list :: "u32 \<Rightarrow> u8 list \<Rightarrow> u32" where
  "atoi_list n [] = n"
| "atoi_list n (c # cs) = (if 48 \<le> c \<and> c \<le> 57 then atoi_list (n * 10 + ucast c - 48) cs else n)"

definition kill_main :: "'k os \<Rightarrow> u8 list list \<Rightarrow> ('k, unit) prog" where
  "kill_main os argv =
     (if length argv < 2 then ubind (fprintf os 2 ''usage: kill pid...\<newline>'' []) (\<lambda>_. uexit os 1 None)
      else ubind (ufor (tl argv) (\<lambda>a. ubind (ucall1 os (CKill (sint (atoi_list 0 a)))) (\<lambda>_. uret ()))) (\<lambda>_. uexit os 0 None))"

definition ln_main :: "'k os \<Rightarrow> u8 list list \<Rightarrow> ('k, unit) prog" where
  "ln_main os argv =
     (case argv of
        [_, old, new] \<Rightarrow>
          ubind (ucall1 os (CLink old new)) (\<lambda>r.
          ubind (if r < 0 then fprintf os 2 ''link %s %s: failed\<newline>'' [AStr (Some old), AStr (Some new)] else uret ()) (\<lambda>_.
          uexit os 0 None))
      | _ \<Rightarrow> ubind (fprintf os 2 ''Usage: ln old new\<newline>'' []) (\<lambda>_. uexit os 1 None))"

text \<open>The loops of \<^verbatim>\<open>mkdir\<close> and \<^verbatim>\<open>rm\<close> stop at the first failure.\<close>

fun mkdir_args :: "'k os \<Rightarrow> u8 list list \<Rightarrow> ('k, unit) prog" where
  "mkdir_args os [] = uret ()"
| "mkdir_args os (a # as) =
     ubind (ucall1 os (CMkdir a)) (\<lambda>r.
     if r < 0 then fprintf os 2 ''mkdir: %s failed to create\<newline>'' [AStr (Some a)] else mkdir_args os as)"

definition mkdir_main :: "'k os \<Rightarrow> u8 list list \<Rightarrow> ('k, unit) prog" where
  "mkdir_main os argv =
     (if length argv < 2 then ubind (fprintf os 2 ''Usage: mkdir files...\<newline>'' []) (\<lambda>_. uexit os 1 None)
      else ubind (mkdir_args os (tl argv)) (\<lambda>_. uexit os 0 None))"

fun rm_args :: "'k os \<Rightarrow> u8 list list \<Rightarrow> ('k, unit) prog" where
  "rm_args os [] = uret ()"
| "rm_args os (a # as) =
     ubind (ucall1 os (CUnlink a)) (\<lambda>r.
     if r < 0 then fprintf os 2 ''rm: %s failed to delete\<newline>'' [AStr (Some a)] else rm_args os as)"

definition rm_main :: "'k os \<Rightarrow> u8 list list \<Rightarrow> ('k, unit) prog" where
  "rm_main os argv =
     (if length argv < 2 then ubind (fprintf os 2 ''Usage: rm files...\<newline>'' []) (\<lambda>_. uexit os 1 None)
      else ubind (rm_args os (tl argv)) (\<lambda>_. uexit os 0 None))"

section \<open>ls\<close>

abbreviation DIRNAME :: nat where "DIRNAME \<equiv> 14"

text \<open>The name after the last slash, padded with blanks to fourteen characters.\<close>

definition fmtname :: "u8 list \<Rightarrow> u8 list" where
  "fmtname path =
     (let p = rev (takeWhile (\<lambda>c. c \<noteq> 47) (rev path))
      in if length p \<ge> DIRNAME then p else p @ replicate (DIRNAME - length p) 32)"

text \<open>Fields of \<^verbatim>\<open>struct stat\<close> and \<^verbatim>\<open>struct dirent\<close>, little endian.\<close>

fun le_val :: "u8 list \<Rightarrow> u64" where
  "le_val [] = 0"
| "le_val (b # bs) = ucast b + 256 * le_val bs"

abbreviation st_ino :: "u8 list \<Rightarrow> u64" where "st_ino st \<equiv> le_val (take 4 (drop 4 st))"
abbreviation st_type :: "u8 list \<Rightarrow> u64" where "st_type st \<equiv> le_val (take 2 (drop 8 st))"
abbreviation st_size :: "u8 list \<Rightarrow> u64" where "st_size st \<equiv> le_val (take 8 (drop 16 st))"

abbreviation de_inum :: "u8 list \<Rightarrow> u64" where "de_inum de \<equiv> le_val (take 2 de)"
abbreviation de_name :: "u8 list \<Rightarrow> u8 list" where "de_name de \<equiv> takeWhile (\<lambda>c. c \<noteq> 0) (take DIRNAME (drop 2 de))"

partial_function (option) ls_dir :: "'k os \<Rightarrow> int \<Rightarrow> u8 list \<Rightarrow> 'k ust \<Rightarrow> (unit uout \<times> 'k ust) option" where
  "ls_dir os fd path s =
     ubind (usys os (CRead fd 16)) (\<lambda>(n, de).
       if n \<noteq> 16 then uret ()
       else if de_inum de = 0 then ls_dir os fd path
       else ubind (ustat os (path @ [47] @ de_name de)) (\<lambda>(r, st).
            ubind (if r < 0 then uprintf os ''ls: cannot stat %s\<newline>'' [AStr (Some (path @ [47] @ de_name de))]
                   else uprintf os ''%s %d %d %d\<newline>''
                          [AStr (Some (fmtname (path @ [47] @ de_name de))), ANum (st_type st), ANum (st_ino st), ANum (st_size st)])
              (\<lambda>_. ls_dir os fd path))) s"

definition ls :: "'k os \<Rightarrow> u8 list \<Rightarrow> ('k, unit) prog" where
  "ls os path =
     ubind (ucall1 os (COpen path 0)) (\<lambda>fd.
     if fd < 0 then fprintf os 2 ''ls: cannot open %s\<newline>'' [AStr (Some path)]
     else ubind (usys os (CFstat fd)) (\<lambda>(r, st).
       if r < 0 then ubind (fprintf os 2 ''ls: cannot stat %s\<newline>'' [AStr (Some path)]) (\<lambda>_.
                     ubind (ucall1 os (CClose fd)) (\<lambda>_. uret ()))
       else ubind (if st_type st = 3 \<or> st_type st = 2 then
                     uprintf os ''%s %d %d %l\<newline>'' [AStr (Some (fmtname path)), ANum (st_type st), ANum (st_ino st), ANum (st_size st)]
                   else if st_type st = 1 then
                     if length path + 1 + DIRNAME + 1 > 512 then uprintf os ''ls: path too long\<newline>'' []
                     else ls_dir os fd path
                   else uret ()) (\<lambda>_.
            ubind (ucall1 os (CClose fd)) (\<lambda>_. uret ()))))"

definition ls_main :: "'k os \<Rightarrow> u8 list list \<Rightarrow> ('k, unit) prog" where
  "ls_main os argv =
     (if length argv < 2 then ubind (ls os (uchars ''.'')) (\<lambda>_. uexit os 0 None)
      else ubind (ufor (tl argv) (ls os)) (\<lambda>_. uexit os 0 None))"

section \<open>init and the demonstration programs\<close>

text \<open>The inner loop of \<^verbatim>\<open>init\<close>: wait until the shell has exited.\<close>

partial_function (option) init_wait :: "'k os \<Rightarrow> int \<Rightarrow> 'k ust \<Rightarrow> (unit uout \<times> 'k ust) option" where
  "init_wait os pid s =
     ubind (ucall1 os (CWait False False)) (\<lambda>wpid.
       if wpid = pid then uret ()
       else if wpid < 0 then ubind (uprintf os ''init: wait returned an error\<newline>'' []) (\<lambda>_. uexit os 1 None)
       else init_wait os pid) s"

partial_function (option) init_loop :: "'k os \<Rightarrow> 'k ust \<Rightarrow> (unit uout \<times> 'k ust) option" where
  "init_loop os s =
     ubind (uprintf os ''init: starting sh\<newline>'' []) (\<lambda>_.
     ubind (ucall1 os CFork) (\<lambda>pid.
       if pid < 0 then ubind (uprintf os ''init: fork failed\<newline>'' []) (\<lambda>_. uexit os 1 None)
       else if pid = 0 then
         ubind (uexec os (uchars ''sh'') [uchars ''sh'']) (\<lambda>_.
         ubind (uprintf os ''init: exec sh failed\<newline>'' []) (\<lambda>_. uexit os 1 None))
       else ubind (init_wait os pid) (\<lambda>_. init_loop os))) s"

definition init_main :: "'k os \<Rightarrow> ('k, unit) prog" where
  "init_main os =
     ubind (ucall1 os (COpen (uchars ''console'') 2)) (\<lambda>fd.
     ubind (if fd < 0 then
              ubind (ucall1 os (CMknod (uchars ''console'') 1 0)) (\<lambda>_.
              ubind (ucall1 os (COpen (uchars ''console'') 2)) (\<lambda>_. uret ()))
            else uret ()) (\<lambda>_.
     ubind (ucall1 os (CDup 0)) (\<lambda>_.
     ubind (ucall1 os (CDup 0)) (\<lambda>_. init_loop os))))"

definition zombie_main :: "'k os \<Rightarrow> ('k, unit) prog" where
  "zombie_main os =
     ubind (ucall1 os CFork) (\<lambda>pid.
     ubind (if pid > 0 then ubind (ucall1 os (CSleep 5)) (\<lambda>_. uret ()) else uret ()) (\<lambda>_. uexit os 0 None))"

definition goodbye_main :: "'k os \<Rightarrow> ('k, unit) prog" where
  "goodbye_main os = uexit os 0 (Some (uchars ''Goodbye World xv6''))"

definition helloworld_main :: "'k os \<Rightarrow> ('k, int) prog" where
  "helloworld_main os = ubind (uprintf os ''Hello World xv6'' []) (\<lambda>_. uret 0)"

section \<open>What wc counts\<close>

text \<open>A word starts at a character that is not a space and follows none but a space.\<close>

definition word_starts :: "u8 list \<Rightarrow> nat set" where
  "word_starts d = {i. i < length d \<and> \<not> wc_space (d ! i) \<and> (i = 0 \<or> wc_space (d ! (i - 1)))}"

definition wc_of :: "u8 list \<Rightarrow> wcount" where
  "wc_of d = \<lparr>wc_l = of_nat (count_list d 10), wc_w = of_nat (card (word_starts d)), wc_c = of_nat (length d),
     inword = (d \<noteq> [] \<and> \<not> wc_space (last d))\<rparr>"

lemma word_starts_snoc:
  "word_starts (d @ [c]) = word_starts d \<union> (if \<not> wc_space c \<and> (d = [] \<or> wc_space (last d)) then {length d} else {})"
  by (cases "d = []") (auto simp: word_starts_def nth_append last_conv_nth less_Suc_eq split: if_splits)

lemma finite_word_starts [simp]: "finite (word_starts d)"
  by (rule finite_subset [of _ "{..<length d}"]) (auto simp: word_starts_def)

lemma word_starts_bound [simp]: "length d \<notin> word_starts d"
  by (simp add: word_starts_def)

lemma wc_char_snoc: "wc_char c (wc_of d) = wc_of (d @ [c])"
proof -
  have "\<not> wc_space c \<Longrightarrow> c \<noteq> 10" by (auto simp: wc_space_def)
  then show ?thesis by (auto simp: wc_char_def wc_of_def Let_def word_starts_snoc add.commute)
qed

lemma fold_wc_char: "fold wc_char e (wc_of d) = wc_of (d @ e)"
  by (induction e arbitrary: d) (simp_all add: wc_char_snoc)

lemma wc_of_Nil: "wc_of [] = \<lparr>wc_l = 0, wc_w = 0, wc_c = 0, inword = False\<rparr>"
  by (simp add: wc_of_def word_starts_def)

definition wc_line :: "wcount \<Rightarrow> u8 list \<Rightarrow> u8 list" where
  "wc_line st name = int_bytes (wc_l st) 10 True @ [32] @ int_bytes (wc_w st) 10 True @ [32] @ int_bytes (wc_c st) 10 True @ [32] @ name @ [10]"

lemma scast_down: "(ucast (scast (x :: u32) :: u64) :: u32) = x"
  by (rule bit_word_eqI) (auto simp: bit_ucast_iff bit_simps)

lemma wc_line_bytes:
  "fmt_bytes False (uchars ''%d %d %d %s\<newline>'') [ANum (scast (wc_l st)), ANum (scast (wc_w st)), ANum (scast (wc_c st)), AStr (Some name)] =
     Some (wc_line st name)"
  by (simp add: uchars_def conv_bytes_def Let_def scast_down wc_line_def)

context input_stream
begin

lemma wc_loop_counts:
  assumes "ok (kst s)"
  shows "\<exists>k cs. wc_loop os fd (wc_of d) s = Some (Ret (0, wc_of (d @ inp (kst s))), \<lparr>kst = k, calls = calls s @ cs\<rparr>) \<and>
     (\<forall>c\<in>set cs. written_call 1 c = [])"
  using assms
proof (induction "length (inp (kst s))" arbitrary: s d rule: less_induct)
  case less
  obtain e k where e: "usys os (CRead fd 512) s = Some (Ret (int (length e), e), \<lparr>kst = k, calls = calls s @ [CRead fd 512]\<rparr>)"
    "inp (kst s) = e @ inp k" "inp (kst s) \<noteq> [] \<Longrightarrow> e \<noteq> []" "ok k"
    using read_step [OF less.prems, of 512] zero_less_numeral by metis
  let ?s = "\<lparr>kst = k, calls = calls s @ [CRead fd 512]\<rparr>"
  show ?case
  proof (cases "e = []")
    case True
    with e(3) have "inp (kst s) = []" by blast
    with True e(1) show ?thesis by (subst wc_loop.simps) (auto simp: ubind_def uret_def)
  next
    case False
    then have "wc_loop os fd (wc_of d) s = wc_loop os fd (wc_of (d @ e)) ?s"
      using e(1) by (subst wc_loop.simps) (simp add: ubind_def fold_wc_char)
    moreover obtain k2 cs where "wc_loop os fd (wc_of (d @ e)) ?s =
        Some (Ret (0, wc_of ((d @ e) @ inp (kst ?s))), \<lparr>kst = k2, calls = calls ?s @ cs\<rparr>)" "\<forall>c\<in>set cs. written_call 1 c = []"
      using less.hyps [of ?s "d @ e"] False e(2,4) by auto
    ultimately show ?thesis using e(2) by (intro exI [of _ k2] exI [of _ "CRead fd 512 # cs"]) simp
  qed
qed

lemma wc_prints:
  assumes "ok (kst s)"
  shows "\<exists>s'. wc os fd name s = Some (Ret (), s') \<and> written 1 s' = written 1 s @ wc_line (wc_of (inp (kst s))) name"
proof -
  obtain k cs where l: "wc_loop os fd (wc_of []) s = Some (Ret (0, wc_of (inp (kst s))), \<lparr>kst = k, calls = calls s @ cs\<rparr>)"
    "\<forall>c\<in>set cs. written_call 1 c = []" using wc_loop_counts [OF assms, of "[]"] by auto
  let ?s = "\<lparr>kst = k, calls = calls s @ cs\<rparr>"
  have "concat (map (written_call 1) cs) = []" using l(2) by simp
  then have "written 1 ?s = written 1 s" by (simp add: written_def)
  with l(1) outputs_written [OF outputs_uprintf [OF wc_line_bytes], of os "wc_of (inp (kst s))" name ?s]
  show ?thesis by (simp add: wc_def wc_of_Nil ubind_def)
qed

lemma cat_copies:
  assumes "ok (kst s)" and full: "\<And>bs k. ok k \<Longrightarrow> fst (fst (os (CWrite 1 bs) k)) = int (length bs)"
  shows "\<exists>s'. cat os fd s = Some (Ret (), s') \<and> written 1 s' = written 1 s @ inp (kst s)"
  using assms(1)
proof (induction "length (inp (kst s))" arbitrary: s rule: less_induct)
  case less
  obtain e k where e: "usys os (CRead fd 512) s = Some (Ret (int (length e), e), \<lparr>kst = k, calls = calls s @ [CRead fd 512]\<rparr>)"
    "inp (kst s) = e @ inp k" "inp (kst s) \<noteq> [] \<Longrightarrow> e \<noteq> []" "ok k"
    using read_step [OF less.prems, of 512] zero_less_numeral by metis
  let ?s = "\<lparr>kst = k, calls = calls s @ [CRead fd 512]\<rparr>"
  show ?case
  proof (cases "e = []")
    case True
    with e(3) have "inp (kst s) = []" by blast
    with True e(1) show ?thesis by (subst cat.simps) (auto simp: ubind_def uret_def)
  next
    case False
    obtain r k2 where w: "ucall1 os (CWrite 1 e) ?s = Some (Ret r, \<lparr>kst = k2, calls = calls ?s @ [CWrite 1 e]\<rparr>)"
      "inp k2 = inp k" "ok k2" using write_step [of ?s e] e(4) by auto
    let ?s2 = "\<lparr>kst = k2, calls = calls ?s @ [CWrite 1 e]\<rparr>"
    have "r = int (length e)" using w(1) full [OF e(4), of e] by simp
    then have "cat os fd s = cat os fd ?s2"
      using False e(1) w(1) by (subst cat.simps) (simp add: ubind_def)
    moreover obtain s' where "cat os fd ?s2 = Some (Ret (), s')" "written 1 s' = written 1 ?s2 @ inp (kst ?s2)"
      using less.hyps [of ?s2] False e(2) w(2,3) by auto
    moreover have "written 1 ?s2 = written 1 s @ e" by (simp add: written_def)
    ultimately show ?thesis using e(2) w(2) by simp
  qed
qed

end

lemma pipe_cat:
  assumes "pipe_inv (kst s)" and "\<not> writeopen (kst s)"
  shows "\<exists>s'. cat pipe_os 0 s = Some (Ret (), s') \<and> written 1 s' = written 1 s @ pipe_contents (kst s)"
  using assms by (intro pipe_in.cat_copies) (simp_all add: pipe_os_def)

text \<open>C40. \<^verbatim>\<open>wc\<close> of a stream, however the kernel cuts it into reads, ends and prints the number of newlines, the number of words and
  the number of bytes of the whole stream, in decimal and followed by the name; a word starts at each non-space that does
  not follow another.\<close>

theorem wc_counts:
  assumes "input_stream os fd inp ok" and "ok (kst s)"
  shows "\<exists>s'. wc os fd name s = Some (Ret (), s') \<and>
     written 1 s' = written 1 s @
       int_bytes (of_nat (count_list (inp (kst s)) 10)) 10 True @ [32] @
       int_bytes (of_nat (card (word_starts (inp (kst s))))) 10 True @ [32] @
       int_bytes (of_nat (length (inp (kst s)))) 10 True @ [32] @ name @ [10]"
  using input_stream.wc_prints [OF assms, of name] by (simp add: wc_line_def wc_of_def)

theorem wc_counts_witness:
  "\<exists>s'. wc pipe_os 0 [120] \<lparr>kst = two_lines, calls = []\<rparr> = Some (Ret (), s') \<and>
     written 1 s' = [50, 32, 50, 32, 54, 32, 120, 10]"
proof -
  have w: "word_starts [97, 98, 10, 99, 100, 10] = {0, 3}"
    by (auto simp: word_starts_def wc_space_def nth_Cons' split: if_splits)
  have "int_bytes 2 10 True = [50]" "int_bytes 6 10 True = [54]" by code_simp+
  with wc_counts [OF pipe_in.input_stream_axioms, of "\<lparr>kst = two_lines, calls = []\<rparr>" "[120]"]
  show ?thesis by (simp add: two_lines_ok two_lines_contents w written_def)
qed

end
