(* ===== verification/Sh.thy ===== *)
theory Sh
  imports Uprintf Fcntl
begin

text \<open>
  The shell (\<^verbatim>\<open>user/sh.c\<close>): its lexer and recursive-descent parser over the line buffer, the execution of a parsed command, and
  the command loop. A pointer into the buffer is an index; a command points at its words by the index of their first character
  and of the character after them, and \<^verbatim>\<open>nulterminate\<close> stores the terminators. \<^verbatim>\<open>panic\<close> is the error \<open>Panic\<close>. Memory for
  commands is assumed to be available. The parser recurses with fuel; \<open>4 * n + 6\<close> is enough for a line of \<open>n\<close> characters.
\<close>

section \<open>Commands\<close>

definition MAXARGS :: nat where "MAXARGS = 10"

datatype cmd =
    ExecCmd "(nat \<times> nat) list"
  | RedirCmd cmd nat nat int int
  | PipeCmd cmd cmd
  | ListCmd cmd cmd
  | BackCmd cmd

text \<open>\<^verbatim>\<open>parseexec\<close> fills in the arguments of the command that it created, which lies under the redirections by then.\<close>

fun set_argv :: "(nat \<times> nat) list \<Rightarrow> cmd \<Rightarrow> cmd" where
  "set_argv av (RedirCmd c q eq mode fd) = RedirCmd (set_argv av c) q eq mode fd"
| "set_argv av (ExecCmd _) = ExecCmd av"
| "set_argv av c = c"

section \<open>Lexer\<close>

definition whitespace :: "u8 list" where "whitespace = [32, 9, 13, 10, 11]"
definition symbols :: "u8 list" where "symbols = [60, 124, 62, 38, 59, 40, 41]"

function skip_white :: "u8 list \<Rightarrow> nat \<Rightarrow> nat \<Rightarrow> nat" where
  "skip_white buf es s = (if s < es \<and> buf ! s \<in> set whitespace then skip_white buf es (Suc s) else s)"
  by pat_completeness auto
termination
  by (relation "measure (\<lambda>(buf, es, s). es - s)") auto

function skip_word :: "u8 list \<Rightarrow> nat \<Rightarrow> nat \<Rightarrow> nat" where
  "skip_word buf es s =
     (if s < es \<and> buf ! s \<notin> set whitespace \<and> buf ! s \<notin> set symbols then skip_word buf es (Suc s) else s)"
  by pat_completeness auto
termination
  by (relation "measure (\<lambda>(buf, es, s). es - s)") auto

declare skip_white.simps [simp del] skip_word.simps [simp del]

text \<open>The token, its start and end in the buffer, and the new position.\<close>

definition gettoken :: "u8 list \<Rightarrow> nat \<Rightarrow> nat \<Rightarrow> u8 \<times> nat \<times> nat \<times> nat" where
  "gettoken buf es s0 =
     (let s = skip_white buf es s0; c = buf ! s;
          (ret, s1) =
            (if c = 0 then (0, s)
             else if c \<in> set [124, 40, 41, 59, 38, 60] then (c, Suc s)
             else if c = 62 then (if buf ! Suc s = 62 then (43, Suc (Suc s)) else (62, Suc s))
             else (97, skip_word buf es s))
      in (ret, s, s1, skip_white buf es s1))"

definition peek :: "u8 list \<Rightarrow> nat \<Rightarrow> u8 list \<Rightarrow> nat \<Rightarrow> nat \<times> bool" where
  "peek buf es toks s0 = (let s = skip_white buf es s0 in (s, buf ! s \<noteq> 0 \<and> buf ! s \<in> set toks))"

definition next_pos :: "u8 \<times> nat \<times> nat \<times> nat \<Rightarrow> nat" where
  "next_pos t = snd (snd (snd t))"

section \<open>Parser\<close>

fun parseredirs :: "nat \<Rightarrow> u8 list \<Rightarrow> nat \<Rightarrow> cmd \<Rightarrow> nat \<Rightarrow> (cmd \<times> nat) res" where
  "parseredirs 0 buf es c s = Inl (Blocks ''parseredirs'')"
| "parseredirs (Suc k) buf es c s =
     (let (s1, p) = peek buf es [60, 62] s
      in if \<not> p then Inr (c, s1)
         else
           let (tok, _, _, s2) = gettoken buf es s1; (tok2, q, eq, s3) = gettoken buf es s2
           in if tok2 \<noteq> 97 then Inl (Panic ''missing file for redirection'')
              else parseredirs k buf es
                     (if tok = 60 then RedirCmd c q eq O_RDONLY 0
                      else if tok = 62 then RedirCmd c q eq (O_WRONLY + O_CREATE + O_TRUNC) 1
                      else if tok = 43 then RedirCmd c q eq (O_WRONLY + O_CREATE) 1
                      else c) s3)"

fun parseargs :: "nat \<Rightarrow> u8 list \<Rightarrow> nat \<Rightarrow> (nat \<times> nat) list \<Rightarrow> cmd \<Rightarrow> nat \<Rightarrow> (cmd \<times> nat) res" where
  "parseargs 0 buf es av ret s = Inl (Blocks ''parseexec'')"
| "parseargs (Suc k) buf es av ret s =
     (let (s1, p) = peek buf es [124, 41, 38, 59] s
      in if p then Inr (set_argv av ret, s1)
         else
           let (tok, q, eq, s2) = gettoken buf es s1
           in if tok = 0 then Inr (set_argv av ret, s2)
              else if tok \<noteq> 97 then Inl (Panic ''syntax'')
              else if length av + 1 \<ge> MAXARGS then Inl (Panic ''too many args'')
              else rbind (parseredirs k buf es ret s2) (\<lambda>(ret1, s3). parseargs k buf es (av @ [(q, eq)]) ret1 s3))"

fun parseback :: "nat \<Rightarrow> u8 list \<Rightarrow> nat \<Rightarrow> cmd \<Rightarrow> nat \<Rightarrow> (cmd \<times> nat) res" where
  "parseback 0 buf es c s = Inl (Blocks ''parseline'')"
| "parseback (Suc k) buf es c s =
     (let (s1, p) = peek buf es [38] s
      in if p then parseback k buf es (BackCmd c) (next_pos (gettoken buf es s1)) else Inr (c, s1))"

function parseline :: "nat \<Rightarrow> u8 list \<Rightarrow> nat \<Rightarrow> nat \<Rightarrow> (cmd \<times> nat) res"
  and parsepipe :: "nat \<Rightarrow> u8 list \<Rightarrow> nat \<Rightarrow> nat \<Rightarrow> (cmd \<times> nat) res"
  and parseexec :: "nat \<Rightarrow> u8 list \<Rightarrow> nat \<Rightarrow> nat \<Rightarrow> (cmd \<times> nat) res"
  and parseblock :: "nat \<Rightarrow> u8 list \<Rightarrow> nat \<Rightarrow> nat \<Rightarrow> (cmd \<times> nat) res" where
  "parseline 0 buf es s = Inl (Blocks ''parseline'')"
| "parseline (Suc k) buf es s =
     rbind (parsepipe k buf es s) (\<lambda>(c, s1).
     rbind (parseback k buf es c s1) (\<lambda>(c1, s2).
     let (s3, p) = peek buf es [59] s2
     in if p then rbind (parseline k buf es (next_pos (gettoken buf es s3))) (\<lambda>(r, s4). Inr (ListCmd c1 r, s4))
        else Inr (c1, s3)))"
| "parsepipe 0 buf es s = Inl (Blocks ''parsepipe'')"
| "parsepipe (Suc k) buf es s =
     rbind (parseexec k buf es s) (\<lambda>(c, s1).
     let (s2, p) = peek buf es [124] s1
     in if p then rbind (parsepipe k buf es (next_pos (gettoken buf es s2))) (\<lambda>(r, s3). Inr (PipeCmd c r, s3))
        else Inr (c, s2))"
| "parseexec 0 buf es s = Inl (Blocks ''parseexec'')"
| "parseexec (Suc k) buf es s =
     (let (s1, p) = peek buf es [40] s
      in if p then parseblock k buf es s1
         else rbind (parseredirs k buf es (ExecCmd []) s1) (\<lambda>(ret, s2). parseargs k buf es [] ret s2))"
| "parseblock 0 buf es s = Inl (Blocks ''parseblock'')"
| "parseblock (Suc k) buf es s =
     (let (s1, p) = peek buf es [40] s
      in if \<not> p then Inl (Panic ''parseblock'')
         else
           rbind (parseline k buf es (next_pos (gettoken buf es s1))) (\<lambda>(c, s2).
           let (s3, p2) = peek buf es [41] s2
           in if \<not> p2 then Inl (Panic ''syntax - missing )'')
              else parseredirs k buf es c (next_pos (gettoken buf es s3))))"
  by pat_completeness auto
termination
  by (relation "measure (case_sum (case_sum fst fst) (case_sum fst fst))") auto

text \<open>\<^verbatim>\<open>nulterminate\<close> stores a terminator after each word.\<close>

fun nulterminate :: "cmd \<Rightarrow> u8 list \<Rightarrow> u8 list" where
  "nulterminate (ExecCmd av) buf = fold (\<lambda>(q, eq) b. b[eq := 0]) av buf"
| "nulterminate (RedirCmd c q eq mode fd) buf = (nulterminate c buf)[eq := 0]"
| "nulterminate (PipeCmd l r) buf = nulterminate r (nulterminate l buf)"
| "nulterminate (ListCmd l r) buf = nulterminate r (nulterminate l buf)"
| "nulterminate (BackCmd c) buf = nulterminate c buf"

text \<open>\<^verbatim>\<open>parsecmd\<close> up to the test for leftovers: the command and the position reached.\<close>

definition parsetop :: "u8 list \<Rightarrow> (cmd \<times> nat) res" where
  "parsetop line =
     (let es = length line; buf = line @ [0]
      in rbind (parseline (4 * es + 6) buf es 0) (\<lambda>(c, s). Inr (c, fst (peek buf es [] s))))"

definition parsecmd :: "u8 list \<Rightarrow> (cmd \<times> u8 list) res" where
  "parsecmd line =
     rbind (parsetop line) (\<lambda>(c, s).
     if s \<noteq> length line then Inl (Panic ''syntax'') else Inr (c, nulterminate c (line @ [0])))"

section \<open>Execution\<close>

definition sh_panic :: "'k os \<Rightarrow> string \<Rightarrow> ('k, 'a) prog" where
  "sh_panic os msg = ubind (fprintf os 2 ''%s\<newline>'' [AStr (Some (uchars msg))]) (\<lambda>_. uexit os 1 None)"

definition fork1 :: "'k os \<Rightarrow> ('k, int) prog" where
  "fork1 os = ubind (ucall1 os CFork) (\<lambda>pid. if pid = - 1 then sh_panic os ''fork'' else uret pid)"

definition cstr_at :: "u8 list \<Rightarrow> nat \<Rightarrow> u8 list" where
  "cstr_at buf q = takeWhile (\<lambda>c. c \<noteq> 0) (drop q buf)"

text \<open>The descriptors that \<^verbatim>\<open>pipe\<close> stores.\<close>

definition fd_of :: "u8 list \<Rightarrow> int" where
  "fd_of bs = sint (word_rcat (rev bs) :: u32)"

definition udo :: "'k os \<Rightarrow> ucall list \<Rightarrow> ('k, unit) prog" where
  "udo os cs = ufor cs (\<lambda>c. ubind (ucall1 os c) (\<lambda>_. uret ()))"

fun runcmd :: "'k os \<Rightarrow> u8 list \<Rightarrow> cmd \<Rightarrow> ('k, unit) prog" where
  "runcmd os buf (ExecCmd av) =
     (if av = [] then uexit os 1 None
      else let argv = map (\<lambda>(q, eq). cstr_at buf q) av
           in ubind (uexec os (hd argv) argv) (\<lambda>_.
              ubind (fprintf os 2 ''exec %s failed\<newline>'' [AStr (Some (hd argv))]) (\<lambda>_. uexit os 0 None)))"
| "runcmd os buf (RedirCmd c q eq mode fd) =
     ubind (ucall1 os (CClose fd)) (\<lambda>_.
     ubind (ucall1 os (COpen (cstr_at buf q) mode)) (\<lambda>r.
     if r < 0 then ubind (fprintf os 2 ''open %s failed\<newline>'' [AStr (Some (cstr_at buf q))]) (\<lambda>_. uexit os 1 None)
     else runcmd os buf c))"
| "runcmd os buf (ListCmd l r) =
     ubind (fork1 os) (\<lambda>pid.
     if pid = 0 then runcmd os buf l
     else ubind (udo os [CWait False False]) (\<lambda>_. runcmd os buf r))"
| "runcmd os buf (PipeCmd l r) =
     ubind (usys os CPipe) (\<lambda>(ret, d).
     if ret < 0 then sh_panic os ''pipe''
     else
       let p0 = fd_of (take 4 d); p1 = fd_of (take 4 (drop 4 d))
       in ubind (fork1 os) (\<lambda>pid.
          if pid = 0 then ubind (udo os [CClose 1, CDup p1, CClose p0, CClose p1]) (\<lambda>_. runcmd os buf l)
          else ubind (fork1 os) (\<lambda>pid2.
               if pid2 = 0 then ubind (udo os [CClose 0, CDup p0, CClose p0, CClose p1]) (\<lambda>_. runcmd os buf r)
               else ubind (udo os [CClose p0, CClose p1, CWait False False, CWait False False]) (\<lambda>_. uexit os 0 None))))"
| "runcmd os buf (BackCmd c) =
     ubind (fork1 os) (\<lambda>pid. if pid = 0 then runcmd os buf c else uexit os 0 None)"

text \<open>\<^verbatim>\<open>runcmd(parsecmd(buf))\<close> in the child.\<close>

definition sh_child :: "'k os \<Rightarrow> u8 list \<Rightarrow> ('k, unit) prog" where
  "sh_child os line =
     (case parsetop line of
        Inr (c, s) \<Rightarrow>
          if s \<noteq> length line then
            ubind (fprintf os 2 ''leftovers: %s\<newline>'' [AStr (Some (drop s line))]) (\<lambda>_. sh_panic os ''syntax'')
          else runcmd os (nulterminate c (line @ [0])) c
      | Inl (Panic msg) \<Rightarrow> sh_panic os msg
      | Inl _ \<Rightarrow> ufault ''parser'')"

text \<open>\<^verbatim>\<open>getcmd\<close>: the line read, or \<open>None\<close> at the end of the input.\<close>

definition getcmd :: "'k os \<Rightarrow> nat \<Rightarrow> ('k, u8 list option) prog" where
  "getcmd os nbuf =
     ubind (ucall1 os (CWrite 2 [36, 32])) (\<lambda>_.
     ubind (gets os nbuf) (\<lambda>d.
     let line = takeWhile (\<lambda>c. c \<noteq> 0) d in uret (if line = [] then None else Some line)))"

text \<open>The message buffer of \<^verbatim>\<open>main\<close> is not initialised: \<open>junk\<close> is what it holds. Printing it runs past its end if there is no
  terminator in it.\<close>

definition print_msg :: "'k os \<Rightarrow> u8 list \<Rightarrow> u8 list \<Rightarrow> ('k, unit) prog" where
  "print_msg os junk d =
     (let msg = d @ drop (length d) junk
      in if 0 \<in> set msg then uprintf os ''%s\<newline>'' [AStr (Some (takeWhile (\<lambda>c. c \<noteq> 0) msg))] else ufault ''msg'')"

text \<open>The built-in command \<^verbatim>\<open>cd\<close>; the newline is chopped off.\<close>

definition sh_cd :: "'k os \<Rightarrow> u8 list \<Rightarrow> ('k, unit) prog" where
  "sh_cd os line =
     ubind (ucall1 os (CChdir (drop 3 (butlast line)))) (\<lambda>ret.
     if ret < 0 then fprintf os 2 ''cannot cd %s\<newline>'' [AStr (Some (drop 3 (butlast line)))] else uret ())"

partial_function (option) sh_loop :: "'k os \<Rightarrow> u8 list \<Rightarrow> 'k ust \<Rightarrow> (unit uout \<times> 'k ust) option" where
  "sh_loop os junk s =
     ubind (getcmd os 100) (\<lambda>r.
       if r = None then uret ()
       else if take 3 (the r) = [99, 100, 32] then ubind (sh_cd os (the r)) (\<lambda>_. sh_loop os junk)
       else ubind (fork1 os) (\<lambda>pid.
            if pid = 0 then sh_child os (the r)
            else ubind (usys os (CWait False True)) (\<lambda>(w, d).
                 ubind (print_msg os junk d) (\<lambda>_. sh_loop os junk)))) s"

text \<open>The loop that makes sure that three descriptors are open.\<close>

partial_function (option) sh_open :: "'k os \<Rightarrow> 'k ust \<Rightarrow> (unit uout \<times> 'k ust) option" where
  "sh_open os s =
     ubind (ucall1 os (COpen (uchars ''console'') O_RDWR)) (\<lambda>fd.
       if fd < 0 then uret ()
       else if fd \<ge> 3 then udo os [CClose fd]
       else sh_open os) s"

definition sh_main :: "'k os \<Rightarrow> u8 list \<Rightarrow> ('k, unit) prog" where
  "sh_main os junk = ubind (sh_open os) (\<lambda>_. ubind (sh_loop os junk) (\<lambda>_. uexit os 0 None))"

section \<open>The parser ends on every line\<close>

text \<open>A buffer that holds a line with its terminator at \<open>es\<close>.\<close>

definition linebuf :: "u8 list \<Rightarrow> nat \<Rightarrow> bool" where
  "linebuf buf es \<longleftrightarrow> length buf = Suc es \<and> buf ! es = 0 \<and> (\<forall>i<es. buf ! i \<noteq> 0)"

lemma skip_white_bounds: "s \<le> es \<Longrightarrow> s \<le> skip_white buf es s \<and> skip_white buf es s \<le> es"
proof (induction buf es s rule: skip_white.induct)
  case (1 buf es s)
  then show ?case by (subst (1 2) skip_white.simps) auto
qed

lemma skip_word_bounds: "s \<le> es \<Longrightarrow> s \<le> skip_word buf es s \<and> skip_word buf es s \<le> es"
proof (induction buf es s rule: skip_word.induct)
  case (1 buf es s)
  then show ?case by (subst (1 2) skip_word.simps) auto
qed

lemma skip_white_stops: "buf ! es = 0 \<Longrightarrow> s \<le> es \<Longrightarrow> buf ! skip_white buf es s \<notin> set whitespace"
proof (induction buf es s rule: skip_white.induct)
  case (1 buf es s)
  have "0 \<notin> set whitespace" by (simp add: whitespace_def)
  with 1 show ?case by (subst skip_white.simps) (cases "s = es", auto)
qed

lemma skip_word_moves:
  "s < es \<Longrightarrow> buf ! s \<notin> set whitespace \<Longrightarrow> buf ! s \<notin> set symbols \<Longrightarrow> s < skip_word buf es s"
  using skip_word_bounds [of "Suc s" es buf] by (subst skip_word.simps) auto

lemma gettoken_bounds:
  assumes "linebuf buf es" and "s0 \<le> es" and "gettoken buf es s0 = (tok, q, eq, s')"
  shows "s0 \<le> q" and "q \<le> eq" and "eq \<le> s'" and "s' \<le> es" and "tok \<noteq> 0 \<Longrightarrow> s0 < s'"
proof -
  let ?s = "skip_white buf es s0"
  have s: "s0 \<le> ?s" "?s \<le> es" "buf ! ?s \<notin> set whitespace"
    using skip_white_bounds skip_white_stops assms(1,2) by (auto simp: linebuf_def)
  have z: "?s < es" if "buf ! ?s \<noteq> 0" using that s(2) assms(1) by (cases "?s = es") (auto simp: linebuf_def)
  have z2: "Suc ?s < es" if "buf ! ?s = 62" "buf ! Suc ?s = 62"
    using that z assms(1) by (cases "Suc ?s = es") (auto simp: linebuf_def)
  have w: "?s < skip_word buf es ?s" if "buf ! ?s \<noteq> 0" "buf ! ?s \<notin> set [124, 40, 41, 59, 38, 60]" "buf ! ?s \<noteq> 62"
    using that s z by (intro skip_word_moves) (auto simp: symbols_def)
  define r where "r = (if buf ! ?s = 0 then (0, ?s)
             else if buf ! ?s \<in> set [124, 40, 41, 59, 38, 60] then (buf ! ?s, Suc ?s)
             else if buf ! ?s = 62 then (if buf ! Suc ?s = 62 then (43, Suc (Suc ?s)) else (62, Suc ?s))
             else (97, skip_word buf es ?s))"
  have eqs: "tok = fst r" "q = ?s" "eq = snd r" "s' = skip_white buf es (snd r)"
    using assms(3) by (auto simp: gettoken_def Let_def r_def split: prod.splits)
  have r: "?s \<le> snd r" "snd r \<le> es" "fst r \<noteq> 0 \<Longrightarrow> ?s < snd r"
    using s z z2 w skip_word_bounds [OF s(2), of buf] by (auto simp: r_def)
  show "s0 \<le> q" "q \<le> eq" "eq \<le> s'" "s' \<le> es" "tok \<noteq> 0 \<Longrightarrow> s0 < s'"
    using s r skip_white_bounds [OF r(2), of buf] by (auto simp: eqs)
qed

lemma peek_bounds:
  assumes "s0 \<le> es" and "peek buf es toks s0 = (s, p)"
  shows "s0 \<le> s" and "s \<le> es"
  using assms skip_white_bounds [OF assms(1), of buf] by (auto simp: peek_def Let_def)

lemma peek_next:
  assumes "linebuf buf es" and "s0 \<le> es" and "peek buf es toks s0 = (s, True)"
  obtains tok q eq s' where "gettoken buf es s = (tok, q, eq, s')" "s < s'" "s' \<le> es" "s0 \<le> s" "s < es"
    "next_pos (gettoken buf es s) = s'"
proof -
  obtain tok q eq s' where g: "gettoken buf es s = (tok, q, eq, s')" by (metis surj_pair)
  note b = peek_bounds [OF assms(2,3)]
  have c: "buf ! s \<noteq> 0" "s = skip_white buf es s0" using assms(3) by (auto simp: peek_def Let_def)
  have "buf ! s \<notin> set whitespace" using skip_white_stops [of buf es s0] assms(1,2) c(2) by (simp add: linebuf_def)
  then have "skip_white buf es s = s" by (subst skip_white.simps) simp
  with g c(1) have "tok \<noteq> 0" by (auto simp: gettoken_def Let_def split: if_splits prod.splits)
  with gettoken_bounds [OF assms(1) b(2) g] b g show ?thesis by (intro that [of tok q eq s']) (auto simp: next_pos_def)
qed

text \<open>A parser started at \<open>s\<close> ends: with a command and a later position, or with a message.\<close>

definition ends :: "nat \<Rightarrow> nat \<Rightarrow> (cmd \<times> nat) res \<Rightarrow> bool" where
  "ends es s r \<longleftrightarrow> (case r of Inr (c, s') \<Rightarrow> s \<le> s' \<and> s' \<le> es | Inl e \<Rightarrow> \<exists>msg. e = Panic msg)"

lemma ends_simps [simp]:
  "ends es s (Inr (c, s')) \<longleftrightarrow> s \<le> s' \<and> s' \<le> es" "ends es s (Inl (Panic msg))"
  by (simp_all add: ends_def)

lemma ends_later: "ends es s' r \<Longrightarrow> s \<le> s' \<Longrightarrow> ends es s r"
  by (auto simp: ends_def split: sum.splits)

lemma ends_rbind:
  assumes "ends es s1 r" and "s \<le> s1" and "\<And>c s2. r = Inr (c, s2) \<Longrightarrow> s1 \<le> s2 \<Longrightarrow> s2 \<le> es \<Longrightarrow> ends es s2 (f (c, s2))"
  shows "ends es s (rbind r f)"
proof (cases r)
  case (Inr a)
  obtain c s2 where a: "a = (c, s2)" by fastforce
  with Inr assms(1) have s2: "s1 \<le> s2" "s2 \<le> es" by auto
  have "ends es s (f (c, s2))" by (rule ends_later [OF assms(3)]) (use Inr a s2 assms(2) in auto)
  with Inr a show ?thesis by simp
qed (use assms in \<open>auto simp: ends_def\<close>)

lemma parseredirs_ends:
  assumes "linebuf buf es"
  shows "s \<le> es \<Longrightarrow> es - s < k \<Longrightarrow> ends es s (parseredirs k buf es c s)"
proof (induction k arbitrary: c s)
  case (Suc k)
  obtain s1 p where p: "peek buf es [60, 62] s = (s1, p)" by fastforce
  note b = peek_bounds [OF Suc.prems(1) p]
  show ?case
  proof (cases p)
    case True
    with p obtain tok q eq s2 where g: "gettoken buf es s1 = (tok, q, eq, s2)" "s1 < s2" "s2 \<le> es"
      using peek_next [OF assms Suc.prems(1)] by metis
    obtain tok2 q2 eq2 s3 where g2: "gettoken buf es s2 = (tok2, q2, eq2, s3)" by (metis surj_pair)
    note b2 = gettoken_bounds [OF assms g(3) g2]
    have "ends es s3 (parseredirs k buf es c' s3)" for c' using Suc.IH [of s3 c'] Suc.prems b g b2 by linarith
    then have "ends es s (parseredirs k buf es c' s3)" for c' by (rule ends_later) (use b g b2 in linarith)
    with True p g(1) g2 show ?thesis by simp
  qed (use p b in simp)
qed simp

lemma parseback_ends:
  assumes "linebuf buf es"
  shows "s \<le> es \<Longrightarrow> es - s < k \<Longrightarrow> ends es s (parseback k buf es c s)"
proof (induction k arbitrary: c s)
  case (Suc k)
  obtain s1 p where p: "peek buf es [38] s = (s1, p)" by fastforce
  note b = peek_bounds [OF Suc.prems(1) p]
  show ?case
  proof (cases p)
    case True
    with p obtain s2 where g: "next_pos (gettoken buf es s1) = s2" "s1 < s2" "s2 \<le> es"
      using peek_next [OF assms Suc.prems(1)] by metis
    have "ends es s2 (parseback k buf es (BackCmd c) s2)" using Suc.IH [of s2 "BackCmd c"] Suc.prems b g by linarith
    then have "ends es s (parseback k buf es (BackCmd c) s2)" by (rule ends_later) (use b g in linarith)
    with True p g(1) show ?thesis by simp
  qed (use p b in simp)
qed simp

lemma parseargs_ends:
  assumes "linebuf buf es"
  shows "s \<le> es \<Longrightarrow> es - s + 1 < k \<Longrightarrow> ends es s (parseargs k buf es av ret s)"
proof (induction k arbitrary: av ret s)
  case (Suc k)
  obtain s1 p where p: "peek buf es [124, 41, 38, 59] s = (s1, p)" by fastforce
  note b = peek_bounds [OF Suc.prems(1) p]
  obtain tok q eq s2 where g: "gettoken buf es s1 = (tok, q, eq, s2)" by (metis surj_pair)
  note b2 = gettoken_bounds [OF assms b(2) g]
  have "ends es s (rbind (parseredirs k buf es ret s2) (\<lambda>(ret1, s3). parseargs k buf es (av @ [(q, eq)]) ret1 s3))" if "tok \<noteq> 0"
  proof (rule ends_rbind [of es s2])
    show "ends es s2 (parseredirs k buf es ret s2)"
      using b b2 that Suc.prems by (intro parseredirs_ends [OF assms]) linarith+
    show "s \<le> s2" using b b2 by linarith
    show "ends es s3 (case (c, s3) of (ret1, s3) \<Rightarrow> parseargs k buf es (av @ [(q, eq)]) ret1 s3)" if "s2 \<le> s3" "s3 \<le> es" for c s3
      using Suc.IH [of s3] that \<open>tok \<noteq> 0\<close> b b2 Suc.prems by simp
  qed
  then show ?case using p b g b2 by auto
qed simp

lemma parseline_ends_Suc:
  assumes buf: "linebuf buf es" and k: "es - s < k" and pipe: "ends es s (parsepipe k buf es s)"
    and line: "\<And>t. s < t \<Longrightarrow> t \<le> es \<Longrightarrow> ends es t (parseline k buf es t)"
  shows "ends es s (parseline (Suc k) buf es s)"
  unfolding parseline.simps
proof (rule ends_rbind [OF pipe order_refl], unfold prod.case, goal_cases)
  case c: (1 c s1)
  have "ends es s1 (parseback k buf es c s1)" using c k by (intro parseback_ends [OF buf]) linarith+
  then show ?case
  proof (rule ends_rbind [OF _ order_refl], unfold prod.case, goal_cases)
    case c1: (1 c1 s2)
    obtain s3 p where p: "peek buf es [59] s2 = (s3, p)" by fastforce
    note b = peek_bounds [OF c1(3) p]
    show ?case
    proof (cases p)
      case True
      with p obtain s4 where g: "next_pos (gettoken buf es s3) = s4" "s3 < s4" "s4 \<le> es"
        using peek_next [OF buf c1(3)] by metis
      then have "ends es s4 (parseline k buf es s4)" using b c c1 by (intro line) linarith+
      then have "ends es s2 (rbind (parseline k buf es s4) (\<lambda>(r, s4). Inr (ListCmd c1 r, s4)))"
        by (rule ends_rbind) (use b g in auto)
      with True p g(1) show ?thesis by simp
    qed (use p b in simp)
  qed
qed

lemma parsepipe_ends_Suc:
  assumes buf: "linebuf buf es" and exec: "ends es s (parseexec k buf es s)"
    and pipe: "\<And>t. s < t \<Longrightarrow> t \<le> es \<Longrightarrow> ends es t (parsepipe k buf es t)"
  shows "ends es s (parsepipe (Suc k) buf es s)"
  unfolding parsepipe.simps
proof (rule ends_rbind [OF exec order_refl], unfold prod.case, goal_cases)
  case c: (1 c s1)
  obtain s2 p where p: "peek buf es [124] s1 = (s2, p)" by fastforce
  note b = peek_bounds [OF c(3) p]
  show ?case
  proof (cases p)
    case True
    with p obtain s3 where g: "next_pos (gettoken buf es s2) = s3" "s2 < s3" "s3 \<le> es"
      using peek_next [OF buf c(3)] by metis
    then have "ends es s3 (parsepipe k buf es s3)" using b c by (intro pipe) linarith+
    then have "ends es s1 (rbind (parsepipe k buf es s3) (\<lambda>(r, s3). Inr (PipeCmd c r, s3)))"
      by (rule ends_rbind) (use b g in auto)
    with True p g(1) show ?thesis by simp
  qed (use p b in simp)
qed

lemma parseexec_ends_Suc:
  assumes buf: "linebuf buf es" and s: "s \<le> es" and k: "es - s + 1 < k"
    and block: "\<And>t. s \<le> t \<Longrightarrow> t \<le> es \<Longrightarrow> ends es t (parseblock k buf es t)"
  shows "ends es s (parseexec (Suc k) buf es s)"
proof -
  obtain s1 p where p: "peek buf es [40] s = (s1, p)" by fastforce
  note b = peek_bounds [OF s p]
  have blk: "ends es s (parseblock k buf es s1)" by (rule ends_later [OF block [OF b] b(1)])
  have "ends es s1 (parseredirs k buf es (ExecCmd []) s1)" using b k by (intro parseredirs_ends [OF buf]) linarith+
  then have "ends es s (rbind (parseredirs k buf es (ExecCmd []) s1) (\<lambda>(ret, s2). parseargs k buf es [] ret s2))"
    by (rule ends_rbind [OF _ b(1)]) (use b k in \<open>auto intro!: parseargs_ends [OF buf]\<close>)
  with blk p show ?thesis by simp
qed

lemma parseblock_ends_Suc:
  assumes buf: "linebuf buf es" and s: "s \<le> es" and k: "es - s < k"
    and line: "\<And>t. s < t \<Longrightarrow> t \<le> es \<Longrightarrow> ends es t (parseline k buf es t)"
  shows "ends es s (parseblock (Suc k) buf es s)"
proof -
  obtain s1 p where p: "peek buf es [40] s = (s1, p)" by fastforce
  show ?thesis
  proof (cases p)
    case True
    with p obtain s2 where g: "next_pos (gettoken buf es s1) = s2" "s1 < s2" "s2 \<le> es" "s \<le> s1"
      using peek_next [OF buf s] by metis
    then have "ends es s2 (parseline k buf es s2)" by (intro line) linarith+
    then have "ends es s (rbind (parseline k buf es s2) (\<lambda>(c, s2). let (s3, p2) = peek buf es [41] s2
         in if \<not> p2 then Inl (Panic ''syntax - missing )'') else parseredirs k buf es c (next_pos (gettoken buf es s3))))"
    proof (rule ends_rbind, unfold prod.case, goal_cases)
      case c: (2 c s3)
      obtain s4 p2 where p2: "peek buf es [41] s3 = (s4, p2)" by fastforce
      show ?case
      proof (cases p2)
        case True
        with p2 obtain s5 where g5: "next_pos (gettoken buf es s4) = s5" "s4 < s5" "s5 \<le> es" "s3 \<le> s4"
          using peek_next [OF buf c(3)] by metis
        have "ends es s5 (parseredirs k buf es c s5)" using g5 c k g by (intro parseredirs_ends [OF buf]) linarith+
        then have "ends es s3 (parseredirs k buf es c s5)" by (rule ends_later) (use g5 in linarith)
        with True p2 g5(1) show ?thesis by simp
      qed (use p2 in simp)
    qed (use g in linarith)
    with True p g(1) show ?thesis by simp
  qed (use p in simp)
qed

lemma parser_ends:
  assumes "linebuf buf es"
  shows parseline_ends: "s \<le> es \<Longrightarrow> 4 * (es - s) + 6 \<le> k \<Longrightarrow> ends es s (parseline k buf es s)"
    and parsepipe_ends: "s \<le> es \<Longrightarrow> 4 * (es - s) + 5 \<le> k \<Longrightarrow> ends es s (parsepipe k buf es s)"
    and parseexec_ends: "s \<le> es \<Longrightarrow> 4 * (es - s) + 4 \<le> k \<Longrightarrow> ends es s (parseexec k buf es s)"
    and parseblock_ends: "s \<le> es \<Longrightarrow> 4 * (es - s) + 3 \<le> k \<Longrightarrow> ends es s (parseblock k buf es s)"
proof (induction k arbitrary: s)
  case (Suc k)
  { case 1
    then show ?case by (intro parseline_ends_Suc [OF assms] Suc.IH) linarith+ }
  { case 2
    then show ?case by (intro parsepipe_ends_Suc [OF assms] Suc.IH) linarith+ }
  { case 3
    then show ?case by (intro parseexec_ends_Suc [OF assms] Suc.IH) linarith+ }
  { case 4
    then show ?case by (intro parseblock_ends_Suc [OF assms] Suc.IH) linarith+ }
qed simp_all

section \<open>A command leaves the process\<close>

definition leaves :: "('k, unit) prog \<Rightarrow> bool" where
  "leaves p \<longleftrightarrow> (\<forall>s. \<exists>s'. p s = Some (Gone, s'))"

text \<open>A program that returns a value or leaves.\<close>

definition proceeds :: "('k, 'a) prog \<Rightarrow> bool" where
  "proceeds p \<longleftrightarrow> (\<forall>s. (\<exists>x s'. p s = Some (Ret x, s')) \<or> (\<exists>s'. p s = Some (Gone, s')))"

lemma leaves_ubind:
  assumes "proceeds p" and "\<And>x. leaves (f x)"
  shows "leaves (ubind p f)"
  unfolding leaves_def
proof
  fix s
  from assms(1) consider x s1 where "p s = Some (Ret x, s1)" | s1 where "p s = Some (Gone, s1)"
    unfolding proceeds_def by blast
  then show "\<exists>s'. ubind p f s = Some (Gone, s')"
    using assms(2) by cases (auto simp: ubind_def leaves_def)
qed

lemma leaves_uexit [simp]: "leaves (uexit os st msg)"
  by (simp add: leaves_def)

declare usys_eq [simp del] ucall1_eq [simp del] uexit_eq [simp del]

lemma proceeds_ubind: "proceeds p \<Longrightarrow> (\<And>x. proceeds (f x)) \<Longrightarrow> proceeds (ubind p f)"
  unfolding proceeds_def
proof
  fix s
  assume p: "\<forall>s. (\<exists>x s'. p s = Some (Ret x, s')) \<or> (\<exists>s'. p s = Some (Gone, s'))"
    and f: "\<And>x. \<forall>s. (\<exists>y s'. f x s = Some (Ret y, s')) \<or> (\<exists>s'. f x s = Some (Gone, s'))"
  from p consider x s1 where "p s = Some (Ret x, s1)" | s1 where "p s = Some (Gone, s1)" by blast
  then show "(\<exists>x s'. ubind p f s = Some (Ret x, s')) \<or> (\<exists>s'. ubind p f s = Some (Gone, s'))"
    using f by cases (simp_all add: ubind_def)
qed

lemma proceeds_basic [simp]:
  "proceeds (uret x)" "proceeds (usys os c)" "proceeds (ucall1 os c)" "proceeds (uexit os st msg)" "proceeds (uexec os path argv)"
  by (auto simp: proceeds_def uret_def uexec_def ubind_def usys_eq ucall1_eq uexit_eq)

lemma proceeds_outputs: "outputs p x fd bs \<Longrightarrow> proceeds p"
  by (fastforce simp: outputs_def proceeds_def)

lemma proceeds_udo [simp]: "proceeds (udo os cs)"
  unfolding udo_def by (induction cs) (simp_all add: proceeds_ubind)

lemma proceeds_fprintf: "fmt_bytes False (uchars fmt) ap = Some bs \<Longrightarrow> proceeds (fprintf os fd fmt ap)"
  by (rule proceeds_outputs [OF outputs_fprintf])

lemma proceeds_messages [simp]:
  "proceeds (fprintf os 2 ''%s\<newline>'' [AStr (Some t)])" "proceeds (fprintf os 2 ''exec %s failed\<newline>'' [AStr (Some t)])"
  "proceeds (fprintf os 2 ''open %s failed\<newline>'' [AStr (Some t)])" "proceeds (fprintf os 2 ''leftovers: %s\<newline>'' [AStr (Some t)])"
  by (rule proceeds_fprintf, simp add: uchars_def conv_bytes_def Let_def)+

lemma leaves_sh_panic [simp]: "leaves (sh_panic os msg)"
  unfolding sh_panic_def by (rule leaves_ubind) simp_all

lemma proceeds_sh_panic [simp]: "proceeds (sh_panic os msg)"
  unfolding sh_panic_def by (intro proceeds_ubind) simp_all

lemma proceeds_fork1 [simp]: "proceeds (fork1 os)"
  unfolding fork1_def by (intro proceeds_ubind) simp_all

lemma leaves_if: "leaves p \<Longrightarrow> leaves q \<Longrightarrow> leaves (if b then p else q)"
  by simp

lemma leaves_split: "(\<And>x y. leaves (f x y)) \<Longrightarrow> leaves (case z of (x, y) \<Rightarrow> f x y)"
  by (cases z) simp

lemma runcmd_leaves: "leaves (runcmd os buf c)"
  by (induction c) (auto simp: Let_def intro!: leaves_ubind leaves_if leaves_split)

text \<open>C36. The child that the shell forks for a line always comes to an end: whatever the line and whatever the kernel answers, the
  parser ends within its fuel, and the command is executed until the process exits or is replaced by another program. It never
  returns into the command loop, as the attribute \<^verbatim>\<open>noreturn\<close> promises, and never faults.\<close>

theorem sh_child_ends:
  assumes "0 \<notin> set line"
  shows "\<exists>s'. sh_child os line s = Some (Gone, s')"
proof -
  let ?buf = "line @ [0]" and ?es = "length line"
  have buf: "linebuf ?buf ?es" using assms by (auto simp: linebuf_def nth_append in_set_conv_nth)
  have "ends ?es 0 (parseline (4 * ?es + 6) ?buf ?es 0)" by (rule parseline_ends [OF buf]) simp_all
  then consider c t where "parsetop line = Inr (c, t)" | msg where "parsetop line = Inl (Panic msg)"
    by (cases "parseline (4 * ?es + 6) ?buf ?es 0") (auto simp: parsetop_def Let_def ends_def)
  then have "leaves (sh_child os line)"
    by cases (auto simp: sh_child_def runcmd_leaves intro!: leaves_ubind)
  then show ?thesis unfolding leaves_def by blast
qed

theorem sh_child_ends_witness:
  "\<exists>s'. sh_child (\<lambda>c k. ((- 1, []), k)) [40, 97, 62, 98] \<lparr>kst = (), calls = []\<rparr> = Some (Gone, s')"
  using sh_child_ends [of "[40, 97, 62, 98]" "\<lambda>c k. ((- 1, []), k)" "\<lparr>kst = (), calls = []\<rparr>"] by simp

end
