(* ===== verification/ShParse.thy ===== *)
theory ShParse
  imports Sh
begin

text \<open>
  What the shell's parser computes: commands as trees of words, their spelling as text, and the proof that parsing the spelling of
  any command tree gives that tree back, with every word terminated in the buffer.
\<close>

section \<open>Commands and their spelling\<close>

datatype rkind = RIn | ROut | RAppend

datatype shcmd =
    SExec "u8 list list"
  | SRedir shcmd rkind "u8 list"
  | SPipe shcmd shcmd
  | SList shcmd shcmd
  | SBack shcmd

fun rsym :: "rkind \<Rightarrow> u8 list" where
  "rsym RIn = [60]"
| "rsym ROut = [62]"
| "rsym RAppend = [62, 62]"

fun rmode :: "rkind \<Rightarrow> int" where
  "rmode RIn = O_RDONLY"
| "rmode ROut = O_WRONLY + O_CREATE + O_TRUNC"
| "rmode RAppend = O_WRONLY + O_CREATE"

fun rfd :: "rkind \<Rightarrow> int" where
  "rfd RIn = 0"
| "rfd ROut = 1"
| "rfd RAppend = 1"

definition rtoks :: "(rkind \<times> u8 list) list \<Rightarrow> u8 list list" where
  "rtoks rs = concat (map (\<lambda>(r, f). [rsym r, f]) rs)"

text \<open>The tokens of a command as a line (level 0), before an ampersand (1), in a pipeline (2) and as an element of one (3), with
  parentheses where the grammar needs them.\<close>

fun toks :: "nat \<Rightarrow> shcmd \<Rightarrow> u8 list list" where
  "toks _ (SExec ws) = ws"
| "toks _ (SRedir c r f) = toks 3 c @ [rsym r, f]"
| "toks n (SPipe l r) = (if n \<le> 2 then toks 3 l @ [[124]] @ toks 2 r else [[40]] @ toks 3 l @ [[124]] @ toks 2 r @ [[41]])"
| "toks n (SBack c) = (if n \<le> 1 then toks 1 c @ [[38]] else [[40]] @ toks 1 c @ [[38]] @ [[41]])"
| "toks n (SList l r) = (if n = 0 then toks 1 l @ [[59]] @ toks 0 r else [[40]] @ toks 1 l @ [[59]] @ toks 0 r @ [[41]])"

text \<open>Each token is followed by a blank.\<close>

definition spell :: "u8 list list \<Rightarrow> u8 list" where
  "spell ts = concat (map (\<lambda>t. t @ [32]) ts)"

definition spelling :: "shcmd \<Rightarrow> u8 list" where
  "spelling c = spell (toks 0 c)"

definition word :: "u8 list \<Rightarrow> bool" where
  "word w \<longleftrightarrow> w \<noteq> [] \<and> (\<forall>c\<in>set w. c \<noteq> 0 \<and> c \<notin> set whitespace \<and> c \<notin> set symbols)"

fun words_ok :: "shcmd \<Rightarrow> bool" where
  "words_ok (SExec ws) = ((\<forall>w\<in>set ws. word w) \<and> length ws < MAXARGS)"
| "words_ok (SRedir c r f) = (words_ok c \<and> word f)"
| "words_ok (SPipe l r) = (words_ok l \<and> words_ok r)"
| "words_ok (SList l r) = (words_ok l \<and> words_ok r)"
| "words_ok (SBack c) = words_ok c"

text \<open>The tree that a parsed command stands for, reading its words as strings of the buffer.\<close>

definition kind_of :: "int \<Rightarrow> int \<Rightarrow> rkind" where
  "kind_of mode fd = (if fd = 0 then RIn else if mode = O_WRONLY + O_CREATE then RAppend else ROut)"

fun tree :: "u8 list \<Rightarrow> cmd \<Rightarrow> shcmd" where
  "tree buf (ExecCmd av) = SExec (map (\<lambda>(q, eq). cstr_at buf q) av)"
| "tree buf (RedirCmd c q eq mode fd) = SRedir (tree buf c) (kind_of mode fd) (cstr_at buf q)"
| "tree buf (PipeCmd l r) = SPipe (tree buf l) (tree buf r)"
| "tree buf (ListCmd l r) = SList (tree buf l) (tree buf r)"
| "tree buf (BackCmd c) = SBack (tree buf c)"

section \<open>Tokens in the buffer\<close>

definition sym_toks :: "u8 list list" where
  "sym_toks = [[124], [40], [41], [59], [38], [60], [62], [62, 62]]"

definition tok_ok :: "u8 list \<Rightarrow> bool" where
  "tok_ok t \<longleftrightarrow> word t \<or> t \<in> set sym_toks"

definition at :: "u8 list \<Rightarrow> nat \<Rightarrow> nat \<Rightarrow> u8 list list \<Rightarrow> bool" where
  "at buf es s ts \<longleftrightarrow> linebuf buf es \<and> s \<le> es \<and> drop s buf = spell ts @ [0] \<and> (\<forall>t\<in>set ts. tok_ok t)"

definition kind :: "u8 list \<Rightarrow> u8" where
  "kind t = (if word t then 97 else if t = [62, 62] then 43 else hd t)"

lemma spell_simps [simp]: "spell [] = []" "spell (t # ts) = t @ 32 # spell ts" "spell (ts @ us) = spell ts @ spell us"
  by (simp_all add: spell_def)

lemma tok_ok_first:
  assumes "tok_ok t"
  obtains c cs where "t = c # cs" "c \<notin> set whitespace" "c \<noteq> 0"
proof -
  have w: "\<not> x \<in> set whitespace" if "[x] \<in> set sym_toks \<or> [x, x] \<in> set sym_toks" for x
    using that by (auto simp: sym_toks_def whitespace_def)
  from assms consider "word t" | "t \<in> set sym_toks" unfolding tok_ok_def by blast
  then show ?thesis
  proof cases
    case 1
    then show ?thesis using that by (cases t) (auto simp: word_def)
  next
    case 2
    then show ?thesis using that by (auto simp: sym_toks_def whitespace_def)
  qed
qed

lemma at_length: "at buf es s ts \<Longrightarrow> es = s + length (spell ts)"
proof -
  assume a: "at buf es s ts"
  then have d: "drop s buf = spell ts @ [0]" by (simp add: at_def)
  have "length buf - s = length (drop s buf)" by simp
  also have "\<dots> = Suc (length (spell ts))" unfolding d by simp
  finally show ?thesis using a by (simp add: at_def linebuf_def)
qed

lemma at_nth: "at buf es s ts \<Longrightarrow> buf ! (s + i) = (spell ts @ [0]) ! i"
proof -
  assume a: "at buf es s ts"
  then have "s \<le> length buf" by (simp add: at_def linebuf_def)
  then have "buf ! (s + i) = drop s buf ! i" by simp
  with a show ?thesis by (simp add: at_def)
qed

lemma at_char: "at buf es s ts \<Longrightarrow> buf ! s = (case ts of [] \<Rightarrow> 0 | t # _ \<Rightarrow> hd t)"
proof -
  assume a: "at buf es s ts"
  show ?thesis
  proof (cases ts)
    case (Cons t us)
    then obtain c cs where "t = c # cs" using a by (auto simp: at_def elim: tok_ok_first)
    with Cons at_nth [OF a, of 0] show ?thesis by simp
  qed (use at_nth [OF a, of 0] in simp)
qed

lemma at_start: "at buf es s ts \<Longrightarrow> skip_white buf es s = s"
proof -
  assume a: "at buf es s ts"
  have "buf ! s \<notin> set whitespace"
  proof (cases ts)
    case (Cons t us)
    then obtain c cs where "t = c # cs" "c \<notin> set whitespace" using a by (auto simp: at_def elim: tok_ok_first)
    with Cons at_char [OF a] show ?thesis by simp
  qed (use at_char [OF a] in \<open>simp add: whitespace_def\<close>)
  then show ?thesis by (subst skip_white.simps) simp
qed

lemma at_next:
  assumes a: "at buf es s (t # ts)"
  shows "at buf es (s + length t + 1) ts" and "skip_white buf es (s + length t) = s + length t + 1"
proof -
  have es: "es = s + length t + 1 + length (spell ts)" using at_length [OF a] by simp
  have "drop (length t + 1) (drop s buf) = spell ts @ [0]" using a by (simp add: at_def)
  then show n: "at buf es (s + length t + 1) ts" using a es by (simp add: at_def add.commute add.left_commute)
  have "buf ! (s + length t) = 32" using at_nth [OF a, of "length t"] by (simp add: nth_append)
  then have "skip_white buf es (s + length t) = skip_white buf es (Suc (s + length t))"
    using es by (subst skip_white.simps) (simp add: whitespace_def)
  with at_start [OF n] show "skip_white buf es (s + length t) = s + length t + 1" by simp
qed

lemma skip_word_run:
  assumes "\<And>i. i < n \<Longrightarrow> buf ! (s + i) \<notin> set whitespace \<and> buf ! (s + i) \<notin> set symbols"
    and "s + n < es" and "buf ! (s + n) \<in> set whitespace"
  shows "skip_word buf es s = s + n"
  using assms
proof (induction n arbitrary: s)
  case 0
  then show ?case by (subst skip_word.simps) simp
next
  case (Suc n)
  have "skip_word buf es (Suc s) = Suc s + n"
    by (rule Suc.IH) (use Suc.prems(1) [of "Suc _"] Suc.prems(2,3) in auto)
  then show ?case using Suc.prems(1) [of 0] Suc.prems(2) by (subst skip_word.simps) simp
qed

lemma gettoken_at:
  assumes a: "at buf es s (t # ts)"
  shows "gettoken buf es s = (kind t, s, s + length t, s + length t + 1)"
proof -
  have ch: "buf ! (s + i) = (t @ 32 # spell ts @ [0]) ! i" for i using at_nth [OF a, of i] by simp
  have ok: "tok_ok t" using a by (simp add: at_def)
  have st: "skip_white buf es s = s" by (rule at_start [OF a])
  show ?thesis
  proof (cases "word t")
    case True
    have "skip_word buf es s = s + length t"
      by (rule skip_word_run) (use True ch at_length [OF a] in \<open>auto simp: word_def nth_append whitespace_def\<close>)
    moreover have "buf ! s \<noteq> 0" "buf ! s \<notin> set symbols" using True ch [of 0] by (cases t; simp add: word_def)+
    then have "buf ! s \<notin> set [124, 40, 41, 59, 38, 60]" "buf ! s \<noteq> 62" by (simp_all add: symbols_def)
    ultimately show ?thesis
      using True at_next(2) [OF a] \<open>buf ! s \<noteq> 0\<close> unfolding gettoken_def st Let_def kind_def by (simp only: if_False if_True prod.case)
  next
    case False
    then consider c where "t = [c]" "c \<in> set [124, 40, 41, 59, 38, 60]" | "t = [62]" | "t = [62, 62]"
      using ok by (auto simp: tok_ok_def sym_toks_def)
    then show ?thesis
    proof cases
      case 1
      then have "buf ! s = c" "c \<noteq> 0" using ch [of 0] by auto
      with 1 False at_next(2) [OF a] show ?thesis
        unfolding gettoken_def st Let_def kind_def by (simp only: if_False if_True prod.case) simp
    qed (use False ch [of 0] ch [of 1] at_next(2) [OF a] in \<open>simp_all add: gettoken_def st Let_def kind_def\<close>)
  qed
qed

lemma gettoken_end: "at buf es s [] \<Longrightarrow> gettoken buf es s = (0, s, s, s)"
  using at_char [of buf es s "[]"] at_start [of buf es s "[]"] by (simp add: gettoken_def Let_def)

lemma peek_at: "at buf es s ts \<Longrightarrow> peek buf es cs s = (s, ts \<noteq> [] \<and> hd (hd ts) \<in> set cs)"
proof -
  assume a: "at buf es s ts"
  have "hd (hd ts) \<noteq> 0" if "ts \<noteq> []"
    using that a by (cases ts) (auto simp: at_def elim: tok_ok_first)
  then show ?thesis using at_char [OF a] at_start [OF a] by (cases ts) (auto simp: peek_def Let_def)
qed

section \<open>Commands that denote trees\<close>

text \<open>The slice of the buffer is the word, with a blank behind it.\<close>

definition wpos :: "u8 list \<Rightarrow> nat \<times> nat \<Rightarrow> u8 list \<Rightarrow> bool" where
  "wpos buf p w \<longleftrightarrow> word w \<and> snd p = fst p + length w \<and> (\<exists>r. drop (fst p) buf = w @ 32 # r)"

fun denotes :: "u8 list \<Rightarrow> cmd \<Rightarrow> shcmd \<Rightarrow> bool" where
  "denotes buf (ExecCmd av) (SExec ws) = list_all2 (wpos buf) av ws"
| "denotes buf (RedirCmd c q eq mode fd) (SRedir c' r f) =
     (denotes buf c c' \<and> wpos buf (q, eq) f \<and> mode = rmode r \<and> fd = rfd r)"
| "denotes buf (PipeCmd l r) (SPipe l' r') = (denotes buf l l' \<and> denotes buf r r')"
| "denotes buf (ListCmd l r) (SList l' r') = (denotes buf l l' \<and> denotes buf r r')"
| "denotes buf (BackCmd c) (SBack c') = denotes buf c c'"
| "denotes buf _ _ = False"

definition wrap :: "(rkind \<times> u8 list) list \<Rightarrow> shcmd \<Rightarrow> shcmd" where
  "wrap rs c = foldl (\<lambda>c (r, f). SRedir c r f) c rs"

definition wrap_cmd :: "((nat \<times> nat) \<times> rkind) list \<Rightarrow> cmd \<Rightarrow> cmd" where
  "wrap_cmd ps c = foldl (\<lambda>c ((q, eq), r). RedirCmd c q eq (rmode r) (rfd r)) c ps"

definition redirs_at :: "u8 list \<Rightarrow> ((nat \<times> nat) \<times> rkind) list \<Rightarrow> (rkind \<times> u8 list) list \<Rightarrow> bool" where
  "redirs_at buf ps rs \<longleftrightarrow> list_all2 (\<lambda>(p, r) (r', f). r = r' \<and> wpos buf p f) ps rs"

lemma wrap_simps [simp]:
  "wrap [] c = c" "wrap ((r, f) # rs) c = wrap rs (SRedir c r f)"
  "wrap_cmd [] d = d" "wrap_cmd (((q, eq), r) # ps) d = wrap_cmd ps (RedirCmd d q eq (rmode r) (rfd r))"
  by (simp_all add: wrap_def wrap_cmd_def)

lemma denotes_wrap: "redirs_at buf ps rs \<Longrightarrow> denotes buf d c \<Longrightarrow> denotes buf (wrap_cmd ps d) (wrap rs c)"
  unfolding redirs_at_def by (induction ps rs arbitrary: d c rule: list_all2_induct) auto

lemma set_argv_wrap: "set_argv av (wrap_cmd ps (ExecCmd x)) = wrap_cmd ps (ExecCmd av)"
proof -
  have "set_argv av (wrap_cmd ps d) = wrap_cmd ps (set_argv av d)" for d
    by (induction ps arbitrary: d) auto
  then show ?thesis by simp
qed

lemma wpos_at: "at buf es s (w # ts) \<Longrightarrow> word w \<Longrightarrow> wpos buf (s, s + length w) w"
  by (simp add: at_def wpos_def)

definition follow :: "u8 list \<Rightarrow> u8 list list \<Rightarrow> bool" where
  "follow cs rest \<longleftrightarrow> rest = [] \<or> hd (hd rest) \<in> set cs"

lemma rtoks_simps [simp]: "rtoks [] = []" "rtoks ((r, f) # rs) = rsym r # f # rtoks rs"
  by (simp_all add: rtoks_def)

lemma kind_word [simp]: "word w \<Longrightarrow> kind w = 97"
  by (simp add: kind_def)

lemma kind_rsym: "kind [60] = 60" "kind [62] = 62" "kind [62, 62] = 43"
  by (simp_all add: kind_def word_def symbols_def)

lemma hd_word: "word w \<Longrightarrow> hd w \<notin> set symbols"
  by (cases w) (auto simp: word_def)

lemma parseredirs_at:
  assumes "at buf es s (rtoks rs @ rest)" and "\<forall>(r, f)\<in>set rs. word f" and "rest \<noteq> [] \<Longrightarrow> hd (hd rest) \<notin> set [60, 62]"
    and "es - s < k"
  shows "\<exists>ps s'. parseredirs k buf es c s = Inr (wrap_cmd ps c, s') \<and> at buf es s' rest \<and> redirs_at buf ps rs"
  using assms
proof (induction rs arbitrary: c s k)
  case Nil
  then obtain j where "k = Suc j" by (cases k) auto
  with Nil peek_at [of buf es s rest] show ?case
    by (intro exI [of _ "[]"] exI [of _ s]) (auto simp: redirs_at_def)
next
  case (Cons a rs)
  obtain r f where a: "a = (r, f)" by fastforce
  obtain j where k: "k = Suc j" using Cons.prems(4) by (cases k) auto
  have f: "word f" using Cons.prems(2) a by simp
  have at0: "at buf es s (rsym r # f # rtoks rs @ rest)" using Cons.prems(1) a by simp
  let ?s1 = "s + length (rsym r) + 1" and ?s2 = "s + length (rsym r) + 1 + length f + 1"
  note at1 = at_next(1) [OF at0]
  note at2 = at_next(1) [OF at1]
  let ?c = "RedirCmd c ?s1 (?s1 + length f) (rmode r) (rfd r)"
  have "\<exists>ps s'. parseredirs j buf es ?c ?s2 = Inr (wrap_cmd ps ?c, s') \<and> at buf es s' rest \<and> redirs_at buf ps rs"
    using Cons.prems(2-4) at_length [OF at0] at_length [OF at2] k by (intro Cons.IH [OF at2]) auto
  then obtain ps s' where ps: "parseredirs j buf es ?c ?s2 = Inr (wrap_cmd ps ?c, s')" "at buf es s' rest" "redirs_at buf ps rs" by blast
  have "peek buf es [60, 62] s = (s, True)" using peek_at [OF at0, of "[60, 62]"] by (cases r) auto
  with ps(1) gettoken_at [OF at0] gettoken_at [OF at1] f
  have "parseredirs k buf es c s = Inr (wrap_cmd (((?s1, ?s1 + length f), r) # ps) c, s')"
    by (cases r) (simp_all add: k kind_rsym)
  moreover have "redirs_at buf (((?s1, ?s1 + length f), r) # ps) (a # rs)"
    using ps(3) wpos_at [OF at1 f] by (simp add: redirs_at_def a)
  ultimately show ?case using ps(2) by blast
qed

lemma parseargs_stops:
  assumes "at buf es s rest" and "follow [124, 41, 38, 59] rest" and "0 < k"
  shows "parseargs k buf es av ret s = Inr (set_argv av ret, s)"
proof -
  obtain j where "k = Suc j" using assms(3) by (cases k) auto
  with assms peek_at [OF assms(1)] gettoken_end [of buf es s] show ?thesis
    by (cases "rest = []") (auto simp: follow_def)
qed

lemma parseargs_at:
  assumes "at buf es s (ws @ rtoks rs @ rest)" and "\<forall>w\<in>set ws. word w" and "\<forall>(r, f)\<in>set rs. word f" and "ws = [] \<Longrightarrow> rs = []"
    and "follow [124, 41, 38, 59] rest" and "length av + length ws < MAXARGS" and "es - s + 1 < k"
  shows "\<exists>qs ps s'. parseargs k buf es av ret s = Inr (set_argv (av @ qs) (wrap_cmd ps ret), s') \<and> at buf es s' rest \<and>
     list_all2 (wpos buf) qs ws \<and> redirs_at buf ps rs"
  using assms
proof (induction ws arbitrary: av ret s k rs)
  case Nil
  then have "parseargs k buf es av ret s = Inr (set_argv av ret, s)" by (intro parseargs_stops [of _ _ _ rest]) auto
  with Nil show ?case by (intro exI [of _ "[]"] exI [of _ s]) (auto simp: redirs_at_def)
next
  case (Cons w ws)
  obtain j where k: "k = Suc j" using Cons.prems(7) by (cases k) auto
  have w: "word w" using Cons.prems(2) by simp
  have at0: "at buf es s (w # ws @ rtoks rs @ rest)" using Cons.prems(1) by simp
  note at1 = at_next(1) [OF at0]
  let ?s1 = "s + length w + 1" and ?q = "(s, s + length w)"
  have p: "peek buf es [124, 41, 38, 59] s = (s, False)"
    using peek_at [OF at0, of "[124, 41, 38, 59]"] hd_word [OF w] by (auto simp: symbols_def)
  define rs1 rs2 where "rs1 = (if ws = [] then rs else [])" and "rs2 = (if ws = [] then [] else rs)"
  have at1': "at buf es ?s1 (rtoks rs1 @ ws @ rtoks rs2 @ rest)" using at1 by (cases "ws = []") (simp_all add: rs1_def rs2_def)
  have "hd (hd (ws @ rtoks rs2 @ rest)) \<notin> set [60, 62]" if "ws @ rtoks rs2 @ rest \<noteq> []"
    using that Cons.prems(2,5) hd_word by (cases ws) (auto simp: rs2_def follow_def symbols_def)
  then obtain ps1 s2 where r1: "parseredirs j buf es ret ?s1 = Inr (wrap_cmd ps1 ret, s2)" "at buf es s2 (ws @ rtoks rs2 @ rest)"
      "redirs_at buf ps1 rs1"
    using parseredirs_at [OF at1', of j ret] Cons.prems(3,7) k at_length [OF at0] at_length [OF at1] by (auto simp: rs1_def)
  have "es - s2 \<le> es - ?s1" using at_length [OF r1(2)] at_length [OF at1'] by simp
  then have "\<exists>qs ps s'. parseargs j buf es (av @ [?q]) (wrap_cmd ps1 ret) s2 =
      Inr (set_argv ((av @ [?q]) @ qs) (wrap_cmd ps (wrap_cmd ps1 ret)), s') \<and> at buf es s' rest \<and>
      list_all2 (wpos buf) qs ws \<and> redirs_at buf ps rs2"
    using Cons.prems k at_length [OF at0] by (intro Cons.IH [OF r1(2)]) (auto simp: rs2_def)
  then obtain qs ps s' where i: "parseargs j buf es (av @ [?q]) (wrap_cmd ps1 ret) s2 =
      Inr (set_argv ((av @ [?q]) @ qs) (wrap_cmd ps (wrap_cmd ps1 ret)), s')" "at buf es s' rest" "list_all2 (wpos buf) qs ws"
      "redirs_at buf ps rs2" by blast
  have "parseargs k buf es av ret s = Inr (set_argv (av @ ?q # qs) (wrap_cmd (ps1 @ ps) ret), s')"
    using p gettoken_at [OF at0] w r1(1) i(1) Cons.prems(6) by (simp add: k wrap_cmd_def)
  moreover have "redirs_at buf (ps1 @ ps) rs"
    using r1(3) i(4) by (cases "ws = []") (simp_all add: rs1_def rs2_def redirs_at_def)
  ultimately show ?case using i(2,3) wpos_at [OF at0 w] by (intro exI [of _ "?q # qs"] exI [of _ "ps1 @ ps"] exI [of _ s']) simp
qed

section \<open>What each parsing function does\<close>

definition parses3 :: "u8 list \<Rightarrow> nat \<Rightarrow> shcmd \<Rightarrow> bool" where
  "parses3 buf es c \<longleftrightarrow> (\<forall>k s rs rest. at buf es s (toks 3 c @ rtoks rs @ rest) \<longrightarrow> (\<forall>(r, f)\<in>set rs. word f) \<longrightarrow>
     follow [124, 41, 38, 59] rest \<longrightarrow> 4 * (es - s) + 4 \<le> k \<longrightarrow>
     (\<exists>d s'. parseexec k buf es s = Inr (d, s') \<and> at buf es s' rest \<and> denotes buf d (wrap rs c)))"

definition parses2 :: "u8 list \<Rightarrow> nat \<Rightarrow> shcmd \<Rightarrow> bool" where
  "parses2 buf es c \<longleftrightarrow> (\<forall>k s rest. at buf es s (toks 2 c @ rest) \<longrightarrow> follow [41, 38, 59] rest \<longrightarrow> 4 * (es - s) + 5 \<le> k \<longrightarrow>
     (\<exists>d s'. parsepipe k buf es s = Inr (d, s') \<and> at buf es s' rest \<and> denotes buf d c))"

definition parses1 :: "u8 list \<Rightarrow> nat \<Rightarrow> shcmd \<Rightarrow> bool" where
  "parses1 buf es c \<longleftrightarrow> (\<forall>k s n rest. at buf es s (toks 1 c @ replicate n [38] @ rest) \<longrightarrow> follow [41, 59] rest \<longrightarrow>
     4 * (es - s) + 5 \<le> k \<longrightarrow>
     (\<exists>d s1. parsepipe k buf es s = Inr (d, s1) \<and>
        (\<forall>j. es - s < j \<longrightarrow> (\<exists>d' s'. parseback j buf es d s1 = Inr (d', s') \<and> at buf es s' rest \<and> denotes buf d' ((SBack ^^ n) c)))))"

definition parses0 :: "u8 list \<Rightarrow> nat \<Rightarrow> shcmd \<Rightarrow> bool" where
  "parses0 buf es c \<longleftrightarrow> (\<forall>k s rest. at buf es s (toks 0 c @ rest) \<longrightarrow> follow [41] rest \<longrightarrow> 4 * (es - s) + 6 \<le> k \<longrightarrow>
     (\<exists>d s'. parseline k buf es s = Inr (d, s') \<and> at buf es s' rest \<and> denotes buf d c))"

lemma tok_sym [simp]: "kind [124] = 124" "kind [40] = 40" "kind [41] = 41" "kind [59] = 59" "kind [38] = 38"
  by (simp_all add: kind_def word_def symbols_def)

lemma next_pos_at: "at buf es s (t # ts) \<Longrightarrow> next_pos (gettoken buf es s) = s + length t + 1"
  by (simp add: gettoken_at next_pos_def)

lemma exec_head:
  assumes "\<forall>w\<in>set ws. word w" and "follow [124, 41, 38, 59] rest" and "ws @ rtoks rs @ rest \<noteq> []"
  shows "hd (hd (ws @ rtoks rs @ rest)) \<noteq> 40"
proof (cases ws)
  case Nil
  have "hd (rsym r) \<noteq> 40" for r by (cases r) simp_all
  with Nil assms(2,3) show ?thesis by (cases rs) (auto simp: follow_def)
qed (use assms(1) hd_word in \<open>auto simp: symbols_def\<close>)

lemma at_sym: "at buf es s ([c] # ts) \<Longrightarrow> at buf es (s + 2) ts"
  using at_next(1) [of buf es s "[c]" ts] by simp

lemma next_pos_sym: "at buf es s ([c] # ts) \<Longrightarrow> next_pos (gettoken buf es s) = s + 2"
  by (simp add: next_pos_at)

lemma parses3_exec:
  assumes "\<forall>w\<in>set ws. word w" and "length ws < MAXARGS"
  shows "parses3 buf es (SExec ws)"
  unfolding parses3_def
proof (intro allI impI)
  fix k s rs rest
  assume a: "at buf es s (toks 3 (SExec ws) @ rtoks rs @ rest)" and f: "\<forall>(r, f)\<in>set rs. word f"
    and fo: "follow [124, 41, 38, 59] rest" and k: "4 * (es - s) + 4 \<le> k"
  obtain j where j: "k = Suc j" using k by (cases k) auto
  have "hd (hd (ws @ rtoks rs @ rest)) \<noteq> 40" if "ws @ rtoks rs @ rest \<noteq> []"
    by (rule exec_head [OF assms(1) fo that])
  with peek_at [OF a, of "[40]"] have p: "peek buf es [40] s = (s, False)" by auto
  define rs1 rs2 where "rs1 = (if ws = [] then rs else [])" and "rs2 = (if ws = [] then [] else rs)"
  have a': "at buf es s (rtoks rs1 @ ws @ rtoks rs2 @ rest)" using a by (cases "ws = []") (simp_all add: rs1_def rs2_def)
  have "hd (hd (ws @ rtoks rs2 @ rest)) \<notin> set [60, 62]" if "ws @ rtoks rs2 @ rest \<noteq> []"
    using that assms(1) fo hd_word by (cases ws) (auto simp: rs2_def follow_def symbols_def)
  then obtain ps1 s2 where r1: "parseredirs j buf es (ExecCmd []) s = Inr (wrap_cmd ps1 (ExecCmd []), s2)"
      "at buf es s2 (ws @ rtoks rs2 @ rest)" "redirs_at buf ps1 rs1"
    using parseredirs_at [OF a', of j "ExecCmd []"] f k j by (auto simp: rs1_def)
  have "es - s2 \<le> es - s" using at_length [OF r1(2)] at_length [OF a'] by simp
  moreover have "\<forall>(r, f)\<in>set rs2. word f" "ws = [] \<Longrightarrow> rs2 = []" using f by (simp_all add: rs2_def)
  ultimately obtain qs ps s' where i: "parseargs j buf es [] (wrap_cmd ps1 (ExecCmd [])) s2 =
      Inr (set_argv ([] @ qs) (wrap_cmd ps (wrap_cmd ps1 (ExecCmd []))), s')" "at buf es s' rest" "list_all2 (wpos buf) qs ws"
      "redirs_at buf ps rs2"
    using parseargs_at [OF r1(2), of "[]" j "wrap_cmd ps1 (ExecCmd [])"] assms fo k j by auto
  have "wrap_cmd ps (wrap_cmd ps1 (ExecCmd [])) = wrap_cmd (ps1 @ ps) (ExecCmd [])" by (simp add: wrap_cmd_def)
  then have "parseexec k buf es s = Inr (wrap_cmd (ps1 @ ps) (ExecCmd qs), s')"
    using p r1(1) i(1) by (simp add: j set_argv_wrap)
  moreover have "redirs_at buf (ps1 @ ps) rs"
    using r1(3) i(4) by (cases "ws = []") (simp_all add: rs1_def rs2_def redirs_at_def)
  ultimately show "\<exists>d s'. parseexec k buf es s = Inr (d, s') \<and> at buf es s' rest \<and> denotes buf d (wrap rs (SExec ws))"
    using i(2,3) denotes_wrap by (metis denotes.simps(1))
qed

lemma parses3_redir: "parses3 buf es c \<Longrightarrow> word f \<Longrightarrow> parses3 buf es (SRedir c r f)"
  unfolding parses3_def
proof (intro allI impI, goal_cases)
  case (1 k s rs rest)
  have "\<exists>d s'. parseexec k buf es s = Inr (d, s') \<and> at buf es s' rest \<and> denotes buf d (wrap ((r, f) # rs) c)"
    using 1 by (intro 1(1) [rule_format]) auto
  then show ?case by simp
qed

lemma parses3_paren:
  assumes "toks 3 c = [40] # toks 0 c @ [[41]]" and "parses0 buf es c"
  shows "parses3 buf es c"
  unfolding parses3_def
proof (intro allI impI)
  fix k s rs rest
  assume a: "at buf es s (toks 3 c @ rtoks rs @ rest)" and f: "\<forall>(r, f)\<in>set rs. word f"
    and fo: "follow [124, 41, 38, 59] rest" and k: "4 * (es - s) + 4 \<le> k"
  obtain j where j: "k = Suc (Suc j)" using k by (intro that [of "k - 2"]) simp
  have a0: "at buf es s ([40] # toks 0 c @ [41] # rtoks rs @ rest)" using a assms(1) by simp
  note a1 = at_sym [OF a0]
  have "\<exists>d s'. parseline j buf es (s + 2) = Inr (d, s') \<and> at buf es s' ([41] # rtoks rs @ rest) \<and> denotes buf d c"
    using a1 k j at_length [OF a0] at_length [OF a1]
    by (intro assms(2) [unfolded parses0_def, rule_format]) (auto simp: follow_def)
  then obtain d s2 where l: "parseline j buf es (s + 2) = Inr (d, s2)" "at buf es s2 ([41] # rtoks rs @ rest)"
    "denotes buf d c" by blast
  note a3 = at_sym [OF l(2)]
  have "rest \<noteq> [] \<Longrightarrow> hd (hd rest) \<notin> set [60, 62]" using fo by (auto simp: follow_def)
  moreover have "es - (s2 + 2) < j" using at_length [OF a0] at_length [OF l(2)] k j by simp
  ultimately obtain ps s' where r: "parseredirs j buf es d (s2 + 2) = Inr (wrap_cmd ps d, s')" "at buf es s' rest"
      "redirs_at buf ps rs" using parseredirs_at [OF a3 f] by blast
  have "parseexec k buf es s = Inr (wrap_cmd ps d, s')"
    using peek_at [OF a0, of "[40]"] next_pos_sym [OF a0] l(1) peek_at [OF l(2), of "[41]"] next_pos_sym [OF l(2)] r(1) by (simp add: j)
  with r denotes_wrap [OF r(3) l(3)]
  show "\<exists>d s'. parseexec k buf es s = Inr (d, s') \<and> at buf es s' rest \<and> denotes buf d (wrap rs c)" by blast
qed

lemma parses2_of_3:
  assumes "toks 2 c = toks 3 c" and "parses3 buf es c"
  shows "parses2 buf es c"
  unfolding parses2_def
proof (intro allI impI)
  fix k s rest
  assume a: "at buf es s (toks 2 c @ rest)" and fo: "follow [41, 38, 59] rest" and k: "4 * (es - s) + 5 \<le> k"
  obtain j where j: "k = Suc j" using k by (cases k) auto
  have "\<exists>d s'. parseexec j buf es s = Inr (d, s') \<and> at buf es s' rest \<and> denotes buf d (wrap [] c)"
    using a assms(1) fo k j by (intro assms(2) [unfolded parses3_def, rule_format]) (auto simp: follow_def)
  then obtain d s' where d: "parseexec j buf es s = Inr (d, s')" "at buf es s' rest" "denotes buf d c" by auto
  with peek_at [OF d(2), of "[124]"] fo show "\<exists>d s'. parsepipe k buf es s = Inr (d, s') \<and> at buf es s' rest \<and> denotes buf d c"
    by (auto simp: j follow_def)
qed

lemma parses2_pipe:
  assumes "parses3 buf es l" and "parses2 buf es r"
  shows "parses2 buf es (SPipe l r)"
  unfolding parses2_def
proof (intro allI impI)
  fix k s rest
  assume a: "at buf es s (toks 2 (SPipe l r) @ rest)" and fo: "follow [41, 38, 59] rest" and k: "4 * (es - s) + 5 \<le> k"
  obtain j where j: "k = Suc j" using k by (cases k) auto
  have a0: "at buf es s (toks 3 l @ [124] # toks 2 r @ rest)" using a by simp
  have "\<exists>d s'. parseexec j buf es s = Inr (d, s') \<and> at buf es s' ([124] # toks 2 r @ rest) \<and> denotes buf d (wrap [] l)"
    using a0 k j by (intro assms(1) [unfolded parses3_def, rule_format]) (auto simp: follow_def)
  then obtain d s1 where d: "parseexec j buf es s = Inr (d, s1)" "at buf es s1 ([124] # toks 2 r @ rest)" "denotes buf d l" by auto
  note a1 = at_sym [OF d(2)]
  have "\<exists>d s'. parsepipe j buf es (s1 + 2) = Inr (d, s') \<and> at buf es s' rest \<and> denotes buf d r"
    by (rule assms(2) [unfolded parses2_def, rule_format, OF a1 fo]) (use k j at_length [OF a0] at_length [OF d(2)] in simp)
  then obtain d2 s2 where d2: "parsepipe j buf es (s1 + 2) = Inr (d2, s2)" "at buf es s2 rest" "denotes buf d2 r" by blast
  have "parsepipe k buf es s = Inr (PipeCmd d d2, s2)"
    using d(1) peek_at [OF d(2), of "[124]"] next_pos_sym [OF d(2)] d2(1) by (simp add: j)
  with d(3) d2(2,3) show "\<exists>d s'. parsepipe k buf es s = Inr (d, s') \<and> at buf es s' rest \<and> denotes buf d (SPipe l r)" by auto
qed

lemma parseback_at:
  assumes "at buf es s (replicate n [38] @ rest)" and "follow [41, 59] rest" and "es - s < k" and "denotes buf d c"
  shows "\<exists>d' s'. parseback k buf es d s = Inr (d', s') \<and> at buf es s' rest \<and> denotes buf d' ((SBack ^^ n) c)"
  using assms
proof (induction n arbitrary: s k d c)
  case 0
  then obtain j where "k = Suc j" by (cases k) auto
  with 0 peek_at [of buf es s rest "[38]"] show ?case by (auto simp: follow_def)
next
  case (Suc n)
  obtain j where j: "k = Suc j" using Suc.prems(3) by (cases k) auto
  have a0: "at buf es s ([38] # replicate n [38] @ rest)" using Suc.prems(1) by simp
  note a1 = at_sym [OF a0]
  have "\<exists>d' s'. parseback j buf es (BackCmd d) (s + 2) = Inr (d', s') \<and> at buf es s' rest \<and>
      denotes buf d' ((SBack ^^ n) (SBack c))"
    using Suc.prems(2-4) j at_length [OF a0] at_length [OF a1] by (intro Suc.IH [OF a1]) auto
  then show ?case using peek_at [OF a0, of "[38]"] next_pos_sym [OF a0] by (simp add: j funpow_swap1)
qed

lemma parses1_of_2:
  assumes "toks 1 c = toks 2 c" and "parses2 buf es c"
  shows "parses1 buf es c"
  unfolding parses1_def
proof (intro allI impI)
  fix k s n rest
  assume a: "at buf es s (toks 1 c @ replicate n [38] @ rest)" and fo: "follow [41, 59] rest" and k: "4 * (es - s) + 5 \<le> k"
  have "follow [41, 38, 59] (replicate n [38] @ rest)" using fo by (cases n) (auto simp: follow_def)
  with a assms k have "\<exists>d s'. parsepipe k buf es s = Inr (d, s') \<and> at buf es s' (replicate n [38] @ rest) \<and> denotes buf d c"
    by (intro assms(2) [unfolded parses2_def, rule_format]) simp_all
  then obtain d s1 where d: "parsepipe k buf es s = Inr (d, s1)" "at buf es s1 (replicate n [38] @ rest)" "denotes buf d c" by blast
  have "es - s1 \<le> es - s" using at_length [OF a] at_length [OF d(2)] by simp
  then show "\<exists>d s1. parsepipe k buf es s = Inr (d, s1) \<and>
        (\<forall>j. es - s < j \<longrightarrow> (\<exists>d' s'. parseback j buf es d s1 = Inr (d', s') \<and> at buf es s' rest \<and> denotes buf d' ((SBack ^^ n) c)))"
    using d parseback_at [OF d(2) fo _ d(3)] by (intro exI [of _ d] exI [of _ s1]) auto
qed

lemma parses1_back: "parses1 buf es c \<Longrightarrow> parses1 buf es (SBack c)"
  unfolding parses1_def
proof (intro allI impI, goal_cases)
  case (1 k s n rest)
  have "toks 1 (SBack c) @ replicate n [38] @ rest = toks 1 c @ replicate (Suc n) [38] @ rest" by simp
  with 1 have "\<exists>d s1. parsepipe k buf es s = Inr (d, s1) \<and> (\<forall>j. es - s < j \<longrightarrow>
      (\<exists>d' s'. parseback j buf es d s1 = Inr (d', s') \<and> at buf es s' rest \<and> denotes buf d' ((SBack ^^ Suc n) c)))" by metis
  then show ?case by (simp add: funpow_swap1)
qed

lemma parses0_of_1:
  assumes "toks 0 c = toks 1 c" and "parses1 buf es c"
  shows "parses0 buf es c"
  unfolding parses0_def
proof (intro allI impI)
  fix k s rest
  assume a: "at buf es s (toks 0 c @ rest)" and fo: "follow [41] rest" and k: "4 * (es - s) + 6 \<le> k"
  obtain j where j: "k = Suc j" using k by (cases k) auto
  have "at buf es s (toks 1 c @ replicate 0 [38] @ rest)" "follow [41, 59] rest" "4 * (es - s) + 5 \<le> j" "es - s < j"
    using a assms(1) fo k j by (auto simp: follow_def)
  then obtain d s1 d' s' where d: "parsepipe j buf es s = Inr (d, s1)" "parseback j buf es d s1 = Inr (d', s')" "at buf es s' rest"
      "denotes buf d' ((SBack ^^ 0) c)"
    using assms(2) unfolding parses1_def by metis
  with peek_at [OF d(3), of "[59]"] fo show "\<exists>d s'. parseline k buf es s = Inr (d, s') \<and> at buf es s' rest \<and> denotes buf d c"
    by (auto simp: j follow_def)
qed

lemma parses0_list:
  assumes "parses1 buf es l" and "parses0 buf es r"
  shows "parses0 buf es (SList l r)"
  unfolding parses0_def
proof (intro allI impI)
  fix k s rest
  assume a: "at buf es s (toks 0 (SList l r) @ rest)" and fo: "follow [41] rest" and k: "4 * (es - s) + 6 \<le> k"
  obtain j where j: "k = Suc j" using k by (cases k) auto
  have a0: "at buf es s (toks 1 l @ replicate 0 [38] @ [59] # toks 0 r @ rest)" using a by simp
  moreover have "follow [41, 59] ([59] # toks 0 r @ rest)" "4 * (es - s) + 5 \<le> j" "es - s < j" using k j by (auto simp: follow_def)
  ultimately obtain d s1 d1 s2 where d: "parsepipe j buf es s = Inr (d, s1)" "parseback j buf es d s1 = Inr (d1, s2)"
      "at buf es s2 ([59] # toks 0 r @ rest)" "denotes buf d1 ((SBack ^^ 0) l)"
    using assms(1) unfolding parses1_def by metis
  note a1 = at_sym [OF d(3)]
  have "\<exists>d s'. parseline j buf es (s2 + 2) = Inr (d, s') \<and> at buf es s' rest \<and> denotes buf d r"
    by (rule assms(2) [unfolded parses0_def, rule_format, OF a1 fo]) (use k j at_length [OF a0] at_length [OF d(3)] in simp)
  then obtain d2 s3 where d2: "parseline j buf es (s2 + 2) = Inr (d2, s3)" "at buf es s3 rest" "denotes buf d2 r" by blast
  have "parseline k buf es s = Inr (ListCmd d1 d2, s3)"
    using d(1,2) peek_at [OF d(3), of "[59]"] next_pos_sym [OF d(3)] d2(1) by (simp add: j)
  with d(4) d2(2,3) show "\<exists>d s'. parseline k buf es s = Inr (d, s') \<and> at buf es s' rest \<and> denotes buf d (SList l r)" by auto
qed

lemma parses_all: "words_ok c \<Longrightarrow> parses3 buf es c \<and> parses2 buf es c \<and> parses1 buf es c \<and> parses0 buf es c"
proof (induction c)
  case (SExec ws)
  then have "parses3 buf es (SExec ws)" by (simp add: parses3_exec)
  then show ?case by (simp add: parses0_of_1 parses1_of_2 parses2_of_3)
next
  case (SRedir c r f)
  then have "parses3 buf es (SRedir c r f)" by (simp add: parses3_redir)
  then show ?case by (simp add: parses0_of_1 parses1_of_2 parses2_of_3)
next
  case (SPipe l r)
  then have "parses2 buf es (SPipe l r)" by (simp add: parses2_pipe)
  then show ?case by (simp add: parses0_of_1 parses1_of_2 parses3_paren)
next
  case (SBack c)
  then have "parses1 buf es (SBack c)" by (simp add: parses1_back)
  then show ?case by (simp add: parses0_of_1 parses2_of_3 parses3_paren)
next
  case (SList l r)
  then have "parses0 buf es (SList l r)" by (simp add: parses0_list)
  then show ?case by (simp add: parses1_of_2 parses2_of_3 parses3_paren)
qed

section \<open>Terminating the words\<close>

fun ends_of :: "cmd \<Rightarrow> nat set" where
  "ends_of (ExecCmd av) = snd ` set av"
| "ends_of (RedirCmd c q eq mode fd) = insert eq (ends_of c)"
| "ends_of (PipeCmd l r) = ends_of l \<union> ends_of r"
| "ends_of (ListCmd l r) = ends_of l \<union> ends_of r"
| "ends_of (BackCmd c) = ends_of c"

lemma nth_update: "j < length xs \<Longrightarrow> xs[i := x] ! j = (if i = j then x else xs ! j)"
  by simp

lemma fold_nul_nth:
  "length (fold (\<lambda>(q, eq) b. b[eq := 0]) av buf) = length buf"
  "i < length buf \<Longrightarrow> fold (\<lambda>(q, eq) b. b[eq := 0]) av buf ! i = (if i \<in> snd ` set av then 0 else buf ! i)"
  by (induction av arbitrary: buf) (auto simp: nth_update, metis image_eqI snd_conv)

lemma nulterminate_nth:
  "length (nulterminate d buf) = length buf"
  "i < length buf \<Longrightarrow> nulterminate d buf ! i = (if i \<in> ends_of d then 0 else buf ! i)"
  by (induction d arbitrary: buf) (auto simp: fold_nul_nth nth_update)

lemma wpos_end: "wpos buf p w \<Longrightarrow> buf ! snd p = 32 \<and> snd p < length buf"
proof -
  assume "wpos buf p w"
  then obtain r where w: "snd p = fst p + length w" "drop (fst p) buf = w @ 32 # r" unfolding wpos_def by blast
  have "length buf - fst p = length (drop (fst p) buf)" by simp
  also have "\<dots> = Suc (length w + length r)" unfolding w(2) by simp
  finally have lt: "fst p + length w < length buf" by linarith
  then have "buf ! (fst p + length w) = drop (fst p) buf ! length w" by simp
  with w lt show ?thesis by (simp add: nth_append)
qed

lemma denotes_ends: "denotes buf d c \<Longrightarrow> e \<in> ends_of d \<Longrightarrow> buf ! e = 32"
proof (induction buf d c rule: denotes.induct)
  case (1 buf av ws)
  then obtain i where i: "i < length av" "e = snd (av ! i)" by (auto simp: in_set_conv_nth)
  with 1 have "wpos buf (av ! i) (ws ! i)" by (simp add: list_all2_conv_all_nth)
  then show ?case using wpos_end i(2) by blast
next
  case (2 buf c q eq mode fd c' r f)
  then show ?case using wpos_end [of buf "(q, eq)" f] by auto
qed auto

lemma cstr_at_wpos:
  assumes w: "wpos buf p w" and len: "length buf' = length buf" and p: "snd p \<in> E"
    and nth: "\<And>i. i < length buf \<Longrightarrow> buf' ! i = (if i \<in> E then 0 else buf ! i)" and E: "\<And>e. e \<in> E \<Longrightarrow> buf ! e = 32"
  shows "cstr_at buf' (fst p) = w"
proof -
  obtain r where r: "snd p = fst p + length w" "drop (fst p) buf = w @ 32 # r" "word w" using w unfolding wpos_def by blast
  have lt: "fst p + length w < length buf" using wpos_end [OF w] r(1) by simp
  have ch: "buf ! (fst p + i) = w ! i" "w ! i \<noteq> 32" "w ! i \<noteq> 0" if "i < length w" for i
  proof -
    have "buf ! (fst p + i) = drop (fst p) buf ! i" using lt by simp
    then show "buf ! (fst p + i) = w ! i" using r(2) that by (simp add: nth_append)
    show "w ! i \<noteq> 32" "w ! i \<noteq> 0" using r(3) that by (auto simp: word_def whitespace_def)
  qed
  have "take (length w) (drop (fst p) buf') = w"
  proof (rule nth_equalityI)
    fix i assume "i < length (take (length w) (drop (fst p) buf'))"
    then have i: "i < length w" by simp
    then have "fst p + i \<notin> E" using E ch by metis
    then show "take (length w) (drop (fst p) buf') ! i = w ! i" using i lt len nth [of "fst p + i"] ch(1) by simp
  qed (use lt len in simp)
  moreover have "drop (fst p) buf' ! length w = 0" using nth [of "fst p + length w"] lt len p r(1) by simp
  ultimately obtain r' where "drop (fst p) buf' = w @ 0 # r'"
    using lt len id_take_nth_drop [of "length w" "drop (fst p) buf'"] by auto
  moreover have "takeWhile (\<lambda>c. c \<noteq> 0) (w @ 0 # r') = w @ takeWhile (\<lambda>c. c \<noteq> 0) (0 # r')"
    by (rule takeWhile_append2) (use r(3) in \<open>simp add: word_def\<close>)
  ultimately show ?thesis by (simp add: cstr_at_def)
qed

lemma kind_of_mode: "kind_of (rmode r) (rfd r) = r"
  by (cases r) (simp_all add: kind_of_def O_WRONLY_def O_CREATE_def O_TRUNC_def)

lemma tree_denotes:
  assumes "denotes buf d c" and "ends_of d \<subseteq> E" and "length buf' = length buf"
    and "\<And>i. i < length buf \<Longrightarrow> buf' ! i = (if i \<in> E then 0 else buf ! i)" and "\<And>e. e \<in> E \<Longrightarrow> buf ! e = 32"
  shows "tree buf' d = c"
  using assms
proof (induction buf d c rule: denotes.induct)
  case (1 buf av ws)
  have "cstr_at buf' (fst p) = w" if "wpos buf p w" "p \<in> set av" for p w
    using that 1 by (intro cstr_at_wpos [of buf p w buf' E]) auto
  then have "cstr_at buf' (fst (av ! i)) = ws ! i" if "i < length av" for i
    using 1(1) that by (simp add: list_all2_conv_all_nth)
  then have "map (\<lambda>(q, eq). cstr_at buf' q) av = ws"
    using 1(1) by (intro nth_equalityI) (auto simp: list_all2_lengthD split_def)
  then show ?case by simp
next
  case (2 buf c q eq mode fd c' r f)
  have "cstr_at buf' (fst (q, eq)) = f" using 2 by (intro cstr_at_wpos [of buf "(q, eq)" f buf' E]) auto
  with 2 show ?case by (simp add: kind_of_mode)
qed auto

section \<open>The round trip\<close>

lemma toks_ok: "words_ok c \<Longrightarrow> t \<in> set (toks n c) \<Longrightarrow> tok_ok t"
proof (induction n c rule: toks.induct)
  case (2 n c r f)
  then show ?case by (cases r) (auto simp: tok_ok_def sym_toks_def)
qed (auto simp: tok_ok_def sym_toks_def split: if_splits)

lemma tok_ok_nonzero: "tok_ok t \<Longrightarrow> 0 \<notin> set t"
  by (auto simp: tok_ok_def word_def sym_toks_def)

lemma at_spelling:
  assumes "words_ok c"
  shows "at (spelling c @ [0]) (length (spelling c)) 0 (toks 0 c)"
proof -
  have ok: "\<forall>t\<in>set (toks 0 c). tok_ok t" using toks_ok [OF assms] by blast
  then have "0 \<notin> set (spelling c)" using tok_ok_nonzero by (auto simp: spelling_def spell_def)
  then have "linebuf (spelling c @ [0]) (length (spelling c))" by (auto simp: linebuf_def nth_append in_set_conv_nth)
  with ok show ?thesis by (simp add: at_def spelling_def)
qed

lemma parse_spelling:
  assumes "words_ok c"
  shows "\<exists>d buf. parsecmd (spelling c) = Inr (d, buf) \<and> tree buf d = c"
proof -
  let ?line = "spelling c" and ?es = "length (spelling c)"
  have a: "at (?line @ [0]) ?es 0 (toks 0 c @ [])" using at_spelling [OF assms] by simp
  have "parses0 (?line @ [0]) ?es c" using parses_all [OF assms] by blast
  then have "\<exists>d s'. parseline (4 * ?es + 6) (?line @ [0]) ?es 0 = Inr (d, s') \<and> at (?line @ [0]) ?es s' [] \<and> denotes (?line @ [0]) d c"
    unfolding parses0_def by (rule allE, elim allE impE) (use a in \<open>auto simp: follow_def\<close>)
  then obtain d s where d: "parseline (4 * ?es + 6) (?line @ [0]) ?es 0 = Inr (d, s)" "at (?line @ [0]) ?es s []"
    "denotes (?line @ [0]) d c" by blast
  have "parsecmd ?line = Inr (d, nulterminate d (?line @ [0]))"
    using d(1) peek_at [OF d(2), of "[]"] at_length [OF d(2)] by (simp add: parsecmd_def parsetop_def Let_def)
  moreover have "tree (nulterminate d (?line @ [0])) d = c"
    by (rule tree_denotes [OF d(3) subset_refl nulterminate_nth(1)]) (auto simp: nulterminate_nth denotes_ends [OF d(3)])
  ultimately show ?thesis by blast
qed

text \<open>C35. The shell reads back what is written: for every tree of commands, redirections, pipelines, lists and background jobs with
  fewer than ten arguments to each command, parsing its spelling gives a command structure whose words, read as C strings in
  the buffer that \<^verbatim>\<open>nulterminate\<close> has cut, form that very tree. No terminator damages another word.\<close>

theorem sh_parse_roundtrip:
  assumes "words_ok c"
  shows "\<exists>d buf. parsecmd (spelling c) = Inr (d, buf) \<and> tree buf d = c"
  by (rule parse_spelling [OF assms])

theorem sh_parse_roundtrip_witness:
  "\<exists>d buf. parsecmd [97, 32, 98, 32, 62, 32, 99, 32, 124, 32, 100, 32, 38, 32] = Inr (d, buf) \<and>
     tree buf d = SBack (SPipe (SRedir (SExec [[97], [98]]) ROut [99]) (SExec [[100]]))"
proof -
  let ?c = "SBack (SPipe (SRedir (SExec [[97], [98]]) ROut [99]) (SExec [[100]]))"
  have "words_ok ?c" by (simp add: word_def whitespace_def symbols_def MAXARGS_def)
  moreover have "spelling ?c = [97, 32, 98, 32, 62, 32, 99, 32, 124, 32, 100, 32, 38, 32]" by (simp add: spelling_def)
  ultimately show ?thesis using sh_parse_roundtrip [of ?c] by simp
qed

end
