(* ===== verification/Mkfs.thy ===== *)
theory Mkfs
  imports FsData
begin

text \<open>
  The program that builds the file system image (\<^verbatim>\<open>mkfs/mkfs.c\<close>). The image file is a function from block numbers to
  blocks with its length in blocks: reading beyond the end fails, writing there extends the file. Otherwise the host's
  reads, writes and seeks succeed. A host file is its name with the chunks that reading it gives, or \<open>None\<close> if it cannot be
  opened. The structures on disk are those of the kernel's model of the file system, whose fields are little endian; the
  host is little endian, as the program needs for the magic number, which it stores without conversion.
  Failing assertions and \<^verbatim>\<open>die\<close> are errors. Messages of the program are not part of the state.
\<close>

section \<open>State\<close>

definition FSSIZE :: nat where "FSSIZE = 2000"
definition NINODES :: nat where "NINODES = 200"
definition nbitmap :: nat where "nbitmap = FSSIZE div (BSIZE * 8) + 1"
definition ninodeblocks :: nat where "ninodeblocks = NINODES div IPB + 1"
definition nlog :: nat where "nlog = LOGSIZE"
definition nmeta :: nat where "nmeta = 2 + nlog + ninodeblocks + nbitmap"
definition nblocks :: nat where "nblocks = FSSIZE - nmeta"

record mkfs =
  img :: "nat \<Rightarrow> block"
  img_n :: nat
  msb :: superblock
  freeinode :: u32
  freeblock :: u32

text \<open>The place of a sector in the file, whose offset is a 32-bit number.\<close>

definition sector_at :: "u32 \<Rightarrow> nat" where
  "sector_at sec = unat (sec * of_nat BSIZE) div BSIZE"

definition wsect :: "u32 \<Rightarrow> block \<Rightarrow> mkfs \<Rightarrow> mkfs" where
  "wsect sec b st = st\<lparr>img := (img st)(sector_at sec := b), img_n := max (img_n st) (sector_at sec + 1)\<rparr>"

definition rsect :: "u32 \<Rightarrow> mkfs \<Rightarrow> block res" where
  "rsect sec st = (if sector_at sec < img_n st then Inr (img st (sector_at sec)) else Inl (Panic ''read''))"

text \<open>The bytes of a number in the order of the target, read back as a number of the host, which is little endian.\<close>

definition xshort :: "u16 \<Rightarrow> u16" where
  "xshort x = get16 (put16 (\<lambda>_. 0) 0 x) 0"

definition xint :: "u32 \<Rightarrow> u32" where
  "xint x = get32 (put32 (\<lambda>_. 0) 0 x) 0"

lemma get16_put16_same [simp]: "get16 (put16 b o1 v) o1 = v"
proof (rule bit_word_eqI)
  fix n assume n: "n < LENGTH(16)"
  consider "n < 8" | k where "n = 8 + k" "k < 8"
    using n le_add_diff_inverse [of 8 n] by (cases "n < 8") (auto intro: that(2) [of "n - 8"])
  then show "bit (get16 (put16 b o1 v) o1) n = bit v n"
    by cases (auto simp: get16_def put16_def bit_simps)
qed

lemma xshort_same [simp]: "xshort x = x"
  by (simp add: xshort_def)

lemma xint_same [simp]: "xint x = x"
  by (simp add: xint_def)

section \<open>Inodes\<close>

definition winode :: "u32 \<Rightarrow> inode \<Rightarrow> mkfs \<Rightarrow> mkfs res" where
  "winode inum ip st =
     (let bn = IBLOCK inum (msb st)
      in rbind (rsect bn st) (\<lambda>b. Inr (wsect bn (put_dinode b (dinode_at inum) ip) st)))"

definition rinode :: "u32 \<Rightarrow> mkfs \<Rightarrow> inode res" where
  "rinode inum st =
     rbind (rsect (IBLOCK inum (msb st)) st) (\<lambda>b. Inr (get_dinode b (dinode_at inum) zero_inode))"

definition mk_ialloc :: "u16 \<Rightarrow> mkfs \<Rightarrow> (u32 \<times> mkfs) res" where
  "mk_ialloc type st =
     (let inum = freeinode st
      in rbind (winode inum (zero_inode\<lparr>i_type := xshort type, i_nlink := xshort 1, i_size := xint 0\<rparr>) (st\<lparr>freeinode := freeinode st + 1\<rparr>))
           (\<lambda>st1. Inr (inum, st1)))"

section \<open>Bitmap\<close>

definition mark_used :: "nat \<Rightarrow> block \<Rightarrow> block" where
  "mark_used i b = b(i div 8 := b (i div 8) OR push_bit (i mod 8) 1)"

definition mk_balloc :: "u32 \<Rightarrow> mkfs \<Rightarrow> mkfs res" where
  "mk_balloc used st =
     (if \<not> sint used < int (BSIZE * 8) then Inl (Panic ''assert: used < BSIZE*8'')
      else Inr (wsect (sb_bmapstart (msb st)) (fold mark_used [0..<nat (sint used)] (\<lambda>_. 0)) st))"

section \<open>Appending\<close>

text \<open>The block of the file at \<open>fbn\<close>, allocated if there is none: the block number, the inode and the state.\<close>

definition file_block :: "nat \<Rightarrow> inode \<Rightarrow> mkfs \<Rightarrow> (u32 \<times> inode \<times> mkfs) res" where
  "file_block fbn din st =
     (if fbn < NDIRECT then
        if xint (i_addrs din ! fbn) = 0 then
          Inr (freeblock st, din\<lparr>i_addrs := (i_addrs din)[fbn := xint (freeblock st)]\<rparr>, st\<lparr>freeblock := freeblock st + 1\<rparr>)
        else Inr (xint (i_addrs din ! fbn), din, st)
      else
        let (din1, st1) =
              (if xint (i_addrs din ! NDIRECT) = 0
               then (din\<lparr>i_addrs := (i_addrs din)[NDIRECT := xint (freeblock st)]\<rparr>, st\<lparr>freeblock := freeblock st + 1\<rparr>)
               else (din, st));
            ind = xint (i_addrs din1 ! NDIRECT);
            a = 4 * (fbn - NDIRECT)
        in rbind (rsect ind st1) (\<lambda>indirect.
           if get32 indirect a = 0 then
             Inr (freeblock st1, din1, wsect ind (put32 indirect a (xint (freeblock st1))) (st1\<lparr>freeblock := freeblock st1 + 1\<rparr>))
           else Inr (xint (get32 indirect a), din1, st1)))"

function iappend_loop :: "u8 list \<Rightarrow> nat \<Rightarrow> inode \<Rightarrow> mkfs \<Rightarrow> (nat \<times> inode \<times> mkfs) res" where
  "iappend_loop p off din st =
     (if p = [] then Inr (off, din, st)
      else if \<not> off div BSIZE < MAXFILE then Inl (Panic ''assert: fbn < MAXFILE'')
      else rbind (file_block (off div BSIZE) din st) (\<lambda>(x, din1, st1).
           rbind (rsect x st1) (\<lambda>b.
             let n1 = min (length p) ((off div BSIZE + 1) * BSIZE - off);
                 st2 = wsect x (put_bytes b (off - off div BSIZE * BSIZE) (take n1 p)) st1
             in iappend_loop (drop n1 p) (off + n1) din1 st2)))"
  by pat_completeness auto
termination
proof (relation "measure (\<lambda>(p, off, din, st). length p)", goal_cases)
  case (2 p off din st)
  have "off < (off div BSIZE + 1) * BSIZE" by (simp add: BSIZE_def)
  with 2 show ?case by simp
qed simp

declare iappend_loop.simps [simp del]

definition iappend :: "u32 \<Rightarrow> u8 list \<Rightarrow> mkfs \<Rightarrow> mkfs res" where
  "iappend inum p st =
     rbind (rinode inum st) (\<lambda>din.
     rbind (iappend_loop p (unat (xint (i_size din))) din st) (\<lambda>(off, din1, st1).
     winode inum (din1\<lparr>i_size := xint (of_nat off)\<rparr>) st1))"

section \<open>The program\<close>

type_synonym host_file = "u8 list \<times> u8 list list option"

definition mkfs_dirent :: "u32 \<Rightarrow> u8 list \<Rightarrow> u8 list" where
  "mkfs_dirent inum name =
     [ucast inum, ucast (drop_bit 8 inum)] @ take DIRSIZ (name @ replicate DIRSIZ 0)"

definition mk_str :: "string \<Rightarrow> u8 list" where
  "mk_str s = map of_char s"

text \<open>The name in the image: without \<^verbatim>\<open>user/\<close> and without a leading underscore.\<close>

definition shortname :: "u8 list \<Rightarrow> u8 list res" where
  "shortname arg =
     (let s = (if take 5 arg = mk_str ''user/'' then drop 5 arg else arg)
      in if 47 \<in> set s then Inl (Panic ''assert: index(shortname)'')
         else Inr s)"

definition skip_underscore :: "u8 list \<Rightarrow> u8 list" where
  "skip_underscore s = (if s \<noteq> [] \<and> hd s = 95 then tl s else s)"

definition add_file :: "u32 \<Rightarrow> host_file \<Rightarrow> mkfs \<Rightarrow> mkfs res" where
  "add_file rootino f st =
     rbind (shortname (fst f)) (\<lambda>s.
     case snd f of
       None \<Rightarrow> Inl (Panic ''die'')
     | Some chunks \<Rightarrow>
         rbind (mk_ialloc T_FILE st) (\<lambda>(inum, st1).
         rbind (iappend rootino (mkfs_dirent inum (skip_underscore s)) st1) (rfold (iappend inum) chunks)))"

definition mkfs_sb :: superblock where
  "mkfs_sb = \<lparr>sb_magic = FSMAGIC, sb_size = xint (of_nat FSSIZE), sb_nblocks = xint (of_nat nblocks),
     sb_ninodes = xint (of_nat NINODES),
     sb_nlog = xint (of_nat nlog), sb_logstart = xint 2, sb_inodestart = xint (of_nat (2 + nlog)),
     sb_bmapstart = xint (of_nat (2 + nlog + ninodeblocks))\<rparr>"

definition sb_block :: "superblock \<Rightarrow> block" where
  "sb_block s = put32 (put32 (put32 (put32 (put32 (put32 (put32 (put32 (\<lambda>_. 0) 0 (sb_magic s)) 4 (sb_size s)) 8 (sb_nblocks s))
     12 (sb_ninodes s)) 16 (sb_nlog s)) 20 (sb_logstart s)) 24 (sb_inodestart s)) 28 (sb_bmapstart s)"

definition fix_rootsize :: "u32 \<Rightarrow> mkfs \<Rightarrow> mkfs res" where
  "fix_rootsize rootino st =
     rbind (rinode rootino st) (\<lambda>din.
     winode rootino (din\<lparr>i_size := xint ((xint (i_size din) div of_nat BSIZE + 1) * of_nat BSIZE)\<rparr>) st)"

definition mkfs_start :: mkfs where
  "mkfs_start =
     wsect 1 (sb_block mkfs_sb)
       (fold (\<lambda>i. wsect (of_nat i) (\<lambda>_. 0)) [0..<FSSIZE]
          \<lparr>img = \<lambda>_ _. 0, img_n = 0, msb = mkfs_sb, freeinode = 1, freeblock = of_nat nmeta\<rparr>)"

text \<open>The arguments after the program's name: the image, then the files to put into it.\<close>

definition mkfs_main :: "host_file list \<Rightarrow> mkfs res" where
  "mkfs_main argv =
     (case argv of
        [] \<Rightarrow> Inl (Panic ''Usage: mkfs fs.img files...'')
      | f # files \<Rightarrow>
          if snd f = None then Inl (Panic ''die'')
          else
            rbind (mk_ialloc T_DIR mkfs_start) (\<lambda>(rootino, st1).
            if rootino \<noteq> ROOTINO then Inl (Panic ''assert: rootino'')
            else
              rbind (iappend rootino (mkfs_dirent rootino (mk_str ''.'')) st1) (\<lambda>st2.
              rbind (iappend rootino (mkfs_dirent rootino (mk_str ''..'')) st2) (\<lambda>st3.
              rbind (rfold (add_file rootino) files st3) (\<lambda>st4.
              rbind (fix_rootsize rootino st4) (\<lambda>st5. mk_balloc (freeblock st5) st5))))))"

end
