(* ===== verification/FsView.thy ===== *)
theory FsView
  imports FsData
begin

text \<open>
  What the inode layer of \<^verbatim>\<open>kernel/fs.c\<close> stores: the blocks and the bytes of a file, given the contents of all blocks and the
  file's inode. On a file all of whose blocks exist, \<^verbatim>\<open>bmap\<close> and \<^verbatim>\<open>readi\<close> return what is stored and change nothing that a
  client of the block layer can see, also in the middle of a transaction.
\<close>

section \<open>Blocks and bytes of a file\<close>

lemmas fs_consts = BSIZE_def NDIRECT_def NINDIRECT_def MAXFILE_def

text \<open>The data blocks of a file are at the places below \<open>MAXFILE\<close>; its indirect block is at the place \<open>MAXFILE\<close>.\<close>

definition blk :: "(nat \<Rightarrow> block) \<Rightarrow> inode \<Rightarrow> nat \<Rightarrow> nat" where
  "blk im d k =
     (if k < NDIRECT then unat (i_addrs d ! k)
      else if k = MAXFILE then unat (i_addrs d ! NDIRECT)
      else unat (get32 (im (unat (i_addrs d ! NDIRECT))) (4 * (k - NDIRECT))))"

definition frange :: "(nat \<Rightarrow> block) \<Rightarrow> inode \<Rightarrow> nat \<Rightarrow> nat \<Rightarrow> u8 list" where
  "frange im d off n = map (\<lambda>j. im (blk im d (j div BSIZE)) (j mod BSIZE)) [off..<off + n]"

abbreviation fbytes :: "(nat \<Rightarrow> block) \<Rightarrow> inode \<Rightarrow> nat \<Rightarrow> u8 list" where
  "fbytes im d n \<equiv> frange im d 0 n"

abbreviation isize :: "inode \<Rightarrow> nat" where "isize d \<equiv> unat (i_size d)"

lemma length_frange [simp]: "length (frange im d off n) = n"
  by (simp add: frange_def)

lemma frange_append: "frange im d off (m + n) = frange im d off m @ frange im d (off + m) n"
  by (simp add: frange_def add.assoc upt_add_eq_append [of off "off + m" n, simplified add.assoc])

lemma frange_fbytes: "off + n \<le> sz \<Longrightarrow> frange im d off n = take n (drop off (fbytes im d sz))"
  by (simp add: frange_def take_map drop_map take_upt)

lemma frange_block:
  assumes "off mod BSIZE + n \<le> BSIZE"
  shows "frange im d off n = get_bytes (im (blk im d (off div BSIZE))) (off mod BSIZE) n"
proof (rule nth_equalityI)
  fix j assume "j < length (frange im d off n)"
  then have j: "j < n" by simp
  then have lt: "off mod BSIZE + j < BSIZE" using assms by simp
  have "off + j = off div BSIZE * BSIZE + (off mod BSIZE + j)" by simp
  then obtain q r where qr: "off + j = q * BSIZE + r" "q = off div BSIZE" "r = off mod BSIZE + j" by blast
  have "(off + j) div BSIZE = off div BSIZE" "(off + j) mod BSIZE = off mod BSIZE + j"
    unfolding qr(2,3) [symmetric] qr(1) using lt qr(3) by (simp_all add: BSIZE_def)
  with j show "frange im d off n ! j = get_bytes (im (blk im d (off div BSIZE))) (off mod BSIZE) n ! j"
    by (simp add: frange_def get_bytes_def)
qed (simp add: get_bytes_def)

section \<open>The block layer between the operations of a process\<close>

text \<open>No buffer is locked, those of the running transactions are pinned (\<open>P\<close>) and others are left to read with.\<close>

definition fs_idle :: "u32 \<Rightarrow> (u32 \<Rightarrow> u32) \<Rightarrow> 'a bio_scheme \<Rightarrow> bool" where
  "fs_idle dev P st \<longleftrightarrow> calm dev P st \<and> card {b. P b \<noteq> 0} < NBUF \<and> (\<forall>b. P b + 1 \<noteq> 0)"

definition block_at :: "(u32 \<Rightarrow> block) \<Rightarrow> nat \<Rightarrow> block" where
  "block_at C b = C (of_nat b)"

abbreviation store :: "u32 \<Rightarrow> 'a bio_scheme \<Rightarrow> nat \<Rightarrow> block" where
  "store dev st \<equiv> block_at (contents dev st)"

text \<open>What reading leaves as it was.\<close>

definition unchanged :: "u32 \<Rightarrow> (u32 \<Rightarrow> u32) \<Rightarrow> 'a bio_scheme \<Rightarrow> 'a bio_scheme \<Rightarrow> bool" where
  "unchanged dev P st st' \<longleftrightarrow> fs_idle dev P st' \<and> contents dev st' = contents dev st \<and> disk st' = disk st
     \<and> disk_log st' = disk_log st \<and> bframe st st'"

lemma unchanged_refl: "fs_idle dev P st \<Longrightarrow> unchanged dev P st st"
  by (simp add: unchanged_def)

lemma unchanged_trans: "unchanged dev P st st1 \<Longrightarrow> unchanged dev P st1 st2 \<Longrightarrow> unchanged dev P st st2"
  by (auto simp: unchanged_def intro: bframe_trans)

lemma unchanged_idle: "unchanged dev P st st' \<Longrightarrow> fs_idle dev P st'"
  by (simp add: unchanged_def)

lemma bframe_fs:
  fixes st :: "'a fs_scheme"
  assumes "bframe st st'"
  shows "inodes st' = inodes st" and "sb st' = sb st"
  using assms by (cases st; cases st'; simp add: bframe_def)+

lemma read_block:
  assumes idle: "fs_idle dev P st"
  obtains i st1 st2 where "bread dev b st = Inr (i, st1)" and "b_data (bufs st1 i) = contents dev st b"
    and "bframe st st1" and "brelse i st1 = Inr st2" and "unchanged dev P st st2"
proof -
  have q: "bio_ok dev st" "held dev st = (\<lambda>_. False)" "pins dev st = P" "card {b. P b \<noteq> 0} < NBUF" "P b + 1 \<noteq> 0"
    using idle by (simp_all add: fs_idle_def calm_def)
  have room: "\<exists>j<NBUF. b_refcnt (bufs st j) = 0" using q by (intro unused_buffer [of dev]) simp_all
  obtain i st1 where r: "bread dev b st = Inr (i, st1)" "bio_ok dev st1" "slot dev b st1 = Some i"
    "contents dev st1 = contents dev st" "pins dev st1 = P(b := P b + 1)" "held dev st1 = (\<lambda>_. False)(b := True)"
    "disk st1 = disk st" "disk_log st1 = disk_log st" "bframe st st1"
    by (rule bread_ok [of dev st b]) (use q room in auto)
  have data: "b_data (bufs st1 i) = contents dev st b" using contents_slot [OF r(2,3)] r(4,5) q(5) by simp
  have "contents dev st1 b = disk st1 b" if "pins dev st1 b = 1"
    using that r(4,5,7) unpinned_contents [OF q(1), of b] q(3) by simp
  then obtain st2 where "brelse i st1 = Inr st2" "bio_ok dev st2" "contents dev st2 = contents dev st"
    "pins dev st2 = P" "held dev st2 = (\<lambda>_. False)" "disk st2 = disk st" "disk_log st2 = disk_log st" "bframe st1 st2"
    using brelse_ok [OF r(2,3)] r(4-8) by (auto simp: fun_upd_idem)
  then show thesis
    using that [OF r(1) data r(9)] idle bframe_trans [OF r(9)] by (simp add: unchanged_def fs_idle_def calm_def)
qed

section \<open>Reading files\<close>

definition mapped :: "(nat \<Rightarrow> block) \<Rightarrow> inode \<Rightarrow> nat \<Rightarrow> bool" where
  "mapped im d k \<longleftrightarrow> k < MAXFILE \<and> blk im d k \<noteq> 0 \<and> (NDIRECT \<le> k \<longrightarrow> i_addrs d ! NDIRECT \<noteq> 0)"

lemma bmap_mapped:
  fixes st :: "'a fs_scheme"
  assumes idle: "fs_idle dev P st" and dev: "i_dev (inodes st i) = dev" and m: "mapped (store dev st) (inodes st i) k"
  obtains a st' where "bmap i k st = Inr (a, st')" and "unat a = blk (store dev st) (inodes st i) k" and "unchanged dev P st st'"
proof (cases "k < NDIRECT")
  case True
  with m have "bmap i k st = Inr (i_addrs (inodes st i) ! k, st)" by (auto simp: bmap_def mapped_def blk_def Let_def)
  then show thesis using True unchanged_refl [OF idle] by (intro that) (simp_all add: blk_def)
next
  case False
  let ?ind = "i_addrs (inodes st i) ! NDIRECT"
  have k: "k - NDIRECT < NINDIRECT" "?ind \<noteq> 0" "k \<noteq> MAXFILE" using m False by (auto simp: mapped_def fs_consts)
  obtain b st1 st2 where r: "bread dev ?ind st = Inr (b, st1)" "b_data (bufs st1 b) = contents dev st ?ind"
    "bframe st st1" "brelse b st1 = Inr st2" "unchanged dev P st st2"
    using read_block [OF idle] by metis
  have a: "unat (get32 (contents dev st ?ind) (4 * (k - NDIRECT))) = blk (store dev st) (inodes st i) k"
    using False k(3) by (simp add: blk_def block_at_def)
  then have "get32 (contents dev st ?ind) (4 * (k - NDIRECT)) \<noteq> 0" using m by (auto simp: mapped_def)
  then have "bmap i k st = Inr (get32 (contents dev st ?ind) (4 * (k - NDIRECT)), st2)"
    using False k r dev by (simp add: bmap_def Let_def)
  from that [OF this a r(5)] show thesis .
qed

lemma readi_loop_mapped:
  fixes st :: "'a fs_scheme"
  assumes "fs_idle dev P st" and "i_dev (inodes st i) = dev" and "tot \<le> n"
    and "\<And>j. off \<le> j \<Longrightarrow> j < off + (n - tot) \<Longrightarrow> mapped (store dev st) (inodes st i) (j div BSIZE)"
  shows "\<exists>st'. readi_loop i LocalDst off n tot got st
             = Inr (int n, got @ frange (store dev st) (inodes st i) off (n - tot), st') \<and> unchanged dev P st st'"
  using assms
proof (induction "n - tot" arbitrary: tot off got st rule: less_induct)
  case less
  show ?case
  proof (cases "tot < n")
    case False
    then show ?thesis using less.prems(1,3)
      by (subst readi_loop.simps) (auto simp: frange_def intro: unchanged_refl)
  next
    case True
    let ?d = "inodes st i" and ?C = "store dev st"
    define m where "m = min (n - tot) (BSIZE - off mod BSIZE)"
    note ch = io_chunk [OF True m_def]
    have "off mod BSIZE < BSIZE" by (simp add: BSIZE_def)
    then have m: "m \<le> n - tot" "off mod BSIZE + m \<le> BSIZE" by (simp_all add: m_def)
    have "mapped ?C ?d (off div BSIZE)" using less.prems(4) [of off] True by simp
    then obtain a st1 where a: "bmap i (off div BSIZE) st = Inr (a, st1)" "unat a = blk ?C ?d (off div BSIZE)" "unchanged dev P st st1"
      using bmap_mapped [OF less.prems(1,2)] by blast
    have a0: "a \<noteq> 0" using \<open>mapped ?C ?d (off div BSIZE)\<close> a(2) by (auto simp: mapped_def)
    have fr1: "inodes st1 = inodes st" "contents dev st1 = contents dev st" using a(3) bframe_fs by (auto simp: unchanged_def)
    obtain b st2 st3 where r: "bread dev a st1 = Inr (b, st2)" "b_data (bufs st2 b) = contents dev st1 a"
      "brelse b st2 = Inr st3" "unchanged dev P st1 st3"
      using read_block [OF unchanged_idle [OF a(3)]] by metis
    have u: "unchanged dev P st st3" using unchanged_trans [OF a(3) r(4)] .
    have fr3: "inodes st3 = inodes st" "contents dev st3 = contents dev st" using u bframe_fs by (auto simp: unchanged_def)
    have bs: "get_bytes (b_data (bufs st2 b)) (off mod BSIZE) m = frange ?C ?d off m"
      unfolding frange_block [OF m(2)] a(2) [symmetric] r(2) fr1(2) by (simp add: block_at_def)
    have "\<exists>st'. readi_loop i LocalDst (off + m) n (tot + m) (got @ frange ?C ?d off m) st3
        = Inr (int n, (got @ frange ?C ?d off m) @ frange (store dev st3) (inodes st3 i) (off + m) (n - (tot + m)), st')
        \<and> unchanged dev P st3 st'"
    proof (rule less.hyps)
      show "n - (tot + m) < n - tot" using ch by simp
      show "tot + m \<le> n" using m(1) True by linarith
      fix j assume "off + m \<le> j" "j < off + m + (n - (tot + m))"
      then have "off \<le> j" "j < off + (n - tot)" using m(1) by linarith+
      then show "mapped (store dev st3) (inodes st3 i) (j div BSIZE)" unfolding fr3 by (rule less.prems(4))
    qed (use u less.prems(2) fr3 in \<open>simp_all add: unchanged_idle\<close>)
    then obtain st4 where st4: "readi_loop i LocalDst (off + m) n (tot + m) (got @ frange ?C ?d off m) st3
        = Inr (int n, got @ frange ?C ?d off m @ frange ?C ?d (off + m) (n - (tot + m)), st4)" "unchanged dev P st3 st4"
      unfolding fr3 by auto
    have "n - tot = m + (n - (tot + m))" using m(1) True by linarith
    then have split: "frange ?C ?d off (n - tot) = frange ?C ?d off m @ frange ?C ?d (off + m) (n - (tot + m))"
      using frange_append by metis
    have "readi_loop i LocalDst off n tot got st = Inr (int n, got @ frange ?C ?d off (n - tot), st4)"
      unfolding split using True a(1) a0 r(1,3) st4(1) less.prems(2) fr1(1)
      by (subst readi_loop.simps) (simp add: Let_def m_def [symmetric] bs)
    then show ?thesis using unchanged_trans [OF u st4(2)] by blast
  qed
qed

lemma readi_mapped:
  fixes st :: "'a fs_scheme"
  assumes idle: "fs_idle dev P st" and dev: "i_dev (inodes st i) = dev"
    and off: "off \<le> i_size (inodes st i)" "off \<le> off + n" and m: "m = min (unat n) (isize (inodes st i) - unat off)"
    and mapped: "\<And>j. unat off \<le> j \<Longrightarrow> j < unat off + m \<Longrightarrow> mapped (store dev st) (inodes st i) (j div BSIZE)"
  shows "\<exists>st'. readi i LocalDst off n st = Inr (int m, frange (store dev st) (inodes st i) (unat off) m, st') \<and> unchanged dev P st st'"
proof -
  let ?s = "i_size (inodes st i)"
  have sum: "unat (off + n) = unat off + unat n" using off(2) by (simp add: unat_plus_simple)
  have "unat (if off + n > ?s then ?s - off else n) = m"
    using off(1) by (auto simp: m sum unat_sub word_less_nat_alt word_le_nat_alt)
  then have "readi i LocalDst off n st = readi_loop i LocalDst (unat off) m 0 [] st"
    using off by (simp add: readi_def Let_def leD)
  then show ?thesis
    using readi_loop_mapped [OF idle dev, of 0 m "unat off" "[]"] mapped by simp
qed

section \<open>Inodes\<close>

text \<open>What the operations on inodes leave as it was, next to the inode table.\<close>

definition fs_same :: "u32 \<Rightarrow> (u32 \<Rightarrow> u32) \<Rightarrow> 'a fs_scheme \<Rightarrow> 'a fs_scheme \<Rightarrow> bool" where
  "fs_same dev P st st' \<longleftrightarrow> fs_idle dev P st' \<and> contents dev st' = contents dev st \<and> sb st' = sb st \<and> curpid st' = curpid st"

lemma fs_same_trans: "fs_same dev P st st1 \<Longrightarrow> fs_same dev P st1 st2 \<Longrightarrow> fs_same dev P st st2"
  by (simp add: fs_same_def)

lemma unchanged_same:
  fixes st :: "'a fs_scheme"
  shows "unchanged dev P st st' \<Longrightarrow> fs_same dev P st st' \<and> inodes st' = inodes st"
  by (auto simp: unchanged_def fs_same_def bframe_fs bframe_curpid)

lemma upd_inode_bio [simp]:
  fixes st :: "'a fs_scheme"
  shows "bufs (upd_inode i f st) = bufs st" "disk (upd_inode i f st) = disk st" "curpid (upd_inode i f st) = curpid st"
    "sb (upd_inode i f st) = sb st" "inodes (upd_inode i f st) = (inodes st)(i := f (inodes st i))"
  by (simp_all add: upd_inode_def)

lemma upd_inode_view [simp]:
  fixes st :: "'a fs_scheme"
  shows "contents dev (upd_inode i f st) = contents dev st" "fs_idle dev P (upd_inode i f st) = fs_idle dev P st"
proof -
  show "contents dev (upd_inode i f st) = contents dev st" by (rule contents_cong) simp_all
  have "calm dev P (upd_inode i f st) = calm dev P st" by (rule calm_cong) simp_all
  then show "fs_idle dev P (upd_inode i f st) = fs_idle dev P st" by (simp add: fs_idle_def)
qed

lemma upd_inode_same [simp]: "fs_same dev P st (upd_inode i f st) = fs_idle dev P st"
  by (simp add: fs_same_def)

lemma upd_buf_upd_inode: "upd_buf b g (upd_inode i f st) = upd_inode i f (upd_buf b g st)"
  by (simp add: upd_buf_def upd_inode_def)

lemma brelse_upd_inode:
  assumes "brelse b st = Inr st1"
  shows "brelse b (upd_inode i f st) = Inr (upd_inode i f st1)"
proof -
  have "move_to_front b (upd_inode i f s) = upd_inode i f (move_to_front b s)" for s :: "'a fs_scheme"
    by (simp add: move_to_front_def upd_buf_upd_inode Let_def)
  with assms show ?thesis by (auto simp: brelse_def upd_buf_upd_inode Let_def split: if_splits)
qed

lemma ilock_load:
  fixes st :: "'a fs_scheme"
  assumes idle: "fs_idle dev P st" and ip: "i_dev (inodes st i) = dev" "1 \<le> i_ref (inodes st i)"
      "sl_locked (i_lock (inodes st i)) = 0" "\<not> i_valid (inodes st i)" "i_inum (inodes st i) = inum"
    and b: "b = contents dev st (IBLOCK inum (sb st))" and ty: "get16 b (dinode_at inum) \<noteq> 0"
  obtains st' where "ilock i st = Inr st'" and "fs_same dev P st st'"
    and "inodes st' = (inodes st)(i := (get_dinode b (dinode_at inum) (inodes st i))
           \<lparr>i_lock := \<lparr>sl_locked = 1, sl_pid = curpid st\<rparr>, i_valid := True\<rparr>)"
proof -
  let ?lk = "(i_lock (inodes st i))\<lparr>sl_locked := 1, sl_pid := curpid st\<rparr>"
  let ?st1 = "upd_inode i (\<lambda>ip. ip\<lparr>i_lock := ?lk\<rparr>) st" and ?f = "get_dinode b (dinode_at inum)"
  have lk: "?lk = \<lparr>sl_locked = 1, sl_pid = curpid st\<rparr>" by (rule sleeplock.equality) simp_all
  have idle1: "fs_idle dev P ?st1" using idle by simp
  obtain bp st2 st3 where r: "bread dev (IBLOCK inum (sb st)) ?st1 = Inr (bp, st2)"
    "b_data (bufs st2 bp) = contents dev ?st1 (IBLOCK inum (sb st))" "bframe ?st1 st2" "brelse bp st2 = Inr st3" "unchanged dev P ?st1 st3"
    using read_block [OF idle1] by metis
  have i2: "inodes st2 = inodes ?st1" "inodes st3 = inodes ?st1" "fs_same dev P ?st1 st3"
    using bframe_fs [OF r(3)] unchanged_same [OF r(5)] by auto
  have bb: "b_data (bufs st2 bp) = b" using r(2) b by simp
  let ?st5 = "upd_inode i (\<lambda>ip. ip\<lparr>i_valid := True\<rparr>) (upd_inode i ?f st3)"
  have "ilock i st = Inr ?st5"
    using ip r(1) bb brelse_upd_inode [OF r(4), of i ?f] i2 ty
    by (simp add: ilock_def acquiresleep_def get_dinode_def)
  moreover have "fs_same dev P st ?st5" using i2(3) by (simp add: fs_same_def)
  moreover have "inodes ?st5 = (inodes st)(i := (?f (inodes st i))\<lparr>i_lock := \<lparr>sl_locked = 1, sl_pid = curpid st\<rparr>, i_valid := True\<rparr>)"
    unfolding upd_inode_bio i2 lk by (rule ext) (auto intro!: inode.equality simp: get_dinode_def simp del: upt_Suc)
  ultimately show thesis by (rule that)
qed

section \<open>Directories and paths\<close>

text \<open>The entry at index \<open>k\<close> of a directory.\<close>

definition dir_entry :: "(nat \<Rightarrow> block) \<Rightarrow> inode \<Rightarrow> nat \<Rightarrow> u8 list" where
  "dir_entry im d k = frange im d (k * DIRENT_SIZE) DIRENT_SIZE"

definition entry_matches :: "u8 list \<Rightarrow> u8 list \<Rightarrow> bool" where
  "entry_matches name de \<longleftrightarrow> de_inum de \<noteq> 0 \<and> namecmp name (de_name de) = 0"

lemma read_entry:
  fixes st :: "'a fs_scheme"
  assumes idle: "fs_idle dev P st" and dev: "i_dev (inodes st dp) = dev" and sz: "isize (inodes st dp) = sz"
    and k: "k * DIRENT_SIZE + DIRENT_SIZE \<le> sz"
    and mapped: "\<And>j. j < k * DIRENT_SIZE + DIRENT_SIZE \<Longrightarrow> mapped (store dev st) (inodes st dp) (j div BSIZE)"
  shows "\<exists>st'. readi dp LocalDst (of_nat (k * DIRENT_SIZE)) (of_nat DIRENT_SIZE) st
      = Inr (int DIRENT_SIZE, dir_entry (store dev st) (inodes st dp) k, st') \<and> unchanged dev P st st'"
proof -
  let ?off = "of_nat (k * DIRENT_SIZE) :: u32" and ?n = "of_nat DIRENT_SIZE :: u32"
  have "isize (inodes st dp) < 2 ^ LENGTH(32)" by (rule unsigned_less)
  then have lt: "k * DIRENT_SIZE + DIRENT_SIZE < 2 ^ 32" using k sz by simp
  then have off: "unat ?off = k * DIRENT_SIZE" by (simp add: unat_of_nat take_bit_nat_eq_self_iff del: of_nat_mult)
  have n: "unat ?n = DIRENT_SIZE" by (simp add: DIRENT_SIZE_def)
  have "?off \<le> i_size (inodes st dp)" using off k sz by (simp only: word_le_nat_alt)
  moreover have "?off \<le> ?off + ?n" 
    using off n lt by (simp add: word_le_nat_alt unat_word_ariths del: of_nat_mult)
  moreover have "DIRENT_SIZE = min (unat ?n) (isize (inodes st dp) - unat ?off)" using off n k sz by simp
  ultimately show ?thesis
    using readi_mapped [OF idle dev, of ?off ?n DIRENT_SIZE] mapped off by (simp add: dir_entry_def)
qed

lemma dirlookup_loop_finds:
  fixes st :: "'a fs_scheme"
  assumes "fs_idle dev P st" and "i_dev (inodes st dp) = dev" and "isize (inodes st dp) = sz"
    and "k0 * DIRENT_SIZE + DIRENT_SIZE \<le> sz" and "k \<le> k0"
    and "\<And>j. j < k0 * DIRENT_SIZE + DIRENT_SIZE \<Longrightarrow> mapped (store dev st) (inodes st dp) (j div BSIZE)"
    and "\<And>j. k \<le> j \<Longrightarrow> j < k0 \<Longrightarrow> \<not> entry_matches name (dir_entry (store dev st) (inodes st dp) j)"
    and "entry_matches name (dir_entry (store dev st) (inodes st dp) k0)"
  shows "\<exists>st'. dirlookup_loop dp name sz (k * DIRENT_SIZE) st =
      rbind (iget dev (ucast (de_inum (dir_entry (store dev st) (inodes st dp) k0))) st') (\<lambda>(ip, st2). Inr (Some (ip, k0 * DIRENT_SIZE), st2))
      \<and> unchanged dev P st st'"
  using assms
proof (induction "k0 - k" arbitrary: k st)
  case (0 k)
  then have k: "k = k0" by simp
  obtain st' where st': "readi dp LocalDst (of_nat (k * DIRENT_SIZE)) (of_nat DIRENT_SIZE) st
      = Inr (int DIRENT_SIZE, dir_entry (store dev st) (inodes st dp) k, st')" "unchanged dev P st st'"
    using read_entry [OF 0(2,3,4), of k] 0(5,7) k by auto
  have "inodes st' = inodes st" using unchanged_same [OF st'(2)] by simp
  then have "dirlookup_loop dp name sz (k * DIRENT_SIZE) st =
      rbind (iget dev (ucast (de_inum (dir_entry (store dev st) (inodes st dp) k0))) st') (\<lambda>(ip, st2). Inr (Some (ip, k0 * DIRENT_SIZE), st2))"
    using st'(1) 0(3,5,9) k by (subst dirlookup_loop.simps) (simp add: entry_matches_def DIRENT_SIZE_def)
  with st'(2) show ?case by blast
next
  case (Suc x k)
  then have k: "k < k0" by simp
  then have kk: "k * DIRENT_SIZE + DIRENT_SIZE \<le> k0 * DIRENT_SIZE" by (simp add: DIRENT_SIZE_def)
  obtain st1 where st1: "readi dp LocalDst (of_nat (k * DIRENT_SIZE)) (of_nat DIRENT_SIZE) st
      = Inr (int DIRENT_SIZE, dir_entry (store dev st) (inodes st dp) k, st1)" "unchanged dev P st st1"
    using read_entry [OF Suc(3,4,5), of k] Suc(6,8) kk by auto
  have same: "inodes st1 = inodes st" "contents dev st1 = contents dev st"
    using unchanged_same [OF st1(2)] st1(2) by (auto simp: unchanged_def)
  have "\<not> entry_matches name (dir_entry (store dev st) (inodes st dp) k)" using Suc(9) k by simp
  then have "dirlookup_loop dp name sz (k * DIRENT_SIZE) st = dirlookup_loop dp name sz (Suc k * DIRENT_SIZE) st1"
    using st1(1) Suc(6) kk by (subst dirlookup_loop.simps) (auto simp: entry_matches_def DIRENT_SIZE_def add.commute)
  moreover have "\<exists>st'. dirlookup_loop dp name sz (Suc k * DIRENT_SIZE) st1 =
      rbind (iget dev (ucast (de_inum (dir_entry (store dev st1) (inodes st1 dp) k0))) st') (\<lambda>(ip, st2). Inr (Some (ip, k0 * DIRENT_SIZE), st2))
      \<and> unchanged dev P st1 st'"
    by (rule Suc(1)) (use Suc(2-10) k same in \<open>auto simp: unchanged_idle [OF st1(2)]\<close>)
  ultimately show ?case using same unchanged_trans [OF st1(2)] by auto
qed

lemma frange_addrs: "i_addrs d' = i_addrs d \<Longrightarrow> frange im d' = frange im d"
  by (simp add: frange_def blk_def fun_eq_iff)

lemma mapped_addrs: "i_addrs d' = i_addrs d \<Longrightarrow> mapped im d' = mapped im d"
  by (simp add: mapped_def blk_def fun_eq_iff)

lemma dir_entry_addrs: "i_addrs d' = i_addrs d \<Longrightarrow> dir_entry im d' = dir_entry im d"
  using frange_addrs [of d' d im] by (simp add: dir_entry_def fun_eq_iff)

lemma iget_fresh:
  assumes "\<And>j. j < NINODE \<Longrightarrow> i_ref (inodes st j) \<noteq> 0 \<Longrightarrow> i_dev (inodes st j) = dev \<Longrightarrow> i_inum (inodes st j) \<noteq> inum"
    and "i < NINODE" and "i_ref (inodes st i) = 0" and "\<And>j. j < i \<Longrightarrow> i_ref (inodes st j) \<noteq> 0"
  shows "iget dev inum st = Inr (i, upd_inode i (\<lambda>ip. ip\<lparr>i_dev := dev, i_inum := inum, i_ref := 1, i_valid := False\<rparr>) st)"
proof -
  have "find (\<lambda>i. i_ref (inodes st i) > 0 \<and> i_dev (inodes st i) = dev \<and> i_inum (inodes st i) = inum) [0..<NINODE] = None"
    using assms(1) by (force simp: find_None_iff)
  moreover have "find (\<lambda>i. i_ref (inodes st i) = 0) [0..<NINODE] = Some i"
    using assms(2-4) by (auto simp: find_Some_iff intro!: exI [of _ i])
  ultimately show ?thesis by (simp add: iget_def)
qed

text \<open>The element that \<^verbatim>\<open>skipelem\<close> copies into the array \<^verbatim>\<open>name\<close> of \<^verbatim>\<open>namei\<close>.\<close>

definition path_elem :: "u8 list \<Rightarrow> u8 list" where
  "path_elem s = (if length s \<ge> DIRSIZ then take DIRSIZ s else s @ 0 # replicate (DIRSIZ - Suc (length s)) 0)"

lemma skipelem_root:
  assumes "s \<noteq> []" and "slash \<notin> set s"
  shows "skipelem (slash # s) (replicate DIRSIZ 0) = Some ([], path_elem s)"
proof -
  have e: "dropWhile (\<lambda>c. c = slash) s = s" "takeWhile (\<lambda>c. c \<noteq> slash) s = s" "dropWhile (\<lambda>c. c \<noteq> slash) s = []"
    using assms by (cases s; auto)+
  show ?thesis using assms(1) by (simp add: skipelem_def path_elem_def Let_def e)
qed

lemma namei_finds:
  fixes K :: "'a fs_scheme"
  assumes idle: "fs_idle ROOTDEV P K"
    and table: "\<And>j. j < NINODE \<Longrightarrow> i_ref (inodes K j) = 0 \<and> sl_locked (i_lock (inodes K j)) = 0"
    and b: "b = contents ROOTDEV K (IBLOCK ROOTINO (sb K))" and rd: "rd = get_dinode b (dinode_at ROOTINO) zero_inode"
    and root: "i_type rd = T_DIR" "i_nlink rd \<noteq> 0"
    and name: "s \<noteq> []" "slash \<notin> set s"
    and entry: "k * DIRENT_SIZE + DIRENT_SIZE \<le> isize rd"
      "\<And>j. j < k * DIRENT_SIZE + DIRENT_SIZE \<Longrightarrow> mapped (store ROOTDEV K) rd (j div BSIZE)"
      "\<And>j. j < k \<Longrightarrow> \<not> entry_matches (path_elem s) (dir_entry (store ROOTDEV K) rd j)"
      "entry_matches (path_elem s) (dir_entry (store ROOTDEV K) rd k)"
    and inum: "inum = ucast (de_inum (dir_entry (store ROOTDEV K) rd k))" "inum \<noteq> ROOTINO"
  shows "\<exists>K'. namei (slash # s) K = Inr (Some 1, K') \<and> fs_same ROOTDEV P K K'
      \<and> inodes K' 1 = (inodes K 1)\<lparr>i_dev := ROOTDEV, i_inum := inum, i_ref := 1, i_valid := False\<rparr>"
proof -
  let ?g = "\<lambda>inum ip. ip\<lparr>i_dev := ROOTDEV, i_inum := inum, i_ref := 1, i_valid := False\<rparr> :: inode"
  have N: "0 < NINODE" "1 < NINODE" by (simp_all add: NINODE_def)
  let ?K1 = "upd_inode 0 (?g ROOTINO) K"
  have get1: "iget ROOTDEV ROOTINO K = Inr (0, ?K1)" using table N by (intro iget_fresh) auto
  have T: "T_DIR \<noteq> 0" by (simp add: T_DIR_def)
  obtain K2 where K2: "ilock 0 ?K1 = Inr K2" "fs_same ROOTDEV P ?K1 K2"
    "inodes K2 = (inodes ?K1)(0 := (get_dinode b (dinode_at ROOTINO) (inodes ?K1 0))
       \<lparr>i_lock := \<lparr>sl_locked = 1, sl_pid = curpid ?K1\<rparr>, i_valid := True\<rparr>)"
    by (rule ilock_load [of ROOTDEV P ?K1 0 ROOTINO b]) (use idle table N b root(1) T in \<open>auto simp: rd get_dinode_def\<close>)
  have r2: "i_addrs (inodes K2 0) = i_addrs rd" "i_size (inodes K2 0) = i_size rd" "i_type (inodes K2 0) = T_DIR"
    "i_nlink (inodes K2 0) = i_nlink rd" "i_dev (inodes K2 0) = ROOTDEV" "i_inum (inodes K2 0) = ROOTINO" "i_ref (inodes K2 0) = 1"
    "i_valid (inodes K2 0)" "i_lock (inodes K2 0) = \<lparr>sl_locked = 1, sl_pid = curpid K\<rparr>"
    using root by (auto simp: K2(3) rd get_dinode_def)
  have same2: "contents ROOTDEV K2 = contents ROOTDEV K" "fs_idle ROOTDEV P K2" "curpid K2 = curpid K" "sb K2 = sb K"
    using K2(2) by (simp_all add: fs_same_def)
  obtain K3 where K3: "dirlookup 0 (path_elem s) K2 = rbind (iget ROOTDEV inum K3) (\<lambda>(ip, st2). Inr (Some (ip, k * DIRENT_SIZE), st2))"
    "unchanged ROOTDEV P K2 K3"
    using dirlookup_loop_finds [OF same2(2) r2(5) refl, of k 0 "path_elem s"] entry inum(1) r2(2,3)
    by (auto simp: dirlookup_def same2 mapped_addrs [OF r2(1)] dir_entry_addrs [OF r2(1)])
  have same3: "fs_same ROOTDEV P K2 K3" "inodes K3 = inodes K2" using unchanged_same [OF K3(2)] by auto
  let ?K4 = "upd_inode 1 (?g inum) K3"
  have get2: "iget ROOTDEV inum K3 = Inr (1, ?K4)"
    using table N inum(2) r2(6,7) by (intro iget_fresh) (auto simp: same3 K2(3))
  let ?K5 = "upd_inode 0 (\<lambda>ip. ip\<lparr>i_lock := releasesleep (i_lock ip)\<rparr>) ?K4"
  let ?K6 = "upd_inode 0 (\<lambda>ip. ip\<lparr>i_ref := i_ref ip - 1\<rparr>) ?K5"
  have cur: "curpid K3 = curpid K" using same3(1) same2(3) by (simp add: fs_same_def)
  have put: "iunlockput 0 ?K4 = Inr ?K6"
    using r2(4,7-9) root(2) by (simp add: iunlockput_def iunlock_def iput_def holdingsleep_def same3(2) cur)
  have "namex_loop False 0 (slash # s) (replicate DIRSIZ 0) ?K1 = namex_loop False 1 [] (path_elem s) ?K6"
    by (subst namex_loop.simps) (simp add: skipelem_root [OF name] K2(1) r2(3) K3(1) get2 put [unfolded One_nat_def])
  also have "\<dots> = Inr (Some 1, path_elem s, ?K6)" by (subst namex_loop.simps) (simp add: skipelem_def)
  finally have "namei (slash # s) K = Inr (Some 1, ?K6)" by (simp add: namei_def namex_def get1)
  moreover have "fs_same ROOTDEV P K ?K6"
    using same3(1) same2 idle by (simp add: fs_same_def)
  moreover have "inodes ?K6 1 = ?g inum (inodes K 1)" by (simp add: same3(2) K2(3))
  ultimately show ?thesis by blast
qed

lemma fs_idle_boot:
  assumes "\<And>j. blank_buf (bufs st j)" and "dev \<noteq> 0"
  shows "fs_idle dev (\<lambda>_. 0) (binit st)" and "contents dev (binit st) = disk st"
  using binit_ok [OF assms] binit_disk [of st] by (auto simp: fs_idle_def calm_def NBUF_def fun_eq_iff)

section \<open>Properties\<close>

text \<open>C5. \<^verbatim>\<open>readi\<close> returns what is stored: for an inode whose blocks exist up to its size, reading \<open>n\<close> bytes at an offset within the
  file, without wrap-around of the sum, returns exactly the bytes of the file from there, \<open>n\<close> of them or as many as there are,
  through direct and indirect blocks and whatever the alignment. It never panics or blocks, and it changes neither the contents of any
  block, nor the disk, the pinned blocks of a transaction under way or the inode table.\<close>

theorem readi_reads_file:
  fixes st :: "'a fs_scheme"
  assumes "fs_idle dev P st" and "i_dev (inodes st i) = dev" and "off \<le> i_size (inodes st i)" and "off \<le> off + n"
    and "\<And>j. j < isize (inodes st i) \<Longrightarrow> mapped (store dev st) (inodes st i) (j div BSIZE)"
    and "bs = take (unat n) (drop (unat off) (fbytes (store dev st) (inodes st i) (isize (inodes st i))))"
  shows "\<exists>st'. readi i LocalDst off n st = Inr (int (length bs), bs, st') \<and> unchanged dev P st st'"
proof -
  let ?m = "min (unat n) (isize (inodes st i) - unat off)"
  have "unat off \<le> isize (inodes st i)" using assms(3) by (simp add: word_le_nat_alt)
  then have le: "unat off + ?m \<le> isize (inodes st i)" by simp
  have len: "length bs = ?m" using assms(6) by simp
  have "bs = take ?m bs" unfolding len [symmetric] by simp
  also have "\<dots> = frange (store dev st) (inodes st i) (unat off) ?m"
    unfolding frange_fbytes [OF le] assms(6) by (simp add: take_take)
  finally show ?thesis
    using readi_mapped [OF assms(1-4) refl] assms(5) le len by fastforce
qed

definition small_file :: fs where
  "small_file = (binit (zero_fs\<lparr>disk := \<lambda>_ i. of_nat i\<rparr>))
     \<lparr>inodes := \<lambda>_. zero_inode\<lparr>i_dev := 1, i_size := 1030, i_addrs := [50, 51, 0, 0, 0, 0, 0, 0, 0, 0, 0, 0, 0]\<rparr>\<rparr>"

lemma small_file:
  "fs_idle 1 (\<lambda>_. 0) small_file" "contents 1 small_file = (\<lambda>_ i. of_nat i)"
proof -
  let ?z = "zero_fs\<lparr>disk := \<lambda>_ i. of_nat i\<rparr>"
  have blank: "blank_buf (bufs ?z j)" for j 
    by (simp add: zero_fs_def zero_ptable_def zero_fslog_def ptable.defs fs.defs fslog.defs blank_buf_def initsleeplock_def)
  have same: "bufs small_file = bufs (binit ?z)" "disk small_file = disk (binit ?z)" "curpid small_file = curpid (binit ?z)"
    by (simp_all add: small_file_def)
  show "fs_idle 1 (\<lambda>_. 0) small_file" using fs_idle_boot(1) [OF blank, of 1] calm_cong [OF same] by (simp add: fs_idle_def)
  show "contents 1 small_file = (\<lambda>_ i. of_nat i)" using fs_idle_boot(2) [OF blank, of 1] contents_cong [OF same] by simp
qed

lemma small_file_bytes:
  "take 100 (drop 1022 (fbytes (store 1 small_file) (inodes small_file 0) 1030)) = [254, 255, 0, 1, 2, 3, 4, 5]"
proof -
  let ?r = "frange (store 1 small_file) (inodes small_file 0)"
  have "take 100 (drop 1022 (?r 0 1030)) = take 8 (drop 1022 (?r 0 1030))" by simp
  also have "\<dots> = ?r 1022 8" by (rule frange_fbytes [symmetric]) simp
  also have "\<dots> = [254, 255, 0, 1, 2, 3, 4, 5]"
    by (simp add: frange_def block_at_def small_file(2) BSIZE_def upt_rec_numeral)
  finally show ?thesis .
qed

theorem readi_reads_file_witness:
  "\<exists>st'. readi 0 LocalDst 1022 100 small_file = Inr (8, [254, 255, 0, 1, 2, 3, 4, 5], st') \<and> unchanged 1 (\<lambda>_. 0) small_file st'"
proof -
  have "mapped (store 1 small_file) (inodes small_file 0) (j div BSIZE)" if "j < 1030" for j
  proof -
    have "j div BSIZE < 2" using that by (simp add: BSIZE_def)
    then have "j div BSIZE = 0 \<or> j div BSIZE = 1" by linarith
    then show ?thesis by (auto simp: mapped_def blk_def small_file_def fs_consts)
  qed
  then show ?thesis
    using readi_reads_file [OF small_file(1), of 0 1022 100 "[254, 255, 0, 1, 2, 3, 4, 5]"] small_file_bytes
    by (simp add: small_file_def)
qed

end
