(* ===== verification/MkfsImage.thy ===== *)
theory MkfsImage
  imports Mkfs FsView
begin

text \<open>
  What the image builder of the theory of \<^verbatim>\<open>mkfs/mkfs.c\<close> produces: an invariant on images under construction, by which every block
  handed out belongs to exactly one place of one file, the effect of each operation on the contents of the files, and the
  image at the end, as the builder's specification and as the kernel reads it.
\<close>

section \<open>Disk inodes\<close>

lemma get_put_other:
  "o2 + 2 \<le> o1 \<or> o1 + 2 \<le> o2 \<Longrightarrow> get16 (put16 b o1 v) o2 = get16 b o2"
  "o2 + 2 \<le> o1 \<or> o1 + 4 \<le> o2 \<Longrightarrow> get16 (put32 b o1 w) o2 = get16 b o2"
  "o2 + 4 \<le> o1 \<or> o1 + 2 \<le> o2 \<Longrightarrow> get32 (put16 b o1 v) o2 = get32 b o2"
  by (auto simp: get16_def put16_def get32_def put32_def)

lemma put_byte:
  "i < o1 \<or> o1 + 4 \<le> i \<Longrightarrow> put32 b o1 v i = b i" "i < o1 \<or> o1 + 2 \<le> i \<Longrightarrow> put16 b o1 w i = b i"
  by (auto simp: put32_def put16_def)

lemma addrs_fold:
  "o2 + 2 \<le> o1 + 12 \<Longrightarrow> get16 (fold (\<lambda>k d. put32 d (o1 + 12 + 4 * k) (as ! k)) [0..<n] b) o2 = get16 b o2"
  "o2 + 4 \<le> o1 + 12 \<Longrightarrow> get32 (fold (\<lambda>k d. put32 d (o1 + 12 + 4 * k) (as ! k)) [0..<n] b) o2 = get32 b o2"
  "k < n \<Longrightarrow> get32 (fold (\<lambda>k d. put32 d (o1 + 12 + 4 * k) (as ! k)) [0..<n] b) (o1 + 12 + 4 * k) = as ! k"
  "i < o1 + 12 \<or> o1 + 12 + 4 * n \<le> i \<Longrightarrow> fold (\<lambda>k d. put32 d (o1 + 12 + 4 * k) (as ! k)) [0..<n] b i = b i"
  by (induction n) (auto simp: get_put_other get32_put32_other put_byte less_Suc_eq)

text \<open>The part of an inode that is on disk.\<close>

definition on_disk :: "inode \<Rightarrow> inode" where
  "on_disk ip = zero_inode\<lparr>i_type := i_type ip, i_major := i_major ip, i_minor := i_minor ip, i_nlink := i_nlink ip,
     i_size := i_size ip, i_addrs := i_addrs ip\<rparr>"

lemma on_disk_simps [simp]:
  "i_type (on_disk ip) = i_type ip" "i_size (on_disk ip) = i_size ip" "i_addrs (on_disk ip) = i_addrs ip"
  "i_nlink (on_disk ip) = i_nlink ip"
  by (simp_all add: on_disk_def)

lemma get_put_dinode:
  assumes "length (i_addrs ip) = NDIRECT + 1"
  shows "get_dinode (put_dinode b o1 ip) o1 zero_inode = on_disk ip"
proof -
  have "map (\<lambda>k. get32 (put_dinode b o1 ip) (o1 + 12 + 4 * k)) [0..<NDIRECT + 1] = i_addrs ip"
    using assms by (intro nth_equalityI) (simp_all add: put_dinode_def addrs_fold(3) del: upt_Suc)
  then show ?thesis
    by (simp add: get_dinode_def on_disk_def put_dinode_def addrs_fold(1,2) get_put_other del: upt_Suc)
qed

lemma put_dinode_byte: "i < o1 \<or> o1 + DINODE_SIZE \<le> i \<Longrightarrow> put_dinode b o1 ip i = b i"
  unfolding put_dinode_def by (subst addrs_fold(4)) (auto simp: DINODE_SIZE_def NDIRECT_def put_byte)

lemma get_dinode_cong:
  assumes "\<And>i. o1 \<le> i \<Longrightarrow> i < o1 + DINODE_SIZE \<Longrightarrow> b i = b' i"
  shows "get_dinode b o1 ip = get_dinode b' o1 ip"
proof -
  have g16: "get16 b (o1 + a) = get16 b' (o1 + a)" if "a < 63" for a
    using that assms by (simp add: get16_def DINODE_SIZE_def)
  have g32: "get32 b (o1 + a) = get32 b' (o1 + a)" if "a < 61" for a
    using that assms by (simp add: get32_def DINODE_SIZE_def)
  have "map (\<lambda>k. get32 b (o1 + 12 + 4 * k)) [0..<NDIRECT + 1] = map (\<lambda>k. get32 b' (o1 + 12 + 4 * k)) [0..<NDIRECT + 1]"
    using g32 by (intro map_cong) (auto simp: NDIRECT_def add.assoc)
  moreover have "get16 b (o1 + 2) = get16 b' (o1 + 2)" "get16 b o1 = get16 b' o1" using g16 [of 0] g16 [of 2] by simp_all
  ultimately show ?thesis unfolding get_dinode_def using g16 [of 4] g16 [of 6] g32 [of 8] by (simp only:)
qed

section \<open>Blocks of files\<close>

lemma sector_at [simp]: "unat b < FSSIZE \<Longrightarrow> sector_at b = unat b"
proof -
  assume "unat b < FSSIZE"
  then have "unat b * 1024 < 2 ^ 32" by (simp add: FSSIZE_def)
  then have "unat (b * 1024) = unat b * 1024" by (simp add: unat_word_ariths)
  then show ?thesis by (simp add: sector_at_def BSIZE_def)
qed

text \<open>A file of \<open>n\<close> bytes has the places in \<open>places n\<close>.\<close>

definition nblk :: "nat \<Rightarrow> nat" where
  "nblk n = (n + BSIZE - 1) div BSIZE"

definition places :: "nat \<Rightarrow> nat set" where
  "places n = {k. k < nblk n} \<union> (if NDIRECT < nblk n then {MAXFILE} else {})"

text \<open>The places in use, \<open>S\<close>, hold blocks; the others hold no block number. Behind the end of the file the blocks are zero.\<close>

definition inode_ok :: "(nat \<Rightarrow> block) \<Rightarrow> inode \<Rightarrow> nat set \<Rightarrow> bool" where
  "inode_ok im d S \<longleftrightarrow> length (i_addrs d) = NDIRECT + 1 \<and> isize d \<le> MAXFILE * BSIZE \<and> S \<subseteq> {..MAXFILE}
     \<and> (\<forall>k\<in>S. NDIRECT \<le> k \<longrightarrow> MAXFILE \<in> S)
     \<and> (\<forall>k\<le>MAXFILE. k \<notin> S \<longrightarrow> k < NDIRECT \<or> k = MAXFILE \<or> MAXFILE \<in> S \<longrightarrow> blk im d k = 0)
     \<and> (\<forall>k\<in>S. k < MAXFILE \<longrightarrow> (\<forall>o1<BSIZE. isize d \<le> k * BSIZE + o1 \<longrightarrow> im (blk im d k) o1 = 0))"

text \<open>Every block between the metadata and the next free block is in exactly one place of one file.\<close>

definition img_ok :: "(nat \<Rightarrow> inode) \<Rightarrow> (nat \<Rightarrow> nat set) \<Rightarrow> nat \<Rightarrow> (nat \<Rightarrow> block) \<Rightarrow> nat \<Rightarrow> bool" where
  "img_ok D P N im fb \<longleftrightarrow> (\<forall>i\<in>{1..<N}. inode_ok im (D i) (P i))
     \<and> nmeta \<le> fb \<and> bij_betw (\<lambda>(i, k). blk im (D i) k) (Sigma {1..<N} P) {nmeta..<fb}
     \<and> (\<forall>b. fb \<le> b \<longrightarrow> b < FSSIZE \<longrightarrow> im b = (\<lambda>_. 0))"

lemma inode_okD:
  assumes "inode_ok im d S"
  shows "length (i_addrs d) = NDIRECT + 1" and "isize d \<le> MAXFILE * BSIZE" and "k \<in> S \<Longrightarrow> k \<le> MAXFILE"
    and "k \<in> S \<Longrightarrow> NDIRECT \<le> k \<Longrightarrow> MAXFILE \<in> S"
    and "k \<le> MAXFILE \<Longrightarrow> k \<notin> S \<Longrightarrow> k < NDIRECT \<or> k = MAXFILE \<or> MAXFILE \<in> S \<Longrightarrow> blk im d k = 0"
    and "k \<in> S \<Longrightarrow> k < MAXFILE \<Longrightarrow> o1 < BSIZE \<Longrightarrow> isize d \<le> k * BSIZE + o1 \<Longrightarrow> im (blk im d k) o1 = 0"
  using assms by (auto simp: inode_ok_def)

lemma img_okD:
  assumes "img_ok D P N im fb" and "i \<in> {1..<N}"
  shows "inode_ok im (D i) (P i)" and "k \<in> P i \<Longrightarrow> nmeta \<le> blk im (D i) k \<and> blk im (D i) k < fb"
    and "k \<in> P i \<Longrightarrow> j \<in> {1..<N} \<Longrightarrow> m \<in> P j \<Longrightarrow> blk im (D i) k = blk im (D j) m \<longleftrightarrow> i = j \<and> k = m"
proof -
  note ok = assms(1) [unfolded img_ok_def]
  show "inode_ok im (D i) (P i)" using ok assms(2) by blast
  show "nmeta \<le> blk im (D i) k \<and> blk im (D i) k < fb" if "k \<in> P i"
    using bij_betwE [of _ "Sigma {1..<N} P"] ok that assms(2) by fastforce
  show "blk im (D i) k = blk im (D j) m \<longleftrightarrow> i = j \<and> k = m" if "k \<in> P i" "j \<in> {1..<N}" "m \<in> P j"
  proof -
    have "inj_on (\<lambda>(i, k). blk im (D i) k) (Sigma {1..<N} P)" using ok bij_betw_imp_inj_on by blast
    from inj_on_eq_iff [OF this, of "(i, k)" "(j, m)"] that assms(2) show ?thesis by simp
  qed
qed

lemma blk_cong:
  assumes "i_addrs d' = i_addrs d" and "NDIRECT \<le> k \<Longrightarrow> k < MAXFILE \<Longrightarrow> im' (blk im d MAXFILE) = im (blk im d MAXFILE)"
    and "k \<le> MAXFILE"
  shows "blk im' d' k = blk im d k"
  using assms by (auto simp: blk_def fs_consts)

text \<open>A change of a block that is not the file's does not concern it.\<close>

lemma other_ok:
  assumes ok: "inode_ok im d S" and c: "\<And>k. k \<in> S \<Longrightarrow> blk im d k \<noteq> c"
  shows "k \<in> S \<Longrightarrow> blk (im(c := x)) d k = blk im d k" and "inode_ok (im(c := x)) d S"
proof -
  have same: "blk (im(c := x)) d k = blk im d k" if "k \<le> MAXFILE" "k < NDIRECT \<or> k = MAXFILE \<or> MAXFILE \<in> S" for k
    using that c [of MAXFILE] by (intro blk_cong) auto
  have le: "k \<le> MAXFILE \<and> (k < NDIRECT \<or> k = MAXFILE \<or> MAXFILE \<in> S)" if "k \<in> S" for k
    using that inode_okD(3,4) [OF ok] not_less by blast
  show "blk (im(c := x)) d k = blk im d k" if "k \<in> S" for k using same le that by blast
  show "inode_ok (im(c := x)) d S"
    unfolding inode_ok_def
  proof (intro conjI ballI allI impI)
    fix k o1 assume k: "k \<in> S" "k < MAXFILE" "o1 < BSIZE" "isize d \<le> k * BSIZE + o1"
    then have "blk (im(c := x)) d k = blk im d k" using same le by blast
    with k c ok show "(im(c := x)) (blk (im(c := x)) d k) o1 = 0" by (auto simp: inode_ok_def)
  qed (use ok same in \<open>auto simp: inode_ok_def\<close>)
qed

lemma bij_extend:
  assumes "bij_betw f S {a..<b}" and "a \<le> b" and "s \<notin> S" and "\<And>x. x \<in> S \<Longrightarrow> g x = f x" and "g s = b"
  shows "bij_betw g (insert s S) {a..<Suc b}"
proof -
  have "bij_betw g S {a..<b}" using assms(1,4) bij_betw_cong by blast
  moreover have "{a..<Suc b} = insert b {a..<b}" using assms(2) by auto
  ultimately show ?thesis using assms(3,5) notIn_Un_bij_betw [of s S g "{a..<b}"] by auto
qed

lemma Sigma_insert: "i \<in> A \<Longrightarrow> Sigma A (P(i := insert k (P i))) = insert (i, k) (Sigma A P)"
  by (auto split: if_splits)

text \<open>The conclusion of a step that gives the block \<open>fb\<close> to the place \<open>k\<close> of file \<open>i\<close>.\<close>

lemma img_ok_extend:
  assumes ok: "img_ok D P N im fb" and i: "i \<in> {1..<N}" and k: "k \<notin> P i"
    and ino: "\<And>j. j \<in> {1..<N} \<Longrightarrow> inode_ok im' (D' j) ((P(i := insert k (P i))) j)"
    and same: "\<And>j m. j \<in> {1..<N} \<Longrightarrow> m \<in> P j \<Longrightarrow> blk im' (D' j) m = blk im (D j) m"
    and fb: "blk im' (D' i) k = fb"
    and fresh: "\<And>b. fb < b \<Longrightarrow> b < FSSIZE \<Longrightarrow> im' b = im b"
  shows "img_ok D' (P(i := insert k (P i))) N im' (Suc fb)"
proof -
  have "bij_betw (\<lambda>(i, k). blk im' (D' i) k) (insert (i, k) (Sigma {1..<N} P)) {nmeta..<Suc fb}"
    using ok k same fb by (intro bij_extend [of "\<lambda>(i, k). blk im (D i) k"]) (auto simp: img_ok_def)
  then show ?thesis
    using ok ino fresh i by (auto simp: img_ok_def Sigma_insert)
qed

lemma unat_block [simp]: "fb < FSSIZE \<Longrightarrow> unat (of_nat fb :: u32) = fb"
  by (simp add: FSSIZE_def unat_of_nat)

text \<open>The three steps of \<^verbatim>\<open>iappend\<close>: a block number goes into the inode, a block number goes into the indirect block, and bytes
  go into a block of the file.\<close>

lemma alloc_direct:
  assumes ok: "img_ok D P N im fb" and i: "i \<in> {1..<N}" and fb: "fb < FSSIZE"
    and k: "k < NDIRECT \<or> k = MAXFILE" "k \<notin> P i" "isize (D i) \<le> k * BSIZE"
    and d': "d' = (D i)\<lparr>i_addrs := (i_addrs (D i))[if k = MAXFILE then NDIRECT else k := of_nat fb]\<rparr>"
  shows "img_ok (D(i := d')) (P(i := insert k (P i))) N im (Suc fb)"
    and "m \<in> P i \<Longrightarrow> blk im d' m = blk im (D i) m" and "blk im d' k = fb"
proof -
  note iok = img_okD(1) [OF ok i]
  note len = inode_okD(1) [OF iok]
  show kb: "blk im d' k = fb" using k(1) fb len by (auto simp: blk_def d' fs_consts)
  have same: "blk im d' m = blk im (D i) m" if "m \<noteq> k" "m < NDIRECT \<or> m = MAXFILE \<or> k \<noteq> MAXFILE" for m
    using that k(1) len by (auto simp: blk_def d' fs_consts)
  have ind: "blk im d' m = 0" if "NDIRECT \<le> m" "m < MAXFILE" "k = MAXFILE" for m
    using that ok fb len by (auto simp: blk_def d' img_ok_def get32_def)
  have old: "blk im d' m = blk im (D i) m" if "m \<in> P i" for m
    using same [of m] inode_okD(3,4) [OF iok that] that k(1,2) by force
  then show "m \<in> P i \<Longrightarrow> blk im d' m = blk im (D i) m" .
  have "inode_ok im d' (insert k (P i))"
    unfolding inode_ok_def
  proof (intro conjI ballI allI impI)
    fix m assume m: "m \<le> MAXFILE" "m \<notin> insert k (P i)" "m < NDIRECT \<or> m = MAXFILE \<or> MAXFILE \<in> insert k (P i)"
    then show "blk im d' m = 0" using same [of m] ind [of m] inode_okD(5) [OF iok, of m] by force
  next
    fix m o1 assume m: "m \<in> insert k (P i)" "m < MAXFILE" "o1 < BSIZE" "isize d' \<le> m * BSIZE + o1"
    then show "im (blk im d' m) o1 = 0"
      using kb old inode_okD(6) [OF iok, of m o1] ok fb by (cases "m = k") (auto simp: img_ok_def d')
  qed (use iok k(1) in \<open>auto simp: inode_ok_def d' fs_consts\<close>)
  then show "img_ok (D(i := d')) (P(i := insert k (P i))) N im (Suc fb)"
    using ok i k(2) old kb img_okD(1) [OF ok] by (intro img_ok_extend [of D P N im fb]) auto
qed

lemma alloc_indirect:
  assumes ok: "img_ok D P N im fb" and i: "i \<in> {1..<N}" and fb: "fb < FSSIZE"
    and k: "NDIRECT \<le> k" "k < MAXFILE" "k \<notin> P i" "MAXFILE \<in> P i" "isize (D i) \<le> k * BSIZE"
    and c: "c = blk im (D i) MAXFILE" and im': "im' = im(c := put32 (im c) (4 * (k - NDIRECT)) (of_nat fb))"
  shows "img_ok D (P(i := insert k (P i))) N im' (Suc fb)"
    and "j \<in> {1..<N} \<Longrightarrow> m \<in> P j \<Longrightarrow> blk im' (D j) m = blk im (D j) m" and "blk im' (D i) k = fb"
proof -
  note iok = img_okD(1) [OF ok i] and cb = img_okD(2) [OF ok i k(4)]
  have c': "unat (i_addrs (D i) ! NDIRECT) = c" by (simp add: c blk_def fs_consts)
  then show kb: "blk im' (D i) k = fb" using k fb by (simp add: blk_def im')
  have same: "blk im' (D i) m = blk im (D i) m" if "m \<noteq> k" "m \<le> MAXFILE" for m
  proof -
    have "get32 (im' c) (4 * (m - NDIRECT)) = get32 (im c) (4 * (m - NDIRECT))" if "NDIRECT \<le> m"
      using that \<open>m \<noteq> k\<close> k(1) unfolding im' fun_upd_same by (intro get32_put32_other) presburger
    then show ?thesis using that c' by (simp add: blk_def)
  qed
  have old: "blk im' (D i) m = blk im (D i) m" if "m \<in> P i" for m
    using same that inode_okD(3) [OF iok that] k(3) by metis
  have oth: "inode_ok im' (D j) (P j)" "m \<in> P j \<Longrightarrow> blk im' (D j) m = blk im (D j) m" if "j \<in> {1..<N}" "j \<noteq> i" for j m
    using other_ok [OF img_okD(1) [OF ok that(1)], of c] img_okD(3) [OF ok that(1) _ i k(4)] that(2)
    unfolding im' c by blast+
  show allj: "blk im' (D j) m = blk im (D j) m" if "j \<in> {1..<N}" "m \<in> P j" for j m
    using old oth(2) that by (cases "j = i") auto
  have nc: "blk im (D i) m \<noteq> c" if "m \<in> P i" "m < MAXFILE" for m
    using img_okD(3) [OF ok i that(1) i k(4)] that(2) unfolding c by simp
  have "inode_ok im' (D i) (insert k (P i))"
    unfolding inode_ok_def
  proof (intro conjI ballI allI impI)
    fix m assume "m \<le> MAXFILE" "m \<notin> insert k (P i)"
    then show "blk im' (D i) m = 0" using same [of m] inode_okD(5) [OF iok, of m] k(4) by auto
  next
    fix m o1 assume m: "m \<in> insert k (P i)" "m < MAXFILE" "o1 < BSIZE" "isize (D i) \<le> m * BSIZE + o1"
    show "im' (blk im' (D i) m) o1 = 0"
    proof (cases "m = k")
      case True
      then show ?thesis using kb ok fb cb by (simp add: im' c img_ok_def)
    next
      case False
      with m show ?thesis using nc old inode_okD(6) [OF iok, of m o1] by (auto simp: im')
    qed
  qed (use iok k in \<open>auto simp: inode_ok_def\<close>)
  then show "img_ok D (P(i := insert k (P i))) N im' (Suc fb)"
    using ok i k(3) allj kb oth(1) cb by (intro img_ok_extend [of D P N im fb]) (auto simp: im' c)
qed

lemma write_data:
  assumes ok: "img_ok D P N im fb" and i: "i \<in> {1..<N}" and k: "k \<in> P i" "k < MAXFILE"
    and c: "c = blk im (D i) k" and im': "im' = im(c := x)"
    and d': "d' = (D i)\<lparr>i_size := n\<rparr>" "isize (D i) \<le> unat n" "unat n \<le> MAXFILE * BSIZE"
    and x: "\<forall>o1<BSIZE. unat n \<le> k * BSIZE + o1 \<longrightarrow> x o1 = 0"
  shows "img_ok (D(i := d')) P N im' fb"
    and "j \<in> {1..<N} \<Longrightarrow> m \<in> P j \<Longrightarrow> blk im' ((D(i := d')) j) m = blk im (D j) m"
proof -
  note iok = img_okD(1) [OF ok i]
  have oth: "inode_ok im' (D j) (P j)" "m \<in> P j \<Longrightarrow> blk im' (D j) m = blk im (D j) m" if "j \<in> {1..<N}" "j \<noteq> i" for j m
    using other_ok [OF img_okD(1) [OF ok that(1)], of c] img_okD(3) [OF ok that(1) _ i k(1)] that(2)
    unfolding im' c by blast+
  have same: "blk im' d' m = blk im (D i) m" if "m \<le> MAXFILE" "m < NDIRECT \<or> m = MAXFILE \<or> MAXFILE \<in> P i" for m
    using that img_okD(3) [OF ok i _ i k(1), of MAXFILE] k(2) unfolding im' c d' by (intro blk_cong) auto
  have old: "blk im' d' m = blk im (D i) m" if "m \<in> P i" for m
    using same inode_okD(3,4) [OF iok that] that not_less by blast
  show allj: "blk im' ((D(i := d')) j) m = blk im (D j) m" if "j \<in> {1..<N}" "m \<in> P j" for j m
    using old oth(2) that by (cases "j = i") auto
  have "inode_ok im' d' (P i)"
    unfolding inode_ok_def
  proof (intro conjI ballI allI impI)
    fix m o1 assume m: "m \<in> P i" "m < MAXFILE" "o1 < BSIZE" "isize d' \<le> m * BSIZE + o1"
    show "im' (blk im' d' m) o1 = 0"
    proof (cases "m = k")
      case True
      with m x old k show ?thesis by (simp add: im' c d')
    next
      case False
      with m have "blk im (D i) m \<noteq> c" using img_okD(3) [OF ok i m(1) i k(1)] by (simp add: c)
      with m d' old show ?thesis using inode_okD(6) [OF iok, of m o1] by (simp add: im')
    qed
  qed (use iok same d' in \<open>auto simp: inode_ok_def\<close>)
  moreover have "bij_betw (\<lambda>(j, m). blk im' ((D(i := d')) j) m) (Sigma {1..<N} P) {nmeta..<fb}"
    using ok allj by (subst bij_betw_cong [of _ _ "\<lambda>(i, k). blk im (D i) k"]) (auto simp: img_ok_def)
  moreover have "c < fb" using img_okD(2) [OF ok i k(1)] by (simp add: c)
  ultimately show "img_ok (D(i := d')) P N im' fb"
    using ok oth(1) by (auto simp: img_ok_def im')
qed

section \<open>Appending\<close>

lemma nblk_grow:
  assumes "0 < n" and "off mod BSIZE + n \<le> BSIZE"
  shows "nblk (off + n) = Suc (off div BSIZE)"
proof -
  have "off + n + BSIZE - 1 = (off mod BSIZE + n - 1) + Suc (off div BSIZE) * BSIZE"
    using assms(1) div_mult_mod_eq [of off BSIZE] by simp
  then have "nblk (off + n) = (off mod BSIZE + n - 1) div BSIZE + Suc (off div BSIZE)"
    unfolding nblk_def by (simp add: BSIZE_def del: mult_Suc)
  then show ?thesis using assms by simp
qed

lemma nblk_off: "nblk off = (if off mod BSIZE = 0 then off div BSIZE else Suc (off div BSIZE))"
proof (cases "off mod BSIZE = 0")
  case True
  then have "off = off div BSIZE * BSIZE" by (metis add_0_right div_mult_mod_eq)
  then obtain q where "off = q * BSIZE" by blast
  then show ?thesis by (simp add: nblk_def BSIZE_def)
next
  case False
  have "off mod BSIZE < BSIZE" by (simp add: BSIZE_def)
  then have "(off div BSIZE * BSIZE) mod BSIZE + off mod BSIZE \<le> BSIZE" by simp
  then have "nblk (off div BSIZE * BSIZE + off mod BSIZE) = Suc (off div BSIZE * BSIZE div BSIZE)"
    using False by (intro nblk_grow) auto
  with False show ?thesis by (simp add: BSIZE_def)
qed

lemma nblk_Suc: "nblk (Suc off) = Suc (off div BSIZE)"
  using nblk_grow [of 1 off] by (simp add: BSIZE_def Suc_le_eq)

lemma nblk_le: "n \<le> MAXFILE * BSIZE \<Longrightarrow> nblk n \<le> MAXFILE"
  by (simp add: nblk_def fs_consts)

definition nplaces :: "nat \<Rightarrow> nat" where
  "nplaces n = nblk n + (if NDIRECT < nblk n then 1 else 0)"

lemma places_grow: "0 < n \<Longrightarrow> off mod BSIZE + n \<le> BSIZE \<Longrightarrow> places (off + n) = places (Suc off) \<and> nplaces (off + n) = nplaces (Suc off)"
  by (simp add: places_def nplaces_def nblk_grow nblk_Suc)

lemma card_places: "n \<le> MAXFILE * BSIZE \<Longrightarrow> card (places n) = nplaces n"
  using nblk_le [of n] by (auto simp: places_def nplaces_def)

lemma finite_places [simp]: "finite (places n)"
  by (simp add: places_def)

lemma places_old: "off mod BSIZE \<noteq> 0 \<Longrightarrow> places (Suc off) = places off \<and> nplaces (Suc off) = nplaces off"
  by (simp add: places_def nplaces_def nblk_Suc nblk_off [of off])

lemma places_new:
  assumes "off mod BSIZE = 0" and "k = off div BSIZE" and "k < MAXFILE"
  shows "k \<notin> places off" and "k < NDIRECT \<Longrightarrow> places (Suc off) = insert k (places off) \<and> nplaces (Suc off) = Suc (nplaces off)"
    and "k = NDIRECT \<Longrightarrow> MAXFILE \<notin> places off \<and> places (Suc off) = insert k (insert MAXFILE (places off))
            \<and> nplaces (Suc off) = Suc (Suc (nplaces off))"
    and "NDIRECT < k \<Longrightarrow> MAXFILE \<in> places off \<and> places (Suc off) = insert k (places off) \<and> nplaces (Suc off) = Suc (nplaces off)"
  using assms by (auto simp: places_def nplaces_def nblk_Suc nblk_off [of off] fs_consts)

definition frame :: "mkfs \<Rightarrow> mkfs \<Rightarrow> bool" where
  "frame st st' \<longleftrightarrow> msb st' = msb st \<and> freeinode st' = freeinode st \<and> img_n st' = img_n st
     \<and> (\<forall>b<nmeta. img st' b = img st b)"

text \<open>The place of offset \<open>off\<close> of file \<open>i\<close> has a block now, and the data of all files is as before.\<close>

definition placed :: "(nat \<Rightarrow> inode) \<Rightarrow> (nat \<Rightarrow> nat set) \<Rightarrow> nat \<Rightarrow> nat \<Rightarrow> nat \<Rightarrow> mkfs \<Rightarrow> inode \<Rightarrow> mkfs \<Rightarrow> bool" where
  "placed D P N i off st d st' \<longleftrightarrow> frame st st'
     \<and> img_ok (D(i := d)) (P(i := places (Suc off))) N (img st') (unat (freeblock st'))
     \<and> unat (freeblock st') + nplaces off = unat (freeblock st) + nplaces (Suc off)
     \<and> (\<forall>j\<in>{1..<N}. \<forall>m\<in>P j. blk (img st') ((D(i := d)) j) m = blk (img st) (D j) m
          \<and> (m < MAXFILE \<longrightarrow> img st' (blk (img st) (D j) m) = img st (blk (img st) (D j) m)))"

lemma unat_Suc_block: "unat (b :: u32) < FSSIZE \<Longrightarrow> unat (b + 1) = Suc (unat b)"
  by (simp add: unat_word_ariths FSSIZE_def)

lemma rsect_block: "img_n st = FSSIZE \<Longrightarrow> unat b < FSSIZE \<Longrightarrow> rsect b st = Inr (img st (unat b))"
  by (simp add: rsect_def)

lemma wsect_block:
  "img_n st = FSSIZE \<Longrightarrow> unat b < FSSIZE \<Longrightarrow> wsect b x st = st\<lparr>img := (img st)(unat b := x)\<rparr>"
  by (simp add: wsect_def)

lemma file_block_old:
  assumes ok: "img_ok D P N (img st) (unat (freeblock st))" and n: "img_n st = FSSIZE" "unat (freeblock st) \<le> FSSIZE"
    and i: "i \<in> {1..<N}" "P i = places off" and D: "D i = din\<lparr>i_size := of_nat off\<rparr>"
    and off: "off mod BSIZE \<noteq> 0" "k = off div BSIZE" "k < MAXFILE"
  shows "file_block k din st = Inr (of_nat (blk (img st) din k), din, st) \<and> placed D P N i off st (D i) st"
proof -
  note r = img_okD(2) [OF ok i(1), unfolded i(2)]
  have b: "blk (img st) (D i) m = blk (img st) din m" for m by (simp add: D blk_def)
  have kin: "k \<in> places off" "NDIRECT \<le> k \<Longrightarrow> MAXFILE \<in> places off"
    using off by (auto simp: places_def nblk_off)
  have "nmeta > 0" by (simp add: nmeta_def)
  then have k0: "0 < blk (img st) din k" "blk (img st) din k < FSSIZE" using r [OF kin(1)] n by (simp_all add: b)
  have m0: "0 < unat (i_addrs din ! NDIRECT)" "unat (i_addrs din ! NDIRECT) < FSSIZE" if "NDIRECT \<le> k"
    using r [OF kin(2) [OF that]] n \<open>nmeta > 0\<close> by (auto simp: b) (auto simp: blk_def fs_consts)
  have "file_block k din st = Inr (of_nat (blk (img st) din k), din, st)"
  proof (cases "k < NDIRECT")
    case True
    with k0 show ?thesis by (auto simp: file_block_def blk_def)
  next
    case False
    then have "i_addrs din ! NDIRECT \<noteq> 0" using m0 by auto
    moreover have "blk (img st) din k = unat (get32 (img st (unat (i_addrs din ! NDIRECT))) (4 * (k - NDIRECT)))"
      using False off by (simp add: blk_def)
    ultimately show ?thesis using False m0 k0 n by (auto simp: file_block_def rsect_block Let_def)
  qed
  moreover have "placed D P N i off st (D i) st"
    using ok i(2) places_old [OF off(1)] by (simp add: placed_def frame_def) (metis fun_upd_triv)
  ultimately show ?thesis by blast
qed

lemma unat_off [simp]: "off \<le> MAXFILE * BSIZE \<Longrightarrow> unat (of_nat off :: u32) = off"
  by (simp add: fs_consts unat_of_nat)

lemma unat_off_add [simp]: "off + n \<le> MAXFILE * BSIZE \<Longrightarrow> unat (of_nat off + of_nat n :: u32) = off + n"
  using unat_off [of "off + n"] by simp

lemma isize_off: "off \<le> MAXFILE * BSIZE \<Longrightarrow> isize (d\<lparr>i_size := of_nat off\<rparr>) = off"
  by simp

lemma blk_size [simp]: "blk im (d\<lparr>i_size := s\<rparr>) k = blk im d k"
  by (simp add: blk_def)

lemma blk_zero:
  "blk im d k = 0 \<Longrightarrow> k < NDIRECT \<Longrightarrow> i_addrs d ! k = 0" "blk im d MAXFILE = 0 \<Longrightarrow> i_addrs d ! NDIRECT = 0"
  by (simp_all add: blk_def fs_consts unat_eq_zero)

lemma file_block_direct:
  assumes ok: "img_ok D P N (img st) (unat (freeblock st))" and n: "img_n st = FSSIZE" "unat (freeblock st) < FSSIZE"
    and i: "i \<in> {1..<N}" "P i = places off" and D: "D i = din\<lparr>i_size := of_nat off\<rparr>"
    and off: "off mod BSIZE = 0" "k = off div BSIZE" "k < NDIRECT"
  shows "\<exists>x d1 st1. file_block k din st = Inr (x, d1, st1) \<and> placed D P N i off st (d1\<lparr>i_size := of_nat off\<rparr>) st1
      \<and> unat x = blk (img st1) d1 k \<and> i_type d1 = i_type din \<and> i_nlink d1 = i_nlink din"
proof -
  let ?d = "din\<lparr>i_addrs := (i_addrs din)[k := freeblock st]\<rparr>"
  let ?D' = "?d\<lparr>i_size := of_nat off\<rparr>"
  have kM: "k < MAXFILE" using off by (simp add: fs_consts)
  note new = places_new [OF off(1,2) kM]
  have off': "off = k * BSIZE" using off(1,2) by auto
  have size: "isize (D i) = off" unfolding D using off(3) off' by (intro isize_off) (simp add: fs_consts)
  have "blk (img st) (D i) k = 0" using inode_okD(5) [OF img_okD(1) [OF ok i(1)], of k] kM off(3) new(1) i(2) by simp
  then have z: "i_addrs din ! k = 0" using off(3) by (intro blk_zero(1)) (simp_all add: D)
  have d': "?D' = (D i)\<lparr>i_addrs := (i_addrs (D i))[if k = MAXFILE then NDIRECT else k := of_nat (unat (freeblock st))]\<rparr>"
    using D kM by simp
  note al = alloc_direct [OF ok i(1) n(2) _ _ _ d']
  have "placed D P N i off st ?D' (st\<lparr>freeblock := freeblock st + 1\<rparr>)"
    using al off(3) off' size new i n(2) by (auto simp: placed_def frame_def unat_Suc_block)
  moreover have "blk (img st) ?d k = unat (freeblock st)"
    using al(3) off(3) off' size new(1) i(2) by simp
  ultimately show ?thesis
    using z off(3) by (intro exI [of _ "freeblock st"] exI [of _ ?d] exI [of _ "st\<lparr>freeblock := freeblock st + 1\<rparr>"])
      (simp add: file_block_def)
qed

text \<open>The entry of the indirect block, once there is one.\<close>

definition indirect_entry :: "nat \<Rightarrow> inode \<Rightarrow> mkfs \<Rightarrow> mkfs" where
  "indirect_entry k din st =
     (let ind = unat (i_addrs din ! NDIRECT)
      in st\<lparr>img := (img st)(ind := put32 (img st ind) (4 * (k - NDIRECT)) (freeblock st)), freeblock := freeblock st + 1\<rparr>)"

lemma indirect_entry:
  assumes ok: "img_ok D P N (img st) (unat (freeblock st))" and n: "img_n st = FSSIZE" "unat (freeblock st) < FSSIZE"
    and i: "i \<in> {1..<N}" and D: "D i = din\<lparr>i_size := s\<rparr>" and st': "st' = indirect_entry k din st"
    and k: "NDIRECT \<le> k" "k < MAXFILE" "k \<notin> P i" "MAXFILE \<in> P i" "isize (D i) \<le> k * BSIZE"
  shows "i_addrs din ! NDIRECT \<noteq> 0" and "din' = din \<Longrightarrow> file_block k din st = Inr (freeblock st, din', st')"
    and "img_ok D (P(i := insert k (P i))) N (img st') (unat (freeblock st'))"
    and "frame st st'" and "unat (freeblock st') = Suc (unat (freeblock st))" and "blk (img st') din k = unat (freeblock st)"
    and "j \<in> {1..<N} \<Longrightarrow> m \<in> P j \<Longrightarrow> blk (img st') (D j) m = blk (img st) (D j) m"
    and "j \<in> {1..<N} \<Longrightarrow> m \<in> P j \<Longrightarrow> m < MAXFILE \<Longrightarrow> img st' (blk (img st) (D j) m) = img st (blk (img st) (D j) m)"
proof -
  let ?c = "unat (i_addrs din ! NDIRECT)"
  have c: "?c = blk (img st) (D i) MAXFILE" by (simp add: D blk_def fs_consts)
  have r: "nmeta \<le> ?c" "?c < FSSIZE" using img_okD(2) [OF ok i k(4)] n(2) c by simp_all
  then show nz: "i_addrs din ! NDIRECT \<noteq> 0" by (auto simp: nmeta_def)
  have im: "img st' = (img st)(?c := put32 (img st ?c) (4 * (k - NDIRECT)) (of_nat (unat (freeblock st))))"
    by (simp add: st' indirect_entry_def Let_def)
  have fb: "freeblock st' = freeblock st + 1" by (simp add: st' indirect_entry_def Let_def)
  then show fb': "unat (freeblock st') = Suc (unat (freeblock st))" using n(2) by (simp add: unat_Suc_block)
  note al = alloc_indirect [OF ok i n(2) k c im]
  show "img_ok D (P(i := insert k (P i))) N (img st') (unat (freeblock st'))" using al(1) fb' by simp
  show "blk (img st') din k = unat (freeblock st)" using al(3) by (simp add: D)
  show "j \<in> {1..<N} \<Longrightarrow> m \<in> P j \<Longrightarrow> blk (img st') (D j) m = blk (img st) (D j) m" using al(2) .
  show "img st' (blk (img st) (D j) m) = img st (blk (img st) (D j) m)" if "j \<in> {1..<N}" "m \<in> P j" "m < MAXFILE"
    using img_okD(3) [OF ok that(1,2) i k(4)] that(3) c im by simp
  show "frame st st'" using r by (auto simp: frame_def st' indirect_entry_def Let_def)
  have "blk (img st) (D i) k = 0" using inode_okD(5) [OF img_okD(1) [OF ok i], of k] k by simp
  then have "get32 (img st ?c) (4 * (k - NDIRECT)) = 0" using k by (simp add: D blk_def unat_eq_zero)
  then show "file_block k din st = Inr (freeblock st, din', st')" if "din' = din"
    using k nz r(2) n that by (simp add: file_block_def rsect_block wsect_block Let_def st' indirect_entry_def)
qed

lemma file_block_indirect:
  assumes ok: "img_ok D P N (img st) (unat (freeblock st))" and n: "img_n st = FSSIZE" "unat (freeblock st) < FSSIZE"
    and i: "i \<in> {1..<N}" "P i = places off" and D: "D i = din\<lparr>i_size := of_nat off\<rparr>"
    and off: "off mod BSIZE = 0" "k = off div BSIZE" "NDIRECT < k" "k < MAXFILE"
  shows "\<exists>x d1 st1. file_block k din st = Inr (x, d1, st1) \<and> placed D P N i off st (d1\<lparr>i_size := of_nat off\<rparr>) st1
      \<and> unat x = blk (img st1) d1 k \<and> i_type d1 = i_type din \<and> i_nlink d1 = i_nlink din"
proof -
  note new = places_new [OF off(1,2,4)]
  have off': "off = k * BSIZE" using off(1,2) by auto
  have size: "isize (D i) \<le> k * BSIZE" unfolding D using off(4) off' by (subst isize_off) (simp_all add: fs_consts)
  note ie = indirect_entry [OF ok n i(1) D refl _ off(4) _ _ size]
  have D': "D(i := D i) = D" by simp
  have "placed D P N i off st (D i) (indirect_entry k din st)"
    unfolding placed_def D' using ie(3,4,5,7,8) new off(3) i(2) by simp
  then show ?thesis
    using ie(2,6) new off(3) i(2) D
    by (intro exI [of _ "freeblock st"] exI [of _ din] exI [of _ "indirect_entry k din st"]) simp
qed

lemma file_block_first_indirect:
  assumes ok: "img_ok D P N (img st) (unat (freeblock st))" and n: "img_n st = FSSIZE" "Suc (unat (freeblock st)) < FSSIZE"
    and i: "i \<in> {1..<N}" "P i = places off" and D: "D i = din\<lparr>i_size := of_nat off\<rparr>"
    and off: "off mod BSIZE = 0" "k = off div BSIZE" "k = NDIRECT"
  shows "\<exists>x d1 st1. file_block k din st = Inr (x, d1, st1) \<and> placed D P N i off st (d1\<lparr>i_size := of_nat off\<rparr>) st1
      \<and> unat x = blk (img st1) d1 k \<and> i_type d1 = i_type din \<and> i_nlink d1 = i_nlink din"
proof -
  let ?d = "din\<lparr>i_addrs := (i_addrs din)[NDIRECT := freeblock st]\<rparr>"
  let ?D' = "?d\<lparr>i_size := of_nat off\<rparr>" and ?st = "st\<lparr>freeblock := freeblock st + 1\<rparr>" and ?P = "P(i := insert MAXFILE (P i))"
  have kM: "k < MAXFILE" "NDIRECT < MAXFILE" using off(3) by (simp_all add: fs_consts)
  have n': "unat (freeblock st) < FSSIZE" using n(2) by simp
  note new = places_new [OF off(1,2) kM(1)]
  have off': "off = k * BSIZE" using off(1,2) by auto
  have size: "isize (D i) = off" unfolding D using off(3) off' by (intro isize_off) (simp add: fs_consts)
  then have sz: "isize (D i) \<le> MAXFILE * BSIZE" "isize ?D' \<le> k * BSIZE" using off' kM by (simp_all add: D)
  have "blk (img st) (D i) MAXFILE = 0"
    using inode_okD(5) [OF img_okD(1) [OF ok i(1)], of MAXFILE] new(3) off(3) i(2) by simp
  then have z: "i_addrs din ! NDIRECT = 0" by (intro blk_zero(2)) (simp add: D)
  have d': "?D' = (D i)\<lparr>i_addrs := (i_addrs (D i))[if MAXFILE = MAXFILE then NDIRECT else MAXFILE := of_nat (unat (freeblock st))]\<rparr>"
    using D by simp
  have M: "MAXFILE < NDIRECT \<or> MAXFILE = MAXFILE" "MAXFILE \<notin> P i" using new(3) off(3) i(2) by simp_all
  note al = alloc_direct [OF ok i(1) n' M sz(1) d']
  have fb: "unat (freeblock ?st) = Suc (unat (freeblock st))" using n' by (simp add: unat_Suc_block)
  have ok1: "img_ok (D(i := ?D')) ?P N (img ?st) (unat (freeblock ?st))" using al(1) fb by simp
  have pre: "img_n ?st = FSSIZE" "unat (freeblock ?st) < FSSIZE" "(D(i := ?D')) i = ?d\<lparr>i_size := of_nat off\<rparr>"
    "NDIRECT \<le> k" "k \<notin> ?P i" "MAXFILE \<in> ?P i" "isize ((D(i := ?D')) i) \<le> k * BSIZE"
    using n fb off(3) new(1) kM i(2) sz by simp_all
  note ie = indirect_entry [OF ok1 pre(1,2) i(1) pre(3) refl pre(4) kM(1) pre(5-7)]
  let ?st2 = "indirect_entry k ?d ?st"
  have P2: "?P(i := insert k (?P i)) = P(i := places (Suc off))" using new(3) off(3) i(2) by simp
  have b1: "blk (img st) ((D(i := ?D')) j) m = blk (img st) (D j) m" if "m \<in> P j" for j m
    using al(2) that by (cases "j = i") simp_all
  have "placed D P N i off st ?D' ?st2"
    unfolding placed_def
  proof (intro conjI ballI impI)
    fix j m assume jm: "j \<in> {1..<N}" "m \<in> P j"
    then have jm': "m \<in> ?P j" by auto
    show "blk (img ?st2) ((D(i := ?D')) j) m = blk (img st) (D j) m" using ie(7) [OF jm(1) jm'] b1 [OF jm(2)] by simp
    show "img ?st2 (blk (img st) (D j) m) = img st (blk (img st) (D j) m)" if "m < MAXFILE"
      using ie(8) [OF jm(1) jm' that] b1 [OF jm(2)] by simp
  next
    show "img_ok (D(i := ?D')) (P(i := places (Suc off))) N (img ?st2) (unat (freeblock ?st2))" using ie(3) unfolding P2 .
  qed (use ie(4,5) fb new(3) off(3) in \<open>simp_all add: frame_def\<close>)
  moreover have "file_block k din st = Inr (freeblock ?st, ?d, ?st2)"
    using z ie(1) ie(2) [of ?d] off(3) by (simp add: file_block_def Let_def)
  ultimately show ?thesis
    using ie(6) by (intro exI [of _ "freeblock ?st"] exI [of _ ?d] exI [of _ ?st2]) simp
qed

lemma file_block_ok:
  assumes ok: "img_ok D P N (img st) (unat (freeblock st))" and n: "img_n st = FSSIZE" "unat (freeblock st) \<le> FSSIZE"
    and i: "i \<in> {1..<N}" "P i = places off" and D: "D i = din\<lparr>i_size := of_nat off\<rparr>"
    and off: "k = off div BSIZE" "k < MAXFILE" and room: "unat (freeblock st) + nplaces (Suc off) \<le> FSSIZE + nplaces off"
  shows "\<exists>x d1 st1. file_block k din st = Inr (x, d1, st1) \<and> placed D P N i off st (d1\<lparr>i_size := of_nat off\<rparr>) st1
      \<and> unat x = blk (img st1) d1 k \<and> i_type d1 = i_type din \<and> i_nlink d1 = i_nlink din"
proof (cases "off mod BSIZE = 0")
  case True
  note new = places_new [OF True off]
  consider "k < NDIRECT" | "k = NDIRECT" | "NDIRECT < k" by linarith
  then show ?thesis
  proof cases
    case 1
    with new room have "unat (freeblock st) < FSSIZE" by simp
    from file_block_direct [OF ok n(1) this i D True off(1) 1] show ?thesis .
  next
    case 2
    with new room have "Suc (unat (freeblock st)) < FSSIZE" by simp
    from file_block_first_indirect [OF ok n(1) this i D True off(1) 2] show ?thesis .
  next
    case 3
    with new room have "unat (freeblock st) < FSSIZE" by simp
    from file_block_indirect [OF ok n(1) this i D True off(1) 3 off(2)] show ?thesis .
  qed
next
  case False
  have "k \<in> P i" using False off i(2) by (simp add: places_def nblk_off)
  then have "blk (img st) din k < FSSIZE" using img_okD(2) [OF ok i(1)] n(2) by (fastforce simp: D)
  then show ?thesis
    using file_block_old [OF ok n i D False off]
    by (intro exI [of _ "of_nat (blk (img st) din k)"] exI [of _ din] exI [of _ st]) (simp add: D)
qed

lemma places_mono: "a \<le> b \<Longrightarrow> places a \<subseteq> places b \<and> nplaces a \<le> nplaces b"
proof -
  assume "a \<le> b"
  then have "nblk a \<le> nblk b" unfolding nblk_def by (intro div_le_mono) simp
  then show ?thesis by (auto simp: places_def nplaces_def)
qed

lemma fbytes_cong:
  assumes "\<And>j. j < n \<Longrightarrow> j div BSIZE < nblk n
      \<Longrightarrow> im' (blk im' d' (j div BSIZE)) (j mod BSIZE) = im (blk im d (j div BSIZE)) (j mod BSIZE)"
  shows "fbytes im' d' n = fbytes im d n"
proof -
  have "j div BSIZE < nblk n" if "j < n" for j
  proof -
    have "j div BSIZE * BSIZE \<le> j" by simp
    then have "Suc (j div BSIZE) * BSIZE \<le> n + BSIZE - 1" using that unfolding mult_Suc by linarith
    moreover have "0 < BSIZE" by (simp add: BSIZE_def)
    ultimately show ?thesis unfolding nblk_def by (simp add: Suc_le_eq [symmetric] less_eq_div_iff_mult_less_eq del: mult_Suc)
  qed
  then show ?thesis using assms by (simp add: frange_def)
qed

lemma fbytes_size [simp]: "fbytes im (d\<lparr>i_size := s\<rparr>) n = fbytes im d n"
  by (simp add: frange_def)

lemma fbytes_append:
  assumes "off mod BSIZE + length bs \<le> BSIZE"
    and "im (blk im d (off div BSIZE)) = put_bytes b (off mod BSIZE) bs"
  shows "fbytes im d (off + length bs) = fbytes im d off @ bs"
proof -
  have "get_bytes (put_bytes b (off mod BSIZE) bs) (off mod BSIZE) (length bs) = bs"
    by (intro nth_equalityI) (simp_all add: get_bytes_def put_bytes_def)
  then show ?thesis using frange_append [of im d 0 off "length bs"] frange_block [OF assms(1)] assms(2) by simp
qed

abbreviation pl :: "(nat \<Rightarrow> inode) \<Rightarrow> nat \<Rightarrow> nat set" where
  "pl D \<equiv> \<lambda>j. places (isize (D j))"

text \<open>The bytes \<open>bs\<close> are at the end of file \<open>i\<close> now, whose length was \<open>off\<close>; the other files are as before.\<close>

definition appended :: "(nat \<Rightarrow> inode) \<Rightarrow> nat \<Rightarrow> nat \<Rightarrow> nat \<Rightarrow> u8 list \<Rightarrow> mkfs \<Rightarrow> inode \<Rightarrow> mkfs \<Rightarrow> bool" where
  "appended D N i off bs st d st' \<longleftrightarrow>
     (let D' = D(i := d\<lparr>i_size := of_nat (off + length bs)\<rparr>)
      in frame st st' \<and> img_ok D' (pl D') N (img st') (unat (freeblock st')))
     \<and> unat (freeblock st') + nplaces off = unat (freeblock st) + nplaces (off + length bs)
     \<and> fbytes (img st') d (off + length bs) = fbytes (img st) (D i) off @ bs
     \<and> (\<forall>j\<in>{1..<N}. j \<noteq> i \<longrightarrow> fbytes (img st') (D j) (isize (D j)) = fbytes (img st) (D j) (isize (D j)))
     \<and> i_type d = i_type (D i) \<and> i_nlink d = i_nlink (D i)"

lemma append_img:
  assumes pl: "placed D (pl D) N i off st D1 st1" and D1: "D1 = d1\<lparr>i_size := of_nat off\<rparr>"
    and i: "i \<in> {1..<N}" and D: "isize (D i) = off" and k: "k = off div BSIZE" "k < MAXFILE" and c: "c = blk (img st1) d1 k"
    and bs: "bs \<noteq> []" "off mod BSIZE + length bs \<le> BSIZE" "off + length bs \<le> MAXFILE * BSIZE"
    and im2: "im2 = (img st1)(c := put_bytes (img st1 c) (off mod BSIZE) bs)"
    and D': "D' = D(i := d1\<lparr>i_size := of_nat (off + length bs)\<rparr>)"
  shows "nmeta \<le> c" and "c < unat (freeblock st1)" and "blk im2 d1 k = c" and "img_ok D' (pl D') N im2 (unat (freeblock st1))"
    and "j \<in> {1..<N} \<Longrightarrow> m \<in> pl D j \<Longrightarrow> m < MAXFILE
      \<Longrightarrow> blk im2 (D' j) m = blk (img st) (D j) m \<and> img st1 (blk (img st) (D j) m) = img st (blk (img st) (D j) m)
        \<and> (blk (img st) (D j) m = c \<longleftrightarrow> j = i \<and> m = k)"
proof -
  let ?P1 = "(pl D)(i := places (Suc off))" and ?D2 = "d1\<lparr>i_size := of_nat (off + length bs)\<rparr>"
  note pd = pl [unfolded placed_def]
  have ok1: "img_ok (D(i := D1)) ?P1 N (img st1) (unat (freeblock st1))" using pd by blast
  have kP: "k \<in> ?P1 i" by (simp add: places_def nblk_Suc k)
  have sz: "isize D1 = off" "isize ?D2 = off + length bs" using bs D1 by simp_all
  have c': "c = blk (img st1) ((D(i := D1)) i) k" by (simp add: c D1)
  from img_okD(2) [OF ok1 i kP] show "nmeta \<le> c" "c < unat (freeblock st1)" by (simp_all only: c')
  have zero: "\<forall>o1<BSIZE. unat (of_nat (off + length bs) :: u32) \<le> k * BSIZE + o1 \<longrightarrow> put_bytes (img st1 c) (off mod BSIZE) bs o1 = 0"
  proof (intro allI impI)
    fix o1 assume o1: "o1 < BSIZE" "unat (of_nat (off + length bs) :: u32) \<le> k * BSIZE + o1"
    have ge: "off + length bs \<le> k * BSIZE + o1" using o1(2) sz(2) by simp
    moreover have "off = k * BSIZE + off mod BSIZE" by (simp add: k)
    ultimately have "off mod BSIZE + length bs \<le> o1" by linarith
    moreover have "img st1 c o1 = 0"
      using inode_okD(6) [OF img_okD(1) [OF ok1 i] kP k(2) o1(1)] ge sz(1) by (simp add: c D1)
    ultimately show "put_bytes (img st1 c) (off mod BSIZE) bs o1 = 0" by (simp add: put_bytes_def)
  qed
  have D2: "?D2 = ((D(i := D1)) i)\<lparr>i_size := of_nat (off + length bs)\<rparr>" by (simp add: D1)
  have le: "isize ((D(i := D1)) i) \<le> unat (of_nat (off + length bs) :: u32)" "unat (of_nat (off + length bs) :: u32) \<le> MAXFILE * BSIZE"
    using sz bs(3) by simp_all
  note wd = write_data [OF ok1 i kP k(2) c' im2 D2 le zero, unfolded fun_upd_upd, folded D']
  have "?P1 = pl D'" unfolding D' using bs(1) places_grow [OF _ bs(2)] sz(2) by (auto simp: fun_eq_iff)
  then show "img_ok D' (pl D') N im2 (unat (freeblock st1))" using wd(1) by simp
  show "blk im2 d1 k = c" using wd(2) [OF i kP] by (simp add: c D1 D')
  show "blk im2 (D' j) m = blk (img st) (D j) m \<and> img st1 (blk (img st) (D j) m) = img st (blk (img st) (D j) m)
      \<and> (blk (img st) (D j) m = c \<longleftrightarrow> j = i \<and> m = k)" if j: "j \<in> {1..<N}" and m: "m \<in> pl D j" "m < MAXFILE"
  proof -
    have m1: "m \<in> ?P1 j" using m D places_mono [of off "Suc off"] by auto
    have "blk (img st1) ((D(i := D1)) j) m = blk (img st) (D j) m" "img st1 (blk (img st) (D j) m) = img st (blk (img st) (D j) m)"
      using pd j m by blast+
    with img_okD(3) [OF ok1 j m1 i kP] wd(2) [OF j m1] show ?thesis unfolding c' by simp
  qed
qed

lemma append_placed:
  assumes pl: "placed D (pl D) N i off st D1 st1" and D1: "D1 = d1\<lparr>i_size := of_nat off\<rparr>"
    and ok: "img_ok D (pl D) N (img st) (unat (freeblock st))" and i: "i \<in> {1..<N}" and D: "isize (D i) = off"
    and k: "k = off div BSIZE" "k < MAXFILE" and c: "c = blk (img st1) d1 k"
    and bs: "bs \<noteq> []" "off mod BSIZE + length bs \<le> BSIZE" "off + length bs \<le> MAXFILE * BSIZE"
    and st2: "st2 = st1\<lparr>img := (img st1)(c := put_bytes (img st1 c) (off mod BSIZE) bs)\<rparr>"
    and ty: "i_type d1 = i_type (D i)" "i_nlink d1 = i_nlink (D i)"
  shows "appended D N i off bs st d1 st2"
proof -
  have im2: "img st2 = (img st1)(c := put_bytes (img st1 c) (off mod BSIZE) bs)" by (simp add: st2)
  note ai = append_img [OF pl D1 i D k c bs im2 refl]
  have own: "fbytes (img st2) d1 off = fbytes (img st) (D i) off"
  proof (rule fbytes_cong)
    fix j assume j: "j < off" "j div BSIZE < nblk off"
    have jk: "j div BSIZE \<le> k" using j(1) by (simp add: k div_le_mono)
    have m: "j div BSIZE \<in> pl D i" "j div BSIZE < MAXFILE" using j jk k(2) D by (simp_all add: places_def)
    note s = ai(5) [OF i m]
    show "img st2 (blk (img st2) d1 (j div BSIZE)) (j mod BSIZE) = img st (blk (img st) (D i) (j div BSIZE)) (j mod BSIZE)"
    proof (cases "j div BSIZE = k")
      case True
      have "j = k * BSIZE + j mod BSIZE" using div_mult_mod_eq [of j BSIZE] unfolding True by simp
      moreover have "off = k * BSIZE + off mod BSIZE" by (simp add: k)
      ultimately have "j mod BSIZE < off mod BSIZE" using j(1) by linarith
      then have "img st2 c (j mod BSIZE) = img st1 c (j mod BSIZE)" by (simp add: im2 put_bytes_def)
      moreover have "blk (img st) (D i) k = c" "img st1 c = img st c" using s True by auto
      ultimately show ?thesis using ai(3) True by simp
    next
      case False
      with s show ?thesis by (simp add: im2)
    qed
  qed
  then have "fbytes (img st2) d1 (off + length bs) = fbytes (img st) (D i) off @ bs"
    using fbytes_append [OF bs(2), of "img st2" d1 "img st1 c"] ai(3) by (simp add: im2 k)
  moreover have "fbytes (img st2) (D j) (isize (D j)) = fbytes (img st) (D j) (isize (D j))" if j: "j \<in> {1..<N}" "j \<noteq> i" for j
  proof (rule fbytes_cong)
    fix a assume "a < isize (D j)" "a div BSIZE < nblk (isize (D j))"
    moreover have "nblk (isize (D j)) \<le> MAXFILE" using inode_okD(2) [OF img_okD(1) [OF ok j(1)]] by (rule nblk_le)
    ultimately show "img st2 (blk (img st2) (D j) (a div BSIZE)) (a mod BSIZE) = img st (blk (img st) (D j) (a div BSIZE)) (a mod BSIZE)"
      using ai(5) [OF j(1), of "a div BSIZE"] j(2) by (simp add: im2 places_def)
  qed
  moreover have "frame st st2" using pl ai(1) by (simp add: placed_def frame_def st2)
  moreover have "unat (freeblock st2) + nplaces off = unat (freeblock st) + nplaces (off + length bs)"
    using pl places_grow [OF _ bs(2)] bs(1) by (simp add: placed_def st2)
  moreover have "freeblock st2 = freeblock st1" by (simp add: st2)
  ultimately show ?thesis using ai(4) ty unfolding appended_def Let_def by metis
qed

lemma appended_frame: "appended D N i off bs st d st' \<Longrightarrow> frame st st'"
  by (simp add: appended_def Let_def)

lemma appended_trans:
  assumes a: "appended D N i off bs st d1 st1" and b: "appended (D(i := d1\<lparr>i_size := of_nat (off + length bs)\<rparr>)) N i (off + length bs) cs st1 d2 st2"
  shows "appended D N i off (bs @ cs) st d2 st2"
proof -
  note x = a [unfolded appended_def Let_def] and y = b [unfolded appended_def Let_def fun_upd_upd]
  have "frame st st2" using x y by (auto simp: frame_def)
  moreover have "fbytes (img st2) d2 (off + length (bs @ cs)) = fbytes (img st) (D i) off @ (bs @ cs)"
    using x y by (simp add: add.assoc)
  moreover have "img_ok (D(i := d2\<lparr>i_size := of_nat (off + length (bs @ cs))\<rparr>)) (pl (D(i := d2\<lparr>i_size := of_nat (off + length (bs @ cs))\<rparr>)))
      N (img st2) (unat (freeblock st2))"
    using y by (simp only: length_append add.assoc)
  ultimately show ?thesis
    unfolding appended_def Let_def using x y by (simp add: add.assoc)
qed

lemma append_one:
  assumes ok: "img_ok D (pl D) N (img st) (unat (freeblock st))" and n: "img_n st = FSSIZE" "unat (freeblock st) \<le> FSSIZE"
    and i: "i \<in> {1..<N}" and D: "D i = din\<lparr>i_size := of_nat off\<rparr>"
    and bs: "bs \<noteq> []" "off mod BSIZE + length bs \<le> BSIZE" "off + length bs \<le> MAXFILE * BSIZE"
    and room: "unat (freeblock st) + nplaces (off + length bs) \<le> FSSIZE + nplaces off"
  shows "\<exists>x d1 st1 b. file_block (off div BSIZE) din st = Inr (x, d1, st1) \<and> rsect x st1 = Inr b
      \<and> appended D N i off bs st d1 (wsect x (put_bytes b (off mod BSIZE) bs) st1)"
proof -
  have len: "0 < length bs" using bs(1) by simp
  have size: "isize (D i) = off" using D bs(3) by simp
  have "off < MAXFILE * BSIZE" using bs(3) len by linarith
  then have k: "off div BSIZE < MAXFILE" by (simp add: less_mult_imp_div_less)
  have room': "unat (freeblock st) + nplaces (Suc off) \<le> FSSIZE + nplaces off"
    using room places_grow [OF len bs(2)] by simp
  have P: "pl D i = places off" using size by simp
  obtain x d1 st1 where fb: "file_block (off div BSIZE) din st = Inr (x, d1, st1)"
    "placed D (pl D) N i off st (d1\<lparr>i_size := of_nat off\<rparr>) st1" "unat x = blk (img st1) d1 (off div BSIZE)"
    "i_type d1 = i_type din" "i_nlink d1 = i_nlink din"
    using file_block_ok [OF ok n i P D refl k room'] by blast
  have fb1: "img_n st1 = FSSIZE" "unat (freeblock st1) \<le> FSSIZE"
    using fb(2) n(1) room' by (auto simp: placed_def frame_def)
  let ?st2 = "st1\<lparr>img := (img st1)(unat x := put_bytes (img st1 (unat x)) (off mod BSIZE) bs)\<rparr>"
  have "unat x < FSSIZE" using append_img(2) [OF fb(2) refl i size refl k fb(3) bs refl refl] fb1(2) by simp
  then have "rsect x st1 = Inr (img st1 (unat x))" "wsect x (put_bytes (img st1 (unat x)) (off mod BSIZE) bs) st1 = ?st2"
    using fb1(1) by (simp_all add: rsect_block wsect_block)
  moreover have "appended D N i off bs st d1 ?st2"
    using append_placed [OF fb(2) refl ok i size refl k fb(3) bs refl] fb(4,5) D by simp
  ultimately show ?thesis using fb(1) by auto
qed

lemma iappend_loop_ok:
  assumes "img_ok D (pl D) N (img st) (unat (freeblock st))" and "img_n st = FSSIZE" "unat (freeblock st) \<le> FSSIZE"
    and "i \<in> {1..<N}" and "D i = din\<lparr>i_size := of_nat off\<rparr>" and "off + length p \<le> MAXFILE * BSIZE"
    and "unat (freeblock st) + nplaces (off + length p) \<le> FSSIZE + nplaces off"
  shows "\<exists>d1 st1. iappend_loop p off din st = Inr (off + length p, d1, st1) \<and> appended D N i off p st d1 st1"
  using assms
proof (induction "length p" arbitrary: p off din st D rule: less_induct)
  case less
  show ?case
  proof (cases "p = []")
    case True
    have D': "D(i := din\<lparr>i_size := of_nat off\<rparr>) = D" using less.prems(5) by auto
    have "appended D N i off [] st din st"
      using less.prems(1,5) unfolding appended_def Let_def list.size(3) add_0_right D' by (simp add: frame_def)
    then show ?thesis using True by (simp add: iappend_loop.simps)
  next
    case False
    let ?n = "min (length p) ((off div BSIZE + 1) * BSIZE - off)"
    let ?bs = "take ?n p" and ?cs = "drop ?n p"
    have mod: "off - off div BSIZE * BSIZE = off mod BSIZE" by (simp add: minus_div_mult_eq_mod)
    have "off mod BSIZE < BSIZE" by (simp add: BSIZE_def)
    moreover have "(off div BSIZE + 1) * BSIZE - off = BSIZE - off mod BSIZE"
      using div_mult_mod_eq [of off BSIZE] unfolding add_mult_distrib mult_1 by linarith
    ultimately have len: "0 < ?n" "length ?bs = ?n" "off mod BSIZE + length ?bs \<le> BSIZE" using False by auto
    have le: "off + length ?bs \<le> off + length p" by simp
    have bs: "?bs \<noteq> []" "off + length ?bs \<le> MAXFILE * BSIZE" using len less.prems(6) le by auto
    have room: "unat (freeblock st) + nplaces (off + length ?bs) \<le> FSSIZE + nplaces off"
      using less.prems(7) places_mono [OF le] by linarith
    obtain x d1 st1 b where one: "file_block (off div BSIZE) din st = Inr (x, d1, st1)" "rsect x st1 = Inr b"
      "appended D N i off ?bs st d1 (wsect x (put_bytes b (off mod BSIZE) ?bs) st1)"
      using append_one [OF less.prems(1-5) bs(1) len(3) bs(2) room] by blast
    let ?st2 = "wsect x (put_bytes b (off mod BSIZE) ?bs) st1" and ?D1 = "D(i := d1\<lparr>i_size := of_nat (off + length ?bs)\<rparr>)"
    note ap = one(3) [unfolded appended_def Let_def]
    have sum: "off + length ?bs + length ?cs = off + length p" by simp
    have "\<exists>d2 st3. iappend_loop ?cs (off + length ?bs) d1 ?st2 = Inr (off + length ?bs + length ?cs, d2, st3)
        \<and> appended ?D1 N i (off + length ?bs) ?cs ?st2 d2 st3"
    proof (rule less.hyps)
      show "length ?cs < length p" using len(1) False by simp
      show "img_ok ?D1 (pl ?D1) N (img ?st2) (unat (freeblock ?st2))" using ap by blast
      show "img_n ?st2 = FSSIZE" using appended_frame [OF one(3)] less.prems(2) by (simp add: frame_def)
      show "unat (freeblock ?st2) \<le> FSSIZE" using ap room by linarith
      show "unat (freeblock ?st2) + nplaces (off + length ?bs + length ?cs) \<le> FSSIZE + nplaces (off + length ?bs)"
        unfolding sum using ap less.prems(7) by linarith
    qed (use less.prems(4,6) sum in simp_all)
    then obtain d2 st3 where rest: "iappend_loop ?cs (off + length ?bs) d1 ?st2 = Inr (off + length p, d2, st3)"
      "appended ?D1 N i (off + length ?bs) ?cs ?st2 d2 st3"
      unfolding sum by blast
    have "off < MAXFILE * BSIZE" using bs(2) len(1,2) by linarith
    then have "off div BSIZE < MAXFILE" by (simp add: less_mult_imp_div_less)
    then have "iappend_loop p off din st = Inr (off + length p, d2, st3)"
      using False one(1,2) rest(1) [unfolded len(2)] by (subst iappend_loop.simps) (simp add: mod Let_def)
    with appended_trans [OF one(3) rest(2)] show ?thesis by simp
  qed
qed

end
