(* ===== verification/MkfsBuild.thy ===== *)
theory MkfsBuild
  imports MkfsImage
begin

text \<open>
  The operations of \<^verbatim>\<open>mkfs/mkfs.c\<close> on whole images: each refines an operation on the list of the files with their contents, and
  \<^verbatim>\<open>main\<close> builds the image of the host's files. The room that is needed is counted exactly.
\<close>

section \<open>Inodes on the image\<close>

definition inode_block :: "nat \<Rightarrow> nat" where
  "inode_block i = i div IPB + (2 + nlog)"

definition dino :: "(nat \<Rightarrow> block) \<Rightarrow> nat \<Rightarrow> inode" where
  "dino im i = get_dinode (im (inode_block i)) (i mod IPB * DINODE_SIZE) zero_inode"

lemmas layout = NINODES_def ninodeblocks_def nlog_def nbitmap_def nmeta_def LOGSIZE_def FSSIZE_def BSIZE_def IPB_def DINODE_SIZE_def

lemma unat_inum: "i < NINODES \<Longrightarrow> unat (of_nat i :: u32) = i"
  by (simp add: unat_of_nat take_bit_nat_eq_self_iff NINODES_def)

lemma inode_place:
  assumes "i < NINODES"
  shows "unat (IBLOCK (of_nat i) mkfs_sb) = inode_block i" and "dinode_at (of_nat i) = i mod IPB * DINODE_SIZE"
    and "2 + nlog \<le> inode_block i" "inode_block i < 2 + nlog + ninodeblocks"
proof -
  show "dinode_at (of_nat i) = i mod IPB * DINODE_SIZE" using unat_inum [OF assms] by (simp add: dinode_at_def)
  show b: "2 + nlog \<le> inode_block i" "inode_block i < 2 + nlog + ninodeblocks"
    using assms by (simp_all add: inode_block_def layout)
  have "unat (of_nat i div of_nat IPB :: u32) = i div IPB"
    using unat_inum [OF assms] by (simp add: unat_div layout)
  moreover have "unat (sb_inodestart mkfs_sb) = 2 + nlog" by (simp add: mkfs_sb_def layout)
  ultimately show "unat (IBLOCK (of_nat i) mkfs_sb) = inode_block i"
    using b unfolding IBLOCK_def inode_block_def by (simp add: unat_word_ariths layout)
qed

lemma inode_place_meta: "i < NINODES \<Longrightarrow> inode_block i < nmeta \<and> inode_block i < FSSIZE \<and> inode_block i \<noteq> 1"
  using inode_place(3,4) [of i] by (simp add: layout)

definition put_inode :: "nat \<Rightarrow> inode \<Rightarrow> (nat \<Rightarrow> block) \<Rightarrow> nat \<Rightarrow> block" where
  "put_inode i d im = im(inode_block i := put_dinode (im (inode_block i)) (i mod IPB * DINODE_SIZE) d)"

lemma winode_eq:
  assumes "msb st = mkfs_sb" and "img_n st = FSSIZE" and "i < NINODES"
  shows "winode (of_nat i) d st = Inr (st\<lparr>img := put_inode i d (img st)\<rparr>)"
  using assms inode_place(1,2) [OF assms(3)] inode_place_meta [OF assms(3)]
  by (simp add: winode_def Let_def rsect_block wsect_block put_inode_def)

lemma rinode_eq:
  assumes "msb st = mkfs_sb" and "img_n st = FSSIZE" and "i < NINODES"
  shows "rinode (of_nat i) st = Inr (dino (img st) i)"
  using assms inode_place(1,2) [OF assms(3)] inode_place_meta [OF assms(3)]
  by (simp add: rinode_def rsect_block dino_def)

lemma dino_put_inode:
  assumes "length (i_addrs d) = NDIRECT + 1"
  shows "dino (put_inode i d im) j = (if j = i then on_disk d else dino im j)"
proof -
  have "dino (put_inode i d im) j = dino im j" if "j \<noteq> i" "inode_block j = inode_block i"
  proof -
    have "j div IPB = i div IPB" using that(2) by (simp add: inode_block_def)
    then have "j mod IPB \<noteq> i mod IPB" using that(1) by (metis div_mult_mod_eq)
    then have "j mod IPB < i mod IPB \<or> i mod IPB < j mod IPB" by linarith
    then have disj: "j mod IPB * DINODE_SIZE + DINODE_SIZE \<le> i mod IPB * DINODE_SIZE \<or> i mod IPB * DINODE_SIZE + DINODE_SIZE \<le> j mod IPB * DINODE_SIZE"
      by (auto simp: DINODE_SIZE_def)
    show ?thesis unfolding dino_def put_inode_def that(2) fun_upd_same
      by (rule get_dinode_cong) (use disj in \<open>auto intro!: put_dinode_byte\<close>)
  qed
  then show ?thesis using get_put_dinode [OF assms] by (auto simp: dino_def put_inode_def)
qed

lemma put_inode_other: "i < NINODES \<Longrightarrow> b < 2 + nlog \<or> nmeta \<le> b \<Longrightarrow> put_inode i d im b = im b"
  using inode_place(3) [of i] inode_place_meta [of i] by (auto simp: put_inode_def)

section \<open>A change of the metadata\<close>

lemma inode_ok_meta:
  assumes ok: "inode_ok im d S" and hi: "\<And>k. k \<in> S \<Longrightarrow> nmeta \<le> blk im d k" and im': "\<And>b. nmeta \<le> b \<Longrightarrow> im' b = im b"
    and d': "i_addrs d' = i_addrs d" "i_size d' = i_size d"
  shows "k \<in> S \<Longrightarrow> blk im' d' k = blk im d k" and "inode_ok im' d' S"
proof -
  have same: "blk im' d' k = blk im d k" if "k \<le> MAXFILE" "k < NDIRECT \<or> k = MAXFILE \<or> MAXFILE \<in> S" for k
    using that hi [of MAXFILE] im' d' by (intro blk_cong) auto
  have old: "blk im' d' k = blk im d k" if "k \<in> S" for k
    using same inode_okD(3,4) [OF ok that] that not_less by blast
  then show "k \<in> S \<Longrightarrow> blk im' d' k = blk im d k" .
  show "inode_ok im' d' S"
    unfolding inode_ok_def
  proof (intro conjI ballI allI impI)
    fix k o1 assume k: "k \<in> S" "k < MAXFILE" "o1 < BSIZE" "isize d' \<le> k * BSIZE + o1"
    then show "im' (blk im' d' k) o1 = 0" using old hi im' d' inode_okD(6) [OF ok, of k o1] by simp
  qed (use ok same d' in \<open>auto simp: inode_ok_def\<close>)
qed

lemma img_ok_meta:
  assumes ok: "img_ok D P N im fb" and im': "\<And>b. nmeta \<le> b \<Longrightarrow> im' b = im b"
    and D': "\<And>i. i \<in> {1..<N} \<Longrightarrow> i_addrs (D' i) = i_addrs (D i) \<and> i_size (D' i) = i_size (D i)"
    and P': "\<And>i. i \<in> {1..<N} \<Longrightarrow> P' i = P i"
  shows "img_ok D' P' N im' fb"
    and "i \<in> {1..<N} \<Longrightarrow> P i = places (isize (D i)) \<Longrightarrow> fbytes im' (D' i) (isize (D' i)) = fbytes im (D i) (isize (D i))"
proof -
  note im = inode_ok_meta [OF img_okD(1) [OF ok] conjunct1 [OF img_okD(2) [OF ok]] im' conjunct1 [OF D'] conjunct2 [OF D']]
  have "bij_betw (\<lambda>(i, k). blk im' (D' i) k) (Sigma {1..<N} P) {nmeta..<fb}"
    using ok im(1) by (subst bij_betw_cong [of _ _ "\<lambda>(i, k). blk im (D i) k"]) (auto simp: img_ok_def)
  moreover have "Sigma {1..<N} P' = Sigma {1..<N} P" using P' by (intro Sigma_cong) auto
  ultimately show "img_ok D' P' N im' fb" using ok im(2) im' P' by (auto simp: img_ok_def)
  show "fbytes im' (D' i) (isize (D' i)) = fbytes im (D i) (isize (D i))" if i: "i \<in> {1..<N}" "P i = places (isize (D i))"
    unfolding conjunct2 [OF D' [OF i(1)]]
  proof (rule fbytes_cong)
    fix j assume "j < isize (D i)" "j div BSIZE < nblk (isize (D i))"
    then have "j div BSIZE \<in> P i" by (simp add: i(2) places_def)
    then show "im' (blk im' (D' i) (j div BSIZE)) (j mod BSIZE) = im (blk im (D i) (j div BSIZE)) (j mod BSIZE)"
      using im(1) [OF i(1) i(1) _ _ i(1) i(1)] img_okD(2) [OF ok i(1)] im' by auto
  qed
qed

section \<open>What is on the image\<close>

text \<open>The files in the order of their inode numbers, each with its type and its contents, and the number of blocks that they take.\<close>

type_synonym image_file = "u16 \<times> u8 list"

definition file_at :: "(nat \<Rightarrow> block) \<Rightarrow> nat \<Rightarrow> image_file" where
  "file_at im i = (let d = dino im i in (i_type d, fbytes im d (isize d)))"

definition view :: "mkfs \<Rightarrow> image_file list" where
  "view st = map (file_at (img st)) [1..<unat (freeinode st)]"

definition cost :: "image_file list \<Rightarrow> nat" where
  "cost v = sum_list (map (\<lambda>f. nplaces (length (snd f))) v)"

definition fits :: "image_file list \<Rightarrow> bool" where
  "fits v \<longleftrightarrow> (\<forall>f\<in>set v. length (snd f) \<le> MAXFILE * BSIZE) \<and> nmeta + cost v \<le> FSSIZE \<and> length v < NINODES"

definition mk_ok :: "mkfs \<Rightarrow> bool" where
  "mk_ok st \<longleftrightarrow> msb st = mkfs_sb \<and> img_n st = FSSIZE 
     \<and> (\<forall>b<2 + nlog. img st b = (if b = 1 then sb_block mkfs_sb else (\<lambda>_. 0)))
     \<and> 1 \<le> unat (freeinode st) \<and> unat (freeinode st) \<le> NINODES
     \<and> unat (freeblock st) = nmeta + cost (view st) \<and> unat (freeblock st) \<le> FSSIZE
     \<and> img_ok (dino (img st)) (pl (dino (img st))) (unat (freeinode st)) (img st) (unat (freeblock st))
     \<and> (\<forall>i\<in>{1..<unat (freeinode st)}. i_nlink (dino (img st) i) = 1)
     \<and> (\<forall>i\<in>{unat (freeinode st)..<NINODES}. i_type (dino (img st) i) = 0)"

lemma mk_okD:
  assumes "mk_ok st"
  shows "msb st = mkfs_sb" "img_n st = FSSIZE" "b < 2 + nlog \<Longrightarrow> img st b = (if b = 1 then sb_block mkfs_sb else (\<lambda>_. 0))" "1 \<le> unat (freeinode st)" "unat (freeinode st) \<le> NINODES"
    "unat (freeblock st) = nmeta + cost (view st)" "unat (freeblock st) \<le> FSSIZE"
    "img_ok (dino (img st)) (pl (dino (img st))) (unat (freeinode st)) (img st) (unat (freeblock st))"
    "i \<in> {1..<unat (freeinode st)} \<Longrightarrow> i_nlink (dino (img st) i) = 1"
    "i \<in> {unat (freeinode st)..<NINODES} \<Longrightarrow> i_type (dino (img st) i) = 0"
  using assms by (auto simp: mk_ok_def)

lemma length_view [simp]: "length (view st) = unat (freeinode st) - 1"
  by (simp add: view_def)

lemma view_nth: "i \<in> {1..<unat (freeinode st)} \<Longrightarrow> view st ! (i - 1) = file_at (img st) i"
  by (auto simp: view_def)

text \<open>The operations on the list of files.\<close>

definition append_to :: "nat \<Rightarrow> u8 list \<Rightarrow> image_file list \<Rightarrow> image_file list" where
  "append_to i p v = v[i - 1 := (fst (v ! (i - 1)), snd (v ! (i - 1)) @ p)]"

lemma cost_append_to:
  assumes "1 \<le> i" and "i \<le> length v"
  shows "cost (append_to i p v) + nplaces (length (snd (v ! (i - 1)))) = cost v + nplaces (length (snd (v ! (i - 1))) + length p)"
proof -
  let ?f = "\<lambda>f. nplaces (length (snd f))"
  have k: "i - 1 < length v" using assms by simp
  have "?f (v ! (i - 1)) \<le> sum_list (map ?f v)" using k by (intro member_le_sum_list) auto
  then show ?thesis using k by (simp add: cost_def append_to_def map_update sum_list_update)
qed

lemma iappend_refines:
  assumes ok: "mk_ok st" and i: "i \<in> {1..<unat (freeinode st)}" and fits: "fits (append_to i p (view st))"
  shows "\<exists>st'. iappend (of_nat i) p st = Inr st' \<and> mk_ok st' \<and> view st' = append_to i p (view st) \<and> freeinode st' = freeinode st"
proof -
  let ?D = "dino (img st)" and ?N = "unat (freeinode st)"
  define off where "off = isize (dino (img st) i)"
  note st = mk_okD [OF ok]
  have iN: "i < NINODES" using i st(5) by auto
  have vi: "view st ! (i - 1) = (i_type (?D i), fbytes (img st) (?D i) off)" using view_nth [OF i] by (simp add: file_at_def Let_def off_def)
  have v: "1 \<le> i" "i \<le> length (view st)" "i - 1 < length (view st)" using i by auto
  have "(fst (view st ! (i - 1)), snd (view st ! (i - 1)) @ p) \<in> set (append_to i p (view st))"
    unfolding append_to_def using v(3) by (rule set_update_memI)
  then have len: "off + length p \<le> MAXFILE * BSIZE" using fits vi by (force simp: fits_def)
  have cst: "cost (append_to i p (view st)) + nplaces off = cost (view st) + nplaces (off + length p)"
    using cost_append_to [OF v(1,2), of p] vi by simp
  then have room: "unat (freeblock st) + nplaces (off + length p) \<le> FSSIZE + nplaces off"
    using fits st(6) by (simp add: fits_def)
  have Di: "?D i = (?D i)\<lparr>i_size := of_nat off\<rparr>" by (simp add: off_def)
  obtain d1 st1 where lp: "iappend_loop p off (?D i) st = Inr (off + length p, d1, st1)" "appended ?D ?N i off p st d1 st1"
    using iappend_loop_ok [OF st(8,2,7) i Di len room] by blast
  let ?d = "d1\<lparr>i_size := of_nat (off + length p)\<rparr>"
  let ?st2 = "st1\<lparr>img := put_inode i ?d (img st1)\<rparr>"
  note ap = lp(2) [unfolded appended_def Let_def frame_def]
  have ok1: "img_ok (?D(i := ?d)) (pl (?D(i := ?d))) ?N (img st1) (unat (freeblock st1))" using ap by blast
  have addrs: "length (i_addrs ?d) = NDIRECT + 1" using inode_okD(1) [OF img_okD(1) [OF ok1 i]] by simp
  have D1: "dino (img st1) j = ?D j" if "j < NINODES" for j
    using ap inode_place_meta [OF that] by (simp add: dino_def)
  have D2: "dino (img ?st2) j = (if j = i then on_disk ?d else ?D j)" if "j < NINODES" for j
    using dino_put_inode [OF addrs, of i "img st1" j] D1 [OF that] by simp
  have im2: "img ?st2 b = img st1 b" if "b < 2 + nlog \<or> nmeta \<le> b" for b
    using put_inode_other [OF iN that] by simp
  have D2r: "dino (img ?st2) j = (if j = i then on_disk ?d else ?D j)" if "j \<in> {1..<?N}" for j using that st(5) by (intro D2) auto
  have m: "img_ok (dino (img ?st2)) (pl (dino (img ?st2))) ?N (img ?st2) (unat (freeblock st1))"
    "j \<in> {1..<?N} \<Longrightarrow> fbytes (img ?st2) (dino (img ?st2) j) (isize (dino (img ?st2) j)) = fbytes (img st1) ((?D(i := ?d)) j) (isize ((?D(i := ?d)) j))" for j
    by (intro img_ok_meta [OF ok1]; use im2 D2r in simp)+
  have "file_at (img ?st2) j = (if j = i then (i_type (?D i), fbytes (img st) (?D i) off @ p) else file_at (img st) j)" if j: "j \<in> {1..<?N}" for j
    using m(2) [OF j] ap j D2r [OF j] len by (auto simp: file_at_def Let_def)
  then have view: "view ?st2 = append_to i p (view st)"
    using ap i vi by (intro nth_equalityI) (auto simp: view_def append_to_def nth_list_update)
  moreover have "iappend (of_nat i) p st = Inr ?st2"
    using rinode_eq [OF st(1,2) iN] lp(1) winode_eq [of st1 i ?d] ap st(1,2) iN by (simp add: iappend_def off_def)
  moreover have "mk_ok ?st2"
    unfolding mk_ok_def
  proof (intro conjI ballI)
    have fb: "unat (freeblock st1) + nplaces off = unat (freeblock st) + nplaces (off + length p)" using ap by blast
    then show "unat (freeblock ?st2) = nmeta + cost (view ?st2)" unfolding view using cst st(6) by simp
    show "unat (freeblock ?st2) \<le> FSSIZE" using fb room by simp
    have "img st1 b = img st b" if "b < 2 + nlog" for b using ap that by (simp add: nmeta_def)
    then show "\<forall>b<2 + nlog. img ?st2 b = (if b = 1 then sb_block mkfs_sb else (\<lambda>_. 0))" using im2 st(3) by simp
  qed (use ap st m(1) D2r D2 i in auto)
  ultimately show ?thesis using ap by auto
qed

lemma img_ok_new:
  assumes ok: "img_ok D (pl D) N im fb" and new: "i_size (D N) = 0" "i_addrs (D N) = replicate (NDIRECT + 1) 0"
  shows "img_ok D (pl D) (Suc N) im fb"
proof -
  have p: "places 0 = {}" by (simp add: places_def nblk_def BSIZE_def)
  have "blk im (D N) k = 0" if "k < NDIRECT \<or> k = MAXFILE" for k
    using that new(2) by (auto simp: blk_def fs_consts nth_append)
  then have "inode_ok im (D N) (pl D N)" using new by (auto simp: inode_ok_def p)
  moreover have "Sigma {1..<Suc N} (pl D) = Sigma {1..<N} (pl D)" using new(1) by (auto simp: p less_Suc_eq)
  ultimately show ?thesis using ok by (auto simp: img_ok_def less_Suc_eq)
qed

lemma ialloc_refines:
  assumes ok: "mk_ok st" and room: "unat (freeinode st) < NINODES"
  shows "\<exists>st'. mk_ialloc t st = Inr (freeinode st, st') \<and> mk_ok st' \<and> view st' = view st @ [(t, [])]
      \<and> unat (freeinode st') = Suc (unat (freeinode st))"
proof -
  let ?N = "unat (freeinode st)" and ?D = "dino (img st)"
  let ?d = "zero_inode\<lparr>i_type := t, i_nlink := 1, i_size := 0\<rparr>"
  let ?st0 = "st\<lparr>freeinode := freeinode st + 1\<rparr>"
  let ?st' = "?st0\<lparr>img := put_inode ?N ?d (img ?st0)\<rparr>"
  note st = mk_okD [OF ok]
  have N': "unat (freeinode ?st') = Suc ?N" using room by (simp add: unat_word_ariths NINODES_def)
  have addrs: "length (i_addrs ?d) = NDIRECT + 1" by (simp add: zero_inode_def NDIRECT_def)
  have D': "dino (img ?st') j = (if j = ?N then on_disk ?d else ?D j)" for j
    using dino_put_inode [OF addrs, of ?N "img st" j] by simp
  note Ds = D' [simplified]
  have im': "img ?st' b = img st b" if "b < 2 + nlog \<or> nmeta \<le> b" for b
    using put_inode_other [OF room that] by simp
  have m: "img_ok (dino (img ?st')) (pl (dino (img ?st'))) ?N (img ?st') (unat (freeblock st))"
    "j \<in> {1..<?N} \<Longrightarrow> fbytes (img ?st') (dino (img ?st') j) (isize (dino (img ?st') j)) = fbytes (img st) (?D j) (isize (?D j))" for j
    by (intro img_ok_meta [OF st(8)]; use im' D' in simp)+
  have new: "i_size (dino (img ?st') ?N) = 0" "i_addrs (dino (img ?st') ?N) = replicate (NDIRECT + 1) 0"
    unfolding D' by (simp_all add: zero_inode_def NDIRECT_def)
  have "file_at (img ?st') j = file_at (img st) j" if "j \<in> {1..<?N}" for j
    using m(2) [OF that] that by (auto simp: file_at_def Let_def Ds)
  moreover have "file_at (img ?st') ?N = (t, [])" by (simp add: file_at_def Let_def Ds frange_def)
  ultimately have view: "view ?st' = view st @ [(t, [])]"
    using st(4) by (auto simp: view_def N' [simplified] map_eq_conv)
  have cost: "cost (view ?st') = cost (view st)" unfolding view by (simp add: cost_def nplaces_def nblk_def BSIZE_def)
  have ino: "of_nat ?N = freeinode st" by simp
  have "mk_ialloc t st = Inr (freeinode st, ?st')"
    using winode_eq [of ?st0 ?N ?d] st(1,2) room by (simp add: mk_ialloc_def Let_def ino)
  moreover have "mk_ok ?st'"
    unfolding mk_ok_def N'
  proof (intro conjI ballI)
    show "unat (freeblock ?st') = nmeta + cost (view ?st')" unfolding cost using st(6) by simp
    show "img_ok (dino (img ?st')) (pl (dino (img ?st'))) (Suc ?N) (img ?st') (unat (freeblock ?st'))"
      using img_ok_new [OF m(1) new] by simp
    show "\<forall>b<2 + nlog. img ?st' b = (if b = 1 then sb_block mkfs_sb else (\<lambda>_. 0))" using im' st(3) by simp
    show "i_nlink (dino (img ?st') i) = 1" if "i \<in> {1..<Suc ?N}" for i using that st(9) [of i] by (auto simp: Ds less_Suc_eq)
  qed (use st room D' in auto)
  ultimately show ?thesis using view N' by blast
qed

lemma mkfs_start_eq:
  "mkfs_start = \<lparr>img = (\<lambda>_ _. 0)(1 := sb_block mkfs_sb), img_n = FSSIZE, msb = mkfs_sb, freeinode = 1, freeblock = of_nat nmeta\<rparr>"
proof -
  let ?s = "\<lparr>img = \<lambda>_ _. 0, img_n = 0, msb = mkfs_sb, freeinode = 1, freeblock = of_nat nmeta\<rparr>"
  have zero: "fold (\<lambda>i. wsect (of_nat i) (\<lambda>_. 0)) [0..<n] ?s = ?s\<lparr>img_n := n\<rparr>" if "n \<le> FSSIZE" for n
    using that
  proof (induction n)
    case (Suc n)
    then have "sector_at (of_nat n) = n" by (subst sector_at) auto
    with Suc show ?case by (simp add: wsect_def fun_upd_idem)
  qed simp
  have "sector_at 1 = 1" by (subst sector_at) (simp_all add: FSSIZE_def)
  then show ?thesis using zero [OF order_refl] by (simp add: mkfs_start_def wsect_def FSSIZE_def)
qed

lemma mkfs_start_ok: "mk_ok mkfs_start" "view mkfs_start = []" "unat (freeinode mkfs_start) = 1"
proof -
  have n: "unat (of_nat nmeta :: u32) = nmeta" by (simp add: layout)
  show v: "view mkfs_start = []" and "unat (freeinode mkfs_start) = 1" by (simp_all add: view_def mkfs_start_eq)
  have "i_type (dino (img mkfs_start) i) = 0" if "i < NINODES" for i
    using inode_place_meta [OF that] by (simp add: dino_def mkfs_start_eq get_dinode_def get16_def)
  then show "mk_ok mkfs_start"
    unfolding mk_ok_def v by (auto simp: mkfs_start_eq n cost_def img_ok_def bij_betw_def) (auto simp: layout)
qed

section \<open>The files of the host\<close>

definition host_ok :: "host_file \<Rightarrow> bool" where
  "host_ok f \<longleftrightarrow> (case shortname (fst f) of Inl _ \<Rightarrow> False | Inr _ \<Rightarrow> snd f \<noteq> None)"

definition host_name :: "host_file \<Rightarrow> u8 list" where
  "host_name f = (case shortname (fst f) of Inl _ \<Rightarrow> [] | Inr s \<Rightarrow> skip_underscore s)"

definition host_bytes :: "host_file \<Rightarrow> u8 list" where
  "host_bytes f = (case snd f of None \<Rightarrow> [] | Some chunks \<Rightarrow> concat chunks)"

text \<open>The root directory, which lists itself twice and then the files in order, and the image as the list of its files.\<close>

definition root_entries :: "host_file list \<Rightarrow> (nat \<times> u8 list) list" where
  "root_entries files = (1, mk_str ''.'') # (1, mk_str ''..'') # enumerate 2 (map host_name files)"

definition root_bytes :: "host_file list \<Rightarrow> u8 list" where
  "root_bytes files = concat (map (\<lambda>(i, s). mkfs_dirent (of_nat i) s) (root_entries files))"

definition host_image :: "host_file list \<Rightarrow> image_file list" where
  "host_image files = (T_DIR, root_bytes files) # map (\<lambda>f. (T_FILE, host_bytes f)) files"

lemma length_mkfs_dirent [simp]: "length (mkfs_dirent i s) = DIRENT_SIZE"
  by (simp add: mkfs_dirent_def DIRSIZ_def DIRENT_SIZE_def)

lemma root_bytes_snoc: "root_bytes (fs @ [f]) = root_bytes fs @ mkfs_dirent (of_nat (length fs + 2)) (host_name f)"
  by (simp add: root_bytes_def root_entries_def enumerate_append_eq add.commute)

lemma length_root_bytes: "length (root_bytes files) = DIRENT_SIZE * (length files + 2)"
proof (induction files rule: rev_induct)
  case Nil
  show ?case by (simp add: root_bytes_def root_entries_def)
next
  case (snoc f fs)
  then show ?case by (simp add: root_bytes_snoc)
qed

lemma image_snoc: "host_image (fs @ [f]) = append_to (length fs + 2) (host_bytes f)
    (append_to 1 (mkfs_dirent (of_nat (length fs + 2)) (host_name f)) (host_image fs @ [(T_FILE, [])]))"
  by (simp add: host_image_def append_to_def root_bytes_snoc nth_append list_update_append)

lemma cost_append: "cost (v @ w) = cost v + cost w"
  by (simp add: cost_def)

lemma cost_mono:
  assumes "length v \<le> length w" and "\<And>k. k < length v \<Longrightarrow> length (snd (v ! k)) \<le> length (snd (w ! k))"
  shows "cost v \<le> cost w"
proof -
  have "cost v \<le> cost (take (length v) w)"
    unfolding cost_def using assms places_mono by (intro sum_list_mono2) auto
  moreover have "cost w = cost (take (length v) w) + cost (drop (length v) w)"
    using cost_append [of "take (length v) w" "drop (length v) w"] by simp
  ultimately show ?thesis by simp
qed

lemma fits_mono:
  assumes "fits w" and "length v \<le> length w" and "\<And>k. k < length v \<Longrightarrow> length (snd (v ! k)) \<le> length (snd (w ! k))"
  shows "fits v"
proof -
  have "length (snd f) \<le> MAXFILE * BSIZE" if f: "f \<in> set v" for f
  proof -
    obtain k where k: "k < length v" "f = v ! k" using f by (auto simp: in_set_conv_nth)
    have "w ! k \<in> set w" using k(1) assms(2) by simp
    then have "length (snd (w ! k)) \<le> MAXFILE * BSIZE" using assms(1) by (simp add: fits_def)
    then show ?thesis using assms(3) [OF k(1)] k(2) by simp
  qed
  then show ?thesis using assms cost_mono [OF assms(2,3)] by (auto simp: fits_def)
qed

lemma append_to_simps [simp]:
  "length (append_to i p v) = length v"
  "1 \<le> i \<Longrightarrow> i \<le> length v \<Longrightarrow> append_to i q (append_to i p v) = append_to i (p @ q) v"
  by (simp_all add: append_to_def)

lemma append_to_prefix:
  "k < length v \<Longrightarrow> length (snd (append_to i p v ! k)) \<le> length (snd (append_to i (p @ q) v ! k))"
  "k < length v \<Longrightarrow> length (snd (v ! k)) \<le> length (snd (append_to i q v ! k))"
  by (cases "i - 1 = k"; simp add: append_to_def)+

lemma fits_append_to: "fits (append_to i (p @ q) v) \<Longrightarrow> fits (append_to i p v)" "fits (append_to i q v) \<Longrightarrow> fits v"
  by (erule fits_mono; simp add: append_to_prefix)+

lemma chunks_refine:
  "mk_ok st \<Longrightarrow> i \<in> {1..<unat (freeinode st)} \<Longrightarrow> fits (append_to i (concat chunks) (view st)) \<Longrightarrow>
     \<exists>st'. rfold (iappend (of_nat i)) chunks st = Inr st' \<and> mk_ok st' \<and> view st' = append_to i (concat chunks) (view st)"
proof (induction chunks arbitrary: st)
  case Nil
  then show ?case by (simp add: append_to_def)
next
  case (Cons c cs)
  obtain st1 where st1: "iappend (of_nat i) c st = Inr st1" "mk_ok st1" "view st1 = append_to i c (view st)" "freeinode st1 = freeinode st"
    using iappend_refines [OF Cons.prems(1,2), of c] Cons.prems(3) fits_append_to(1) by auto
  have v: "append_to i (concat cs) (view st1) = append_to i (concat (c # cs)) (view st)"
    using Cons.prems(2) st1(3) by auto
  then show ?case using Cons.IH [OF st1(2)] Cons.prems(2,3) st1(1,4) by auto
qed

lemma add_file_refines:
  assumes ok: "mk_ok st" and v: "view st = host_image fs" and f: "host_ok f" and fits: "fits (host_image (fs @ [f]))"
  shows "\<exists>st'. add_file 1 f st = Inr st' \<and> mk_ok st' \<and> view st' = host_image (fs @ [f])"
proof -
  let ?n = "length fs + 2"
  obtain s chunks where s: "shortname (fst f) = Inr s" "snd f = Some chunks" using f by (auto simp: host_ok_def split: sum.splits)
  have hf: "host_name f = skip_underscore s" "host_bytes f = concat chunks" using s by (simp_all add: host_name_def host_bytes_def)
  have "length (view st) = Suc (length fs)" by (simp add: v host_image_def)
  then have N: "unat (freeinode st) = ?n" by simp
  have room: "unat (freeinode st) < NINODES" unfolding N using fits by (simp add: fits_def host_image_def)
  obtain st1 where st1: "mk_ialloc T_FILE st = Inr (freeinode st, st1)" "mk_ok st1" "view st1 = host_image fs @ [(T_FILE, [])]"
    "unat (freeinode st1) = Suc ?n"
    using ialloc_refines [OF ok room] v N by auto
  let ?de = "mkfs_dirent (freeinode st) (skip_underscore s)"
  have ino: "freeinode st = of_nat ?n" unfolding N [symmetric] by simp
  have im: "host_image (fs @ [f]) = append_to ?n (concat chunks) (append_to 1 ?de (view st1))"
    unfolding image_snoc hf st1(3) ino ..
  have "fits (append_to 1 ?de (view st1))" using fits unfolding im by (rule fits_append_to(2))
  then obtain st2 where st2: "iappend 1 ?de st1 = Inr st2" "mk_ok st2" "view st2 = append_to 1 ?de (view st1)" "freeinode st2 = freeinode st1"
    using iappend_refines [OF st1(2), of 1] st1(4) by auto
  obtain st3 where "rfold (iappend (of_nat ?n)) chunks st2 = Inr st3" "mk_ok st3" "view st3 = host_image (fs @ [f])"
    using chunks_refine [OF st2(2), of ?n chunks] fits st2(3,4) st1(4) unfolding im by auto
  then show ?thesis using s st1(1) st2(1) ino by (auto simp: add_file_def)
qed

lemma add_files_refine:
  assumes "mk_ok st" and "view st = host_image []"
  shows "\<forall>f\<in>set files. host_ok f \<Longrightarrow> fits (host_image files) \<Longrightarrow> \<exists>st'. rfold (add_file 1) files st = Inr st' \<and> mk_ok st' \<and> view st' = host_image files"
proof (induction files rule: rev_induct)
  case Nil
  then show ?case using assms by simp
next
  case (snoc f fs)
  have "fits (host_image fs)"
    using snoc.prems(2) by (rule fits_mono) (auto simp: host_image_def nth_Cons nth_append root_bytes_snoc split: nat.split)
  then obtain st1 where st1: "rfold (add_file 1) fs st = Inr st1" "mk_ok st1" "view st1 = host_image fs" using snoc by auto
  obtain st2 where "add_file 1 f st1 = Inr st2" "mk_ok st2" "view st2 = host_image (fs @ [f])"
    using add_file_refines [OF st1(2,3), of f] snoc.prems by auto
  then show ?case using st1(1) by (simp add: rfold_append)
qed

section \<open>The bitmap\<close>

lemma bit_free_bit: "bit_free d b \<longleftrightarrow> \<not> bit (d (b div 8)) (b mod 8)"
  by (simp add: bit_free_def push_bit_of_1 and_exp_eq_0_iff_not_bit)

lemma mark_used_bit:
  "bit (fold mark_used [0..<n] (\<lambda>_. 0) (b div 8)) (b mod 8) \<longleftrightarrow> b < n"
proof (induction n)
  case (Suc n)
  have "b = n \<longleftrightarrow> b div 8 = n div 8 \<and> b mod 8 = n mod 8" by (metis div_mult_mod_eq)
  moreover have "bit (2 ^ (n mod 8) :: u8) (b mod 8) \<longleftrightarrow> b mod 8 = n mod 8" by (auto simp: bit_exp_iff)
  ultimately show ?case using Suc by (auto simp: mark_used_def bit_or_iff less_Suc_eq push_bit_of_1)
qed simp

section \<open>The finished image\<close>

text \<open>What the image of a list of files is, in the terms of the kernel's file system: the super block, the root directory, the files
  under the inode numbers from \<open>2\<close> on and the free inodes. Every block from the end of the metadata to the end of the files' blocks is at exactly one
  place of exactly one file, as a data block or as its indirect block; the places that a file does not need hold no block number; and
  exactly the metadata and these blocks are taken in the bitmap. The root's size is rounded up to the next block.\<close>

abbreviation file_places :: "host_file list \<Rightarrow> nat \<Rightarrow> nat set" where
  "file_places files i \<equiv> places (length (snd (host_image files ! (i - 1))))"

definition image_ok :: "(nat \<Rightarrow> block) \<Rightarrow> host_file list \<Rightarrow> bool" where
  "image_ok im files \<longleftrightarrow> fits (host_image files)
     \<and> (\<forall>b<2 + nlog. im b = (if b = 1 then sb_block mkfs_sb else (\<lambda>_. 0)))
     \<and> i_type (dino im 1) = T_DIR \<and> isize (dino im 1) = (length (root_bytes files) div BSIZE + 1) * BSIZE
     \<and> fbytes im (dino im 1) (length (root_bytes files)) = root_bytes files
     \<and> (\<forall>k<length files. file_at im (k + 2) = (T_FILE, host_bytes (files ! k)))
     \<and> (\<forall>i\<in>{1..length files + 1}. i_nlink (dino im i) = 1)
     \<and> (\<forall>i\<in>{length files + 2..<NINODES}. i_type (dino im i) = 0)
     \<and> bij_betw (\<lambda>(i, k). blk im (dino im i) k) (Sigma {1..length files + 1} (file_places files))
          {nmeta..<nmeta + cost (host_image files)}
     \<and> (\<forall>i\<in>{1..length files + 1}. \<forall>k\<in>{..MAXFILE} - file_places files i.
          k < NDIRECT \<or> k = MAXFILE \<or> MAXFILE \<in> file_places files i \<longrightarrow> blk im (dino im i) k = 0)
     \<and> (\<forall>b<BPB. bit_free (im (2 + nlog + ninodeblocks)) b \<longleftrightarrow> nmeta + cost (host_image files) \<le> b)"

text \<open>A data block of a file that is there, outside of the metadata, with the indirect block that leads to it.\<close>

definition data_place :: "(nat \<Rightarrow> block) \<Rightarrow> inode \<Rightarrow> nat \<Rightarrow> bool" where
  "data_place im d k \<longleftrightarrow> k < MAXFILE \<and> nmeta \<le> blk im d k \<and> blk im d k < FSSIZE
     \<and> (NDIRECT \<le> k \<longrightarrow> nmeta \<le> blk im d MAXFILE \<and> blk im d MAXFILE < FSSIZE)"

lemma place_of_byte:
  assumes "j < n" and "n \<le> MAXFILE * BSIZE"
  shows "j div BSIZE \<in> places n" "j div BSIZE < MAXFILE" "NDIRECT \<le> j div BSIZE \<Longrightarrow> MAXFILE \<in> places n"
proof -
  have n: "nblk n \<le> MAXFILE" using assms(2) by (rule nblk_le)
  have "j div BSIZE \<le> (n - 1) div BSIZE" using assms(1) by (intro div_le_mono) simp
  also have "\<dots> < nblk n" using assms(1) by (cases n) (auto simp: nblk_Suc)
  finally show "j div BSIZE \<in> places n" "j div BSIZE < MAXFILE" "NDIRECT \<le> j div BSIZE \<Longrightarrow> MAXFILE \<in> places n"
    using n by (auto simp: places_def)
qed

lemma image_data_place:
  assumes im: "image_ok im files" and i: "i \<in> {1..length files + 1}" and j: "j < length (snd (host_image files ! (i - 1)))"
  shows "data_place im (dino im i) (j div BSIZE)"
proof -
  have fits: "fits (host_image files)"
    and bij: "bij_betw (\<lambda>(i, k). blk im (dino im i) k) (Sigma {1..length files + 1} (file_places files))
      {nmeta..<nmeta + cost (host_image files)}"
    using im unfolding image_ok_def by blast+
  have at: "nmeta \<le> blk im (dino im i) k \<and> blk im (dino im i) k < FSSIZE" if "k \<in> file_places files i" for k
    using bij_betwE [OF bij] that i fits by (fastforce simp: fits_def)
  have "length (host_image files) = length files + 1" by (simp add: host_image_def)
  then have "host_image files ! (i - 1) \<in> set (host_image files)" using i by (intro nth_mem) auto
  then have "length (snd (host_image files ! (i - 1))) \<le> MAXFILE * BSIZE" using fits unfolding fits_def by blast
  note pb = place_of_byte [OF j this]
  show ?thesis using at [OF pb(1)] pb(2) at [OF pb(3)] by (simp add: data_place_def)
qed

lemma blk_addrs: "i_addrs d' = i_addrs d \<Longrightarrow> blk im d' = blk im d"
  by (simp add: blk_def fun_eq_iff)

text \<open>Writing the root inode with its rounded size, and the bitmap.\<close>

lemma sint_block: "unat (b :: u32) \<le> FSSIZE \<Longrightarrow> sint b = int (unat b)"
proof -
  assume "unat b \<le> FSSIZE"
  then have "int (unat b) \<le> int FSSIZE" by (simp only: of_nat_le_iff)
  then show ?thesis by (simp add: sint32 FSSIZE_def)
qed

definition rounded :: "inode \<Rightarrow> inode" where
  "rounded d = d\<lparr>i_size := (i_size d div of_nat BSIZE + 1) * of_nat BSIZE\<rparr>"

definition finished :: "mkfs \<Rightarrow> nat \<Rightarrow> block" where
  "finished st = (put_inode 1 (rounded (dino (img st) 1)) (img st))
     (2 + nlog + ninodeblocks := fold mark_used [0..<unat (freeblock st)] (\<lambda>_. 0))"

lemma isize_rounded:
  assumes "isize d \<le> MAXFILE * BSIZE"
  shows "isize (rounded d) = (isize d div BSIZE + 1) * BSIZE"
proof -
  have "unat (i_size d div of_nat BSIZE) = isize d div BSIZE" by (simp add: unat_div BSIZE_def)
  then show ?thesis using assms by (simp add: rounded_def unat_word_ariths fs_consts)
qed

lemma mkfs_end_run:
  assumes ok: "mk_ok st" and N: "2 \<le> unat (freeinode st)"
  shows "rbind (fix_rootsize 1 st) (\<lambda>st1. mk_balloc (freeblock st1) st1) = Inr (st\<lparr>img := finished st\<rparr>)"
    and "b < 2 + nlog \<or> nmeta \<le> b \<Longrightarrow> finished st b = img st b"
    and "i < NINODES \<Longrightarrow> dino (finished st) i = (if i = 1 then on_disk (rounded (dino (img st) 1)) else dino (img st) i)"
proof -
  let ?d = "rounded (dino (img st) 1)" and ?bm = "2 + nlog + ninodeblocks"
  note st = mk_okD [OF ok]
  have one: "1 < NINODES" "1 \<in> {1..<unat (freeinode st)}" using N by (simp_all add: NINODES_def)
  have addrs: "length (i_addrs ?d) = NDIRECT + 1" using inode_okD(1) [OF img_okD(1) [OF st(8) one(2)]] by (simp add: rounded_def)
  have bm: "unat (sb_bmapstart mkfs_sb) = ?bm" "?bm < FSSIZE" by (simp_all add: mkfs_sb_def layout)
  have "unat (freeblock st) < BSIZE * 8" using st(7) by (simp add: FSSIZE_def BSIZE_def)
  then have lt: "sint (freeblock st) < int (BSIZE * 8)" "nat (sint (freeblock st)) = unat (freeblock st)"
    unfolding sint_block [OF st(7)] by (simp_all only: of_nat_less_iff nat_int)
  then show "rbind (fix_rootsize 1 st) (\<lambda>st1. mk_balloc (freeblock st1) st1) = Inr (st\<lparr>img := finished st\<rparr>)"
    using rinode_eq [OF st(1,2) one(1)] winode_eq [OF st(1,2) one(1), of ?d] st(1,2) bm
    by (simp add: fix_rootsize_def rounded_def [symmetric] mk_balloc_def wsect_block finished_def)
  show "finished st b = img st b" if "b < 2 + nlog \<or> nmeta \<le> b"
    using that put_inode_other [OF one(1), of b] by (auto simp: layout finished_def)
  show "dino (finished st) i = (if i = 1 then on_disk ?d else dino (img st) i)" if "i < NINODES"
  proof -
    have "inode_block i \<noteq> ?bm" using inode_place(4) [OF that] by simp
    then have "dino (finished st) i = dino (put_inode 1 ?d (img st)) i" by (simp add: dino_def finished_def)
    then show ?thesis using dino_put_inode [OF addrs, of 1 "img st" i] by simp
  qed
qed

lemma places_bij:
  assumes ok: "img_ok D (pl D) N im fb" and D': "\<And>i. i \<in> {1..<N} \<Longrightarrow> i_addrs (D' i) = i_addrs (D i)"
    and P: "\<And>i. i \<in> {1..<N} \<Longrightarrow> pl D i = P i"
  shows "N = Suc n \<Longrightarrow> bij_betw (\<lambda>(i, k). blk im (D' i) k) (Sigma {1..n} P) {nmeta..<fb}"
proof -
  assume N: "N = Suc n"
  have "Sigma {1..<N} (pl D) = Sigma {1..n} P"
  proof (rule Sigma_cong)
    show "{1..<N} = {1..n}" unfolding N by auto
    then show "pl D i = P i" if "i \<in> {1..n}" for i using P that by blast
  qed
  moreover have "(\<lambda>(i, k). blk im (D' i) k) p = (\<lambda>(i, k). blk im (D i) k) p" if "p \<in> Sigma {1..<N} (pl D)" for p
    using that blk_addrs [OF D' [of "fst p"]] by (cases p) simp
  then have "bij_betw (\<lambda>(i, k). blk im (D' i) k) (Sigma {1..<N} (pl D)) {nmeta..<fb} =
      bij_betw (\<lambda>(i, k). blk im (D i) k) (Sigma {1..<N} (pl D)) {nmeta..<fb}" by (rule bij_betw_cong)
  moreover have "bij_betw (\<lambda>(i, k). blk im (D i) k) (Sigma {1..<N} (pl D)) {nmeta..<fb}"
    using ok unfolding img_ok_def by blast
  ultimately show ?thesis by simp
qed

lemma mkfs_end:
  assumes ok: "mk_ok st" and v: "view st = host_image files" and fits: "fits (host_image files)"
  shows "image_ok (finished st) files"
proof -
  let ?N = "unat (freeinode st)" and ?D = "dino (img st)" and ?im = "finished st" and ?n = "length (root_bytes files)"
  note st = mk_okD [OF ok]
  have "length (view st) = Suc (length files)" by (simp add: v host_image_def)
  then have N: "?N = length files + 2" by simp
  note run = mkfs_end_run [OF ok, unfolded N, OF le_add2]
  have at: "file_at (img st) i = host_image files ! (i - 1)" if "i \<in> {1..<?N}" for i using view_nth [OF that] v by simp
  have m: "img_ok ?D (pl ?D) ?N ?im (unat (freeblock st))"
    "i \<in> {1..<?N} \<Longrightarrow> fbytes ?im (?D i) (isize (?D i)) = fbytes (img st) (?D i) (isize (?D i))" for i
    by (intro img_ok_meta [OF st(8)]; use run(2) in simp)+
  have D: "dino ?im i = (if i = 1 then on_disk (rounded (?D 1)) else ?D i)" "i_addrs (dino ?im i) = i_addrs (?D i)"
    if "i \<in> {1..<?N}" for i using that st(5) run(3) [of i] by (auto simp: rounded_def)
  have one: "1 \<in> {1..<?N}" using N by simp
  have root: "i_type (?D 1) = T_DIR" "fbytes (img st) (?D 1) (isize (?D 1)) = root_bytes files"
    using at [of 1] N by (simp_all add: file_at_def Let_def host_image_def)
  have rsz: "isize (?D 1) = ?n" using arg_cong [OF root(2), of length] by simp
  have nle: "isize (?D 1) \<le> MAXFILE * BSIZE" unfolding rsz using fits by (simp add: fits_def host_image_def)
  have pl: "pl ?D i = file_places files i" if "i \<in> {1..<?N}" for i
    unfolding at [OF that, symmetric] by (simp add: file_at_def Let_def)
  show ?thesis
    unfolding image_ok_def
  proof (intro conjI allI impI ballI)
    show "fbytes ?im (dino ?im 1) ?n = root_bytes files"
      unfolding frange_addrs [OF D(2) [OF one]] using m(2) [OF one] root(2) unfolding rsz by simp
    show "isize (dino ?im 1) = (?n div BSIZE + 1) * BSIZE" using isize_rounded [OF nle] unfolding D(1) [OF one] rsz by simp
    fix k assume k: "k < length files"
    then have i: "k + 2 \<in> {1..<?N}" by (simp add: N)
    show "file_at ?im (k + 2) = (T_FILE, host_bytes (files ! k))"
      using at [OF i] m(2) [OF i] D(1) [OF i] k by (simp add: file_at_def Let_def host_image_def)
  next
    show "bij_betw (\<lambda>(i, k). blk ?im (dino ?im i) k) (Sigma {1..length files + 1} (file_places files))
        {nmeta..<nmeta + cost (host_image files)}"
      using places_bij [OF m(1) D(2) pl] N st(6) v by simp
  next
    fix i k assume i: "i \<in> {1..length files + 1}" and k: "k \<in> {..MAXFILE} - file_places files i"
      "k < NDIRECT \<or> k = MAXFILE \<or> MAXFILE \<in> file_places files i"
    then have i': "i \<in> {1..<?N}" by (simp add: N)
    show "blk ?im (dino ?im i) k = 0"
      using inode_okD(5) [OF img_okD(1) [OF m(1) i'], of k] k unfolding pl [OF i'] blk_addrs [OF D(2) [OF i']] by auto
  next
    fix b show "bit_free (?im (2 + nlog + ninodeblocks)) b \<longleftrightarrow> nmeta + cost (host_image files) \<le> b"
      using st(6) v by (simp add: bit_free_bit finished_def mark_used_bit not_less)
  qed (use root(1) D(1) N st run fits in \<open>auto simp: rounded_def fits_def host_image_def\<close>)
qed

lemma mkfs_main_refines:
  assumes dst: "snd dst \<noteq> None" and files: "\<forall>f\<in>set files. host_ok f" and fits: "fits (host_image files)"
  shows "\<exists>st. mkfs_main (dst # files) = Inr (st\<lparr>img := finished st\<rparr>) \<and> mk_ok st \<and> view st = host_image files"
proof -
  let ?d1 = "mkfs_dirent 1 (mk_str ''.'')" and ?d2 = "mkfs_dirent 1 (mk_str ''..'')"
  obtain st1 where st1: "mk_ialloc T_DIR mkfs_start = Inr (freeinode mkfs_start, st1)" "mk_ok st1" "view st1 = [(T_DIR, [])]"
    "unat (freeinode st1) = 2"
    using ialloc_refines [OF mkfs_start_ok(1), of T_DIR] mkfs_start_ok(2,3) by (auto simp: NINODES_def)
  have fi: "freeinode mkfs_start = 1" by (simp add: mkfs_start_eq)
  have none: "host_image [] = append_to 1 (?d1 @ ?d2) [(T_DIR, [])]"
    by (simp add: host_image_def root_bytes_def root_entries_def append_to_def)
  have fits0: "fits (append_to 1 (?d1 @ ?d2) [(T_DIR, [])])"
    unfolding none [symmetric] using fits by (rule fits_mono) (auto simp: host_image_def root_bytes_def root_entries_def)
  obtain st2 where st2: "iappend 1 ?d1 st1 = Inr st2" "mk_ok st2" "view st2 = append_to 1 ?d1 [(T_DIR, [])]" "freeinode st2 = freeinode st1"
    using iappend_refines [OF st1(2), of 1 ?d1] st1(3,4) fits_append_to(1) [OF fits0] by auto
  obtain st3 where st3: "iappend 1 ?d2 st2 = Inr st3" "mk_ok st3" "view st3 = host_image []"
    using iappend_refines [OF st2(2), of 1 ?d2] st2(3,4) st1(4) fits0 by (auto simp: none)
  obtain st4 where st4: "rfold (add_file 1) files st3 = Inr st4" "mk_ok st4" "view st4 = host_image files"
    using add_files_refine [OF st3(2,3) files fits] by blast
  have "length (view st4) = Suc (length files)" by (simp add: st4(3) host_image_def)
  then have "2 \<le> unat (freeinode st4)" by simp
  from mkfs_end_run(1) [OF st4(2) this]
  have "mkfs_main (dst # files) = Inr (st4\<lparr>img := finished st4\<rparr>)"
    using dst by (simp add: mkfs_main_def st1(1) fi ROOTINO_def st2(1) st3(1) st4(1))
  with st4 show ?thesis by blast
qed

section \<open>Properties\<close>

text \<open>C4. \<^verbatim>\<open>mkfs\<close> builds the image it is asked for. If the host's files can be opened, their names contain no further slash, no file is longer than the
  file system supports, there are fewer than \<^verbatim>\<open>NINODES\<close> inodes and the metadata and all data and indirect blocks fit into \<^verbatim>\<open>FSSIZE\<close>
  blocks, the program ends without a failed assertion, and the image holds the super block, an empty log, a root directory that lists \<open>.\<close>, \<open>..\<close> and every file by its
  shortened name, each file's bytes under its inode, through direct and indirect blocks, and free inodes after them. Every block behind the metadata, up to
  the number of blocks that the files need, is at exactly one place of exactly one file, and no block number is anywhere else; the bitmap marks exactly the blocks of the metadata and
  of the files as taken.\<close>

theorem mkfs_builds_image:
  assumes "snd dst \<noteq> None" and "\<forall>f\<in>set files. host_ok f" and "fits (host_image files)"
  shows "\<exists>st. mkfs_main (dst # files) = Inr st \<and> image_ok (img st) files"
  using mkfs_main_refines [OF assms] mkfs_end [OF _ _ assms(3)] by force

definition two_files :: "host_file list" where
  "two_files = [(mk_str ''user/_cat'', Some [[1, 2, 3], [4, 5]]), (mk_str ''README'', Some [[7]])]"

lemma two_files: "\<forall>f\<in>set two_files. host_ok f" "fits (host_image two_files)"
proof -
  show "\<forall>f\<in>set two_files. host_ok f" by code_simp
  have "cost (host_image two_files) = 3"
    by (simp add: cost_def host_image_def length_root_bytes two_files_def host_bytes_def DIRENT_SIZE_def nplaces_def nblk_def fs_consts)
  then show "fits (host_image two_files)"
    by (simp add: fits_def) (simp add: host_image_def length_root_bytes two_files_def host_bytes_def DIRENT_SIZE_def layout fs_consts)
qed

theorem mkfs_builds_image_witness:
  "\<exists>st. mkfs_main ((mk_str ''fs.img'', Some []) # two_files) = Inr st \<and> image_ok (img st) two_files"
  using mkfs_builds_image [of "(mk_str ''fs.img'', Some [])" two_files] two_files by simp

end
