(* ===== verification/MkfsMount.thy ===== *)
theory MkfsMount
  imports MkfsBuild
begin

text \<open>
  The image of \<^verbatim>\<open>mkfs/mkfs.c\<close> under the kernel: booting with an image as the disk, \<^verbatim>\<open>fsinit\<close> finds the super block and an empty log, and
  the files of the image are found in its root directory by \<^verbatim>\<open>namei\<close> and read by \<^verbatim>\<open>readi\<close>.
\<close>

section \<open>The image as the kernel's disk\<close>

text \<open>What an image holds depends on its blocks below \<^verbatim>\<open>FSSIZE\<close> only.\<close>

lemma blk_image:
  assumes "data_place im d k" and "\<And>b. b < FSSIZE \<Longrightarrow> im' b = im b"
  shows "blk im' d k = blk im d k" and "im' (blk im d k) = im (blk im d k)"
proof -
  have "blk im' d k = blk im d k"
    using assms by (cases "k < NDIRECT") (auto simp: data_place_def blk_def fs_consts)
  then show "blk im' d k = blk im d k" and "im' (blk im d k) = im (blk im d k)"
    using assms by (simp_all add: data_place_def)
qed

lemma data_place_cong:
  assumes "data_place im d k" and "\<And>b. b < FSSIZE \<Longrightarrow> im' b = im b"
  shows "data_place im' d k"
proof -
  have "blk im' d MAXFILE = blk im d MAXFILE" by (simp add: blk_def fs_consts)
  then show ?thesis using assms(1) blk_image(1) [OF assms] by (simp add: data_place_def)
qed

lemma frange_image:
  assumes "\<And>j. off \<le> j \<Longrightarrow> j < off + n \<Longrightarrow> data_place im d (j div BSIZE)" and "\<And>b. b < FSSIZE \<Longrightarrow> im' b = im b"
  shows "frange im' d off n = frange im d off n"
proof -
  have "im' (blk im' d (j div BSIZE)) = im (blk im d (j div BSIZE))" if "j \<in> {off..<off + n}" for j
    using blk_image [OF assms(1) assms(2), of j] that by simp
  then show ?thesis by (simp add: frange_def)
qed

lemma mapped_data: "data_place im d k \<Longrightarrow> mapped im d k"
  by (auto simp: data_place_def mapped_def blk_def fs_consts nmeta_def)

lemma image_okD:
  assumes "image_ok im files"
  shows "length files + 1 < NINODES"
    "b < 2 + nlog \<Longrightarrow> im b = (if b = 1 then sb_block mkfs_sb else (\<lambda>_. 0))"
    "i_type (dino im 1) = T_DIR" "isize (dino im 1) = (length (root_bytes files) div BSIZE + 1) * BSIZE"
    "fbytes im (dino im 1) (length (root_bytes files)) = root_bytes files"
    "k < length files \<Longrightarrow> file_at im (k + 2) = (T_FILE, host_bytes (files ! k))"
    "i \<in> {1..length files + 1} \<Longrightarrow> i_nlink (dino im i) = 1"
    "i \<in> {1..length files + 1} \<Longrightarrow> j < length (snd (host_image files ! (i - 1))) \<Longrightarrow> data_place im (dino im i) (j div BSIZE)"
  using assms image_data_place [OF assms] by (auto simp: image_ok_def fits_def host_image_def)

lemma dino_image: "i < NINODES \<Longrightarrow> (\<And>b. b < FSSIZE \<Longrightarrow> im' b = im b) \<Longrightarrow> dino im' i = dino im i"
  using inode_place_meta [of i] by (simp add: dino_def)

section \<open>Mounting\<close>

lemma get32_sb_block:
  "get32 (sb_block s) 0 = sb_magic s" "get32 (sb_block s) 4 = sb_size s" "get32 (sb_block s) 8 = sb_nblocks s"
  "get32 (sb_block s) 12 = sb_ninodes s" "get32 (sb_block s) 16 = sb_nlog s" "get32 (sb_block s) 20 = sb_logstart s"
  "get32 (sb_block s) 24 = sb_inodestart s" "get32 (sb_block s) 28 = sb_bmapstart s"
  by (simp_all add: sb_block_def get32_put32_other)

lemma brelse_sb:
  fixes st :: "'a fs_scheme"
  assumes "brelse b st = Inr st1"
  shows "brelse b (st\<lparr>sb := s\<rparr>) = Inr (st1\<lparr>sb := s\<rparr>)"
proof -
  have c: "upd_buf b f (st\<lparr>sb := s\<rparr>) = (upd_buf b f st)\<lparr>sb := s\<rparr>" for b f and st :: "'a fs_scheme"
    by (simp add: upd_buf_def)
  have "move_to_front b (st\<lparr>sb := s\<rparr>) = (move_to_front b st)\<lparr>sb := s\<rparr>" for st :: "'a fs_scheme"
    by (simp add: move_to_front_def c Let_def)
  with assms show ?thesis by (auto simp: brelse_def c Let_def split: if_splits)
qed

lemma sb_view [simp]:
  fixes st :: "'a fs_scheme"
  shows "contents dev (st\<lparr>sb := s\<rparr>) = contents dev st" "fs_idle dev P (st\<lparr>sb := s\<rparr>) = fs_idle dev P st"
proof -
  show "contents dev (st\<lparr>sb := s\<rparr>) = contents dev st" by (rule contents_cong) simp_all
  have "calm dev P (st\<lparr>sb := s\<rparr>) = calm dev P st" by (rule calm_cong) simp_all
  then show "fs_idle dev P (st\<lparr>sb := s\<rparr>) = fs_idle dev P st" by (simp add: fs_idle_def)
qed

lemma readsb_image:
  fixes K :: "'a fs_scheme"
  assumes idle: "fs_idle dev P K" and c: "contents dev K 1 = sb_block s"
  shows "\<exists>K'. readsb dev K = Inr K' \<and> sb K' = s \<and> inodes K' = inodes K \<and> fs_idle dev P K' \<and> contents dev K' = contents dev K
      \<and> curpid K' = curpid K"
proof -
  obtain i st1 st2 where r: "bread dev 1 K = Inr (i, st1)" "b_data (bufs st1 i) = contents dev K 1"
    "brelse i st1 = Inr st2" "unchanged dev P K st2"
    using read_block [OF idle] by metis
  have rc: "\<lparr>sb_magic = sb_magic s, sb_size = sb_size s, sb_nblocks = sb_nblocks s, sb_ninodes = sb_ninodes s, sb_nlog = sb_nlog s,
      sb_logstart = sb_logstart s, sb_inodestart = sb_inodestart s, sb_bmapstart = sb_bmapstart s\<rparr> = s" by (cases s) simp
  have "readsb dev K = Inr (st2\<lparr>sb := s\<rparr>)"
    using r(1,2) c brelse_sb [OF r(3), of s] by (simp add: readsb_def Let_def get32_sb_block rc)
  moreover have "fs_same dev P K st2" "inodes st2 = inodes K" using unchanged_same [OF r(4)] by auto
  ultimately show ?thesis by (simp add: fs_same_def)
qed

lemma recover_empty:
  fixes st :: "'a fslog_scheme"
  assumes calm: "calm (l_dev st) (\<lambda>_. 0) st" and zero: "contents (l_dev st) st (l_start st) = (\<lambda>_. 0)"
  shows "\<exists>st'. recover_from_log st = Inr st' \<and> calm (l_dev st) (\<lambda>_. 0) st' \<and> contents (l_dev st) st' = contents (l_dev st) st
      \<and> curpid st' = curpid st \<and> fslog.more st' = fslog.more st"
proof -
  let ?dev = "l_dev st" and ?start = "l_start st"
  have few: "card {b. (\<lambda>_ :: u32. 0 :: u32) b \<noteq> 0} < NBUF" by (simp add: NBUF_def)
  obtain buf st1 st2 where b: "bread ?dev ?start st = Inr (buf, st1)" "b_data (bufs st1 buf) = (\<lambda>_. 0)" "bframe st st1"
    "brelse buf st1 = Inr st2" "calm ?dev (\<lambda>_. 0) st2" "contents ?dev st2 = contents ?dev st" "bframe st st2"
    using write_block [OF calm _ few, of ?start] zero by auto
  let ?s2 = "st2\<lparr>l_n := 0\<rparr>"
  have "get32 (\<lambda>_. 0) 0 = 0" by (simp add: get32_def)
  moreover have "l_block st1 = l_block st2" using bframe_log(7) [OF b(3)] bframe_log(7) [OF b(7)] by simp
  then have e: "st2\<lparr>l_n := 0, l_block := l_block st1\<rparr> = ?s2" by simp
  have "brelse buf (st1\<lparr>l_n := 0\<rparr>) = Inr ?s2"
    using brelse_log [where b = buf and st = st1 and n = 0 and bs = "l_block st1"] b(4) e by simp
  ultimately have "read_head st = Inr ?s2" using b(1,2) by (simp add: read_head_def Let_def)
  moreover have "install_trans True ?s2 = Inr ?s2" by (simp add: install_trans_def)
  moreover have dev: "l_dev ?s2 = ?dev" "l_start ?s2 = ?start" using bframe_log [OF b(7)] by simp_all
  moreover have h: "header_of 0 (l_block ?s2) (contents ?dev ?s2 ?start) = (\<lambda>_. 0)"
    using b(6) zero by (simp add: header_of_def put32_def fun_eq_iff)
  obtain st' where "write_head ?s2 = Inr st'" "calm ?dev (\<lambda>_. 0) st'"
    "contents ?dev st' = (contents ?dev ?s2)(?start := \<lambda>_. 0)" "bframe ?s2 st'"
    using write_head_ok [of ?s2 "\<lambda>_. 0"] b(5) few h unfolding dev by (auto simp: log_step_inv_def bframe_log [OF b(7)])
  moreover have "fslog.more st' = fslog.more ?s2" if "bframe ?s2 st'" for st' :: "'a fslog_scheme"
    using that by (cases st'; cases ?s2) (simp add: bframe_def)
  moreover have "fslog.more st2 = fslog.more st" using b(7) by (cases st; cases st2) (simp add: bframe_def)
  ultimately show ?thesis
    using b(6) zero bframe_curpid [OF b(7)] bframe_curpid [of ?s2 st'] by (auto simp: recover_from_log_def fun_upd_idem)
qed

lemma fsinit_image:
  fixes K :: "'a fs_scheme"
  assumes idle: "fs_idle dev (\<lambda>_. 0) K" and c: "contents dev K 1 = sb_block s" "contents dev K (sb_logstart s) = (\<lambda>_. 0)"
    and magic: "sb_magic s = FSMAGIC"
  shows "\<exists>K'. fsinit dev K = Inr K' \<and> sb K' = s \<and> inodes K' = inodes K \<and> fs_idle dev (\<lambda>_. 0) K' \<and> contents dev K' = contents dev K
      \<and> curpid K' = curpid K"
proof -
  obtain K1 where K1: "readsb dev K = Inr K1" "sb K1 = s" "inodes K1 = inodes K" "fs_idle dev (\<lambda>_. 0) K1"
    "contents dev K1 = contents dev K" "curpid K1 = curpid K"
    using readsb_image [OF idle c(1)] by blast
  let ?s = "K1\<lparr>l_start := sb_logstart s, l_size := sint (sb_nlog s), l_dev := dev\<rparr>"
  have calm: "calm dev (\<lambda>_. 0) ?s" "contents dev ?s = contents dev K" using K1(4,5) by (simp_all add: fs_idle_def)
  then obtain K2 where K2: "recover_from_log ?s = Inr K2" "calm dev (\<lambda>_. 0) K2" "contents dev K2 = contents dev K"
    "curpid K2 = curpid K" "fslog.more K2 = fslog.more ?s"
    using recover_empty [of ?s] c(2) K1(6) by auto
  have "sb K2 = sb K1" "inodes K2 = inodes K1" using K2(5) by (cases K1; cases K2; simp)+
  then show ?thesis
    using K1 K2 magic by (auto simp: fsinit_def initlog_def LOGSIZE_def BSIZE_def fs_idle_def)
qed

section \<open>Names\<close>

lemma strncmp_bytes_eq:
  "strncmp_bytes p q n = 0 \<longleftrightarrow> take n (takeWhile (\<lambda>c. c \<noteq> 0) p) = take n (takeWhile (\<lambda>c. c \<noteq> 0) q)"
proof (induction n arbitrary: p q)
  case (Suc n)
  show ?case using Suc [of "drop 1 p" "drop 1 q"]
    by (cases p; cases q) (auto simp: char_at_def unsigned_eq_0_iff simp flip: word_uint_eq_iff)
qed simp

lemma takeWhile_all: "0 \<notin> set s \<Longrightarrow> takeWhile (\<lambda>c. c \<noteq> (0 :: u8)) s = s"
  by (induction s) auto

lemma takeWhile_pad: "0 \<notin> set s \<Longrightarrow> takeWhile (\<lambda>c. c \<noteq> (0 :: u8)) (s @ 0 # t) = s"
  by (induction s) auto

lemma path_elem_name: "0 \<notin> set s \<Longrightarrow> takeWhile (\<lambda>c. c \<noteq> 0) (path_elem s) = take DIRSIZ s"
  using in_set_takeD [of 0 DIRSIZ s] by (auto simp: path_elem_def takeWhile_pad intro!: takeWhile_all)

lemma dirent_name:
  assumes "0 \<notin> set t"
  shows "takeWhile (\<lambda>c. c \<noteq> 0) (de_name (mkfs_dirent i t)) = take DIRSIZ t"
proof -
  have z: "0 \<notin> set (take DIRSIZ t)" using assms in_set_takeD [of 0 DIRSIZ t] by blast
  have "de_name (mkfs_dirent i t) = take DIRSIZ t @ replicate (DIRSIZ - length t) 0"
    by (simp add: de_name_def mkfs_dirent_def DIRSIZ_def min_def)
  then show ?thesis
    using takeWhile_all [OF z] takeWhile_pad [OF z] by (cases "DIRSIZ - length t") simp_all
qed

lemma dirent_inum:
  assumes "i < NINODES"
  shows "de_inum (mkfs_dirent (of_nat i) t) = of_nat i"
proof -
  have "drop_bit 8 (of_nat i :: u32) = 0"
    using assms unat_inum [OF assms] by (simp add: word_unat_eq_iff drop_bit_eq_div unat_div NINODES_def)
  moreover have "(ucast (ucast (of_nat i :: u32) :: u8) :: u16) = of_nat i"
    using assms by (simp add: unsigned_of_nat take_bit_nat_eq_self NINODES_def)
  ultimately show ?thesis by (simp add: de_inum_def char_at_def mkfs_dirent_def)
qed

lemma entry_matches_dirent:
  assumes "1 \<le> i" "i < NINODES" and "0 \<notin> set s" "0 \<notin> set t"
  shows "entry_matches (path_elem s) (mkfs_dirent (of_nat i) t) \<longleftrightarrow> take DIRSIZ s = take DIRSIZ t"
proof -
  have "(of_nat i :: u16) \<noteq> 0" using assms(1,2) by (simp add: word_unat_eq_iff unat_of_nat take_bit_nat_eq_self NINODES_def)
  then show ?thesis
    using path_elem_name [OF assms(3)] dirent_name [OF assms(4), of "of_nat i"]
    by (simp add: entry_matches_def dirent_inum [OF assms(2)] namecmp_def strncmp_bytes_eq)
qed

section \<open>The root directory\<close>

lemma concat_nth:
  "\<forall>x\<in>set xs. length x = n \<Longrightarrow> k < length xs \<Longrightarrow> take n (drop (k * n) (concat xs)) = xs ! k"
proof (induction xs arbitrary: k)
  case (Cons x xs)
  then show ?case by (cases k) simp_all
qed simp

lemma length_root_entries: "length (root_entries files) = length files + 2"
  by (simp add: root_entries_def)

lemma nth_root_entries:
  "root_entries files ! 0 = (1, mk_str ''.'')" "root_entries files ! 1 = (1, mk_str ''..'')"
  "k < length files \<Longrightarrow> root_entries files ! (k + 2) = (k + 2, host_name (files ! k))"
  by (simp_all add: root_entries_def nth_enumerate_eq)

lemma root_dir_entry:
  assumes im: "image_ok im files" and k: "k < length files + 2"
  shows "dir_entry im (dino im 1) k = (case root_entries files ! k of (i, s) \<Rightarrow> mkfs_dirent (of_nat i) s)"
    and "j < k * DIRENT_SIZE + DIRENT_SIZE \<Longrightarrow> data_place im (dino im 1) (j div BSIZE)"
    and "k * DIRENT_SIZE + DIRENT_SIZE \<le> isize (dino im 1)"
proof -
  have "Suc k \<le> length files + 2" using k by simp
  then have le: "k * DIRENT_SIZE + DIRENT_SIZE \<le> length (root_bytes files)"
    unfolding length_root_bytes by (simp add: DIRENT_SIZE_def)
  have "length (root_bytes files) \<le> isize (dino im 1)"
    unfolding image_okD(4) [OF im] using div_mult_mod_eq [of "length (root_bytes files)" BSIZE]
      mod_less_divisor [of BSIZE "length (root_bytes files)"] by (simp add: BSIZE_def)
  with le show "k * DIRENT_SIZE + DIRENT_SIZE \<le> isize (dino im 1)" by simp
  show "data_place im (dino im 1) (j div BSIZE)" if "j < k * DIRENT_SIZE + DIRENT_SIZE"
    using image_okD(8) [OF im, of 1 j] that le by (simp add: host_image_def)
  have "dir_entry im (dino im 1) k = take DIRENT_SIZE (drop (k * DIRENT_SIZE) (root_bytes files))"
    unfolding dir_entry_def frange_fbytes [OF le] image_okD(5) [OF im] ..
  also have "\<dots> = map (\<lambda>(i, s). mkfs_dirent (of_nat i) s) (root_entries files) ! k"
    unfolding root_bytes_def using k length_root_entries [of files] by (intro concat_nth) auto
  finally show "dir_entry im (dino im 1) k = (case root_entries files ! k of (i, s) \<Rightarrow> mkfs_dirent (of_nat i) s)"
    using k length_root_entries [of files] by simp
qed

section \<open>Files of the image\<close>

text \<open>A kernel that has mounted the image: nothing is locked or pinned, no inode is in use, the blocks are those of the image.\<close>

definition mounted :: "(nat \<Rightarrow> block) \<Rightarrow> 'a fs_scheme \<Rightarrow> bool" where
  "mounted im K \<longleftrightarrow> fs_idle ROOTDEV (\<lambda>_. 0) K \<and> sb K = mkfs_sb \<and> (\<forall>b<FSSIZE. store ROOTDEV K b = im b)
     \<and> (\<forall>j<NINODE. i_ref (inodes K j) = 0 \<and> sl_locked (i_lock (inodes K j)) = 0)"

lemma inode_contents:
  assumes "i < NINODES" and "\<And>b. b < FSSIZE \<Longrightarrow> block_at C b = im b"
  shows "C (IBLOCK (of_nat i) mkfs_sb) = im (inode_block i)"
proof -
  have "IBLOCK (of_nat i) mkfs_sb = of_nat (inode_block i)" unfolding inode_place(1) [OF assms(1), symmetric] by simp
  then show ?thesis using assms(2) [of "inode_block i"] inode_place_meta [OF assms(1)] by (simp add: block_at_def)
qed

text \<open>A name that finds the file: a component of a path, and no earlier entry of the root directory has its first \<^verbatim>\<open>DIRSIZ\<close> characters.\<close>

definition findable :: "host_file list \<Rightarrow> nat \<Rightarrow> bool" where
  "findable files k \<longleftrightarrow> (let s = host_name (files ! k) in
     s \<noteq> [] \<and> slash \<notin> set s \<and> take DIRSIZ s \<noteq> mk_str ''.'' \<and> take DIRSIZ s \<noteq> mk_str ''..''
     \<and> (\<forall>j<k. take DIRSIZ (host_name (files ! j)) \<noteq> take DIRSIZ s))
     \<and> (\<forall>j\<le>k. 0 \<notin> set (host_name (files ! j)))"

lemma earlier_entries:
  assumes im: "image_ok im files" and k: "k < length files" and f: "findable files k" and j: "j < k + 2"
  shows "\<not> entry_matches (path_elem (host_name (files ! k))) (dir_entry im (dino im 1) j)"
proof -
  let ?s = "host_name (files ! k)"
  have z: "0 \<notin> set ?s" using f by (simp add: findable_def)
  have N: "length files + 1 < NINODES" using image_okD(1) [OF im] .
  have dots: "0 \<notin> set (mk_str ''.'')" "0 \<notin> set (mk_str ''..'')" by code_simp+
  consider "j = 0" | "j = 1" | i where "j = i + 2" "i < k"
  proof (cases "j < 2")
    case False
    then have "j = (j - 2) + 2" "j - 2 < k" using j by simp_all
    then show thesis by (rule that(3))
  qed (use that in \<open>auto simp: less_2_cases_iff\<close>)
  then show ?thesis
  proof cases
    case 1
    then show ?thesis
      using root_dir_entry(1) [OF im, of 0] nth_root_entries(1) [of files] entry_matches_dirent [OF _ _ z dots(1), of 1] f N
      by (auto simp: findable_def Let_def mk_str_def DIRSIZ_def)
  next
    case 2
    then show ?thesis
      using root_dir_entry(1) [OF im, of 1] nth_root_entries(2) [of files] entry_matches_dirent [OF _ _ z dots(2), of 1] f N
      by (auto simp: findable_def Let_def mk_str_def DIRSIZ_def)
  next
    case (3 i)
    then have "0 \<notin> set (host_name (files ! i))" using f by (simp add: findable_def)
    with 3 show ?thesis
      using root_dir_entry(1) [OF im, of "i + 2"] nth_root_entries(3) [of i files] entry_matches_dirent [OF _ _ z, of "i + 2"] f N k
      by (auto simp: findable_def Let_def)
  qed
qed

lemma ucast_inum: "i < NINODES \<Longrightarrow> (ucast (of_nat i :: u16) :: u32) = of_nat i"
  by (simp add: unsigned_of_nat take_bit_nat_eq_self NINODES_def)

lemma lookup_image:
  fixes K :: "'a fs_scheme"
  assumes K: "mounted im K" and im: "image_ok im files" and k: "k < length files" and f: "findable files k"
  shows "\<exists>K'. namei (slash # host_name (files ! k)) K = Inr (Some 1, K') \<and> fs_same ROOTDEV (\<lambda>_. 0) K K'
      \<and> inodes K' 1 = (inodes K 1)\<lparr>i_dev := ROOTDEV, i_inum := of_nat (k + 2), i_ref := 1, i_valid := False\<rparr>"
proof -
  let ?s = "host_name (files ! k)" and ?C = "store ROOTDEV K" and ?d = "dino im 1"
  have st: "\<And>b. b < FSSIZE \<Longrightarrow> ?C b = im b" and idle: "fs_idle ROOTDEV (\<lambda>_. 0) K" and sb: "sb K = mkfs_sb"
    and table: "\<And>j. j < NINODE \<Longrightarrow> i_ref (inodes K j) = 0 \<and> sl_locked (i_lock (inodes K j)) = 0"
    using K by (auto simp: mounted_def)
  have N: "k + 2 < NINODES" "1 < NINODES" using image_okD(1) [OF im] k by simp_all
  have z: "0 \<notin> set ?s" using f by (simp add: findable_def)
  have ino: "contents ROOTDEV K (IBLOCK ROOTINO (sb K)) = im (inode_block 1)"
    using inode_contents [OF N(2) st] by (simp add: sb ROOTINO_def)
  have rd: "?d = get_dinode (im (inode_block 1)) (dinode_at ROOTINO) zero_inode"
    using inode_place(2) [OF N(2)] by (simp add: dino_def ROOTINO_def)
  have at: "dir_entry ?C ?d j = dir_entry im ?d j" if "j < length files + 2" for j
    unfolding dir_entry_def by (rule frange_image [OF root_dir_entry(2) [OF im that] st])
  have this_entry: "dir_entry ?C ?d (k + 2) = mkfs_dirent (of_nat (k + 2)) ?s"
    using at [of "k + 2"] root_dir_entry(1) [OF im, of "k + 2"] nth_root_entries(3) [OF k] k by simp
  have inum: "of_nat (k + 2) = (ucast (de_inum (dir_entry ?C ?d (k + 2))) :: u32)"
    unfolding this_entry dirent_inum [OF N(1)] using ucast_inum [OF N(1)] by simp
  show ?thesis
  proof (rule namei_finds [OF idle table ino [symmetric] rd])
    show "i_type ?d = T_DIR" using image_okD(3) [OF im] .
    show "i_nlink ?d \<noteq> 0" using image_okD(7) [OF im, of 1] by simp
    show "?s \<noteq> []" "slash \<notin> set ?s" using f by (auto simp: findable_def Let_def)
    show "(k + 2) * DIRENT_SIZE + DIRENT_SIZE \<le> isize ?d" 
      using root_dir_entry(3) [OF im, of "k + 2"] k by simp
    show "mapped ?C ?d (j div BSIZE)" if "j < (k + 2) * DIRENT_SIZE + DIRENT_SIZE" for j
      using k by (intro mapped_data data_place_cong [OF root_dir_entry(2) [OF im _ that] st]) simp_all
    show "\<not> entry_matches (path_elem ?s) (dir_entry ?C ?d j)" if "j < k + 2" for j
      using earlier_entries [OF im k f that] at [of j] that k by simp
    show "entry_matches (path_elem ?s) (dir_entry ?C ?d (k + 2))"
      unfolding this_entry using entry_matches_dirent [OF _ N(1) z z] by simp
    show "of_nat (k + 2) = (ucast (de_inum (dir_entry ?C ?d (k + 2))) :: u32)" by (rule inum)
    show "(of_nat (k + 2) :: u32) \<noteq> ROOTINO"
      using unat_inum [OF N(1)] unat_inum [OF N(2)] by (auto simp: ROOTINO_def word_unat_eq_iff)
  qed
qed

lemma read_image:
  fixes K :: "'a fs_scheme"
  assumes idle: "fs_idle ROOTDEV P K" and sb: "sb K = mkfs_sb" and st: "\<And>b. b < FSSIZE \<Longrightarrow> store ROOTDEV K b = im b"
    and im: "image_ok im files" and k: "k < length files"
    and ip: "i_dev (inodes K i) = ROOTDEV" "i_inum (inodes K i) = of_nat (k + 2)" "i_ref (inodes K i) = 1" "\<not> i_valid (inodes K i)"
      "sl_locked (i_lock (inodes K i)) = 0"
  shows "\<exists>K1 K2. ilock i K = Inr K1
      \<and> readi i LocalDst 0 (i_size (inodes K1 i)) K1 = Inr (int (length (host_bytes (files ! k))), host_bytes (files ! k), K2)"
proof -
  let ?d = "dino im (k + 2)" and ?b = "im (inode_block (k + 2))"
  have N: "k + 2 < NINODES" using image_okD(1) [OF im] k by simp
  have fa: "i_type ?d = T_FILE" "fbytes im ?d (isize ?d) = host_bytes (files ! k)"
    using image_okD(6) [OF im k] by (simp_all add: file_at_def Let_def)
  have ino: "?b = contents ROOTDEV K (IBLOCK (of_nat (k + 2)) (sb K))" unfolding sb using inode_contents [OF N st] by simp
  have d: "?d = get_dinode ?b (dinode_at (of_nat (k + 2))) zero_inode"
    unfolding dino_def inode_place(2) [OF N] ..
  have ty: "get16 ?b (dinode_at (of_nat (k + 2))) \<noteq> 0" using fa(1) unfolding d by (simp add: get_dinode_def T_FILE_def)
  have ref: "1 \<le> i_ref (inodes K i)" using ip(3) by simp
  obtain K1 where K1: "ilock i K = Inr K1" "fs_same ROOTDEV P K K1"
    "inodes K1 = (inodes K)(i := (get_dinode ?b (dinode_at (of_nat (k + 2))) (inodes K i))
           \<lparr>i_lock := \<lparr>sl_locked = 1, sl_pid = curpid K\<rparr>, i_valid := True\<rparr>)"
    using ilock_load [OF idle ip(1) ref ip(5,4,2) ino ty] by blast
  have d1: "i_addrs (inodes K1 i) = i_addrs ?d" "i_size (inodes K1 i) = i_size ?d" "i_dev (inodes K1 i) = ROOTDEV"
    unfolding K1(3) d using ip(1) by (simp_all add: get_dinode_def)
  have same: "store ROOTDEV K1 = store ROOTDEV K" "fs_idle ROOTDEV P K1" using K1(2) by (simp_all add: fs_same_def)
  have len: "length (host_bytes (files ! k)) = isize ?d" using arg_cong [OF fa(2), of length] by simp
  have place: "data_place im ?d (j div BSIZE)" if "j < isize ?d" for j
    using image_okD(8) [OF im, of "k + 2" j] that k len by (simp add: host_image_def)
  have fr: "frange (store ROOTDEV K1) (inodes K1 i) 0 (isize ?d) = host_bytes (files ! k)"
    unfolding frange_addrs [OF d1(1)] same fa(2) [symmetric] by (rule frange_image [OF place st]) simp_all
  have "\<exists>K2. readi i LocalDst 0 (i_size (inodes K1 i)) K1 = Inr (int (isize ?d), frange (store ROOTDEV K1) (inodes K1 i) (unat (0 :: u32)) (isize ?d), K2)
      \<and> unchanged ROOTDEV P K1 K2"
  proof (rule readi_mapped [OF same(2) d1(3)])
    fix j assume "unat (0 :: u32) \<le> j" "j < unat (0 :: u32) + isize ?d"
    then show "mapped (store ROOTDEV K1) (inodes K1 i) (j div BSIZE)"
      unfolding mapped_addrs [OF d1(1)] same by (intro mapped_data data_place_cong [OF place st]) simp_all
  qed (simp_all add: d1)
  then show ?thesis using K1(1) fr len by auto
qed

lemma iinit_ok:
  fixes K :: "'a fs_scheme"
  shows "fs_idle dev P (iinit K) = fs_idle dev P K" "contents dev (iinit K) = contents dev K"
    "i_ref (inodes (iinit K) j) = i_ref (inodes K j)" "j < NINODE \<Longrightarrow> sl_locked (i_lock (inodes (iinit K) j)) = 0"
proof -
  let ?f = "\<lambda>i. upd_inode i (\<lambda>ip. ip\<lparr>i_lock := initsleeplock\<rparr>)"
  have "fs_idle dev P (fold ?f [0..<n] K) = fs_idle dev P K \<and> contents dev (fold ?f [0..<n] K) = contents dev K
    \<and> (\<forall>j. i_ref (inodes (fold ?f [0..<n] K) j) = i_ref (inodes K j)
         \<and> (j < n \<longrightarrow> sl_locked (i_lock (inodes (fold ?f [0..<n] K) j)) = 0))" for n
    by (induction n) (auto simp: initsleeplock_def)
  then show "fs_idle dev P (iinit K) = fs_idle dev P K" "contents dev (iinit K) = contents dev K"
    "i_ref (inodes (iinit K) j) = i_ref (inodes K j)" "j < NINODE \<Longrightarrow> sl_locked (i_lock (inodes (iinit K) j)) = 0"
    unfolding iinit_def by blast+
qed

lemma mount_image:
  fixes K :: "'a fs_scheme"
  assumes blank: "\<And>j. blank_buf (bufs K j)" and table: "\<And>j. j < NINODE \<Longrightarrow> i_ref (inodes K j) = 0"
    and disk: "\<And>b. unat b < FSSIZE \<Longrightarrow> disk K b = im (unat b)" and im: "image_ok im files"
  shows "\<exists>K1. fsinit ROOTDEV (iinit (binit K)) = Inr K1 \<and> mounted im K1"
proof -
  let ?K = "iinit (binit K)"
  have dev: "ROOTDEV \<noteq> 0" by (simp add: ROOTDEV_def)
  note boot = fs_idle_boot [OF blank dev]
  have idle: "fs_idle ROOTDEV (\<lambda>_. 0) ?K" and c: "contents ROOTDEV ?K = disk K" using boot by (simp_all add: iinit_ok)
  have b1: "contents ROOTDEV ?K 1 = sb_block mkfs_sb"
    using disk [of 1] image_okD(2) [OF im, of 1] by (simp add: c FSSIZE_def)
  have b2: "contents ROOTDEV ?K (sb_logstart mkfs_sb) = (\<lambda>_. 0)"
    using disk [of 2] image_okD(2) [OF im, of 2] by (simp add: c FSSIZE_def mkfs_sb_def layout)
  have "sb_magic mkfs_sb = FSMAGIC" by (simp add: mkfs_sb_def)
  then obtain K1 where K1: "fsinit ROOTDEV ?K = Inr K1" "sb K1 = mkfs_sb" "inodes K1 = inodes ?K" "fs_idle ROOTDEV (\<lambda>_. 0) K1"
    "contents ROOTDEV K1 = contents ROOTDEV ?K"
    using fsinit_image [OF idle b1 b2] by blast
  have "inodes (binit K) = inodes K" using bframe_fs(1) [OF binit_frame] .
  moreover have "store ROOTDEV K1 b = im b" if "b < FSSIZE" for b
    using disk [of "of_nat b"] that by (simp add: K1(5) c block_at_def)
  ultimately show ?thesis using K1 table by (auto simp: mounted_def iinit_ok)
qed

section \<open>Properties\<close>

text \<open>C2. The kernel reads what \<^verbatim>\<open>mkfs\<close> wrote. With a disk that holds the image that \<^verbatim>\<open>mkfs\<close> built from the host's files, and an empty
  buffer cache and inode table, \<^verbatim>\<open>binit\<close>, \<^verbatim>\<open>iinit\<close> and \<^verbatim>\<open>fsinit\<close> mount the file system; \<^verbatim>\<open>namei\<close> of a slash and the shortened name of a file then finds its
  inode, \<^verbatim>\<open>ilock\<close> loads it and \<^verbatim>\<open>readi\<close> of the whole file returns the bytes of the host's file, if no earlier entry has the
  same first \<^verbatim>\<open>DIRSIZ\<close> characters. No step panics or blocks.\<close>

theorem kernel_reads_image:
  fixes K :: "'a fs_scheme"
  assumes mk: "snd dst \<noteq> None" "\<forall>f\<in>set files. host_ok f" "fits (host_image files)" "mkfs_main (dst # files) = Inr st"
    and K: "\<And>j. blank_buf (bufs K j)" "\<And>j. j < NINODE \<Longrightarrow> i_ref (inodes K j) = 0"
      "\<And>b. unat b < FSSIZE \<Longrightarrow> disk K b = img st (unat b)"
    and k: "k < length files" "findable files k"
  shows "\<exists>K1 K2 K3 K4. fsinit ROOTDEV (iinit (binit K)) = Inr K1 \<and> namei (slash # host_name (files ! k)) K1 = Inr (Some 1, K2)
      \<and> ilock 1 K2 = Inr K3
      \<and> readi 1 LocalDst 0 (i_size (inodes K3 1)) K3 = Inr (int (length (host_bytes (files ! k))), host_bytes (files ! k), K4)"
proof -
  have im: "image_ok (img st) files"
    using mkfs_main_refines [OF mk(1-3)] mk(4) mkfs_end [OF _ _ mk(3)] by force
  obtain K1 where K1: "fsinit ROOTDEV (iinit (binit K)) = Inr K1" "mounted (img st) K1"
    using mount_image [OF K im] by blast
  obtain K2 where K2: "namei (slash # host_name (files ! k)) K1 = Inr (Some 1, K2)" "fs_same ROOTDEV (\<lambda>_. 0) K1 K2"
    "inodes K2 1 = (inodes K1 1)\<lparr>i_dev := ROOTDEV, i_inum := of_nat (k + 2), i_ref := 1, i_valid := False\<rparr>"
    using lookup_image [OF K1(2) im k] by blast
  have "\<exists>K3 K4. ilock 1 K2 = Inr K3
      \<and> readi 1 LocalDst 0 (i_size (inodes K3 1)) K3 = Inr (int (length (host_bytes (files ! k))), host_bytes (files ! k), K4)"
    by (rule read_image [OF _ _ _ im k(1), where P = "\<lambda>_. 0"]) (use K1(2) K2(2,3) in \<open>auto simp: mounted_def fs_same_def NINODE_def\<close>)
  with K1(1) K2(1) show ?thesis by blast
qed

lemma two_files_cat: "findable two_files 0" "host_name (two_files ! 0) = mk_str ''cat''" "host_bytes (two_files ! 0) = [1, 2, 3, 4, 5]"
  by code_simp+

theorem kernel_reads_image_witness:
  "\<exists>st K1 K2 K3 K4. mkfs_main ((mk_str ''fs.img'', Some []) # two_files) = Inr st
     \<and> fsinit ROOTDEV (iinit (binit (zero_fs\<lparr>disk := \<lambda>b. img st (unat b)\<rparr>))) = Inr K1
     \<and> namei (slash # mk_str ''cat'') K1 = Inr (Some 1, K2) \<and> ilock 1 K2 = Inr K3
     \<and> readi 1 LocalDst 0 (i_size (inodes K3 1)) K3 = Inr (5, [1, 2, 3, 4, 5], K4)"
proof -
  let ?dst = "(mk_str ''fs.img'', Some [])"
  obtain st where st: "mkfs_main (?dst # two_files) = Inr st" using mkfs_main_refines [of ?dst two_files] two_files by auto
  let ?K = "zero_fs\<lparr>disk := \<lambda>b. img st (unat b)\<rparr>"
  have "blank_buf (bufs ?K j)" "i_ref (inodes ?K j) = 0" for j
    by (simp_all add: zero_fs_def zero_ptable_def zero_fslog_def ptable.defs fs.defs fslog.defs blank_buf_def initsleeplock_def zero_inode_def)
  then have "\<exists>K1 K2 K3 K4. fsinit ROOTDEV (iinit (binit ?K)) = Inr K1 \<and> namei (slash # host_name (two_files ! 0)) K1 = Inr (Some 1, K2)
      \<and> ilock 1 K2 = Inr K3
      \<and> readi 1 LocalDst 0 (i_size (inodes K3 1)) K3 = Inr (int (length (host_bytes (two_files ! 0))), host_bytes (two_files ! 0), K4)"
    using two_files two_files_cat st by (intro kernel_reads_image [of ?dst two_files st]) (simp_all add: two_files_def)
  then show ?thesis using st unfolding two_files_cat by auto
qed

end
