(* ===== verification/Umalloc.thy ===== *)
theory Umalloc
  imports Ulib Riscv
begin

text \<open>
  The memory allocator of the user programs (\<^verbatim>\<open>user/umalloc.c\<close>). The free list is a ring of headers in the memory of the
  process, in the order of their addresses, with the static variable \<^verbatim>\<open>base\<close> as its first element; the address of \<^verbatim>\<open>base\<close>
  is a link-time constant and a parameter. A header is the address of the next one and the size of its block in units of a
  header. Memory comes from the system call \<^verbatim>\<open>sbrk\<close>. The search loops of \<^verbatim>\<open>free\<close> and \<^verbatim>\<open>malloc\<close> do not end on a ring that is out
  of order: then the result is \<open>None\<close>. What the memory that \<^verbatim>\<open>sbrk\<close> adds contains is left open: it is whatever the function that
  models the memory has there. The theories \<open>UmallocInv\<close> and \<open>UmallocSafe\<close> show that on every sequence of requests they do end, that the blocks handed
  out never overlap, and that the allocator never changes a byte of a block that a client holds.
\<close>

section \<open>State and operations\<close>

text \<open>Fields of \<^verbatim>\<open>union header\<close>: the pointer and, at offset eight, the size. A header occupies sixteen bytes.\<close>

definition hptr :: "mem \<Rightarrow> u64 \<Rightarrow> u64" where
  "hptr m p = load64 m p"

definition hsize :: "mem \<Rightarrow> u64 \<Rightarrow> u32" where
  "hsize m p = ucast (load_bytes m (p + 8) 4)"

definition set_ptr :: "u64 \<Rightarrow> u64 \<Rightarrow> mem \<Rightarrow> mem" where
  "set_ptr p v m = store64 m p v"

definition set_size :: "u64 \<Rightarrow> u32 \<Rightarrow> mem \<Rightarrow> mem" where
  "set_size p n m = store_bytes m (p + 8) (ucast n) 4"

text \<open>Pointer arithmetic on headers.\<close>

definition units :: "u32 \<Rightarrow> u64" where
  "units n = 16 * ucast n"

record uheap =
  hmem :: mem
  freep :: u64

partial_function (option) free_find :: "mem \<Rightarrow> u64 \<Rightarrow> u64 \<Rightarrow> u64 option" where
  "free_find m bp p =
     (if bp > p \<and> bp < hptr m p then Some p
      else if p \<ge> hptr m p \<and> (bp > p \<or> bp < hptr m p) then Some p
      else free_find m bp (hptr m p))"

text \<open>The two halves of the insertion of \<open>bp\<close> after \<open>p\<close>: joining it to the block above, and to the block below.\<close>

definition free_upper :: "u64 \<Rightarrow> u64 \<Rightarrow> mem \<Rightarrow> mem" where
  "free_upper bp p m =
     (if bp + units (hsize m bp) = hptr m p then
        let m1 = set_size bp (hsize m bp + hsize m (hptr m p)) m
        in set_ptr bp (hptr m1 (hptr m1 p)) m1
      else set_ptr bp (hptr m p) m)"

definition free_lower :: "u64 \<Rightarrow> u64 \<Rightarrow> mem \<Rightarrow> mem" where
  "free_lower bp p m =
     (if p + units (hsize m p) = bp then
        let m1 = set_size p (hsize m p + hsize m bp) m
        in set_ptr p (hptr m1 bp) m1
      else set_ptr p bp m)"

definition ufree :: "u64 \<Rightarrow> uheap \<Rightarrow> uheap option" where
  "ufree ap h =
     (let bp = ap - 16
      in case free_find (hmem h) bp (freep h) of
           None \<Rightarrow> None
         | Some p \<Rightarrow> Some \<lparr>hmem = free_lower bp p (free_upper bp p (hmem h)), freep = p\<rparr>)"

text \<open>A computation on the memory of the program as a step of the program.\<close>

definition ulift :: "'a option \<Rightarrow> ('k, 'a) prog" where
  "ulift r s = (case r of None \<Rightarrow> None | Some x \<Rightarrow> Some (Ret x, s))"

text \<open>The argument of \<^verbatim>\<open>sbrk\<close> is an \<^verbatim>\<open>int\<close>, to which the number of bytes is cut.\<close>

definition morecore :: "'k os \<Rightarrow> u32 \<Rightarrow> uheap \<Rightarrow> ('k, u64 \<times> uheap) prog" where
  "morecore os nu0 h =
     (let nu = (if nu0 < 4096 then 4096 else nu0)
      in ubind (ucall1 os (CSbrk (sint (ucast (units nu) :: u32)))) (\<lambda>r.
           let p = of_int r
           in if p = - 1 then uret (0, h)
              else ubind (ulift (ufree (p + 16) (h\<lparr>hmem := set_size p nu (hmem h)\<rparr>)))
                     (\<lambda>h1. uret (freep h1, h1))))"

definition malloc_take :: "u32 \<Rightarrow> u64 \<Rightarrow> u64 \<Rightarrow> uheap \<Rightarrow> u64 \<times> uheap" where
  "malloc_take nunits prevp p h =
     (if hsize (hmem h) p = nunits then
        (p + 16, \<lparr>hmem = set_ptr prevp (hptr (hmem h) p) (hmem h), freep = prevp\<rparr>)
      else
        let m1 = set_size p (hsize (hmem h) p - nunits) (hmem h);
            q = p + units (hsize m1 p)
        in (q + 16, \<lparr>hmem = set_size q nunits m1, freep = prevp\<rparr>))"

partial_function (option) malloc_loop ::
    "'k os \<Rightarrow> u32 \<Rightarrow> u64 \<Rightarrow> u64 \<Rightarrow> uheap \<Rightarrow> 'k ust \<Rightarrow> ((u64 \<times> uheap) uout \<times> 'k ust) option" where
  "malloc_loop os nunits prevp p h s =
     (if hsize (hmem h) p \<ge> nunits then uret (malloc_take nunits prevp p h) s
      else if p = freep h then
        ubind (morecore os nunits h) (\<lambda>(q, h1).
          if q = 0 then uret (0, h1) else malloc_loop os nunits q (hptr (hmem h1) q) h1) s
      else malloc_loop os nunits p (hptr (hmem h) p) h s)"

definition malloc_init :: "u64 \<Rightarrow> uheap \<Rightarrow> uheap" where
  "malloc_init base h =
     (if freep h = 0 then \<lparr>hmem = set_size base 0 (set_ptr base base (hmem h)), freep = base\<rparr> else h)"

definition nunits_of :: "u32 \<Rightarrow> u32" where
  "nunits_of nbytes = ucast ((ucast nbytes + 16 - 1) div 16 + 1 :: u64)"

definition malloc :: "'k os \<Rightarrow> u64 \<Rightarrow> u32 \<Rightarrow> uheap \<Rightarrow> ('k, u64 \<times> uheap) prog" where
  "malloc os base nbytes h0 =
     (let nunits = nunits_of nbytes;
          h = malloc_init base h0;
          prevp = freep h
      in malloc_loop os nunits prevp (hptr (hmem h) prevp) h)"

section \<open>Headers\<close>

text \<open>Two headers at addresses that are sixteen bytes apart do not touch each other.\<close>

definition apart :: "u64 \<Rightarrow> u64 \<Rightarrow> bool" where
  "apart p q \<longleftrightarrow> unat p + 16 \<le> 2 ^ 64 \<and> unat q + 16 \<le> 2 ^ 64 \<and> (unat p + 16 \<le> unat q \<or> unat q + 16 \<le> unat p)"

lemma in_range_nat:
  assumes "unat p + k \<le> 2 ^ 64"
  shows "in_range b p k \<longleftrightarrow> unat p \<le> unat b \<and> unat b < unat p + k"
proof (cases "p \<le> b")
  case True
  then have "unat (b - p) = unat b - unat p" by (rule unat_sub)
  with True show ?thesis by (auto simp: in_range_def word_le_nat_alt)
next
  case False
  then have "unat b < unat p" by (simp add: word_le_nat_alt)
  moreover from this have "unat (b - p) = 2 ^ 64 + unat b - unat p"
    by (simp add: unat_sub_if_size word_size)
  ultimately show ?thesis using assms by (auto simp: in_range_def)
qed

lemma unat_add8: "unat (p :: u64) + 16 \<le> 2 ^ 64 \<Longrightarrow> unat (p + 8) = unat p + 8"
  by (subst unat_plus_simple [THEN iffD1]) (auto simp: word_le_nat_alt unat_word_ariths)

lemma ptr_range: "unat p + 16 \<le> 2 ^ 64 \<Longrightarrow> in_range b p 8 \<longleftrightarrow> unat p \<le> unat b \<and> unat b < unat p + 8"
  by (rule in_range_nat) simp

lemma size_range: "unat p + 16 \<le> 2 ^ 64 \<Longrightarrow> in_range b (p + 8) 4 \<longleftrightarrow> unat p + 8 \<le> unat b \<and> unat b < unat p + 12"
  using in_range_nat [of "p + 8" 4 b] unat_add8 [of p] by (simp add: add.commute)

lemma set_ptr_frame: "unat p + 16 \<le> 2 ^ 64 \<Longrightarrow> \<not> (unat p \<le> unat b \<and> unat b < unat p + 16) \<Longrightarrow> set_ptr p v m b = m b"
  unfolding set_ptr_def by (rule store64_frame) (auto simp: ptr_range)

lemma set_size_frame: "unat p + 16 \<le> 2 ^ 64 \<Longrightarrow> \<not> (unat p \<le> unat b \<and> unat b < unat p + 16) \<Longrightarrow> set_size p n m b = m b"
  unfolding set_size_def by (rule store_bytes_frame) (auto simp: size_range)

lemma header_cong:
  assumes "unat q + 16 \<le> 2 ^ 64" and "\<And>b. unat q \<le> unat b \<Longrightarrow> unat b < unat q + 16 \<Longrightarrow> m b = m' b"
  shows "hptr m q = hptr m' q" and "hsize m q = hsize m' q"
proof -
  show "hptr m q = hptr m' q"
    unfolding hptr_def using assms by (intro load64_cong) (auto simp: ptr_range)
  have "load_bytes m (q + 8) 4 = load_bytes m' (q + 8) 4"
    using assms by (intro load_bytes_cong) (auto simp: size_range)
  then show "hsize m q = hsize m' q" by (simp add: hsize_def)
qed

lemma hptr_set_ptr [simp]: "hptr (set_ptr p v m) p = v"
  by (simp add: hptr_def set_ptr_def)

lemma hsize_set_size [simp]: "hsize (set_size p n m) p = n"
proof -
  have "take_bit 32 (ucast n :: u64) = (ucast n :: u64)"
    by (rule bit_word_eqI) (auto simp: bit_simps dest: bit_imp_le_length)
  moreover have "ucast (ucast n :: u64) = n" by (rule bit_word_eqI) (simp add: bit_simps)
  ultimately show ?thesis by (simp add: hsize_def set_size_def load_store_bytes)
qed

lemma hsize_set_ptr_same: "unat p + 16 \<le> 2 ^ 64 \<Longrightarrow> hsize (set_ptr p v m) p = hsize m p"
  unfolding hsize_def set_ptr_def
  by (rule arg_cong [where f = ucast], rule load_bytes_cong) (auto intro!: store64_frame simp: size_range ptr_range)

lemma hptr_set_size_same: "unat p + 16 \<le> 2 ^ 64 \<Longrightarrow> hptr (set_size p n m) p = hptr m p"
  unfolding hptr_def set_size_def
  by (rule load64_cong, rule store_bytes_frame) (auto simp: size_range ptr_range)

lemma header_other:
  assumes "apart p q"
  shows "hptr (set_ptr p v m) q = hptr m q" and "hsize (set_ptr p v m) q = hsize m q"
    and "hptr (set_size p n m) q = hptr m q" and "hsize (set_size p n m) q = hsize m q"
  using assms unfolding apart_def
  by (auto intro!: header_cong set_ptr_frame set_size_frame)

end
