(* ===== verification/UmallocInv.thy ===== *)
theory UmallocInv
  imports Umalloc
begin

text \<open>
  The data structure of the allocator of \<^verbatim>\<open>user/umalloc.c\<close>: an invariant of its ring of free blocks and of the blocks that are handed
  out, its preservation by \<^verbatim>\<open>free\<close> and by taking a block from the ring, and the search of \<^verbatim>\<open>malloc\<close> around the ring.
\<close>

section \<open>Blocks\<close>

text \<open>A set of blocks, given by their addresses and their ends: they lie between two bounds, each has room for its header,
  and they do not overlap.\<close>

definition blocks :: "nat \<Rightarrow> nat \<Rightarrow> u64 set \<Rightarrow> (u64 \<Rightarrow> nat) \<Rightarrow> bool" where
  "blocks lo brk S h \<longleftrightarrow>
     (\<forall>p \<in> S. lo \<le> unat p \<and> unat p + 16 \<le> h p \<and> h p \<le> brk) \<and> (\<forall>p \<in> S. \<forall>q \<in> S. p < q \<longrightarrow> h p \<le> unat q)"

lemma blocks_cong: "(\<And>p. p \<in> S \<Longrightarrow> h p = h' p) \<Longrightarrow> blocks lo brk S h = blocks lo brk S h'"
  by (simp add: blocks_def)

lemma blocks_subset: "blocks lo brk S h \<Longrightarrow> T \<subseteq> S \<Longrightarrow> blocks lo brk T h"
  unfolding blocks_def by blast

lemma blocks_mono: "blocks lo brk S h \<Longrightarrow> brk \<le> brk' \<Longrightarrow> blocks lo brk' S h"
  unfolding blocks_def by force

lemma blocksD:
  assumes "blocks lo brk S h" and "p \<in> S"
  shows "lo \<le> unat p" "unat p + 16 \<le> h p" "h p \<le> brk"
  using assms unfolding blocks_def by auto

lemma blocks_disjoint: "blocks lo brk S h \<Longrightarrow> p \<in> S \<Longrightarrow> q \<in> S \<Longrightarrow> p < q \<Longrightarrow> h p \<le> unat q"
  unfolding blocks_def by blast

lemma blocks_apart:
  assumes "blocks lo brk S h" and "p \<in> S" and "q \<in> S" and "p \<noteq> q" and "brk \<le> 2 ^ 36"
  shows "apart p q"
proof -
  consider "p < q" | "q < p" using assms(4) by fastforce
  then have "unat p + 16 \<le> unat q \<or> unat q + 16 \<le> unat p"
    by cases (use assms blocksD [OF assms(1)] blocks_disjoint [OF assms(1)] in fastforce)+
  moreover have "unat p + 16 \<le> 2 ^ 36" "unat q + 16 \<le> 2 ^ 36"
    using assms blocksD [OF assms(1)] by (meson le_trans)+
  ultimately show ?thesis unfolding apart_def by auto
qed

text \<open>Joining a block with the one that starts where it ends.\<close>

lemma blocks_join:
  assumes "blocks lo brk S h" and "a \<in> S" and "b \<in> S" and "h a = unat b"
  shows "blocks lo brk (S - {b}) (h(a := h b))"
proof -
  have ab: "a < b" using blocksD(2) [OF assms(1,2)] assms(4) by (simp add: word_less_nat_alt)
  have "h b \<le> unat q" if "q \<in> S" "a < q" "q \<noteq> b" for q
  proof -
    have "unat b \<le> unat q" using blocks_disjoint [OF assms(1,2) that(1,2)] assms(4) by simp
    then have "b < q" using that(3) by (simp add: word_le_nat_alt [symmetric] order.strict_iff_order)
    then show ?thesis by (rule blocks_disjoint [OF assms(1,3) that(1)])
  qed
  moreover have "unat a + 16 \<le> h b" using blocksD(2) [OF assms(1,3)] ab by (simp add: word_less_nat_alt)
  ultimately show ?thesis
    using assms(1-3) unfolding blocks_def by auto
qed

text \<open>Cutting a block in two.\<close>

lemma blocks_split:
  assumes "blocks lo brk S h" and "a \<in> S" and "unat a + 16 \<le> unat b" and "unat b + 16 \<le> h a"
  shows "blocks lo brk (insert b S) (h(a := unat b, b := h a))" and "b \<notin> S"
proof -
  have ab: "a < b" using assms(3) by (simp add: word_less_nat_alt)
  show nb: "b \<notin> S"
    using blocks_disjoint [OF assms(1,2) _ ab] assms(4) by fastforce
  have above: "h a \<le> unat q" if "q \<in> S" "b < q" for q
    using blocks_disjoint [OF assms(1,2) that(1)] ab that(2) by simp
  have below: "h p \<le> unat b" if "p \<in> S" "p < b" "p \<noteq> a" for p
  proof -
    have "\<not> a < p"
    proof
      assume "a < p"
      then have "h a \<le> unat p" by (rule blocks_disjoint [OF assms(1,2) that(1)])
      then show False using assms(4) that(2) by (simp add: word_less_nat_alt)
    qed
    then have "p < a" using that(3) by simp
    then have "h p \<le> unat a" by (rule blocks_disjoint [OF assms(1) that(1) assms(2)])
    then show ?thesis using assms(3) by simp
  qed
  have "unat b \<le> unat q" if "q \<in> S" "a < q" for q
    using blocks_disjoint [OF assms(1,2) that] assms(4) by simp
  then show "blocks lo brk (insert b S) (h(a := unat b, b := h a))"
    using assms nb ab above below unfolding blocks_def by (auto intro: le_trans)
qed

text \<open>A new block at the top.\<close>

lemma blocks_extend:
  assumes "blocks lo brk S h" and "lo \<le> brk" and "brk \<le> unat b" and "unat b + 16 \<le> e"
  shows "blocks lo e (insert b S) (h(b := e))" and "b \<notin> S"
proof -
  have lt: "p < b" "h p \<le> unat b" if "p \<in> S" for p
    using blocksD [OF assms(1) that] assms(3) by (simp_all add: word_less_nat_alt)
  then show nb: "b \<notin> S" by blast
  show "blocks lo e (insert b S) (h(b := e))"
    using assms nb lt unfolding blocks_def by (auto dest: less_asym)
qed

section \<open>The ring\<close>

fun lseg :: "mem \<Rightarrow> u64 \<Rightarrow> u64 list \<Rightarrow> u64 \<Rightarrow> bool" where
  "lseg m a [] b \<longleftrightarrow> a = b"
| "lseg m a (x # xs) b \<longleftrightarrow> a = x \<and> lseg m (hptr m x) xs b"

lemma lseg_append: "lseg m a (xs @ ys) c \<longleftrightarrow> (\<exists>b. lseg m a xs b \<and> lseg m b ys c)"
  by (induction xs arbitrary: a) auto

lemma lseg_cong: "(\<And>x. x \<in> set xs \<Longrightarrow> hptr m x = hptr m' x) \<Longrightarrow> lseg m a xs b = lseg m' a xs b"
  by (induction xs arbitrary: a) auto

text \<open>The end of a block, and the invariant: the ring of free blocks, from \<^verbatim>\<open>base\<close> upwards and back, and the blocks in use.
  Free blocks never touch each other.\<close>

definition hi :: "mem \<Rightarrow> u64 \<Rightarrow> nat" where
  "hi m p = unat p + 16 * unat (hsize m p)"

definition gaps :: "mem \<Rightarrow> u64 set \<Rightarrow> bool" where
  "gaps m F \<longleftrightarrow> (\<forall>p \<in> F. \<forall>q \<in> F. hi m p \<noteq> unat q)"

definition heap_ok :: "u64 \<Rightarrow> mem \<Rightarrow> u64 list \<Rightarrow> u64 set \<Rightarrow> nat \<Rightarrow> bool" where
  "heap_ok base m fl al brk \<longleftrightarrow>
     sorted_wrt (<) (base # fl) \<and> lseg m base (base # fl) base \<and> hsize m base = 0 \<and>
     blocks (unat base + 16) brk (set fl \<union> al) (hi m) \<and> set fl \<inter> al = {} \<and> gaps m (set fl) \<and>
     unat base + 16 \<le> brk \<and> brk \<le> 2 ^ 36"

lemma heap_okD:
  assumes "heap_ok base m fl al brk"
  shows "sorted_wrt (<) (base # fl)" "lseg m base (base # fl) base" "hsize m base = 0"
    "blocks (unat base + 16) brk (set fl \<union> al) (hi m)" "set fl \<inter> al = {}" "gaps m (set fl)"
    "unat base + 16 \<le> brk" "brk \<le> 2 ^ 36"
  using assms unfolding heap_ok_def by blast+

lemma unat_units: "unat (units n) = 16 * unat n"
proof -
  have "unat (ucast n :: u64) = unat n" by transfer (simp add: take_bit_nat_def)
  moreover have "unat n < 2 ^ LENGTH(32)" by (rule unsigned_less)
  ultimately show ?thesis by (simp add: units_def unat_word_ariths)
qed

lemma unat_end: "unat p + 16 * unat n \<le> 2 ^ 36 \<Longrightarrow> unat (p + units n) = unat p + 16 * unat n"
  by (simp add: unat_word_ariths unat_units)

lemma end_eq: "hi m p \<le> 2 ^ 36 \<Longrightarrow> p + units (hsize m p) = q \<longleftrightarrow> hi m p = unat q"
  using unat_end [of p "hsize m p"] by (metis hi_def word_unat_eq_iff)

lemma unat_size_add: "16 * (unat a + unat b) < 2 ^ 36 \<Longrightarrow> unat (a + b :: u32) = unat a + unat b"
  by (simp add: unat_word_ariths)

lemma heap_ok_apart:
  assumes "heap_ok base m fl al brk"
  shows "p \<in> set fl \<union> al \<Longrightarrow> apart base p"
    and "p \<in> set fl \<union> al \<Longrightarrow> q \<in> set fl \<union> al \<Longrightarrow> p \<noteq> q \<Longrightarrow> apart p q"
    and "p \<in> set fl \<union> al \<Longrightarrow> base < p" and "unat base + 16 \<le> 2 ^ 64"
    and "p \<in> set fl \<union> al \<Longrightarrow> unat p + 16 \<le> 2 ^ 64"
proof -
  note h = heap_okD [OF assms]
  show "apart p q" if "p \<in> set fl \<union> al" "q \<in> set fl \<union> al" "p \<noteq> q"
    using blocks_apart [OF h(4) that h(8)] .
  show "unat base + 16 \<le> 2 ^ 64" using h(7,8) by simp
  show "unat p + 16 \<le> 2 ^ 64" if "p \<in> set fl \<union> al"
    using blocksD [OF h(4) that] h(8) by simp
  then show "apart base p" "base < p" if "p \<in> set fl \<union> al"
    using blocksD [OF h(4) that] h(7,8) that by (auto simp: apart_def word_less_nat_alt)
qed

section \<open>Finding the place of a block\<close>

lemma find_here:
  assumes "lseg m p (us @ t # ws) base" and "sorted_wrt (<) (us @ t # ws)" and "t < bp" and "\<forall>w \<in> set ws. bp < w"
    and "base < bp" and "base \<le> t"
  shows "free_find m bp p = Some t"
  using assms(1,2)
proof (induction us arbitrary: p)
  case Nil
  then have p: "p = t" and l: "lseg m (hptr m t) ws base" by auto
  show ?case
    using l assms(3-6) unfolding p by (subst free_find.simps) (cases ws; auto)
next
  case (Cons u us)
  then have p: "p = u" and l: "lseg m (hptr m u) (us @ t # ws) base" and s: "sorted_wrt (<) (us @ t # ws)" by auto
  have v: "u < hptr m u \<and> hptr m u \<le> t" using l Cons.prems(2) by (cases us) auto
  have "free_find m bp u = free_find m bp (hptr m u)"
    using v assms(3) by (subst free_find.simps) auto
  then show ?case using Cons.IH [OF l s] by (simp add: p)
qed

lemma find_wrap:
  assumes "lseg m p vs base" and "vs \<noteq> []" and "sorted_wrt (<) vs" and "\<forall>v \<in> set vs. bp < v" and "base < bp"
  shows "free_find m bp p = free_find m bp base"
  using assms(1-4)
proof (induction vs arbitrary: p)
  case (Cons u vs)
  then have p: "p = u" and l: "lseg m (hptr m u) vs base" and u: "bp < u" by auto
  have "free_find m bp u = free_find m bp (hptr m u)"
    using l u assms(5) Cons.prems(3,4) by (subst free_find.simps) (cases vs; auto)
  moreover have "free_find m bp (hptr m u) = free_find m bp base"
    using Cons.IH [OF l] Cons.prems l by (cases "vs = []") auto
  ultimately show ?case by (simp add: p)
qed simp

lemma free_point:
  assumes ok: "heap_ok base m fl al brk" and bp: "bp \<in> al" and f: "f \<in> set (base # fl)"
  shows "\<exists>xs p ys. base # fl = xs @ p # ys \<and> p < bp \<and> (\<forall>y \<in> set ys. bp < y) \<and> free_find m bp f = Some p"
proof -
  note h = heap_okD [OF ok]
  have base: "base < bp" using heap_ok_apart(3) [OF ok] bp by simp
  define lo where "lo = takeWhile (\<lambda>x. x < bp) (base # fl)"
  define ys where "ys = dropWhile (\<lambda>x. x < bp) (base # fl)"
  have eq: "base # fl = lo @ ys" by (simp add: lo_def ys_def)
  have "lo \<noteq> []" using base by (simp add: lo_def)
  then obtain xs p where lo: "lo = xs @ [p]" by (metis rev_exhaust)
  have "\<forall>x \<in> set lo. x < bp" unfolding lo_def by (meson set_takeWhileD)
  then have p: "p < bp" by (simp add: lo)
  have ys: "bp < y" if y: "y \<in> set ys" for y
  proof -
    have "ys \<noteq> []" using y by auto
    then have "\<not> hd ys < bp" unfolding ys_def by (rule hd_dropWhile)
    moreover have "hd ys \<le> y" using y h(1) unfolding eq by (cases ys) (auto simp: sorted_wrt_append)
    moreover have "y \<in> set (base # fl)" using y unfolding eq by simp
    then have "y \<noteq> bp" using h(5) bp base by auto
    ultimately show ?thesis by auto
  qed
  have sorted: "sorted_wrt (<) (xs @ p # ys)" and ring: "lseg m base (xs @ p # ys) base"
    using h(1,2) unfolding eq lo by auto
  have "base \<le> p" using h(1) eq lo by (cases xs) auto
  then have here: "free_find m bp a = Some p" if "lseg m a (us @ p # ys) base" "sorted_wrt (<) (us @ p # ys)" for a us
    using find_here [OF that p _ base] ys by blast
  have "free_find m bp f = Some p"
  proof (cases "f \<in> set ys")
    case True
    then obtain as bs where b: "ys = as @ f # bs" by (auto dest: split_list)
    have "lseg m f (f # bs) base" using ring unfolding b by (simp add: lseg_append)
    then have "free_find m bp f = free_find m bp base"
      using find_wrap [of m f "f # bs" base bp] sorted ys base unfolding b by (auto simp: sorted_wrt_append)
    also have "\<dots> = Some p" by (rule here [OF ring sorted])
    finally show ?thesis .
  next
    case False
    then have "f \<in> set (xs @ [p])" using f eq lo by auto
    then obtain as bs where b: "xs @ [p] = as @ f # bs" by (auto dest: split_list)
    then obtain us where us: "f # bs = us @ [p]" by (metis last_appendR list.distinct(1) snoc_eq_iff_butlast)
    have "xs @ p # ys = as @ us @ p # ys" using b us by (metis append.assoc append_Cons append_Nil)
    then have "lseg m f (us @ p # ys) base" "sorted_wrt (<) (us @ p # ys)"
      using ring sorted us by (auto simp: lseg_append sorted_wrt_append Cons_eq_append_conv)
    then show ?thesis by (rule here)
  qed
  then show ?thesis using eq lo p ys by auto
qed

section \<open>Freeing\<close>

text \<open>What the two halves of the insertion do to the headers.\<close>

lemma apart_sym: "apart p q \<longleftrightarrow> apart q p"
  by (auto simp: apart_def)

lemma apart_room: "apart p q \<Longrightarrow> unat p + 16 \<le> 2 ^ 64"
  by (simp add: apart_def)

lemmas header_same = hsize_set_ptr_same hptr_set_size_same

lemma free_upper_header:
  assumes "apart bp p"
  shows "apart bp x \<Longrightarrow> hptr (free_upper bp p m) x = hptr m x \<and> hsize (free_upper bp p m) x = hsize m x"
    and "bp + units (hsize m bp) \<noteq> hptr m p \<Longrightarrow>
      hptr (free_upper bp p m) bp = hptr m p \<and> hsize (free_upper bp p m) bp = hsize m bp"
    and "bp + units (hsize m bp) = hptr m p \<Longrightarrow> apart bp (hptr m p) \<Longrightarrow>
      hptr (free_upper bp p m) bp = hptr m (hptr m p) \<and> hsize (free_upper bp p m) bp = hsize m bp + hsize m (hptr m p)"
    and "\<not> (unat bp \<le> unat b \<and> unat b < unat bp + 16) \<Longrightarrow> free_upper bp p m b = m b"
  using assms apart_room [OF assms]
  by (simp_all add: free_upper_def Let_def header_other header_same set_ptr_frame set_size_frame)

lemma free_lower_header:
  assumes "apart p bp"
  shows "apart p x \<Longrightarrow> hptr (free_lower bp p m) x = hptr m x \<and> hsize (free_lower bp p m) x = hsize m x"
    and "p + units (hsize m p) \<noteq> bp \<Longrightarrow> hptr (free_lower bp p m) p = bp \<and> hsize (free_lower bp p m) p = hsize m p"
    and "p + units (hsize m p) = bp \<Longrightarrow>
      hptr (free_lower bp p m) p = hptr m bp \<and> hsize (free_lower bp p m) p = hsize m p + hsize m bp"
    and "\<not> (unat p \<le> unat b \<and> unat b < unat p + 16) \<Longrightarrow> free_lower bp p m b = m b"
  using assms apart_room [OF assms]
  by (simp_all add: free_lower_def Let_def header_other header_same set_ptr_frame set_size_frame)

text \<open>Between the two halves the block \<open>bp\<close> knows its successor and its final size, and its predecessor does not know it yet.\<close>

definition mid :: "u64 \<Rightarrow> mem \<Rightarrow> u64 list \<Rightarrow> u64 set \<Rightarrow> nat \<Rightarrow> u64 \<Rightarrow> u64 list \<Rightarrow> u64 \<Rightarrow> u64 list \<Rightarrow> bool" where
  "mid base m fl al brk bp xs p ys \<longleftrightarrow>
     base # fl = xs @ p # ys \<and> sorted_wrt (<) (base # fl) \<and> p < bp \<and> (\<forall>y \<in> set ys. bp < y) \<and>
     lseg m base xs p \<and> lseg m (hptr m bp) ys base \<and> hsize m base = 0 \<and>
     blocks (unat base + 16) brk (insert bp (set fl \<union> al)) (hi m) \<and> bp \<notin> set fl \<union> al \<and> set fl \<inter> al = {} \<and>
     gaps m (set fl) \<and> (\<forall>y \<in> set ys. hi m bp < unat y) \<and> unat base + 16 \<le> brk \<and> brk \<le> 2 ^ 36"

lemma hi_join:
  assumes "blocks lo brk S (hi m)" and "a \<in> S" and "b \<in> S" and "hi m a = unat b" and "brk \<le> 2 ^ 36" and "16 \<le> lo"
  shows "unat a + 16 * unat (hsize m a + hsize m b) = hi m b"
proof -
  have "16 * (unat (hsize m a) + unat (hsize m b)) < 2 ^ 36"
    using blocksD [OF assms(1,3)] blocksD [OF assms(1,2)] assms(4-6) unfolding hi_def by simp
  then have "unat (hsize m a + hsize m b) = unat (hsize m a) + unat (hsize m b)" by (rule unat_size_add)
  then show ?thesis using assms(4) by (simp add: hi_def)
qed

lemma sorted_distinct: "sorted_wrt (<) (xs :: u64 list) \<Longrightarrow> distinct xs"
  by (simp add: strict_sorted_iff)

lemma drop_one:
  "base # fl = xs @ p # q # ys \<Longrightarrow> distinct (base # fl) \<Longrightarrow>
     \<exists>fl1. base # fl1 = xs @ p # ys \<and> set fl1 = set fl - {q} \<and> q \<in> set fl"
  by (cases xs) auto

lemma add_one: "base # fl = xs @ p # ys \<Longrightarrow> \<exists>fl1. base # fl1 = xs @ p # q # ys \<and> set fl1 = insert q (set fl)"
  by (cases xs) auto

lemma hi_cong: "hsize m' x = hsize m x \<Longrightarrow> hi m' x = hi m x"
  by (simp add: hi_def)

lemma gaps_cong: "gaps m F \<Longrightarrow> G \<subseteq> F \<Longrightarrow> (\<And>x. x \<in> G \<Longrightarrow> hi m' x = hi m x) \<Longrightarrow> gaps m' G"
  unfolding gaps_def by (simp add: subset_iff)

lemma lseg_keep: "lseg m a xs b \<Longrightarrow> (\<And>x. x \<in> set xs \<Longrightarrow> hptr m' x = hptr m x) \<Longrightarrow> lseg m' a xs b"
  using lseg_cong [of xs m' m] by blast

lemma mid_intro:
  assumes ok: "heap_ok base m fl (insert bp al) brk" and al: "bp \<notin> al" and fl1: "base # fl1 = xs @ p # ys1"
    and sub: "set fl1 \<subseteq> set fl" and sorted: "sorted_wrt (<) (xs @ p # ys1)"
    and p: "p < bp" and ys: "\<forall>y \<in> set ys1. bp < y \<and> hi m' bp < unat y"
    and keep: "\<And>x. x \<in> set (base # fl) \<union> al \<Longrightarrow> hptr m' x = hptr m x \<and> hsize m' x = hsize m x"
    and ring: "lseg m base xs p" "lseg m (hptr m' bp) ys1 base"
    and bl: "blocks (unat base + 16) brk (insert bp (set fl1 \<union> al)) (hi m')"
  shows "mid base m' fl1 al brk bp xs p ys1"
  unfolding mid_def
proof (intro conjI)
  note h = heap_okD [OF ok]
  have el: "set (xs @ p # ys1) \<subseteq> set (base # fl)" using sub unfolding fl1 [symmetric] by auto
  show "lseg m' base xs p" by (rule lseg_keep [OF ring(1)]) (use keep el in auto)
  show "lseg m' (hptr m' bp) ys1 base" by (rule lseg_keep [OF ring(2)]) (use keep el in auto)
  show "hsize m' base = 0" using keep [of base] h(3) by simp
  show "gaps m' (set fl1)" using sub keep by (intro gaps_cong [OF h(6)]) (auto intro: hi_cong)
qed (use assms heap_okD [OF ok] in auto)

lemma upper_joins:
  assumes ok: "heap_ok base m fl (insert bp al) brk" and al: "bp \<notin> al" and eq: "base # fl = xs @ p # ys"
    and p: "p < bp" and ys: "\<forall>y \<in> set ys. bp < y" and ap: "\<And>x. x \<in> set (base # fl) \<union> al \<Longrightarrow> apart bp x"
    and U: "hi m bp = unat (hptr m p)"
  shows "\<exists>fl1 ys1. mid base (free_upper bp p m) fl1 al brk bp xs p ys1 \<and> hi m bp \<le> hi (free_upper bp p m) bp"
proof -
  let ?m = "free_upper bp p m" and ?S = "set fl \<union> insert bp al"
  note h = heap_okD [OF ok] and a = heap_ok_apart [OF ok]
  have ring: "lseg m base xs p" "lseg m (hptr m p) ys base" using h(2) unfolding eq by (auto simp: lseg_append)
  have "hptr m p \<noteq> base" using U a(3) [of bp] by (auto simp: hi_def word_less_nat_alt)
  then obtain q ys1 where ys1: "ys = q # ys1" and q: "hptr m p = q" and ring1: "lseg m (hptr m q) ys1 base"
    using ring(2) by (cases ys) auto
  have sorted: "sorted_wrt (<) (xs @ p # q # ys1)" using h(1) unfolding eq ys1 .
  obtain fl1 where fl1: "base # fl1 = xs @ p # ys1" "set fl1 = set fl - {q}" and qf: "q \<in> set fl"
    using drop_one [OF eq [unfolded ys1] sorted_distinct [OF h(1)]] by blast
  have el: "set (xs @ p # q # ys1) = set (base # fl)" unfolding eq ys1 ..
  have pap: "apart bp p" "apart bp q" using ap el by auto
  have keep: "hptr ?m x = hptr m x \<and> hsize ?m x = hsize m x" if "x \<in> set (base # fl) \<union> al" for x
    using free_upper_header(1) [OF pap(1) ap [OF that]] .
  have "hi m bp \<le> 2 ^ 36" using blocksD(3) [OF h(4), of bp] h(8) by simp
  then have new: "hptr ?m bp = hptr m q" "hsize ?m bp = hsize m bp + hsize m q"
    using free_upper_header(3) [OF pap(1), of m] pap(2) U end_eq q by auto
  have hi_bp: "hi ?m bp = hi m q" using hi_join [OF h(4), of bp q] qf U q h(8) new(2) by (simp add: hi_def)
  have "bp \<noteq> q" using pap(2) by (auto simp: apart_def)
  then have S: "?S - {q} = insert bp (set fl1 \<union> al)" using fl1(2) h(5) qf by auto
  have "blocks (unat base + 16) brk (?S - {q}) ((hi m)(bp := hi m q))"
    using blocks_join [OF h(4), of bp q] qf U q by simp
  moreover have "((hi m)(bp := hi m q)) x = hi ?m x" if "x \<in> ?S - {q}" for x
    using hi_bp keep [of x] that by (auto intro!: hi_cong [symmetric])
  ultimately have bl: "blocks (unat base + 16) brk (?S - {q}) (hi ?m)" by (rule iffD1 [OF blocks_cong, rotated])
  have strict: "hi ?m bp < unat y" if "y \<in> set ys1" for y
  proof -
    have "q < y" "y \<in> set (base # fl)" using that sorted el by (auto simp: sorted_wrt_append)
    then have y: "y \<in> set fl" "q < y" using a(3) [of q] qf by auto
    then have "hi m q \<le> unat y" "hi m q \<noteq> unat y" using blocks_disjoint [OF h(4)] qf h(6) unfolding gaps_def by auto
    then show ?thesis using hi_bp by simp
  qed
  have "mid base ?m fl1 al brk bp xs p ys1"
    by (rule mid_intro [OF ok al fl1(1)])
      (use fl1(2) sorted p ys strict keep ring(1) ring1 new(1) bl S in \<open>auto simp: ys1 sorted_wrt_append\<close>)
  moreover have "hi m bp \<le> hi ?m bp" using hi_bp U q by (simp add: hi_def)
  ultimately show ?thesis by blast
qed

lemma upper_keeps:
  assumes ok: "heap_ok base m fl (insert bp al) brk" and al: "bp \<notin> al" and eq: "base # fl = xs @ p # ys"
    and p: "p < bp" and ys: "\<forall>y \<in> set ys. bp < y" and ap: "\<And>x. x \<in> set (base # fl) \<union> al \<Longrightarrow> apart bp x"
    and U: "hi m bp \<noteq> unat (hptr m p)"
  shows "mid base (free_upper bp p m) fl al brk bp xs p ys \<and> hi m bp \<le> hi (free_upper bp p m) bp"
proof -
  let ?m = "free_upper bp p m"
  note h = heap_okD [OF ok] and a = heap_ok_apart [OF ok]
  have ring: "lseg m base xs p" "lseg m (hptr m p) ys base" using h(2) unfolding eq by (auto simp: lseg_append)
  have sorted: "sorted_wrt (<) (xs @ p # ys)" using h(1) unfolding eq .
  have el: "set (xs @ p # ys) = set (base # fl)" unfolding eq ..
  have pap: "apart bp p" using ap el by auto
  have keep: "hptr ?m x = hptr m x \<and> hsize ?m x = hsize m x" if "x \<in> set (base # fl) \<union> al" for x
    using free_upper_header(1) [OF pap ap [OF that]] .
  have "hi m bp \<le> 2 ^ 36" using blocksD(3) [OF h(4), of bp] h(8) by simp
  then have new: "hptr ?m bp = hptr m p" "hsize ?m bp = hsize m bp"
    using free_upper_header(2) [OF pap, of m] U end_eq by auto
  have hi: "hi ?m x = hi m x" if "x \<in> insert bp (set fl \<union> al)" for x
    using keep [of x] new(2) that by (auto intro!: hi_cong)
  have "blocks (unat base + 16) brk (insert bp (set fl \<union> al)) (hi m)" using h(4) by simp
  then have bl: "blocks (unat base + 16) brk (insert bp (set fl \<union> al)) (hi ?m)"
    by (rule iffD1 [OF blocks_cong, rotated]) (simp add: hi)
  have strict: "hi ?m bp < unat y" if y: "y \<in> set ys" for y
  proof -
    obtain q ys1 where q: "ys = q # ys1" "hptr m p = q" using y ring(2) by (cases ys) auto
    have "q \<in> set (base # fl)" "bp < q" "q \<le> y" using el ys y sorted unfolding q by (auto simp: sorted_wrt_append)
    moreover from this have "q \<in> set fl" using a(3) [of bp] by auto
    ultimately have "hi m bp \<le> unat q" "unat q \<le> unat y" using blocks_disjoint [OF h(4)] by (auto simp: word_le_nat_alt)
    then show ?thesis using hi U q(2) by simp
  qed
  have "mid base ?m fl al brk bp xs p ys"
    by (rule mid_intro [OF ok al eq]) (use sorted p ys strict keep ring new(1) bl in auto)
  then show ?thesis using hi by simp
qed

lemma free_upper_mid:
  assumes ok: "heap_ok base m fl (insert bp al) brk" and al: "bp \<notin> al" and eq: "base # fl = xs @ p # ys"
    and p: "p < bp" and ys: "\<forall>y \<in> set ys. bp < y"
  shows "\<exists>fl1 ys1. mid base (free_upper bp p m) fl1 al brk bp xs p ys1 \<and> hi m bp \<le> hi (free_upper bp p m) bp"
proof -
  have "apart bp x" if x: "x \<in> set (base # fl) \<union> al" for x
  proof (cases "x = base")
    case True
    then show ?thesis using heap_ok_apart(1) [OF ok, of bp] apart_sym by simp
  next
    case False
    then show ?thesis using heap_ok_apart(2) [OF ok, of bp x] heap_okD(5) [OF ok] al x by auto
  qed
  then show ?thesis
    using upper_joins [OF ok al eq p ys] upper_keeps [OF ok al eq p ys] by blast
qed

lemma midD:
  assumes "mid base m fl al brk bp xs p ys"
  shows "base # fl = xs @ p # ys" "sorted_wrt (<) (base # fl)" "p < bp" "\<forall>y \<in> set ys. bp < y"
    "lseg m base xs p" "lseg m (hptr m bp) ys base" "hsize m base = 0"
    "blocks (unat base + 16) brk (insert bp (set fl \<union> al)) (hi m)" "bp \<notin> set fl \<union> al" "set fl \<inter> al = {}"
    "gaps m (set fl)" "\<forall>y \<in> set ys. hi m bp < unat y" "unat base + 16 \<le> brk" "brk \<le> 2 ^ 36"
  using assms unfolding mid_def by blast+

lemma mid_apart:
  assumes "mid base m fl al brk bp xs p ys" and "x \<in> insert base (insert bp (set fl \<union> al))" and "x \<noteq> p"
  shows "apart p x"
proof -
  note h = midD [OF assms(1)]
  let ?S = "insert bp (set fl \<union> al)"
  have base: "apart base y" if "y \<in> ?S" for y
    using blocksD [OF h(8) that] h(13,14) by (auto simp: apart_def)
  have "p \<in> set (base # fl)" unfolding h(1) by simp
  then consider "p = base" | "p \<in> ?S" by auto
  then show ?thesis
  proof cases
    case 1
    then show ?thesis using assms(2,3) base by auto
  next
    case 2
    then show ?thesis
      using assms(2,3) base [OF 2] apart_sym blocks_apart [OF h(8) 2 _ _ h(14), of x] by auto
  qed
qed

lemma lower_joins:
  assumes mid: "mid base m fl al brk bp xs p ys" and L: "hi m p = unat bp"
  shows "heap_ok base (free_lower bp p m) fl al brk \<and> p \<in> set fl \<and> hi (free_lower bp p m) p = hi m bp"
proof -
  let ?m = "free_lower bp p m" and ?S = "insert bp (set fl \<union> al)"
  note h = midD [OF mid]
  have base: "base < bp" using blocksD [OF h(8), of bp] by (simp add: word_less_nat_alt)
  then have "p \<noteq> base" using L h(7) by (auto simp: hi_def word_less_nat_alt)
  moreover have el: "set (xs @ p # ys) = set (base # fl)" using h(1) by simp
  ultimately have pf: "p \<in> set fl" by auto
  have ap: "apart p x" if "x \<in> insert base ?S" "x \<noteq> p" for x using mid_apart [OF mid that] .
  have pb: "apart p bp" using ap h(3) by simp
  have keep: "hptr ?m x = hptr m x \<and> hsize ?m x = hsize m x" if "x \<in> insert base ?S" "x \<noteq> p" for x
    using free_lower_header(1) [OF pb ap [OF that]] .
  have "hi m p \<le> 2 ^ 36" using blocksD(3) [OF h(8), of p] h(14) pf by simp
  then have new: "hptr ?m p = hptr m bp" "hsize ?m p = hsize m p + hsize m bp"
    using free_lower_header(3) [OF pb] L end_eq by auto
  have hi_p: "hi ?m p = hi m bp" using hi_join [OF h(8), of p bp] pf L h(14) new(2) by (simp add: hi_def)
  have hi: "hi ?m x = (if x = p then hi m bp else hi m x)" if "x \<in> set fl \<union> al" for x
    using hi_p keep [of x] that by (auto intro!: hi_cong)
  have S: "?S - {bp} = set fl \<union> al" using h(9) by auto
  have "blocks (unat base + 16) brk (set fl \<union> al) ((hi m)(p := hi m bp))"
    using blocks_join [OF h(8), of p bp] pf L S by simp
  then have bl: "blocks (unat base + 16) brk (set fl \<union> al) (hi ?m)"
    by (rule iffD1 [OF blocks_cong, rotated]) (simp add: hi)
  have dist: "p \<notin> set xs" "p \<notin> set ys" using sorted_distinct [OF h(2)] unfolding h(1) by auto
  have "lseg ?m base xs p" "lseg ?m (hptr ?m p) ys base"
    using dist el keep by (auto intro!: lseg_keep [OF h(5)] lseg_keep [OF h(6)] simp: new(1))
  then have ring: "lseg ?m base (base # fl) base" unfolding h(1) by (auto simp: lseg_append)
  have gaps: "gaps ?m (set fl)"
    unfolding gaps_def
  proof (intro ballI)
    fix x y assume x: "x \<in> set fl" and y: "y \<in> set fl"
    show "hi ?m x \<noteq> unat y"
    proof (cases "x = p")
      case True
      have "y \<in> set (xs @ p # ys)" using y unfolding el by simp
      then have "y \<in> set ys \<or> y \<le> p" using h(2) unfolding h(1) by (auto simp: sorted_wrt_append)
      moreover have "unat p < unat bp" "unat bp \<le> hi m bp" using h(3) by (simp_all add: word_less_nat_alt hi_def)
      ultimately show ?thesis using h(12) hi_p True by (auto simp: word_le_nat_alt)
    next
      case False
      then show ?thesis using h(11) x y hi unfolding gaps_def by auto
    qed
  qed
  show ?thesis
    unfolding heap_ok_def using h(2,7,10,13,14) ring bl gaps keep [of base] \<open>p \<noteq> base\<close> pf hi_p by auto
qed

lemma lower_links:
  assumes mid: "mid base m fl al brk bp xs p ys" and L: "hi m p \<noteq> unat bp"
  shows "\<exists>fl1. heap_ok base (free_lower bp p m) fl1 al brk \<and> p \<in> set (base # fl1) \<and> bp \<in> set fl1 \<and>
    hi (free_lower bp p m) bp = hi m bp"
proof -
  let ?m = "free_lower bp p m" and ?S = "insert bp (set fl \<union> al)"
  note h = midD [OF mid]
  have el: "set (xs @ p # ys) = set (base # fl)" using h(1) by simp
  obtain fl1 where fl1: "base # fl1 = xs @ p # bp # ys" "set fl1 = insert bp (set fl)" using add_one [OF h(1)] by blast
  have pel: "p \<in> set (base # fl)" unfolding h(1) by simp
  have ap: "apart p x" if "x \<in> insert base ?S" "x \<noteq> p" for x using mid_apart [OF mid that] .
  have pb: "apart p bp" using ap h(3) by simp
  have keep: "hptr ?m x = hptr m x \<and> hsize ?m x = hsize m x" if "x \<in> insert base ?S" "x \<noteq> p" for x
    using free_lower_header(1) [OF pb ap [OF that]] .
  have "hi m p \<le> 2 ^ 36" using blocksD(3) [OF h(8), of p] h(7,13,14) pel by (auto simp: hi_def)
  then have new: "hptr ?m p = bp" "hsize ?m p = hsize m p" using free_lower_header(2) [OF pb] L end_eq by auto
  have hi: "hi ?m x = hi m x" if "x \<in> insert base ?S" for x using keep [OF that] new(2) by (cases "x = p") (auto intro!: hi_cong)
  have bl: "blocks (unat base + 16) brk (set fl1 \<union> al) (hi ?m)"
    using iffD1 [OF blocks_cong h(8)] hi fl1(2) by simp
  have dist: "p \<notin> set xs" "p \<notin> set ys" using sorted_distinct [OF h(2)] unfolding h(1) by auto
  have "lseg ?m base xs p" "lseg ?m (hptr ?m bp) ys base"
    using dist el keep h(3) by (auto intro!: lseg_keep [OF h(5)] lseg_keep [OF h(6)])
  then have ring: "lseg ?m base (base # fl1) base" unfolding fl1(1) by (auto simp: lseg_append new(1))
  have below: "hi m x < unat bp" if x: "x \<in> set fl" "x < bp" for x
  proof (cases "x = p")
    case True
    then show ?thesis using blocks_disjoint [OF h(8), of p bp] x L by simp
  next
    case False
    then have xs: "x \<in> set xs" using x el h(4) by (auto dest: less_asym)
    then have "x < p" using h(2) unfolding h(1) by (simp add: sorted_wrt_append)
    then have "p \<in> set fl" using pel h(2) x(1) by (auto dest: less_asym)
    then have "hi m x \<le> unat p" using blocks_disjoint [OF h(8), of x p] x(1) \<open>x < p\<close> by simp
    then show ?thesis using h(3) by (simp add: word_less_nat_alt)
  qed
  have above: "x \<in> set ys" if x: "x \<in> set fl" "\<not> x < bp" for x
  proof -
    have "x \<in> set (xs @ p # ys)" using x(1) unfolding el by simp
    then show ?thesis using x(2) h(2,3) unfolding h(1) by (auto simp: sorted_wrt_append dest: less_trans)
  qed
  have "hi m x \<noteq> unat bp \<and> hi m bp \<noteq> unat x" if "x \<in> set fl" for x
  proof (cases "x < bp")
    case True
    then show ?thesis using below [OF that True] by (auto simp: hi_def word_less_nat_alt)
  next
    case False
    with above [OF that False] h(4,12) show ?thesis by (force simp: hi_def word_less_nat_alt)
  qed
  moreover have "hi m bp \<noteq> unat bp" using blocksD [OF h(8), of bp] by simp
  ultimately have "gaps m (set fl1)" using h(11) unfolding fl1(2) gaps_def by auto
  then have gaps: "gaps ?m (set fl1)" by (rule gaps_cong) (use hi fl1(2) in auto)
  have "sorted_wrt (<) (base # fl1)"
    using h(2-4) unfolding fl1(1) h(1) by (auto simp: sorted_wrt_append dest: less_trans)
  moreover have "hsize ?m base = 0" using keep [of base] new(2) h(7) by (cases "base = p") auto
  moreover have "p \<in> set (base # fl1)" unfolding fl1(1) by simp
  moreover have "set fl1 \<inter> al = {}" using fl1(2) h(9,10) by auto
  moreover have "bp \<in> set fl1" "hi ?m bp = hi m bp" using fl1(2) hi by simp_all
  ultimately show ?thesis unfolding heap_ok_def using ring bl gaps h(13,14) by blast
qed

lemma outside_header:
  assumes ok: "heap_ok base m fl al brk" and q: "q \<in> set fl \<union> al" and x: "x \<in> insert base (set fl \<union> al)" "x \<noteq> q"
    and b: "unat q \<le> unat b" "unat b < hi m q"
  shows "\<not> (unat x \<le> unat b \<and> unat b < unat x + 16)"
proof (cases "x = base")
  case True
  then show ?thesis using blocksD(1) [OF heap_okD(4) [OF ok] q] b by simp
next
  case False
  note bl = heap_okD(4) [OF ok]
  have x': "x \<in> set fl \<union> al" using x False by simp
  consider "x < q" | "q < x" using x(2) by fastforce
  then show ?thesis
    by cases (use blocks_disjoint [OF bl x' q] blocks_disjoint [OF bl q x'] blocksD [OF bl x'] b in fastforce)+
qed

text \<open>The bytes of a set of blocks are the same in two memories.\<close>

definition same_in :: "u64 set \<Rightarrow> mem \<Rightarrow> mem \<Rightarrow> bool" where
  "same_in al m m' \<longleftrightarrow> (\<forall>b. (\<exists>q \<in> al. unat q \<le> unat b \<and> unat b < hi m q) \<longrightarrow> m' b = m b)"

text \<open>\<^verbatim>\<open>free\<close> moves a block from those in use to the free ones, and changes no byte of the others in use.\<close>

lemma ufree_ok:
  assumes ok: "heap_ok base (hmem h) fl (insert bp al) brk" and al: "bp \<notin> al" and f: "freep h \<in> set (base # fl)"
  shows "\<exists>h' fl'. ufree (bp + 16) h = Some h' \<and> heap_ok base (hmem h') fl' al brk \<and> freep h' \<in> set (base # fl') \<and>
    (\<exists>x \<in> set fl'. hsize (hmem h) bp \<le> hsize (hmem h') x) \<and> same_in al (hmem h) (hmem h')"
proof -
  let ?m = "hmem h"
  obtain xs p ys where pt: "base # fl = xs @ p # ys" "p < bp" "\<forall>y \<in> set ys. bp < y" "free_find ?m bp (freep h) = Some p"
    using free_point [OF ok _ f, of bp] by auto
  let ?m1 = "free_upper bp p ?m"
  obtain fl1 ys1 where mid: "mid base ?m1 fl1 al brk bp xs p ys1" and grow: "hi ?m bp \<le> hi ?m1 bp"
    using free_upper_mid [OF ok al pt(1-3)] by blast
  let ?m2 = "free_lower bp p ?m1"
  have "\<exists>fl' x. heap_ok base ?m2 fl' al brk \<and> p \<in> set (base # fl') \<and> x \<in> set fl' \<and> x \<le> bp \<and> hi ?m2 x = hi ?m1 bp"
  proof (cases "hi ?m1 p = unat bp")
    case True
    then show ?thesis using lower_joins [OF mid True] pt(2) by (intro exI [of _ fl1] exI [of _ p]) auto
  qed (use lower_links [OF mid] in blast)
  then obtain fl' x where fl': "heap_ok base ?m2 fl' al brk" "p \<in> set (base # fl')" "x \<in> set fl'" "x \<le> bp" "hi ?m2 x = hi ?m1 bp"
    by blast
  have "unat (hsize ?m bp) \<le> unat (hsize ?m2 x)" using grow fl'(4,5) by (simp add: hi_def word_le_nat_alt)
  then have big: "hsize ?m bp \<le> hsize ?m2 x" by (simp add: word_le_nat_alt)
  have p: "p \<in> set (base # fl)" unfolding pt(1) by simp
  have ap: "apart p bp" using mid_apart [OF mid] pt(2) by simp
  have "free_lower bp p ?m1 b = ?m b" if q: "q \<in> al" and b: "unat q \<le> unat b" "unat b < hi ?m q" for q b
  proof -
    have "p \<noteq> q" using p q heap_okD(5) [OF ok] heap_ok_apart(3) [OF ok, of q] by auto
    then have "\<not> (unat p \<le> unat b \<and> unat b < unat p + 16)" "\<not> (unat bp \<le> unat b \<and> unat b < unat bp + 16)"
      using outside_header [OF ok, of q p b] outside_header [OF ok, of q bp b] p q b al by auto
    then show ?thesis
      using free_lower_header(4) [OF ap, of b ?m1] free_upper_header(4) [of bp p b ?m] ap apart_sym by auto
  qed
  then show ?thesis using pt(4) fl' big by (auto simp: ufree_def same_in_def)
qed
section \<open>Taking a block\<close>

lemma lseg_pred:
  assumes "lseg m base (base # fl) base" and "prev \<in> set (base # fl)" and "hptr m prev = x" and "x \<noteq> base"
  shows "\<exists>xs ys. base # fl = xs @ prev # x # ys"
proof -
  obtain xs cs where eq: "base # fl = xs @ prev # cs" using split_list [OF assms(2)] by blast
  have "lseg m (hptr m prev) cs base" using assms(1) unfolding eq by (auto simp: lseg_append)
  then show ?thesis using assms(3,4) eq by (cases cs) auto
qed

lemma same_inI:
  assumes ok: "heap_ok base m fl al brk"
    and frame: "\<And>b. \<not> (unat p \<le> unat b \<and> unat b < unat p + 16) \<Longrightarrow> m' b = m b"
    and p: "p \<in> insert base (set fl \<union> al)" "p \<notin> al"
  shows "same_in al m m'"
  unfolding same_in_def
proof (intro allI impI, elim bexE conjE)
  fix b q :: u64 assume q: "q \<in> al" "unat q \<le> unat b" "unat b < hi m q"
  then have "\<not> (unat p \<le> unat b \<and> unat b < unat p + 16)"
    using outside_header [OF ok, of q p b] p by blast
  then show "m' b = m b" by (rule frame)
qed

lemma take_exact:
  assumes ok: "heap_ok base m fl al brk" and prev: "prev \<in> set (base # fl)" "hptr m prev = x" and x: "x \<in> set fl"
  shows "\<exists>fl'. heap_ok base (set_ptr prev (hptr m x) m) fl' (insert x al) brk \<and> prev \<in> set (base # fl') \<and>
    hsize (set_ptr prev (hptr m x) m) x = hsize m x \<and> same_in al m (set_ptr prev (hptr m x) m)"
proof -
  let ?m = "set_ptr prev (hptr m x) m" and ?S = "set fl \<union> al"
  note h = heap_okD [OF ok] and a = heap_ok_apart [OF ok]
  have xb: "x \<noteq> base" using a(3) [of x] x by auto
  obtain xs ys where eq: "base # fl = xs @ prev # x # ys" using lseg_pred [OF h(2) prev xb] by blast
  obtain fl1 where fl1: "base # fl1 = xs @ prev # ys" "set fl1 = set fl - {x}"
    using drop_one [OF eq sorted_distinct [OF h(1)]] by blast
  have dist: "distinct (xs @ prev # x # ys)" using sorted_distinct [OF h(1)] unfolding eq .
  have ap: "apart prev y" if "y \<in> insert base ?S" "y \<noteq> prev" for y
  proof (cases "prev = base")
    case True
    then show ?thesis using a(1) that by simp
  next
    case False
    then show ?thesis using a(1) [of prev] a(2) [of prev y] prev(1) that apart_sym by auto
  qed
  have room: "unat prev + 16 \<le> 2 ^ 64" using a(4,5) prev(1) by auto
  have keep: "hsize ?m y = hsize m y" "y \<noteq> prev \<Longrightarrow> hptr ?m y = hptr m y" if "y \<in> insert base ?S" for y
    using header_other [OF ap [OF that]] hsize_set_ptr_same [OF room] by (cases "y = prev"; simp)+
  have hi: "hi ?m y = hi m y" if "y \<in> insert base ?S" for y using keep(1) [OF that] by (rule hi_cong)
  have S: "set fl1 \<union> insert x al = ?S" using fl1(2) x by auto
  have bl: "blocks (unat base + 16) brk (set fl1 \<union> insert x al) (hi ?m)"
    using iffD1 [OF blocks_cong h(4)] hi unfolding S by simp
  have ring: "lseg m base xs prev" "lseg m (hptr m x) ys base" using h(2) unfolding eq by (auto simp: lseg_append)
  have "set xs \<subseteq> set (base # fl) - {prev}" "set ys \<subseteq> set (base # fl) - {prev}" using dist unfolding eq by auto
  then have sub: "y \<in> insert base ?S" "y \<noteq> prev" if "y \<in> set xs \<union> set ys" for y using that by auto
  have "lseg ?m base xs prev" by (rule lseg_keep [OF ring(1)]) (rule keep(2) [OF sub]; simp)
  moreover have "lseg ?m (hptr m x) ys base" by (rule lseg_keep [OF ring(2)]) (rule keep(2) [OF sub]; simp)
  ultimately have "lseg ?m base (base # fl1) base" unfolding fl1(1) by (auto simp: lseg_append)
  moreover have "sorted_wrt (<) (base # fl1)" using h(1) unfolding fl1(1) eq by (auto simp: sorted_wrt_append)
  moreover have "gaps ?m (set fl1)" using fl1(2) hi by (intro gaps_cong [OF h(6)]) auto
  moreover have "set fl1 \<inter> insert x al = {}" using fl1(2) h(5) by auto
  ultimately have "heap_ok base ?m fl1 (insert x al) brk"
    unfolding heap_ok_def using bl h(3,7,8) keep(1) [of base] by simp
  moreover have "same_in al m ?m"
  proof (rule same_inI [OF ok])
    show "?m b = m b" if "\<not> (unat prev \<le> unat b \<and> unat b < unat prev + 16)" for b
      by (rule set_ptr_frame [OF room that])
    show "prev \<in> insert base ?S" "prev \<notin> al" using prev(1) h(5) a(3) [of prev] by auto
  qed
  moreover have "prev \<in> set (base # fl1)" unfolding fl1(1) by simp
  ultimately show ?thesis using keep(1) [of x] x by blast
qed


lemma outside_block:
  assumes "blocks lo brk S (hi m)" and "r \<in> S" and "x \<in> S" and "x \<noteq> r" and "unat r \<le> unat b" and "unat b < hi m r"
  shows "\<not> (unat x \<le> unat b \<and> unat b < hi m x)"
proof -
  consider "x < r" | "r < x" using assms(4) by fastforce
  then show ?thesis
    by cases (use blocks_disjoint [OF assms(1)] assms in fastforce)+
qed

lemma take_split:
  assumes ok: "heap_ok base m fl al brk" and x: "x \<in> set fl" and n: "n \<noteq> 0" "n < hsize m x"
  defines "m1 \<equiv> set_size x (hsize m x - n) m"
  defines "q \<equiv> x + units (hsize m1 x)"
  defines "m2 \<equiv> set_size q n m1"
  shows "heap_ok base m2 fl (insert q al) brk" and "q \<notin> al" and "hsize m2 q = n" and "same_in al m m2"
proof -
  note h = heap_okD [OF ok] and a = heap_ok_apart [OF ok]
  let ?S = "set fl \<union> al" and ?h = "\<lambda>q. (hi m)(x := unat q, q := hi m x)"
  have xS: "x \<in> ?S" using x by simp
  have sz: "unat (hsize m x - n) = unat (hsize m x) - unat n" using n(2) by (simp add: unat_sub)
  have n': "0 < unat n" "unat n < unat (hsize m x)" using n by (simp_all add: unat_gt_0 word_less_nat_alt)
  have top: "hi m x \<le> 2 ^ 36" using blocksD(3) [OF h(4) xS] h(8) by simp
  have uq: "unat q = unat x + 16 * (unat (hsize m x) - unat n)"
    using unat_end [of x "hsize m x - n"] top n' sz by (simp add: q_def m1_def hi_def)
  have sp: "unat x + 16 \<le> unat q" "unat q + 16 \<le> hi m x" "unat q + 16 * unat n = hi m x"
    using uq n' by (simp_all add: hi_def)
  note bs = blocks_split [OF h(4) xS sp(1,2)]
  show qal: "q \<notin> al" using bs(2) by simp
  have apq: "apart q y" if "y \<in> insert base ?S" for y
  proof (cases "y = base")
    case True
    have "unat base + 16 \<le> unat x" by (rule blocksD(1) [OF h(4) xS])
    then show ?thesis using True sp top by (simp add: apart_def)
  next
    case False
    then have "y \<in> ?S" using that by simp
    moreover from this have "q \<noteq> y" using bs(2) by blast
    ultimately show ?thesis using blocks_apart [OF bs(1) _ _ _ h(8)] by blast
  qed
  have apx: "apart x y" if "y \<in> insert base ?S" "y \<noteq> x" for y
    using that a(1) [OF xS] a(2) [OF xS] apart_sym by blast
  have room: "unat x + 16 \<le> 2 ^ 64" by (rule a(5) [OF xS])
  have ptr: "hptr m2 y = hptr m y" if "y \<in> insert base ?S" for y
    using header_other(3) [OF apq [OF that]] header_other(3) [OF apx [OF that]] hptr_set_size_same [OF room]
    by (cases "y = x") (simp_all add: m2_def m1_def)
  have size: "hsize m2 y = hsize m y" if "y \<in> insert base ?S" "y \<noteq> x" for y
    using header_other(4) [OF apq [OF that(1)]] header_other(4) [OF apx [OF that]] by (simp add: m2_def m1_def)
  show sq: "hsize m2 q = n" by (simp add: m2_def)
  have sx: "hsize m2 x = hsize m x - n" using header_other(4) [OF apq] xS by (simp add: m2_def m1_def)
  have hi: "?h q y = hi m2 y" if "y \<in> insert q ?S" for y
    using size [of y] sq sx sp(3) uq sz bs(2) that n' by (auto simp: hi_def)
  have bl: "blocks (unat base + 16) brk (set fl \<union> insert q al) (hi m2)"
    using iffD1 [OF blocks_cong bs(1)] hi by simp
  have "lseg m2 base (base # fl) base" by (rule lseg_keep [OF h(2)]) (rule ptr, auto)
  moreover have "hsize m2 base = 0" using size [of base] a(3) [OF xS] h(3) by auto
  moreover have "set fl \<inter> insert q al = {}" using h(5) bs(2) by auto
  moreover have "gaps m2 (set fl)"
    unfolding gaps_def
  proof (intro ballI)
    fix u v assume uv: "u \<in> set fl" "v \<in> set fl"
    then have ne: "v \<noteq> q" "u \<noteq> q" using bs(2) by auto
    then have "hi m2 u = (if u = x then unat q else hi m u)" using hi [of u] uv(1) by simp
    then show "hi m2 u \<noteq> unat v" using h(6) uv ne unfolding gaps_def by (auto simp: word_unat_eq_iff)
  qed
  ultimately show "heap_ok base m2 fl (insert q al) brk" unfolding heap_ok_def using h(1,7,8) bl by blast
  show "same_in al m m2"
    unfolding same_in_def
  proof (intro allI impI, elim bexE conjE)
    fix b r :: u64 assume r: "r \<in> al" "unat r \<le> unat b" "unat b < hi m r"
    then have "x \<noteq> r" using x h(5) by auto
    then have "\<not> (unat x \<le> unat b \<and> unat b < hi m x)" using outside_block [OF h(4), of r x b] xS r by simp
    then have "\<not> (unat x \<le> unat b \<and> unat b < unat x + 16)" "\<not> (unat q \<le> unat b \<and> unat b < unat q + 16)" using sp by auto
    then show "m2 b = m b"
      using set_size_frame [OF room] set_size_frame [OF apart_room [OF apq, of base]] unfolding m2_def m1_def by simp
  qed
qed


lemma malloc_take_ok:
  assumes ok: "heap_ok base (hmem h) fl al brk" and prev: "prev \<in> set (base # fl)" "hptr (hmem h) prev = x"
    and x: "x \<in> set fl" and n: "n \<noteq> 0" "n \<le> hsize (hmem h) x"
  shows "\<exists>q h' fl'. malloc_take n prev x h = (q + 16, h') \<and> q \<notin> al \<and> heap_ok base (hmem h') fl' (insert q al) brk \<and>
    hsize (hmem h') q = n \<and> freep h' \<in> set (base # fl') \<and> same_in al (hmem h) (hmem h')"
proof (cases "hsize (hmem h) x = n")
  case True
  obtain fl' where "heap_ok base (set_ptr prev (hptr (hmem h) x) (hmem h)) fl' (insert x al) brk" "prev \<in> set (base # fl')"
    "hsize (set_ptr prev (hptr (hmem h) x) (hmem h)) x = hsize (hmem h) x" "same_in al (hmem h) (set_ptr prev (hptr (hmem h) x) (hmem h))"
    using take_exact [OF ok prev x] by blast
  moreover have "x \<notin> al" using x heap_okD(5) [OF ok] by auto
  ultimately show ?thesis using True by (auto simp: malloc_take_def)
next
  case False
  then have "n < hsize (hmem h) x" using n(2) by simp
  from take_split [OF ok x n(1) this] show ?thesis
    using False prev(1) by (simp add: malloc_take_def Let_def) blast
qed

section \<open>The search\<close>

lemma lseg_last: "lseg m (hptr m f) ws e \<Longrightarrow> hptr m (last (f # ws)) = e"
  by (induction ws arbitrary: f) auto

lemma loop_seg:
  assumes "lseg (hmem h) p ws e" and "\<forall>w \<in> set ws. hsize (hmem h) w < n \<and> w \<noteq> freep h"
  shows "malloc_loop os n prev p h s = malloc_loop os n (last (prev # ws)) e h s"
  using assms
proof (induction ws arbitrary: p prev)
  case (Cons w ws)
  have "malloc_loop os n prev p h s = malloc_loop os n w (hptr (hmem h) w) h s"
    using Cons.prems by (subst malloc_loop.simps) auto
  also have "\<dots> = malloc_loop os n (last (w # ws)) e h s" using Cons.prems by (intro Cons.IH) auto
  finally show ?case by simp
qed simp

text \<open>The headers in the order in which the search visits them.\<close>

lemma ring_from:
  assumes ok: "heap_ok base m fl al brk" and f: "f \<in> set (base # fl)"
  shows "\<exists>ws. lseg m (hptr m f) (ws @ [f]) (hptr m f) \<and> set (ws @ [f]) = set (base # fl) \<and> f \<notin> set ws"
proof -
  obtain us vs where eq: "base # fl = us @ f # vs" using split_list [OF f] by blast
  have "lseg m base us f" "lseg m (hptr m f) vs base"
    using heap_okD(2) [OF ok] unfolding eq by (auto simp: lseg_append)
  then have "lseg m (hptr m f) ((vs @ us) @ [f]) (hptr m f)" by (auto simp: lseg_append)
  moreover have "set ((vs @ us) @ [f]) = set (base # fl)" unfolding eq by auto
  moreover have "f \<notin> set (vs @ us)" using sorted_distinct [OF heap_okD(1) [OF ok]] unfolding eq by auto
  ultimately show ?thesis by blast
qed

lemma search_finds:
  assumes ok: "heap_ok base (hmem h) fl al brk" and f: "freep h \<in> set (base # fl)" and n: "n \<noteq> 0"
    and big: "\<exists>x \<in> set fl. n \<le> hsize (hmem h) x"
  shows "\<exists>prev x. prev \<in> set (base # fl) \<and> hptr (hmem h) prev = x \<and> x \<in> set fl \<and> n \<le> hsize (hmem h) x \<and>
    malloc_loop os n (freep h) (hptr (hmem h) (freep h)) h s = uret (malloc_take n prev x h) s"
proof -
  let ?f = "freep h" and ?m = "hmem h"
  obtain ws where ws: "lseg ?m (hptr ?m ?f) (ws @ [?f]) (hptr ?m ?f)" "set (ws @ [?f]) = set (base # fl)" "?f \<notin> set ws"
    using ring_from [OF ok f] by blast
  have "\<exists>x \<in> set (ws @ [?f]). \<not> hsize ?m x < n" using big unfolding ws(2) by (auto simp: not_less)
  then obtain us x zs where sp: "ws @ [?f] = us @ x # zs" "\<not> hsize ?m x < n" "\<forall>u \<in> set us. hsize ?m u < n"
    using split_list_first_prop [of "ws @ [?f]" "\<lambda>x. \<not> hsize ?m x < n"] by auto
  have "us = take (length us) (ws @ [?f])" using sp(1) by simp
  moreover have "length us \<le> length ws" using arg_cong [OF sp(1), of length] by simp
  ultimately have sub: "set us \<subseteq> set ws" by (metis set_take_subset take_append diff_is_0_eq take_0 append_Nil2)
  have seg: "lseg ?m (hptr ?m ?f) us x" using ws(1) unfolding sp(1) by (auto simp: lseg_append)
  have "malloc_loop os n ?f (hptr ?m ?f) h s = malloc_loop os n (last (?f # us)) x h s"
    by (rule loop_seg [OF seg]) (use sp(3) sub ws(3) in auto)
  also have "\<dots> = uret (malloc_take n (last (?f # us)) x h) s" using sp(2) by (subst malloc_loop.simps) (simp add: not_less)
  finally have run: "malloc_loop os n ?f (hptr ?m ?f) h s = uret (malloc_take n (last (?f # us)) x h) s" .
  have "x \<in> set (base # fl)" unfolding ws(2) [symmetric] sp(1) by simp
  then have x: "x \<in> set fl" using sp(2) n heap_okD(3) [OF ok] by (auto simp: word_gt_0)
  have "set (?f # us) \<subseteq> set (ws @ [?f])" using sub by auto
  then have "last (?f # us) \<in> set (base # fl)" unfolding ws(2) using last_in_set [of "?f # us"] by blast
  then show ?thesis using lseg_last [OF seg] x sp(2) run by (auto simp: not_less)
qed

lemma search_fails:
  assumes ok: "heap_ok base (hmem h) fl al brk" and f: "freep h \<in> set (base # fl)" and n: "n \<noteq> 0"
    and small: "\<forall>x \<in> set fl. hsize (hmem h) x < n"
  shows "malloc_loop os n (freep h) (hptr (hmem h) (freep h)) h s =
    ubind (morecore os n h) (\<lambda>(q, h1).
      if q = 0 then uret (0, h1) else malloc_loop os n q (hptr (hmem h1) q) h1) s"
proof -
  let ?f = "freep h" and ?m = "hmem h"
  obtain ws where ws: "lseg ?m (hptr ?m ?f) (ws @ [?f]) (hptr ?m ?f)" "set (ws @ [?f]) = set (base # fl)" "?f \<notin> set ws"
    using ring_from [OF ok f] by blast
  have "hsize ?m x < n" if "x \<in> set (base # fl)" for x using that small heap_okD(3) [OF ok] n by (auto simp: word_gt_0)
  then have all: "hsize ?m x < n" if "x \<in> set (ws @ [?f])" for x using that unfolding ws(2) by blast
  have seg: "lseg ?m (hptr ?m ?f) ws ?f" using ws(1) by (auto simp: lseg_append)
  have "malloc_loop os n ?f (hptr ?m ?f) h s = malloc_loop os n (last (?f # ws)) ?f h s"
    by (rule loop_seg [OF seg]) (use all ws(3) in auto)
  also have "\<not> n \<le> hsize ?m ?f" using all by (simp add: not_le)
  ultimately show ?thesis by (subst (asm) (2) malloc_loop.simps) simp
qed

end
