(* ===== verification/UmallocSafe.thy ===== *)
theory UmallocSafe
  imports UmallocInv
begin

text \<open>
  The allocator of \<^verbatim>\<open>user/umalloc.c\<close> under the requests of a program: \<^verbatim>\<open>morecore\<close> and \<^verbatim>\<open>malloc\<close> keep the invariant of the
  heap, and a run of any sequence of requests hands out disjoint blocks whose contents only the program changes.
\<close>

section \<open>More memory\<close>

text \<open>What the allocator relies on of the system call \<^verbatim>\<open>sbrk\<close>: it moves the end of the process memory up by the number of bytes
  and returns the old end, or fails and changes nothing. A process is smaller than 64 gigabytes.\<close>

definition sbrk_ok :: "'k os \<Rightarrow> ('k \<Rightarrow> nat) \<Rightarrow> bool" where
  "sbrk_ok os brk \<longleftrightarrow>
     (\<forall>n k. 0 < n \<and> n < 2 ^ 31 \<longrightarrow>
        (let ((r, d), k') = os (CSbrk n) k
         in r = int (brk k) \<and> brk k' = brk k + nat n \<and> brk k' \<le> 2 ^ 36 \<or> r = - 1 \<and> brk k' = brk k))"

lemma sbrk_cases:
  assumes "sbrk_ok os brk" and "0 < n" and "n < 2 ^ 31"
  obtains (grown) "fst (fst (os (CSbrk n) k)) = int (brk k)" "brk (snd (os (CSbrk n) k)) = brk k + nat n" "brk k + nat n \<le> 2 ^ 36"
    | (failed) "fst (fst (os (CSbrk n) k)) = - 1" "brk (snd (os (CSbrk n) k)) = brk k"
proof -
  have "let ((r, d), k') = os (CSbrk n) k
     in r = int (brk k) \<and> brk k' = brk k + nat n \<and> brk k' \<le> 2 ^ 36 \<or> r = - 1 \<and> brk k' = brk k"
    using assms unfolding sbrk_ok_def by blast
  moreover obtain rd k' where e: "os (CSbrk n) k = (rd, k')" by (cases "os (CSbrk n) k")
  moreover obtain r d where "rd = (r, d)" by (cases rd)
  ultimately show ?thesis using grown failed by auto
qed

lemma same_in_refl: "same_in al m m"
  by (simp add: same_in_def)

lemma same_in_size:
  assumes "same_in al m m'" and "q \<in> al" and "blocks lo brk S (hi m)" and "q \<in> S" and "brk \<le> 2 ^ 36"
  shows "hsize m' q = hsize m q"
  using blocksD [OF assms(3,4)] assms(1,2,5) unfolding same_in_def
  by (intro header_cong(2)) (auto intro!: exI bexI [of _ q])

lemma same_in_trans:
  assumes "same_in al m m'" and "same_in al m' m''" and "\<And>q. q \<in> al \<Longrightarrow> hsize m' q = hsize m q"
  shows "same_in al m m''"
proof -
  have "hi m' q = hi m q" if "q \<in> al" for q using assms(3) [OF that] by (rule hi_cong)
  then show ?thesis using assms(1,2) unfolding same_in_def by metis
qed

lemma sbrk_bytes:
  assumes "16 * unat n < 2 ^ 31"
  shows "sint (ucast (units n) :: u32) = int (16 * unat n)"
proof -
  define w where "w = (ucast (units n) :: u32)"
  have "unat w = 16 * unat n"
    using assms by (simp add: w_def unsigned_ucast_eq unat_units take_bit_nat_eq_self)
  moreover have "uint w = int (unat w)" by simp
  ultimately have "uint w = int (16 * unat n)" by (simp only:)
  moreover have "int (16 * unat n) < int (2 ^ 31)" using assms by (simp only: of_nat_less_iff)
  ultimately show ?thesis unfolding w_def [symmetric] sint32 by simp
qed

text \<open>The new memory as a block in use.\<close>

lemma new_block:
  assumes ok: "heap_ok base m fl al brk" and nu: "nu \<noteq> 0" and e: "brk + 16 * unat nu \<le> 2 ^ 36"
  defines "p \<equiv> of_nat brk"
  shows "heap_ok base (set_size p nu m) fl (insert p al) (brk + 16 * unat nu)" and "p \<notin> al" and "same_in al m (set_size p nu m)"
    and "unat p = brk"
proof -
  let ?m = "set_size p nu m" and ?S = "set fl \<union> al" and ?e = "brk + 16 * unat nu"
  note h = heap_okD [OF ok] and a = heap_ok_apart [OF ok]
  have nu': "0 < unat nu" using nu by (simp add: unat_gt_0)
  show up: "unat p = brk" using h(8) by (simp add: p_def unat_of_nat_small)
  note be = blocks_extend [OF h(4) h(7), of p ?e]
  have new: "blocks (unat base + 16) ?e (insert p ?S) ((hi m)(p := ?e))" "p \<notin> ?S" using be up nu' by auto
  then show "p \<notin> al" by simp
  have room: "unat p + 16 \<le> 2 ^ 64" using up h(8) by simp
  have ap: "apart p y" if "y \<in> insert base ?S" for y
  proof (cases "y = base")
    case True
    then show ?thesis using h(7) a(4) room up by (simp add: apart_def)
  next
    case False
    then have "y \<in> ?S" using that by simp
    then show ?thesis using blocksD [OF h(4)] up a(5) [of y] room by (force simp: apart_def)
  qed
  have keep: "hptr ?m y = hptr m y" "hsize ?m y = hsize m y" if "y \<in> insert base ?S" for y
    using header_other(3,4) [OF ap [OF that]] by simp_all
  have hi: "((hi m)(p := ?e)) y = hi ?m y" if "y \<in> insert p ?S" for y
    using that keep(2) [of y] new(2) up by (auto simp: hi_def)
  have bl: "blocks (unat base + 16) ?e (set fl \<union> insert p al) (hi ?m)" using iffD1 [OF blocks_cong new(1)] hi by simp
  have "lseg ?m base (base # fl) base" by (rule lseg_keep [OF h(2)]) (rule keep(1), auto)
  moreover have "gaps ?m (set fl)" using keep(2) by (intro gaps_cong [OF h(6)]) (auto intro: hi_cong)
  ultimately show "heap_ok base ?m fl (insert p al) ?e"
    unfolding heap_ok_def using h(1,3,5,7) e bl new(2) keep(2) [of base] by auto
  show "same_in al m ?m"
    unfolding same_in_def
  proof (intro allI impI, elim bexE conjE)
    fix b q :: u64 assume "q \<in> al" "unat q \<le> unat b" "unat b < hi m q"
    then have "unat b < brk" using blocksD(3) [OF h(4), of q] by simp
    then show "?m b = m b" using up by (intro set_size_frame [OF room]) simp
  qed
qed

lemma heap_ok_grow: "heap_ok base m fl al b \<Longrightarrow> b \<le> b' \<Longrightarrow> b' \<le> 2 ^ 36 \<Longrightarrow> heap_ok base m fl al b'"
  using blocks_mono unfolding heap_ok_def by fastforce

text \<open>\<^verbatim>\<open>morecore\<close> either fails, because \<^verbatim>\<open>sbrk\<close> failed, and changes nothing, or gives the ring a block that is large enough. The block begins at
  the old end of the memory and is taken to be as long as was asked for.\<close>

definition core_units :: "u32 \<Rightarrow> u32" where
  "core_units n = (if n < 4096 then 4096 else n)"

abbreviation core_call :: "u32 \<Rightarrow> ucall" where
  "core_call n \<equiv> CSbrk (sint (ucast (units (core_units n)) :: u32))"

abbreviation ust_after :: "'k os \<Rightarrow> ucall \<Rightarrow> 'k ust \<Rightarrow> 'k ust" where
  "ust_after os c s \<equiv> \<lparr>kst = snd (os c (kst s)), calls = calls s @ [c]\<rparr>"

lemma morecore_run:
  "morecore os n h s = (let p = of_int (fst (fst (os (core_call n) (kst s)))); s1 = ust_after os (core_call n) s
     in if p = - 1 then Some (Ret (0, h), s1)
        else case ufree (p + 16) (h\<lparr>hmem := set_size p (core_units n) (hmem h)\<rparr>) of
               None \<Rightarrow> None | Some h1 \<Rightarrow> Some (Ret (freep h1, h1), s1))"
  unfolding morecore_def core_units_def [symmetric] Let_def by (simp add: ubind_def ulift_def uret_def split: option.split)

lemma morecore_grown:
  assumes ok: "heap_ok base (hmem h) fl al b" and f: "freep h \<in> set (base # fl)" and b0: "base \<noteq> 0"
    and r: "fst (fst (os (core_call n) (kst s))) = int b" and e: "b + 16 * unat (core_units n) \<le> 2 ^ 36"
  shows "\<exists>h1 fl1. morecore os n h s = Some (Ret (freep h1, h1), ust_after os (core_call n) s) \<and> freep h1 \<noteq> 0 \<and>
    heap_ok base (hmem h1) fl1 al (b + 16 * unat (core_units n)) \<and> freep h1 \<in> set (base # fl1) \<and> same_in al (hmem h) (hmem h1) \<and>
    (\<exists>x\<in>set fl1. n \<le> hsize (hmem h1) x)"
proof -
  let ?nu = "core_units n" and ?p = "of_nat b :: u64"
  let ?h = "h\<lparr>hmem := set_size ?p ?nu (hmem h)\<rparr>"
  have nu: "n \<le> ?nu" "?nu \<noteq> 0" by (auto simp: core_units_def not_less word_le_nat_alt word_less_nat_alt)
  note nb = new_block [OF ok nu(2) e]
  have "unat ?p \<le> 2 ^ 36" using nb(4) e by simp
  moreover have "unat (- 1 :: u64) = 2 ^ 64 - 1" by (simp add: unsigned_minus_1_eq_mask mask_eq_exp_minus_1)
  ultimately have p1: "?p \<noteq> - 1" by auto
  have hm: "hmem ?h = set_size ?p ?nu (hmem h)" "freep ?h = freep h" by simp_all
  obtain h1 fl1 where h1: "ufree (?p + 16) ?h = Some h1" "heap_ok base (hmem h1) fl1 al (b + 16 * unat ?nu)" "freep h1 \<in> set (base # fl1)"
    "\<exists>x\<in>set fl1. ?nu \<le> hsize (hmem h1) x" "same_in al (set_size ?p ?nu (hmem h)) (hmem h1)"
    using ufree_ok [of base ?h fl ?p al, unfolded hm hsize_set_size, OF nb(1,2) f] by blast
  have "morecore os n h s = Some (Ret (freep h1, h1), ust_after os (core_call n) s)"
    unfolding morecore_run r using h1(1) p1 by simp
  moreover have "same_in al (hmem h) (hmem h1)"
    by (rule same_in_trans [OF nb(3) h1(5)]) (use same_in_size [OF nb(3)] heap_okD(4,8) [OF ok] in blast)
  moreover have "freep h1 \<noteq> 0" using h1(3) b0 heap_ok_apart(3) [OF h1(2), of "freep h1"] by auto
  moreover have "\<exists>x\<in>set fl1. n \<le> hsize (hmem h1) x" using h1(4) nu(1) by force
  ultimately show ?thesis using h1(2,3) by blast
qed

lemma morecore_ok:
  fixes os :: "'k os"
  assumes sb: "sbrk_ok os brk" and ok: "heap_ok base (hmem h) fl al (brk (kst s))" and f: "freep h \<in> set (base # fl)"
    and n: "16 * unat n < 2 ^ 31" and b0: "base \<noteq> 0"
  shows "\<exists>q h1 s1 fl1. morecore os n h s = Some (Ret (q, h1), s1) \<and> brk (kst s) \<le> brk (kst s1) \<and>
    heap_ok base (hmem h1) fl1 al (brk (kst s1)) \<and> freep h1 \<in> set (base # fl1) \<and> same_in al (hmem h) (hmem h1) \<and>
    (if q = 0 then \<exists>k. 0 < k \<and> k < 2 ^ 31 \<and> calls s1 = calls s @ [CSbrk k] \<and> fst (fst (os (CSbrk k) (kst s))) = - 1
     else q = freep h1 \<and> (\<exists>x\<in>set fl1. n \<le> hsize (hmem h1) x))"
proof -
  let ?nu = "core_units n" and ?b = "brk (kst s)" and ?s1 = "ust_after os (core_call n) s"
  let ?c = "int (16 * unat (core_units n))" and ?r = "fst (fst (os (core_call n) (kst s)))"
  have nu: "16 * unat ?nu < 2 ^ 31" "0 < 16 * unat ?nu"
    using n by (auto simp: core_units_def not_less word_le_nat_alt word_less_nat_alt)
  have arg: "sint (ucast (units ?nu) :: u32) = ?c" using sbrk_bytes [OF nu(1)] .
  have c0: "0 < ?c" using nu(2) by (simp only: of_nat_0_less_iff)
  have "?c < int (2 ^ 31)" using nu(1) by (simp only: of_nat_less_iff)
  then have c1: "?c < 2 ^ 31" by simp
  consider (grown) "?r = int ?b" "brk (kst ?s1) = ?b + nat ?c" "?b + nat ?c \<le> 2 ^ 36" | (failed) "?r = - 1" "brk (kst ?s1) = ?b"
    using sbrk_cases [OF sb c0 c1, of "kst s"] unfolding arg ust.simps by metis
  then show ?thesis
  proof cases
    case grown
    have e: "?b + 16 * unat ?nu \<le> 2 ^ 36" and b1: "brk (kst ?s1) = ?b + 16 * unat ?nu" using grown(2,3) unfolding nat_int by blast+
    obtain h1 fl1 where g: "morecore os n h s = Some (Ret (freep h1, h1), ?s1)" "freep h1 \<noteq> 0"
      "heap_ok base (hmem h1) fl1 al (?b + 16 * unat ?nu)" "freep h1 \<in> set (base # fl1)" "same_in al (hmem h) (hmem h1)"
      "\<exists>x\<in>set fl1. n \<le> hsize (hmem h1) x"
      using morecore_grown [where os = os, OF ok f b0 grown(1) e] by blast
    show ?thesis
      by (intro exI [of _ "freep h1"] exI [of _ h1] exI [of _ ?s1] exI [of _ fl1]) (use g b1 in simp)
  next
    case failed
    have "morecore os n h s = Some (Ret (0, h), ?s1)" unfolding morecore_run failed(1) by simp
    moreover have "\<exists>k. 0 < k \<and> k < 2 ^ 31 \<and> calls ?s1 = calls s @ [CSbrk k] \<and> fst (fst (os (CSbrk k) (kst s))) = - 1"
      unfolding arg ust.simps using c0 c1 failed(1) [unfolded arg] by blast
    moreover have "heap_ok base (hmem h) fl al (brk (kst ?s1))" "?b \<le> brk (kst ?s1)" unfolding failed(2) using ok by simp_all
    ultimately show ?thesis using f same_in_refl [of al "hmem h"]
      by (intro exI [of _ 0] exI [of _ h] exI [of _ ?s1] exI [of _ fl]) simp
  qed
qed

section \<open>Allocation\<close>

lemma same_in_heap:
  assumes "heap_ok base m fl al b" and "same_in al m m'" and "q \<in> al"
  shows "hsize m' q = hsize m q" and "hi m' q = hi m q"
proof -
  show "hsize m' q = hsize m q" by (rule same_in_size [OF assms(2,3) heap_okD(4) [OF assms(1)]]) (use assms(3) heap_okD(8) [OF assms(1)] in auto)
  then show "hi m' q = hi m q" by (rule hi_cong)
qed

lemma block_ptr:
  assumes "heap_ok base m fl al b" and "q \<in> al"
  shows "unat (q + 16) = unat q + 16" and "q + 16 \<noteq> 0"
proof -
  have "unat q + 16 \<le> 2 ^ 36" using blocksD [OF heap_okD(4) [OF assms(1)], of q] heap_okD(8) [OF assms(1)] assms(2) by simp
  then show u: "unat (q + 16) = unat q + 16" by (simp add: unat_word_ariths)
  then show "q + 16 \<noteq> 0" by (metis add_is_0 unat_0 zero_neq_numeral)
qed

lemma take_from_ring:
  assumes ok: "heap_ok base (hmem h) fl al b" and f: "freep h \<in> set (base # fl)" and n: "n \<noteq> 0" and big: "\<exists>x \<in> set fl. n \<le> hsize (hmem h) x"
  shows "\<exists>q h' fl'. malloc_loop os n (freep h) (hptr (hmem h) (freep h)) h s = Some (Ret (q + 16, h'), s) \<and> q \<notin> al \<and>
    heap_ok base (hmem h') fl' (insert q al) b \<and> hsize (hmem h') q = n \<and> freep h' \<in> set (base # fl') \<and> same_in al (hmem h) (hmem h')"
proof -
  obtain prev x where run: "malloc_loop os n (freep h) (hptr (hmem h) (freep h)) h s = uret (malloc_take n prev x h) s"
    and x: "prev \<in> set (base # fl)" "hptr (hmem h) prev = x" "x \<in> set fl" "n \<le> hsize (hmem h) x"
    using search_finds [OF ok f n big, of os s] by blast
  from malloc_take_ok [OF ok x(1-3) n x(4)] show ?thesis unfolding run uret_def by (elim exE conjE) auto
qed

lemma malloc_loop_ok:
  fixes os :: "'k os"
  assumes sb: "sbrk_ok os brk" and ok: "heap_ok base (hmem h) fl al (brk (kst s))" and f: "freep h \<in> set (base # fl)"
    and n: "16 * unat n < 2 ^ 31" "n \<noteq> 0" and b0: "base \<noteq> 0"
  shows "\<exists>r h' s' fl'. malloc_loop os n (freep h) (hptr (hmem h) (freep h)) h s = Some (Ret (r, h'), s') \<and>
    brk (kst s) \<le> brk (kst s') \<and> freep h' \<in> set (base # fl') \<and> same_in al (hmem h) (hmem h') \<and>
    (if r = 0 then heap_ok base (hmem h') fl' al (brk (kst s')) \<and> (\<exists>k. 0 < k \<and> k < 2 ^ 31 \<and> calls s' = calls s @ [CSbrk k] \<and> fst (fst (os (CSbrk k) (kst s))) = - 1)
     else r - 16 \<notin> al \<and> heap_ok base (hmem h') fl' (insert (r - 16) al) (brk (kst s')) \<and> hsize (hmem h') (r - 16) = n)"
proof -
  let ?go = "\<lambda>h s. malloc_loop os n (freep h) (hptr (hmem h) (freep h)) h s"
  note nz = block_ptr(2)
  show ?thesis
  proof (cases "\<exists>x \<in> set fl. n \<le> hsize (hmem h) x")
    case True
    from take_from_ring [OF ok f n(2) True, of os s] obtain q h' fl' where "?go h s = Some (Ret (q + 16, h'), s)" "q \<notin> al"
      "heap_ok base (hmem h') fl' (insert q al) (brk (kst s))" "hsize (hmem h') q = n" "freep h' \<in> set (base # fl')" "same_in al (hmem h) (hmem h')"
      by blast
    with nz [OF this(3)] show ?thesis by (intro exI [of _ "q + 16"] exI [of _ h'] exI [of _ s] exI [of _ fl']) simp
  next
    case False
    then have small: "\<forall>x \<in> set fl. hsize (hmem h) x < n" by (simp add: not_le)
    obtain q h1 s1 fl1 where m: "morecore os n h s = Some (Ret (q, h1), s1)" "brk (kst s) \<le> brk (kst s1)"
      "heap_ok base (hmem h1) fl1 al (brk (kst s1))" "freep h1 \<in> set (base # fl1)" "same_in al (hmem h) (hmem h1)"
      "if q = 0 then \<exists>k. 0 < k \<and> k < 2 ^ 31 \<and> calls s1 = calls s @ [CSbrk k] \<and> fst (fst (os (CSbrk k) (kst s))) = - 1 else q = freep h1 \<and> (\<exists>x\<in>set fl1. n \<le> hsize (hmem h1) x)"
      using morecore_ok [OF sb ok f n(1) b0] by blast
    have run: "?go h s = (if q = 0 then uret (0, h1) s1 else malloc_loop os n q (hptr (hmem h1) q) h1 s1)"
      unfolding search_fails [OF ok f n(2) small] ubind_def m(1) by simp
    show ?thesis
    proof (cases "q = 0")
      case True
      then show ?thesis using m run by (auto simp: uret_def)
    next
      case False
      then have q: "q = freep h1" "\<exists>x\<in>set fl1. n \<le> hsize (hmem h1) x" using m(6) by auto
      from take_from_ring [OF m(3,4) n(2) q(2), of os s1] obtain p h' fl' where t: "?go h1 s1 = Some (Ret (p + 16, h'), s1)" "p \<notin> al"
        "heap_ok base (hmem h') fl' (insert p al) (brk (kst s1))" "hsize (hmem h') p = n" "freep h' \<in> set (base # fl')" "same_in al (hmem h1) (hmem h')"
        by blast
      have "same_in al (hmem h) (hmem h')"
        by (rule same_in_trans [OF m(5) t(6)]) (rule same_in_heap(1) [OF ok m(5)])
      then show ?thesis using t nz [OF t(3)] m(2) run False q(1)
        by (intro exI [of _ "p + 16"] exI [of _ h'] exI [of _ s1] exI [of _ fl']) simp
    qed
  qed
qed

section \<open>The state between requests\<close>

text \<open>The number of units for a request: the bytes rounded up, and one for the header.\<close>

lemma nunits:
  assumes "unat n < 2 ^ 31 - 31"
  shows "nunits_of n \<noteq> 0" and "16 * unat (nunits_of n) < 2 ^ 31" and "unat n + 16 \<le> 16 * unat (nunits_of n)"
proof -
  have "unat (ucast n + 16 - 1 :: u64) = unat n + 15"
    using assms by (simp add: unat_word_ariths unsigned_ucast_eq take_bit_nat_eq_self)
  then have "unat ((ucast n + 16 - 1) div 16 + 1 :: u64) = (unat n + 15) div 16 + 1"
    using assms by (simp add: unat_word_ariths unat_div)
  then have u: "unat (nunits_of n) = (unat n + 15) div 16 + 1"
    using assms by (simp add: nunits_of_def unsigned_ucast_eq take_bit_nat_eq_self)
  then show "16 * unat (nunits_of n) < 2 ^ 31" "unat n + 16 \<le> 16 * unat (nunits_of n)" using assms by linarith+
  show "nunits_of n \<noteq> 0" using u by auto
qed

text \<open>The blocks that the program holds, by the addresses that it was given, with the sizes that it asked for; and the
  invariant. Before the first request the ring is not yet there.\<close>

definition held_blocks :: "(u64 \<rightharpoonup> u32) \<Rightarrow> u64 set" where
  "held_blocks L = (\<lambda>p. p - 16) ` dom L"

definition umalloc_inv :: "u64 \<Rightarrow> uheap \<Rightarrow> (u64 \<rightharpoonup> u32) \<Rightarrow> nat \<Rightarrow> bool" where
  "umalloc_inv base h L b \<longleftrightarrow> (freep h = 0 \<longrightarrow> L = Map.empty)
     \<and> (\<exists>fl. heap_ok base (hmem (malloc_init base h)) fl (held_blocks L) b \<and> freep (malloc_init base h) \<in> set (base # fl))
     \<and> (\<forall>p n. L p = Some n \<longrightarrow> unat n < 2 ^ 31 - 31 \<and> hsize (hmem h) (p - 16) = nunits_of n)"

lemma held_mem: "L p = Some n \<Longrightarrow> p - 16 \<in> held_blocks L"
  by (auto simp: held_blocks_def)

lemma held_insert: "held_blocks (L(r \<mapsto> n)) = insert (r - 16) (held_blocks L)"
  by (auto simp: held_blocks_def)

lemma held_delete: "held_blocks (L(p := None)) = held_blocks L - {p - 16}"
  by (auto simp: held_blocks_def)

text \<open>A block that is held: where it is.\<close>

lemma held_place:
  assumes inv: "umalloc_inv base h L b" and L: "L p = Some n"
  obtains fl where "heap_ok base (hmem h) fl (held_blocks L) b" "freep h \<in> set (base # fl)" "malloc_init base h = h"
    "unat p = unat (p - 16) + 16" "unat p + unat n \<le> hi (hmem h) (p - 16)" "unat base + 16 \<le> unat (p - 16)" "hi (hmem h) (p - 16) \<le> b"
proof -
  have "freep h \<noteq> 0" using inv L by (auto simp: umalloc_inv_def)
  then have i: "malloc_init base h = h" by (simp add: malloc_init_def)
  then obtain fl where ok: "heap_ok base (hmem h) fl (held_blocks L) b" and f: "freep h \<in> set (base # fl)"
    using inv by (auto simp: umalloc_inv_def)
  have n: "unat n < 2 ^ 31 - 31" "hsize (hmem h) (p - 16) = nunits_of n" using inv L unfolding umalloc_inv_def by blast+
  have q: "p - 16 \<in> set fl \<union> held_blocks L" using held_mem [of L p n] L by simp
  have "unat p = unat (p - 16) + 16" using block_ptr(1) [OF ok held_mem [of L p n, OF L]] by simp
  moreover from this have "unat p + unat n \<le> hi (hmem h) (p - 16)" using nunits(3) [OF n(1)] by (simp add: hi_def n(2))
  ultimately show ?thesis using that ok f i blocksD [OF heap_okD(4) [OF ok] q] by blast
qed

lemma held_apart:
  assumes inv: "umalloc_inv base h L b" and L: "L p = Some n" "L q = Some k" and "p \<noteq> q"
  shows "unat p + unat n \<le> unat q \<or> unat q + unat k \<le> unat p"
proof -
  obtain fl where ok: "heap_ok base (hmem h) fl (held_blocks L) b"
    and p: "unat p = unat (p - 16) + 16" "unat p + unat n \<le> hi (hmem h) (p - 16)"
    using held_place [OF inv L(1)] by blast
  have q: "unat q = unat (q - 16) + 16" "unat q + unat k \<le> hi (hmem h) (q - 16)" using held_place [OF inv L(2)] by blast+
  note dis = blocks_disjoint [OF heap_okD(4) [OF ok]]
  have "p - 16 < q - 16 \<or> q - 16 < p - 16" using assms(4) by (metis diff_add_cancel linorder_less_linear)
  then show ?thesis
    using dis [of "p - 16" "q - 16"] dis [of "q - 16" "p - 16"] held_mem [of L p n] held_mem [of L q k] L p q by fastforce
qed

text \<open>The bytes that the program may use.\<close>

definition payload_same :: "(u64 \<rightharpoonup> u32) \<Rightarrow> mem \<Rightarrow> mem \<Rightarrow> bool" where
  "payload_same L m m' \<longleftrightarrow> (\<forall>p n i. L p = Some n \<longrightarrow> i < unat n \<longrightarrow> m' (p + of_nat i) = m (p + of_nat i))"

lemma payload_byte:
  assumes "umalloc_inv base h L b" and "L p = Some n" and "i < unat n"
  shows "unat (p + of_nat i) = unat p + i" "unat (p - 16) + 16 \<le> unat (p + of_nat i)" "unat (p + of_nat i) < hi (hmem h) (p - 16)"
proof -
  obtain fl where p: "unat p = unat (p - 16) + 16" "unat p + unat n \<le> hi (hmem h) (p - 16)" "hi (hmem h) (p - 16) \<le> b"
    "heap_ok base (hmem h) fl (held_blocks L) b"
    using held_place [OF assms(1,2)] by blast
  have le: "unat p + i < 2 ^ 36" using p assms(3) heap_okD(8) [OF p(4)] by simp
  then have "unat (of_nat i :: u64) = i" by (simp add: unat_of_nat_small)
  then show "unat (p + of_nat i) = unat p + i" using le by (simp add: unat_word_ariths)
  then show "unat (p - 16) + 16 \<le> unat (p + of_nat i)" "unat (p + of_nat i) < hi (hmem h) (p - 16)" using p(1,2) assms(3) by simp_all
qed

lemma payload_sameI:
  assumes "umalloc_inv base h L b" and "M \<subseteq>\<^sub>m L" and "same_in (held_blocks M) (hmem h) m'"
  shows "payload_same M (hmem h) m'"
  unfolding payload_same_def
proof (intro allI impI)
  fix p n i assume p: "M p = Some n" "i < unat n"
  then have "L p = Some n" using assms(2) by (force simp: map_le_def dom_def)
  note pb = payload_byte [OF assms(1) this p(2)]
  have "unat (p - 16) \<le> unat (p + of_nat i)" using pb(2) by simp
  then show "m' (p + of_nat i) = hmem h (p + of_nat i)"
    using assms(3) pb(3) held_mem [of M p n] p(1) unfolding same_in_def by blast
qed

lemma init_ring:
  assumes "freep h = 0" and "unat base + 16 \<le> b" and "b \<le> 2 ^ 36"
  shows "heap_ok base (hmem (malloc_init base h)) [] {} b" and "freep (malloc_init base h) = base"
proof -
  have r: "unat base + 16 \<le> 2 ^ 64" using assms(2,3) by simp
  let ?m = "set_size base 0 (set_ptr base base (hmem h))"
  have "hptr ?m base = base" "hsize ?m base = 0" using hptr_set_size_same [OF r] by simp_all
  then show "heap_ok base (hmem (malloc_init base h)) [] {} b" using assms by (simp add: heap_ok_def blocks_def gaps_def malloc_init_def)
  show "freep (malloc_init base h) = base" using assms(1) by (simp add: malloc_init_def)
qed

lemma init_heap:
  assumes "freep h = 0" and "unat base + 16 \<le> b" and "b \<le> 2 ^ 36"
  shows "umalloc_inv base h Map.empty b"
  using init_ring [OF assms] by (auto simp: umalloc_inv_def held_blocks_def)

lemma ring_nonnull: "heap_ok base m fl al b \<Longrightarrow> p \<in> set (base # fl) \<Longrightarrow> base \<noteq> 0 \<Longrightarrow> p \<noteq> 0"
  using heap_ok_apart(3) [of base m fl al b p] by auto

lemma malloc_inv:
  fixes os :: "'k os"
  assumes sb: "sbrk_ok os brk" and b0: "base \<noteq> 0" and inv: "umalloc_inv base h L (brk (kst s))" and n: "unat n < 2 ^ 31 - 31"
  shows "\<exists>r h' s'. malloc os base n h s = Some (Ret (r, h'), s') \<and> brk (kst s) \<le> brk (kst s') \<and> payload_same L (hmem h) (hmem h') \<and>
    (if r = 0 then \<exists>k. 0 < k \<and> k < 2 ^ 31 \<and> calls s' = calls s @ [CSbrk k] \<and> fst (fst (os (CSbrk k) (kst s))) = - 1 else L r = None) \<and>
    umalloc_inv base h' (if r = 0 then L else L(r \<mapsto> n)) (brk (kst s'))"
proof -
  let ?h = "malloc_init base h" and ?al = "held_blocks L"
  obtain fl where ok: "heap_ok base (hmem ?h) fl ?al (brk (kst s))" and f: "freep ?h \<in> set (base # fl)"
    using inv by (auto simp: umalloc_inv_def)
  note nn = nunits [OF n]
  from malloc_loop_ok [OF sb ok f nn(2,1) b0] obtain r h' s' fl' where
    run: "malloc os base n h s = Some (Ret (r, h'), s')" and s': "brk (kst s) \<le> brk (kst s')" "freep h' \<in> set (base # fl')"
      "same_in ?al (hmem ?h) (hmem h')"
    and r: "if r = 0 then heap_ok base (hmem h') fl' ?al (brk (kst s')) \<and> (\<exists>k. 0 < k \<and> k < 2 ^ 31 \<and> calls s' = calls s @ [CSbrk k] \<and> fst (fst (os (CSbrk k) (kst s))) = - 1)
     else r - 16 \<notin> ?al \<and> heap_ok base (hmem h') fl' (insert (r - 16) ?al) (brk (kst s')) \<and> hsize (hmem h') (r - 16) = nunits_of n"
    unfolding malloc_def Let_def by blast
  have held: "hsize (hmem h') (p - 16) = nunits_of k \<and> unat k < 2 ^ 31 - 31 \<and> hmem ?h = hmem h" if "L p = Some k" for p k
  proof -
    have "?h = h" using held_place [OF inv that] by blast
    then show ?thesis using same_in_heap(1) [OF ok s'(3) held_mem [of L p k, OF that]] inv that by (simp add: umalloc_inv_def)
  qed
  have "payload_same L (hmem h) (hmem h')"
  proof (cases "L = Map.empty")
    case False
    then obtain p k where "L p = Some k" by fastforce
    then have "hmem ?h = hmem h" using held by blast
    then show ?thesis using payload_sameI [OF inv map_le_refl] s'(3) by simp
  qed (simp add: payload_same_def)
  moreover have fp: "freep h' \<noteq> 0" using r ring_nonnull [OF _ s'(2) b0] by (auto split: if_splits)
  then have init: "malloc_init base h' = h'" by (simp add: malloc_init_def)
  have "L r = None" if "r \<noteq> 0" using that r held_mem [of L r] by (cases "L r") auto
  moreover have "umalloc_inv base h' (if r = 0 then L else L(r \<mapsto> n)) (brk (kst s'))"
    unfolding umalloc_inv_def init using r s'(2) fp held n by (auto simp: held_insert)
  ultimately show ?thesis using run s'(1) r by auto
qed

lemma free_inv:
  assumes b0: "base \<noteq> 0" and inv: "umalloc_inv base h L b" and L: "L p = Some n"
  shows "\<exists>h'. ufree p h = Some h' \<and> payload_same (L(p := None)) (hmem h) (hmem h') \<and> umalloc_inv base h' (L(p := None)) b"
proof -
  let ?al = "held_blocks (L(p := None))"
  obtain fl where ok: "heap_ok base (hmem h) fl (held_blocks L) b" and f: "freep h \<in> set (base # fl)"
    using held_place [OF inv L] by blast
  have al: "held_blocks L = insert (p - 16) ?al" "p - 16 \<notin> ?al" using held_mem [of L p n, OF L] by (auto simp: held_delete)
  obtain h' fl' where h': "ufree p h = Some h'" "heap_ok base (hmem h') fl' ?al b" "freep h' \<in> set (base # fl')" "same_in ?al (hmem h) (hmem h')"
    using ufree_ok [OF ok [unfolded al(1)] al(2) f] by auto
  have fp: "freep h' \<noteq> 0" using ring_nonnull [OF h'(2,3) b0] .
  have "heap_ok base (hmem h) fl ?al b"
    using ok blocks_subset [OF heap_okD(4) [OF ok], of "set fl \<union> ?al"] unfolding heap_ok_def by (auto simp: held_delete)
  note keep = same_in_heap(1) [OF this h'(4)]
  have "hsize (hmem h') (q - 16) = nunits_of k \<and> unat k < 2 ^ 31 - 31" if "(L(p := None)) q = Some k" for q k
    using keep [OF held_mem [of "L(p := None)" q k, OF that]] inv that unfolding umalloc_inv_def by (auto split: if_splits)
  then have "umalloc_inv base h' (L(p := None)) b"
    unfolding umalloc_inv_def using h'(2,3) fp by (auto simp: malloc_init_def)
  moreover have "payload_same (L(p := None)) (hmem h) (hmem h')"
    by (rule payload_sameI [OF inv _ h'(4)]) (auto simp: map_le_def)
  ultimately show ?thesis using h'(1) by blast
qed

text \<open>The program writes into a block that it holds.\<close>

lemma store_inv:
  assumes inv: "umalloc_inv base h L b" and L: "L p = Some n" and i: "i < unat n"
  shows "umalloc_inv base (h\<lparr>hmem := (hmem h)(p + of_nat i := v)\<rparr>) L b"
proof -
  let ?a = "p + of_nat i" and ?m = "(hmem h)(p + of_nat i := v)"
  obtain fl where ok: "heap_ok base (hmem h) fl (held_blocks L) b" and f: "freep h \<in> set (base # fl)" "malloc_init base h = h"
    using held_place [OF inv L] by blast
  let ?S = "set fl \<union> held_blocks L" and ?q = "p - 16"
  have q: "?q \<in> held_blocks L" using held_mem [of L p n, OF L] .
  note a = payload_byte(2,3) [OF inv L i]
  have out: "\<not> (unat x \<le> unat ?a \<and> unat ?a < unat x + 16)" if "x \<in> insert base ?S" for x
  proof (cases "x = ?q")
    case False
    have "?q \<in> ?S" using q by simp
    then show ?thesis by (rule outside_header [OF ok _ that False]) (use a in simp_all)
  qed (use a in simp)
  have room: "unat x + 16 \<le> 2 ^ 64" if "x \<in> insert base ?S" for x using that heap_ok_apart(4,5) [OF ok] by auto
  have keep: "hptr ?m x = hptr (hmem h) x" "hsize ?m x = hsize (hmem h) x" if "x \<in> insert base ?S" for x
    using out [OF that] by (intro header_cong [OF room [OF that]], auto)+
  note hk = heap_okD [OF ok]
  have "lseg ?m base (base # fl) base" by (rule lseg_keep [OF hk(2)]) (rule keep(1), auto)
  moreover have "blocks (unat base + 16) b ?S (hi ?m)" by (rule iffD1 [OF blocks_cong hk(4)]) (rule hi_cong [symmetric], simp add: keep(2))
  moreover have "gaps ?m (set fl)" by (rule gaps_cong [OF hk(6) order_refl]) (rule hi_cong, simp add: keep(2))
  ultimately have "heap_ok base ?m fl (held_blocks L) b" using hk(1,3,5,7,8) keep(2) [of base] unfolding heap_ok_def by auto
  moreover have "hsize ?m (q - 16) = hsize (hmem h) (q - 16)" if "L q = Some k" for q k
    using keep(2) held_mem [of L q k, OF that] by blast
  moreover have "freep h \<noteq> 0" using inv L by (auto simp: umalloc_inv_def)
  ultimately show ?thesis using inv f unfolding umalloc_inv_def by (auto simp: malloc_init_def)
qed

section \<open>Properties\<close>

text \<open>A program that uses the allocator: it asks for memory, gives blocks back, writes into the blocks that it holds, and makes other
  system calls, which never take memory away. \<open>L\<close> is what it holds.\<close>

inductive heap_run :: "'k os \<Rightarrow> ('k \<Rightarrow> nat) \<Rightarrow> u64 \<Rightarrow> uheap \<Rightarrow> (u64 \<rightharpoonup> u32) \<Rightarrow> 'k ust \<Rightarrow> bool" for os brk base where
  start: "freep h = 0 \<Longrightarrow> unat base + 16 \<le> brk (kst s) \<Longrightarrow> brk (kst s) \<le> 2 ^ 36 \<Longrightarrow> heap_run os brk base h Map.empty s"
| alloc: "heap_run os brk base h L s \<Longrightarrow> unat n < 2 ^ 31 - 31 \<Longrightarrow> malloc os base n h s = Some (Ret (r, h'), s') \<Longrightarrow>
    heap_run os brk base h' (if r = 0 then L else L(r \<mapsto> n)) s'"
| release: "heap_run os brk base h L s \<Longrightarrow> L p = Some n \<Longrightarrow> ufree p h = Some h' \<Longrightarrow> heap_run os brk base h' (L(p := None)) s"
| store: "heap_run os brk base h L s \<Longrightarrow> L p = Some n \<Longrightarrow> i < unat n \<Longrightarrow>
    heap_run os brk base (h\<lparr>hmem := (hmem h)(p + of_nat i := v)\<rparr>) L s"
| other: "heap_run os brk base h L s \<Longrightarrow> brk (kst s) \<le> brk (kst s') \<Longrightarrow> brk (kst s') \<le> 2 ^ 36 \<Longrightarrow> heap_run os brk base h L s'"

lemma heap_run_inv:
  assumes sb: "sbrk_ok os brk" and b0: "base \<noteq> 0"
  shows "heap_run os brk base h L s \<Longrightarrow> umalloc_inv base h L (brk (kst s))"
proof (induction rule: heap_run.induct)
  case (alloc h L s n r h' s')
  then show ?case using malloc_inv [OF sb b0 alloc.IH alloc.hyps(2)] by auto
next
  case (release h L s p n h')
  then show ?case using free_inv [OF b0 release.IH release.hyps(2)] by (auto simp: fun_upd_def)
next
  case (other h L s s')
  then show ?case unfolding umalloc_inv_def using heap_ok_grow by blast
qed (blast intro: init_heap store_inv)+

text \<open>C29. The allocator of the user programs is safe. In every run of a program that uses \<^verbatim>\<open>malloc\<close> for requests below \<open>2^31 - 31\<close> bytes, \<^verbatim>\<open>free\<close> for the blocks
  that it holds, and writes only into these: the blocks that it holds lie in the memory of the process and do not overlap; \<^verbatim>\<open>malloc\<close> returns, with a new block
  or, if \<^verbatim>\<open>sbrk\<close> refused, with null; \<^verbatim>\<open>free\<close> returns; and neither changes a byte of a block that the program still holds.\<close>

theorem umalloc_safe:
  assumes "sbrk_ok os brk" and "base \<noteq> 0" and "heap_run os brk base h L s"
  shows "(\<forall>p n. L p = Some n \<longrightarrow> unat base + 32 \<le> unat p \<and> unat p + unat n \<le> brk (kst s))
    \<and> (\<forall>p q n k. L p = Some n \<longrightarrow> L q = Some k \<longrightarrow> p \<noteq> q \<longrightarrow> unat p + unat n \<le> unat q \<or> unat q + unat k \<le> unat p)
    \<and> (\<forall>n. unat n < 2 ^ 31 - 31 \<longrightarrow> (\<exists>r h' s'. malloc os base n h s = Some (Ret (r, h'), s') \<and> payload_same L (hmem h) (hmem h') \<and>
          (if r = 0 then \<exists>k. 0 < k \<and> k < 2 ^ 31 \<and> calls s' = calls s @ [CSbrk k] \<and> fst (fst (os (CSbrk k) (kst s))) = - 1 else L r = None)))
    \<and> (\<forall>p \<in> dom L. \<exists>h'. ufree p h = Some h' \<and> payload_same (L(p := None)) (hmem h) (hmem h'))"
proof -
  note inv = heap_run_inv [OF assms]
  have "unat base + 32 \<le> unat p \<and> unat p + unat n \<le> brk (kst s)" if "L p = Some n" for p n
  proof -
    have "unat p = unat (p - 16) + 16" "unat p + unat n \<le> hi (hmem h) (p - 16)" "unat base + 16 \<le> unat (p - 16)"
      "hi (hmem h) (p - 16) \<le> brk (kst s)"
      using held_place [OF inv that] by blast+
    then show ?thesis by linarith
  qed
  moreover have "\<exists>r h' s'. malloc os base n h s = Some (Ret (r, h'), s') \<and> payload_same L (hmem h) (hmem h') \<and>
      (if r = 0 then \<exists>k. 0 < k \<and> k < 2 ^ 31 \<and> calls s' = calls s @ [CSbrk k] \<and> fst (fst (os (CSbrk k) (kst s))) = - 1 else L r = None)"
    if "unat n < 2 ^ 31 - 31" for n using malloc_inv [OF assms(1,2) inv that] by blast
  moreover have "\<exists>h'. ufree p h = Some h' \<and> payload_same (L(p := None)) (hmem h) (hmem h')" if "p \<in> dom L" for p
    using that free_inv [OF assms(2) inv] by fastforce
  ultimately show ?thesis using held_apart [OF inv] by blast
qed

text \<open>A kernel that gives memory up to the limit.\<close>

definition mem_os :: "nat os" where
  "mem_os c k = (case c of CSbrk n \<Rightarrow> if 0 < n \<and> k + nat n \<le> 2 ^ 36 then ((int k, []), k + nat n) else ((- 1, []), k) | _ \<Rightarrow> ((0, []), k))"

lemma mem_os_ok: "sbrk_ok mem_os (\<lambda>k. k)"
  by (simp add: sbrk_ok_def mem_os_def)

theorem umalloc_safe_witness:
  "\<exists>r h s h'. malloc mem_os 0x1000 20 \<lparr>hmem = \<lambda>_. 0, freep = 0\<rparr> \<lparr>kst = 0x2000, calls = []\<rparr> = Some (Ret (r, h), s) \<and>
     0x1020 \<le> unat r \<and> ufree r h = Some h'"
proof -
  let ?h = "\<lparr>hmem = \<lambda>_. 0, freep = 0\<rparr>" and ?s = "\<lparr>kst = 0x2000, calls = []\<rparr>"
  have st: "heap_run mem_os (\<lambda>k. k) 0x1000 ?h Map.empty ?s" by (rule heap_run.start) simp_all
  have b0: "(0x1000 :: u64) \<noteq> 0" by simp
  have n: "unat (20 :: u32) < 2 ^ 31 - 31" by simp
  from umalloc_safe [OF mem_os_ok b0 st] n obtain r h s where m: "malloc mem_os 0x1000 20 ?h ?s = Some (Ret (r, h), s)"
    "r = 0 \<Longrightarrow> \<exists>k. 0 < k \<and> k < 2 ^ 31 \<and> fst (fst (mem_os (CSbrk k) (kst ?s))) = - 1" by (metis (no_types, lifting))
  have "r \<noteq> 0" using m(2) by (auto simp: mem_os_def split: if_splits)
  with heap_run.alloc [OF st n m(1)] have "heap_run mem_os (\<lambda>k. k) 0x1000 h [r \<mapsto> 20] s" by simp
  from umalloc_safe [OF mem_os_ok b0 this] have "0x1020 \<le> unat r" "\<exists>h'. ufree r h = Some h'" by auto
  with m(1) show ?thesis by blast
qed

text \<open>For larger requests \<^verbatim>\<open>malloc\<close> is not safe: \<^verbatim>\<open>morecore\<close> passes the number of bytes to \<^verbatim>\<open>sbrk\<close> as an \<^verbatim>\<open>int\<close>. A request for \<open>2^32 - 1\<close> bytes
  in a new process extends the memory by sixteen bytes and returns a block that is said to be long enough.\<close>

theorem malloc_overflow:
  assumes sb: "sbrk_ok os brk" and b0: "base \<noteq> 0" and h: "freep h = 0" and b: "unat base + 16 \<le> brk (kst s)" "brk (kst s) \<le> 2 ^ 31"
    and r: "fst (fst (os (CSbrk 16) (kst s))) \<noteq> - 1"
  shows "\<exists>r h' s'. malloc os base 0xffffffff h s = Some (Ret (r, h'), s') \<and> r \<noteq> 0 \<and> brk (kst s') = brk (kst s) + 16
     \<and> brk (kst s') < unat r + 0xffffffff"
proof -
  let ?n = "0x10000001 :: u32" and ?b = "brk (kst s)" and ?s1 = "ust_after os (CSbrk 16) s"
  let ?h = "malloc_init base h"
  have n: "nunits_of 0xffffffff = ?n" "core_units ?n = ?n" "sint (ucast (units ?n) :: u32) = 16" by (simp_all add: nunits_of_def core_units_def units_def)
  have ok: "heap_ok base (hmem ?h) [] {} ?b" and f: "freep ?h \<in> set [base]"
    using init_ring [OF h, of base ?b] b by simp_all
  have r: "fst (fst (os (CSbrk 16) (kst s))) = int ?b" and b1: "brk (kst ?s1) = ?b + 16"
    using sbrk_cases [OF sb, of 16 "kst s"] r by fastforce+
  have e: "?b + 16 * unat ?n \<le> 2 ^ 36" using b(2) by simp
  obtain h1 fl1 where g: "morecore os ?n ?h s = Some (Ret (freep h1, h1), ?s1)" "freep h1 \<noteq> 0"
    "heap_ok base (hmem h1) fl1 {} (?b + 16 * unat ?n)" "freep h1 \<in> set (base # fl1)" "\<exists>x\<in>set fl1. ?n \<le> hsize (hmem h1) x"
    using morecore_grown [where os = os and n = ?n and s = s, OF ok f b0, unfolded n(2,3), OF r e] by blast
  have "malloc os base 0xffffffff h s = malloc_loop os ?n (freep h1) (hptr (hmem h1) (freep h1)) h1 ?s1"
    unfolding malloc_def Let_def n(1) using search_fails [OF ok f, of ?n os s] g(1,2) by (simp add: ubind_def)
  moreover obtain q h' fl' where "malloc_loop os ?n (freep h1) (hptr (hmem h1) (freep h1)) h1 ?s1 = Some (Ret (q + 16, h'), ?s1)"
    and q: "heap_ok base (hmem h') fl' {q} (?b + 16 * unat ?n)"
    using take_from_ring [OF g(3,4) _ g(5), of os ?s1] by auto
  ultimately show ?thesis using b1 b(2) block_ptr [OF q]
    by (intro exI [of _ "q + 16"] exI [of _ h'] exI [of _ ?s1]) simp
qed

end
