(* ===== verification/Spec2Isabelle.thy ===== *)
theory Spec2Isabelle
  imports UserCopy Spinlock Boot VirtioInv Grep Uprogs ShParse MkfsMount UmallocSafe
begin

text \<open>
  A verification library for the xv6 system of this repository: the kernel (\<^verbatim>\<open>kernel/\<close>), the user programs with their C library
  (\<^verbatim>\<open>user/\<close>) and the program that builds the file system image (\<^verbatim>\<open>mkfs/\<close>).

  \<^bold>\<open>How code becomes definitions.\<close> A C function is a function of the same name over an explicit state; where a HOL constant or another theory has
  the name, the model's name has a prefix (\<open>kpipewrite\<close>, \<open>uprintf\<close>, \<open>mk_balloc\<close>). \<open>Xv6_Prelude\<close> has the C integer types as words
  and the result type: a kernel routine returns a value or ends with \<open>Panic\<close>, \<open>Blocks\<close> (it would sleep or spin in this state) or
  \<open>Undefined\<close> (the C code has no meaning there: a null pointer, an index out of range). \<open>rbind\<close> and \<open>rfold\<close> sequence such routines. Loops are
  recursive functions with a termination proof, or \<open>partial_function (option)\<close> where the code may run for ever. The states
  of the kernel are a chain of extensible records, each adding the variables of one component:
  \<open>kmem\<close> (memory and page free list), \<open>bio\<close> (buffer cache and disk), \<open>fslog\<close>, \<open>ptable\<close> (processes), \<open>fs\<close> (super block and inode table), \<open>kcon\<close> (console and UART),
  \<open>kern\<close> (open files and pipes); \<open>machine\<close> adds the registers of a hart, the disk driver and the interrupt controller.

  \<^bold>\<open>Memory.\<close> \<open>KString\<close>: \<^verbatim>\<open>string.c\<close> over byte memory; \<open>memmove\<close> is correct for overlapping ranges. \<open>Riscv\<close>: the macros of \<^verbatim>\<open>riscv.h\<close> and \<^verbatim>\<open>memlayout.h\<close>.
  \<open>Kalloc\<close>: \<^verbatim>\<open>kalloc.c\<close>, its contract as the locale \<open>page_allocator\<close>; no page is handed out twice. \<open>Vm\<close>: \<^verbatim>\<open>vm.c\<close>; \<open>PageTable\<close>: what \<^verbatim>\<open>walk\<close> and \<^verbatim>\<open>mappages\<close>
  do to the page table that memory represents; \<open>UserCopy\<close>: \<^verbatim>\<open>copyin\<close>, \<^verbatim>\<open>copyout\<close> and \<^verbatim>\<open>copyinstr\<close> against a bytewise reading of user memory;
  \<open>KernCopy\<close>: the same copies where the kernel's side is a variable of the model and not memory.

  \<^bold>\<open>Concurrency.\<close> \<open>Spinlock\<close>: \<^verbatim>\<open>spinlock.c\<close>, whole functions and their single accesses to the lock, from which both the functions and the interleaved system are
  built; mutual exclusion for any number of harts. \<open>Sleeplock\<close>: \<^verbatim>\<open>sleeplock.c\<close>. \<open>Ring\<close>: a locale for ring buffers with wrapping counters, interpreted for the pipe, the
  console, the UART and the disk's used ring. \<open>Pipe\<close>: \<^verbatim>\<open>pipe.c\<close>; under every interleaving readers are given the bytes that lay in the writers' buffers, in order, and when writers and readers
  can be left asleep. Elsewhere a stretch between two sleeps runs as one step: the spin locks that protect it are not in the state.

  \<^bold>\<open>Processes.\<close> \<open>ProcTable\<close> and \<open>ProcLife\<close>: \<^verbatim>\<open>proc.c\<close>; what the scheduler selects and where it then writes, \<^verbatim>\<open>wakeup\<close>, \<^verbatim>\<open>wait\<close>, \<^verbatim>\<open>exit\<close>. \<^verbatim>\<open>swtch\<close> ends
  a stretch. \<open>Hart\<close>, \<open>Trap\<close>, \<open>Boot\<close>: the registers of a hart, \<^verbatim>\<open>trap.c\<close>, \<^verbatim>\<open>plic.c\<close>, \<^verbatim>\<open>start.c\<close> and \<^verbatim>\<open>main.c\<close>. \<open>SysArgs\<close>, \<open>Syscall\<close>, \<open>Sysfile\<close>, \<open>Exec\<close>:
  \<^verbatim>\<open>syscall.c\<close>, \<^verbatim>\<open>sysproc.c\<close>, \<^verbatim>\<open>sysfile.c\<close> and \<^verbatim>\<open>exec.c\<close>.

  \<^bold>\<open>Storage.\<close> \<open>Virtio\<close> and \<open>VirtioInv\<close>: \<^verbatim>\<open>virtio_disk.c\<close> and its descriptor rings with a device that completes requests in any order. \<open>Bio\<close>: \<^verbatim>\<open>bio.c\<close>; to its clients the cache
  is a disk. Its \<open>disk_rw\<close> stands for a whole call of the driver's \<^verbatim>\<open>virtio_disk_rw\<close>: one block is transferred. \<open>Fslog\<close>: \<^verbatim>\<open>log.c\<close>; a transaction is atomic for a crash
  after any number of its disk writes. \<open>Fs\<close> and \<open>FsData\<close>: \<^verbatim>\<open>fs.c\<close>; \<open>FsView\<close>: the contents of a file, and \<^verbatim>\<open>readi\<close> against it. \<open>File\<close>: \<^verbatim>\<open>file.c\<close>. \<open>Fcntl\<close>: the modes of \<^verbatim>\<open>open\<close>. \<open>Mkfs\<close>:
  \<^verbatim>\<open>mkfs.c\<close>; \<open>MkfsImage\<close> and \<open>MkfsBuild\<close>: each of its operations refines an operation on a list of files, and the finished image assigns every block it uses to exactly one place
  of one file; \<open>MkfsMount\<close>: the kernel mounts that image and reads every file back.

  \<^bold>\<open>Terminal.\<close> \<open>Uart\<close>, \<open>KPrintf\<close>, \<open>Console\<close>: \<^verbatim>\<open>uart.c\<close>, \<^verbatim>\<open>printf.c\<close>, \<^verbatim>\<open>console.c\<close>; characters are sent in order, and line editing refines an abstract editor.

  \<^bold>\<open>User programs.\<close> \<open>Usys\<close>: a program is a function over a kernel, which is a parameter that answers the system calls. \<open>Ulib\<close>, \<open>Uprintf\<close>: \<^verbatim>\<open>ulib.c\<close>, \<^verbatim>\<open>printf.c\<close>. \<open>Ustream\<close>:
  what a filter relies on of \<^verbatim>\<open>read\<close>, as a locale, and the kernel's pipe as an interpretation. \<open>Grep\<close>, \<open>Uprogs\<close>, \<open>Sh\<close>, \<open>ShParse\<close>: \<^verbatim>\<open>grep.c\<close>, the small programs and
  \<^verbatim>\<open>sh.c\<close>; the shell's parser inverts the spelling of command trees. \<open>Umalloc\<close>, \<open>UmallocInv\<close>, \<open>UmallocSafe\<close>: \<^verbatim>\<open>umalloc.c\<close>; blocks never overlap and are never changed while they are held.

  \<^bold>\<open>Bounds and fuel.\<close> The two scans of \<^verbatim>\<open>bget\<close> follow at most \<open>NBUF + 1\<close> links, which is the length of its circular list with the head. The shell's parser has fuel
  \<open>4 * n + 6\<close> for a line of \<open>n\<close> characters, and \<open>sh_child_ends\<close> shows that this is always enough. Counters that wrap in C wrap here, with these exceptions, whose overflow is not
  described: \<^verbatim>\<open>noff\<close> of a hart, the reference count of an inode, and the 64-bit accumulator of a process are unbounded integers, and the index of \<^verbatim>\<open>loadseg\<close> is a natural number.

  \<^bold>\<open>What is a parameter.\<close> The answers of devices (UART, interrupt controller, disk registers), link-time addresses, the kernel under a user program and the host under \<^verbatim>\<open>mkfs\<close>.
  The disk device of \<open>VirtioInv\<close> completes every request with status \<open>0\<close>.

  \<^bold>\<open>What is not modelled.\<close> The assembly files (\<^verbatim>\<open>entry.S\<close>, \<^verbatim>\<open>swtch.S\<close>, \<^verbatim>\<open>kernelvec.S\<close>, \<^verbatim>\<open>trampoline.S\<close>, \<^verbatim>\<open>initcode.S\<close>): registers appear as the state at the entry and exit of the C functions.
  \<^verbatim>\<open>ramdisk.c\<close>, which the \<^verbatim>\<open>Makefile\<close> does not link. The declarations of \<^verbatim>\<open>defs.h\<close> and \<^verbatim>\<open>types.h\<close> and the generated system call stubs. The test programs \<^verbatim>\<open>usertests\<close>, \<^verbatim>\<open>grind\<close>,
  \<^verbatim>\<open>forktest\<close>, \<^verbatim>\<open>stressfs\<close> and \<^verbatim>\<open>memsize_test\<close>.
\<close>

end
